(* ===== verification/Go_Prelude.thy ===== *)
theory Go_Prelude
  imports Main "HOL-Library.Word"
begin

text \<open>
  Shared vocabulary of the development.

  \<^item> Go's two ways of failing, a returned \<^verbatim>\<open>error\<close> and a \<^verbatim>\<open>panic\<close>, are the two constructors
    of \<open>go_err\<close>; an operation that can fail has a result in \<open>go_err + 'a\<close>, and \<open>rbind\<close>
    sequences two such operations.
  \<^item> Indexing and slicing return a panic when they leave the slice.  Slices are values here:
    a model never shares a backing array between two slices.
  \<^item> \<^verbatim>\<open>uint64\<close> values are natural numbers below \<open>U64\<close>; \<open>add64\<close> and \<open>sub64\<close> wrap around as the
    machine operations do.
  \<^item> A Go map that the code iterates over is an association list; its order is the order in
    which one \<^verbatim>\<open>range\<close> loop visits it.
\<close>

section \<open>Errors and panics\<close>

type_synonym byte = "8 word"
type_synonym bytes = "8 word list"

datatype go_err = Panic string | Err string

definition rbind :: "'e + 'a \<Rightarrow> ('a \<Rightarrow> 'e + 'b) \<Rightarrow> 'e + 'b" where
  "rbind x f = (case x of Inl e \<Rightarrow> Inl e | Inr a \<Rightarrow> f a)"

text \<open>\<open>panic(err)\<close>: an error value becomes a panic.\<close>

fun panic_on :: "go_err \<Rightarrow> go_err" where
  "panic_on (Panic s) = Panic s"
| "panic_on (Err s) = Panic s"

definition must :: "go_err + 'a \<Rightarrow> go_err + 'a" where
  "must x = (case x of Inl e \<Rightarrow> Inl (panic_on e) | Inr a \<Rightarrow> Inr a)"

definition go_nth :: "'a list \<Rightarrow> nat \<Rightarrow> go_err + 'a" where
  "go_nth xs i = (if i < length xs then Inr (xs ! i) else Inl (Panic ''index out of range''))"

definition go_slice :: "'a list \<Rightarrow> nat \<Rightarrow> nat \<Rightarrow> go_err + 'a list" where
  "go_slice xs lo hi =
     (if lo \<le> hi \<and> hi \<le> length xs then Inr (take (hi - lo) (drop lo xs))
      else Inl (Panic ''slice bounds out of range''))"

text \<open>A loop over a slice whose body may fail.\<close>

fun rfold :: "('a \<Rightarrow> 's \<Rightarrow> 'e + 's) \<Rightarrow> 'a list \<Rightarrow> 's \<Rightarrow> 'e + 's" where
  "rfold f [] s = Inr s"
| "rfold f (x # xs) s = rbind (f x s) (rfold f xs)"

text \<open>\<^verbatim>\<open>v, _ := f()\<close>: a returned error is dropped and the zero value used; a panic is not.\<close>

definition ignore_err :: "'a \<Rightarrow> go_err + 'a \<Rightarrow> go_err + 'a" where
  "ignore_err z x = (case x of Inl (Err _) \<Rightarrow> Inr z | _ \<Rightarrow> x)"

section \<open>Unsigned 64-bit arithmetic\<close>

definition U64 :: nat where
  "U64 = 18446744073709551616"

definition add64 :: "nat \<Rightarrow> nat \<Rightarrow> nat" where
  "add64 a b = (a + b) mod U64"

definition sub64 :: "nat \<Rightarrow> nat \<Rightarrow> nat" where
  "sub64 a b = (a + U64 - b) mod U64"

text \<open>\<^verbatim>\<open>int32\<close> wrap-around of a mathematical integer.\<close>

definition s32 :: "int \<Rightarrow> int" where
  "s32 x = (x + 2147483648) mod 4294967296 - 2147483648"

section \<open>Decimal numbers\<close>

text \<open>\<^verbatim>\<open>%d\<close> of \<^verbatim>\<open>fmt.Sprintf\<close> on a number that is not negative.\<close>

fun itoa :: "nat \<Rightarrow> string" where
  "itoa n = (if n < 10 then [''0123456789'' ! n] else itoa (n div 10) @ [''0123456789'' ! (n mod 10)])"

declare itoa.simps [simp del]

section \<open>Association lists as iterated Go maps\<close>

fun upd_al :: "'k \<Rightarrow> 'v \<Rightarrow> ('k \<times> 'v) list \<Rightarrow> ('k \<times> 'v) list" where
  "upd_al k v [] = [(k, v)]"
| "upd_al k v ((k', v') # xs) = (if k = k' then (k, v) # xs else (k', v') # upd_al k v xs)"

definition del_al :: "'k \<Rightarrow> ('k \<times> 'v) list \<Rightarrow> ('k \<times> 'v) list" where
  "del_al k xs = filter (\<lambda>(k', _). k' \<noteq> k) xs"

section \<open>Lemmas\<close>

named_theorems res_simps \<open>facts about results of fallible operations\<close>

lemma rbind_Inl [simp]: "rbind (Inl e) f = Inl e"
  by (simp add: rbind_def)

lemma rbind_Inr [simp]: "rbind (Inr a) f = f a"
  by (simp add: rbind_def)

lemma rbind_eq_Inr [res_simps]: "rbind x f = Inr b \<longleftrightarrow> (\<exists>a. x = Inr a \<and> f a = Inr b)"
  by (cases x) auto

lemma rbind_cong [fundef_cong]:
  "x = y \<Longrightarrow> (\<And>a. y = Inr a \<Longrightarrow> f a = g a) \<Longrightarrow> rbind x f = rbind y g"
  by (cases y) auto

lemma must_simps [simp]: "must (Inr a) = Inr a" "must (Inl e) = Inl (panic_on e)"
  by (auto simp: must_def)

lemma must_eq_Inr [res_simps]: "must x = Inr a \<longleftrightarrow> x = Inr a"
  by (cases x) auto

lemma go_nth_in [simp]: "i < length xs \<Longrightarrow> go_nth xs i = Inr (xs ! i)"
  by (simp add: go_nth_def)

lemma go_nth_eq_Inr [res_simps]: "go_nth xs i = Inr x \<longleftrightarrow> i < length xs \<and> x = xs ! i"
  by (auto simp: go_nth_def)

lemma go_slice_in [simp]:
  "lo \<le> hi \<Longrightarrow> hi \<le> length xs \<Longrightarrow> go_slice xs lo hi = Inr (take (hi - lo) (drop lo xs))"
  by (simp add: go_slice_def)

lemma go_slice_eq_Inr [res_simps]:
  "go_slice xs lo hi = Inr ys \<longleftrightarrow> lo \<le> hi \<and> hi \<le> length xs \<and> ys = take (hi - lo) (drop lo xs)"
  by (auto simp: go_slice_def)

lemma ignore_err_Inr [simp]: "ignore_err z (Inr a) = Inr a"
  by (simp add: ignore_err_def)

lemma rfold_total:
  assumes "I s" and "\<And>x s. x \<in> set xs \<Longrightarrow> I s \<Longrightarrow> \<exists>s'. f x s = Inr s' \<and> I s' \<and> R s s' \<and> P x s'"
    and refl: "\<And>s. R s s" and trans: "\<And>a b c. R a b \<Longrightarrow> R b c \<Longrightarrow> R a c"
    and mono: "\<And>x a b. P x a \<Longrightarrow> R a b \<Longrightarrow> P x b"
  shows "\<exists>s'. rfold f xs s = Inr s' \<and> I s' \<and> R s s' \<and> (\<forall>x \<in> set xs. P x s')"
  using assms(1,2)
proof (induction xs arbitrary: s)
  case Nil
  then show ?case by (simp add: refl)
next
  case (Cons x xs)
  from Cons.prems obtain s1 where s1: "f x s = Inr s1" "I s1" "R s s1" "P x s1" by force
  from Cons.IH [OF s1(2)] Cons.prems(2)
  obtain s2 where s2: "rfold f xs s1 = Inr s2" "I s2" "R s1 s2" "\<forall>x \<in> set xs. P x s2" by force
  show ?case using s1 s2 trans [OF s1(3) s2(3)] mono [OF s1(4) s2(3)] by auto
qed

lemma rfold_invariant:
  "rfold f xs s = Inr s' \<Longrightarrow> P s \<Longrightarrow> (\<And>x s s'. x \<in> set xs \<Longrightarrow> f x s = Inr s' \<Longrightarrow> P s \<Longrightarrow> P s') \<Longrightarrow> P s'"
  by (induction f xs s rule: rfold.induct) (force simp: rbind_eq_Inr)+

lemma U64_pos [simp]: "0 < U64" "U64 \<noteq> 0" "1 < U64"
  by (simp_all add: U64_def)

lemma add64_small: "a + b < U64 \<Longrightarrow> add64 a b = a + b"
  by (simp add: add64_def)

lemma sub64_small: "b \<le> a \<Longrightarrow> a < U64 \<Longrightarrow> sub64 a b = a - b"
proof -
  assume "b \<le> a" and "a < U64"
  then have "sub64 a b = (a - b + U64) mod U64"
    unfolding sub64_def by (intro arg_cong2 [where f = "(mod)"]) simp_all
  also have "\<dots> = a - b"
    using \<open>a < U64\<close> by simp
  finally show ?thesis .
qed

lemma add64_less [simp]: "add64 a b < U64"
  by (simp add: add64_def)

lemma sub64_less [simp]: "sub64 a b < U64"
  by (simp add: sub64_def)

lemma map_of_upd_al [simp]: "map_of (upd_al k v xs) = (map_of xs)(k \<mapsto> v)"
  by (induction xs) (auto simp: fun_eq_iff)

lemma fst_upd_al [simp]: "fst ` set (upd_al k v xs) = insert k (fst ` set xs)"
  by (induction k v xs rule: upd_al.induct) (auto simp: image_iff)

lemma keys_upd_al:
  "map fst (upd_al k v xs) = (if k \<in> fst ` set xs then map fst xs else map fst xs @ [k])"
  by (induction k v xs rule: upd_al.induct) (auto simp: image_iff)

lemma distinct_upd_al [simp]: "distinct (map fst xs) \<Longrightarrow> distinct (map fst (upd_al k v xs))"
  by (auto simp: keys_upd_al image_iff)

lemma map_of_del_al [simp]: "map_of (del_al k xs) = (map_of xs)(k := None)"
  by (induction xs) (auto simp: del_al_def fun_eq_iff)

lemma distinct_del_al [simp]: "distinct (map fst xs) \<Longrightarrow> distinct (map fst (del_al k xs))"
  by (simp add: del_al_def distinct_map_filter)

end
