(* ===== verification/Raft_Storage.thy ===== *)
theory Raft_Storage
  imports Go_Prelude
begin

text \<open>
  The data types of \<^verbatim>\<open>components/raft/raft/model.go\<close> that the log uses, the \<^verbatim>\<open>Storage\<close> interface
  and its implementation \<^verbatim>\<open>MemoryStorage\<close> (\<^verbatim>\<open>storage.go\<close>).

  A Go interface value is a record of functions, \<open>storage_ops\<close>.  The locale \<open>raft_storage\<close>
  states what the log relies on: a storage holds a contiguous run of entries behind a dummy
  entry.  \<open>MemoryStorage\<close> is proved to satisfy it.
\<close>

section \<open>Data\<close>

datatype entry_type = EntryNormal | EntryConfChange

record entry =
  eTerm :: nat
  eIndex :: nat
  eType :: entry_type
  eData :: bytes

definition zero_entry :: entry where
  "zero_entry = \<lparr>eTerm = 0, eIndex = 0, eType = EntryNormal, eData = []\<rparr>"

record hard_state =
  hsTerm :: nat
  hsVote :: nat
  hsCommitIndex :: nat

definition emptyHardState :: hard_state where
  "emptyHardState = \<lparr>hsTerm = 0, hsVote = 0, hsCommitIndex = 0\<rparr>"

definition isHardStateEqual :: "hard_state \<Rightarrow> hard_state \<Rightarrow> bool" where
  "isHardStateEqual a b \<longleftrightarrow> hsTerm a = hsTerm b \<and> hsVote a = hsVote b
     \<and> hsCommitIndex a = hsCommitIndex b"

definition IsEmptyHardState :: "hard_state \<Rightarrow> bool" where
  "IsEmptyHardState h = isHardStateEqual h emptyHardState"

definition ErrCompacted :: go_err where
  "ErrCompacted = Err ''requested index is unavailable due to compaction''"

definition ErrUnavailable :: go_err where
  "ErrUnavailable = Err ''request entry at index is unavailable''"

section \<open>The Storage interface\<close>

text \<open>\<^verbatim>\<open>ConfState\<close> is its list of node ids.\<close>

record 's storage_ops =
  InitialState :: "'s \<Rightarrow> go_err + (hard_state \<times> nat list)"
  Entries :: "'s \<Rightarrow> nat \<Rightarrow> nat \<Rightarrow> go_err + entry list"
  StTerm :: "'s \<Rightarrow> nat \<Rightarrow> go_err + nat"
  LastIndex :: "'s \<Rightarrow> go_err + nat"
  FirstIndex :: "'s \<Rightarrow> go_err + nat"
  StAppend :: "'s \<Rightarrow> entry list \<Rightarrow> go_err + 's"
  SetHardState :: "'s \<Rightarrow> hard_state \<Rightarrow> go_err + 's"

section \<open>MemoryStorage\<close>

record memory_storage =
  msHardState :: hard_state
  msEntries :: "entry list"

definition NewMemoryStorage :: memory_storage where
  "NewMemoryStorage = \<lparr>msHardState = emptyHardState, msEntries = [zero_entry]\<rparr>"

definition ms_InitialState :: "memory_storage \<Rightarrow> go_err + (hard_state \<times> nat list)" where
  "ms_InitialState m = Inr (msHardState m, [])"

definition ms_lastIndex :: "memory_storage \<Rightarrow> go_err + nat" where
  "ms_lastIndex m =
     rbind (go_nth (msEntries m) 0) (\<lambda>e0.
       Inr (sub64 (add64 (eIndex e0) (length (msEntries m))) 1))"

definition ms_firstIndex :: "memory_storage \<Rightarrow> go_err + nat" where
  "ms_firstIndex m = rbind (go_nth (msEntries m) 0) (\<lambda>e0. Inr (add64 (eIndex e0) 1))"

definition ms_Entries :: "memory_storage \<Rightarrow> nat \<Rightarrow> nat \<Rightarrow> go_err + entry list" where
  "ms_Entries m l r =
     rbind (go_nth (msEntries m) 0) (\<lambda>e0. let offset = eIndex e0 in
       if l \<le> offset then Inl ErrCompacted
       else rbind (ms_lastIndex m) (\<lambda>li.
         if r > add64 li 1 then Inl ErrUnavailable
         else if length (msEntries m) = 1 then Inl ErrUnavailable
         else go_slice (msEntries m) (sub64 l offset) (sub64 r offset)))"

text \<open>\<^verbatim>\<open>int(i-offset)\<close> is negative from 2^63 on; the index then leaves the slice.\<close>

definition ms_Term :: "memory_storage \<Rightarrow> nat \<Rightarrow> go_err + nat" where
  "ms_Term m i =
     rbind (go_nth (msEntries m) 0) (\<lambda>e0. let offset = eIndex e0 in
       if i < offset then Inl ErrCompacted
       else if sub64 i offset < 9223372036854775808 \<and> sub64 i offset \<ge> length (msEntries m) then Inl ErrUnavailable
       else rbind (go_nth (msEntries m) (sub64 i offset)) (\<lambda>e. Inr (eTerm e)))"

definition ms_Append :: "memory_storage \<Rightarrow> entry list \<Rightarrow> go_err + memory_storage" where
  "ms_Append m es =
     (case es of
        [] \<Rightarrow> Inr m
      | e # _ \<Rightarrow>
          rbind (go_nth (msEntries m) 0) (\<lambda>e0. let first = eIndex e; offset = eIndex e0 in
            if first < offset then Inr m
            else rbind (ms_lastIndex m) (\<lambda>li.
              if first > add64 li 1 then Inl ErrUnavailable
              else rbind (go_slice (msEntries m) 0 (sub64 first offset)) (\<lambda>pre.
                Inr (m\<lparr>msEntries := pre @ es\<rparr>)))))"

definition ms_SetHardState :: "memory_storage \<Rightarrow> hard_state \<Rightarrow> go_err + memory_storage" where
  "ms_SetHardState m hs = Inr (m\<lparr>msHardState := hs\<rparr>)"

definition memStorage :: "memory_storage storage_ops" where
  "memStorage =
     \<lparr>InitialState = ms_InitialState, Entries = ms_Entries, StTerm = ms_Term,
      LastIndex = ms_lastIndex, FirstIndex = ms_firstIndex, StAppend = ms_Append,
      SetHardState = ms_SetHardState\<rparr>"

section \<open>What a storage promises\<close>

text \<open>\<open>indexed_from b es\<close>: the entries carry the consecutive indices \<open>b, b + 1, \<dots>\<close>.\<close>

fun indexed_from :: "nat \<Rightarrow> entry list \<Rightarrow> bool" where
  "indexed_from b [] = True"
| "indexed_from b (e # es) = (eIndex e = b \<and> indexed_from (Suc b) es)"

definition terms_pos :: "entry list \<Rightarrow> bool" where
  "terms_pos es = list_all (\<lambda>e. 0 < eTerm e) es"

text \<open>The abstract content of a \<^verbatim>\<open>MemoryStorage\<close>: the index and term of its dummy entry, and the
  entries behind it.\<close>

definition ms_didx :: "memory_storage \<Rightarrow> nat" where
  "ms_didx m = eIndex (hd (msEntries m))"

definition ms_dterm :: "memory_storage \<Rightarrow> nat" where
  "ms_dterm m = eTerm (hd (msEntries m))"

definition ms_log :: "memory_storage \<Rightarrow> entry list" where
  "ms_log m = tl (msEntries m)"

definition ms_inv :: "memory_storage \<Rightarrow> bool" where
  "ms_inv m \<longleftrightarrow> msEntries m \<noteq> [] \<and> indexed_from (Suc (ms_didx m)) (ms_log m)
     \<and> terms_pos (ms_log m) \<and> ms_didx m + length (ms_log m) + 1 < U64"

locale raft_storage =
  fixes S :: "'s storage_ops"
    and didx :: "'s \<Rightarrow> nat" and dterm :: "'s \<Rightarrow> nat" and slog :: "'s \<Rightarrow> entry list"
    and sinv :: "'s \<Rightarrow> bool"
  assumes first_index: "sinv s \<Longrightarrow> FirstIndex S s = Inr (didx s + 1)"
    and last_index: "sinv s \<Longrightarrow> LastIndex S s = Inr (didx s + length (slog s))"
    and term_dummy: "sinv s \<Longrightarrow> StTerm S s (didx s) = Inr (dterm s)"
    and term_in: "sinv s \<Longrightarrow> k < length (slog s) \<Longrightarrow>
      StTerm S s (didx s + 1 + k) = Inr (eTerm (slog s ! k))"
    and entries_in: "sinv s \<Longrightarrow> didx s < lo \<Longrightarrow> lo < hi \<Longrightarrow> hi \<le> didx s + length (slog s) + 1 \<Longrightarrow>
      Entries S s lo hi = Inr (take (hi - lo) (drop (lo - didx s - 1) (slog s)))"
    and append_in: "sinv s \<Longrightarrow> indexed_from b es \<Longrightarrow> terms_pos es \<Longrightarrow> es \<noteq> [] \<Longrightarrow>
      didx s < b \<Longrightarrow> b \<le> didx s + length (slog s) + 1 \<Longrightarrow> b + length es < U64 \<Longrightarrow>
      \<exists>s'. StAppend S s es = Inr s' \<and> sinv s' \<and> didx s' = didx s \<and> dterm s' = dterm s
         \<and> slog s' = take (b - didx s - 1) (slog s) @ es"
    and append_nil: "StAppend S s [] = Inr s"
    and set_hard: "sinv s \<Longrightarrow> \<exists>s'. SetHardState S s hs = Inr s' \<and> sinv s' \<and> didx s' = didx s
         \<and> dterm s' = dterm s \<and> slog s' = slog s"
    and slog_indexed: "sinv s \<Longrightarrow> indexed_from (didx s + 1) (slog s)"
    and slog_terms: "sinv s \<Longrightarrow> terms_pos (slog s)"
    and slog_bound: "sinv s \<Longrightarrow> didx s + length (slog s) + 1 < U64"

section \<open>Lemmas\<close>

named_theorems raft_defs \<open>definitions of the MemoryStorage operations\<close>

lemmas [raft_defs] = ms_InitialState_def ms_lastIndex_def ms_firstIndex_def ms_Entries_def
  ms_Term_def ms_Append_def ms_SetHardState_def

lemma indexed_from_nth: "indexed_from b es \<Longrightarrow> k < length es \<Longrightarrow> eIndex (es ! k) = b + k"
  by (induction b es arbitrary: k rule: indexed_from.induct) (auto simp: nth_Cons split: nat.splits)

lemma indexed_from_append [simp]:
  "indexed_from b (xs @ ys) \<longleftrightarrow> indexed_from b xs \<and> indexed_from (b + length xs) ys"
  by (induction b xs rule: indexed_from.induct) auto

lemma indexed_from_take [simp]: "indexed_from b es \<Longrightarrow> indexed_from b (take n es)"
  by (induction b es arbitrary: n rule: indexed_from.induct) (auto simp: take_Cons split: nat.splits)

lemma indexed_from_drop: "indexed_from b es \<Longrightarrow> n \<le> length es \<Longrightarrow> indexed_from (b + n) (drop n es)"
  by (metis append_take_drop_id indexed_from_append length_take min.absorb2)

lemma terms_pos_simps [simp]:
  "terms_pos []" "terms_pos (e # es) \<longleftrightarrow> 0 < eTerm e \<and> terms_pos es"
  "terms_pos (xs @ ys) \<longleftrightarrow> terms_pos xs \<and> terms_pos ys"
  by (simp_all add: terms_pos_def)

lemma terms_pos_take [simp]: "terms_pos es \<Longrightarrow> terms_pos (take n es)"
  by (auto simp: terms_pos_def list_all_iff dest: in_set_takeD)

lemma terms_pos_drop [simp]: "terms_pos es \<Longrightarrow> terms_pos (drop n es)"
  by (auto simp: terms_pos_def list_all_iff dest: in_set_dropD)

lemma terms_pos_nth: "terms_pos es \<Longrightarrow> k < length es \<Longrightarrow> 0 < eTerm (es ! k)"
  by (auto simp: terms_pos_def list_all_iff)

lemma memStorage_simps [simp]:
  "InitialState memStorage = ms_InitialState" "Entries memStorage = ms_Entries"
  "StTerm memStorage = ms_Term" "LastIndex memStorage = ms_lastIndex"
  "FirstIndex memStorage = ms_firstIndex" "StAppend memStorage = ms_Append"
  "SetHardState memStorage = ms_SetHardState"
  by (simp_all add: memStorage_def)

lemma ms_shape:
  assumes "ms_inv m"
  obtains e0 es where "msEntries m = e0 # es" "ms_didx m = eIndex e0" "ms_dterm m = eTerm e0"
    "ms_log m = es" "indexed_from (Suc (eIndex e0)) es" "terms_pos es" "eIndex e0 + length es + 1 < U64"
proof (cases "msEntries m")
  case Nil
  with assms show thesis by (simp add: ms_inv_def)
next
  case (Cons e0 es)
  with assms show thesis
    by (intro that [of e0 es]) (auto simp: ms_inv_def ms_didx_def ms_dterm_def ms_log_def)
qed

lemma ms_last_index: "ms_inv m \<Longrightarrow> ms_lastIndex m = Inr (ms_didx m + length (ms_log m))"
  by (erule ms_shape) (simp add: ms_lastIndex_def add64_small sub64_small)

lemma ms_first_index: "ms_inv m \<Longrightarrow> ms_firstIndex m = Inr (ms_didx m + 1)"
  by (erule ms_shape) (simp add: ms_firstIndex_def add64_small)

lemma ms_term_dummy: "ms_inv m \<Longrightarrow> ms_Term m (ms_didx m) = Inr (ms_dterm m)"
  by (erule ms_shape) (simp add: ms_Term_def sub64_small)

lemma ms_term_in:
  "ms_inv m \<Longrightarrow> k < length (ms_log m) \<Longrightarrow> ms_Term m (ms_didx m + 1 + k) = Inr (eTerm (ms_log m ! k))"
  by (erule ms_shape) (simp add: ms_Term_def sub64_small)

lemma ms_entries_in:
  assumes "ms_inv m" "ms_didx m < lo" "lo < hi" "hi \<le> ms_didx m + length (ms_log m) + 1"
  shows "ms_Entries m lo hi = Inr (take (hi - lo) (drop (lo - ms_didx m - 1) (ms_log m)))"
  using assms(1)
proof (rule ms_shape)
  fix e0 es
  assume m: "msEntries m = e0 # es" "ms_didx m = eIndex e0" "ms_log m = es"
    and bound: "eIndex e0 + length es + 1 < U64"
  have last: "ms_lastIndex m = Inr (eIndex e0 + length es)"
    using ms_last_index [OF assms(1)] m by simp
  obtain n where lo: "lo = eIndex e0 + Suc n"
    using assms(2) m less_imp_Suc_add by fastforce
  define k where "k = hi - eIndex e0 - 1"
  then have hi: "hi = eIndex e0 + Suc k" and k: "n < k" "k \<le> length es"
    using assms(3,4) lo m by simp_all
  from k have "es \<noteq> []" by auto
  with k m bound show ?thesis
    by (simp add: ms_Entries_def last lo hi add64_small sub64_small)
qed

lemma ms_append_in:
  assumes "ms_inv m" "indexed_from b es" "terms_pos es" "es \<noteq> []"
    "ms_didx m < b" "b \<le> ms_didx m + length (ms_log m) + 1" "b + length es < U64"
  shows "\<exists>m'. ms_Append m es = Inr m' \<and> ms_inv m' \<and> ms_didx m' = ms_didx m
    \<and> ms_dterm m' = ms_dterm m \<and> ms_log m' = take (b - ms_didx m - 1) (ms_log m) @ es"
  using assms(1)
proof (rule ms_shape)
  fix e0 s
  assume m: "msEntries m = e0 # s" "ms_didx m = eIndex e0" "ms_dterm m = eTerm e0" "ms_log m = s"
    and idx: "indexed_from (Suc (eIndex e0)) s" and tp: "terms_pos s"
    and bound: "eIndex e0 + length s + 1 < U64"
  have last: "ms_lastIndex m = Inr (eIndex e0 + length s)"
    using ms_last_index [OF assms(1)] m by simp
  obtain e es' where es: "es = e # es'" and e: "eIndex e = b"
    using assms(2,4) by (cases es) auto
  obtain n where b: "b = eIndex e0 + Suc n" and n: "n \<le> length s"
    using assms(5,6) m less_imp_Suc_add by fastforce
  let ?m = "m\<lparr>msEntries := e0 # take n s @ es\<rparr>"
  have "ms_Append m es = Inr ?m"
    using m bound n by (simp add: ms_Append_def es e last b add64_small sub64_small)
  moreover have "ms_inv ?m"
    using idx tp assms(2,3,7) n b
    by (auto simp: ms_inv_def ms_didx_def ms_log_def min_absorb2)
  ultimately show ?thesis
    using m b by (auto simp: ms_didx_def ms_dterm_def ms_log_def)
qed

interpretation ms: raft_storage memStorage ms_didx ms_dterm ms_log ms_inv
proof unfold_locales
  fix s :: memory_storage and hs
  assume "ms_inv s"
  then show "\<exists>s'. SetHardState memStorage s hs = Inr s' \<and> ms_inv s' \<and> ms_didx s' = ms_didx s
      \<and> ms_dterm s' = ms_dterm s \<and> ms_log s' = ms_log s"
    by (auto simp: ms_SetHardState_def ms_inv_def ms_didx_def ms_dterm_def ms_log_def)
next
  fix s show "StAppend memStorage s [] = Inr s"
    by (simp add: ms_Append_def)
qed (simp_all add: ms_last_index ms_first_index ms_term_dummy ms_term_in [simplified] ms_entries_in
      ms_append_in [simplified], auto simp: ms_inv_def)

lemma NewMemoryStorage_inv [simp]: "ms_inv NewMemoryStorage"
  by (simp add: NewMemoryStorage_def ms_inv_def ms_didx_def ms_log_def zero_entry_def U64_def)

lemma NewMemoryStorage_log [simp]:
  "ms_log NewMemoryStorage = []" "ms_didx NewMemoryStorage = 0" "ms_dterm NewMemoryStorage = 0"
  by (simp_all add: NewMemoryStorage_def ms_didx_def ms_log_def ms_dterm_def zero_entry_def)

end
