(* ===== verification/Raft_Log.thy ===== *)
theory Raft_Log
  imports Raft_Storage
begin

text \<open>
  The replicated log of \<^verbatim>\<open>components/raft/raft/log.go\<close>: the \<^verbatim>\<open>unstable\<close> tail that is not yet in
  the storage, and \<^verbatim>\<open>raftLog\<close> over both.  Every operation takes the storage's operations as an
  argument, as the Go code calls them through the \<^verbatim>\<open>Storage\<close> interface.

  \<open>rl_full\<close> is the abstract log, one list of entries: the stable entries below the unstable
  offset followed by the unstable ones.  The lemmas of the locale \<open>raft_storage\<close> show that each
  operation implements the obvious list operation on it, for every storage that keeps its
  promises; \<open>Raft_Storage.ms\<close> instantiates them for \<^verbatim>\<open>MemoryStorage\<close>.
\<close>

section \<open>The unstable tail\<close>

record unstable =
  uEntries :: "entry list"
  uOffset :: nat

definition u_mustCheckOutOfBounds :: "unstable \<Rightarrow> nat \<Rightarrow> nat \<Rightarrow> go_err + unit" where
  "u_mustCheckOutOfBounds u l r =
     (if l > r then Inl (Panic ''invalid unstable slice'')
      else if l < uOffset u \<or> r > add64 (uOffset u) (length (uEntries u))
      then Inl (Panic ''invalid unstable slice'')
      else Inr ())"

definition u_slice :: "unstable \<Rightarrow> nat \<Rightarrow> nat \<Rightarrow> go_err + entry list" where
  "u_slice u l r =
     rbind (u_mustCheckOutOfBounds u l r) (\<lambda>_.
       go_slice (uEntries u) (sub64 l (uOffset u)) (sub64 r (uOffset u)))"

definition u_truncateAndAppend :: "unstable \<Rightarrow> entry list \<Rightarrow> go_err + unstable" where
  "u_truncateAndAppend u es =
     rbind (go_nth es 0) (\<lambda>e. let after = eIndex e in
       if after = add64 (uOffset u) (length (uEntries u))
       then Inr (u\<lparr>uEntries := uEntries u @ es\<rparr>)
       else if after \<le> uOffset u
       then Inr (u\<lparr>uOffset := after, uEntries := es\<rparr>)
       else rbind (u_slice u (uOffset u) after) (\<lambda>pre. Inr (u\<lparr>uEntries := pre @ es\<rparr>)))"

definition u_maybeLastIndex :: "unstable \<Rightarrow> nat option" where
  "u_maybeLastIndex u =
     (if length (uEntries u) \<noteq> 0 then Some (sub64 (add64 (uOffset u) (length (uEntries u))) 1)
      else None)"

definition u_maybeTerm :: "unstable \<Rightarrow> nat \<Rightarrow> go_err + nat option" where
  "u_maybeTerm u i =
     (if i < uOffset u then Inr None
      else case u_maybeLastIndex u of
        None \<Rightarrow> Inr None
      | Some lasti \<Rightarrow>
          if i > lasti then Inr None
          else rbind (go_nth (uEntries u) (sub64 i (uOffset u))) (\<lambda>e. Inr (Some (eTerm e))))"

definition u_stableTo :: "unstable \<Rightarrow> nat \<Rightarrow> nat \<Rightarrow> go_err + unstable" where
  "u_stableTo u i t =
     rbind (u_maybeTerm u i) (\<lambda>gt.
       case gt of
         None \<Rightarrow> Inr u
       | Some gt \<Rightarrow>
           if t = gt \<and> i \<ge> uOffset u
           then rbind (go_slice (uEntries u) (add64 (sub64 i (uOffset u)) 1) (length (uEntries u)))
                  (\<lambda>rest. Inr (u\<lparr>uEntries := rest, uOffset := add64 i 1\<rparr>))
           else Inr u)"

section \<open>raftLog\<close>

record 's raft_log =
  rlStorage :: 's
  rlUnstable :: unstable
  commitIndex :: nat
  applyIndex :: nat

definition newRaftLog :: "'s storage_ops \<Rightarrow> 's \<Rightarrow> go_err + 's raft_log" where
  "newRaftLog S s =
     rbind (must (FirstIndex S s)) (\<lambda>firstIndex.
     rbind (must (LastIndex S s)) (\<lambda>lastIndex.
       Inr \<lparr>rlStorage = s, rlUnstable = \<lparr>uEntries = [], uOffset = add64 lastIndex 1\<rparr>,
            commitIndex = sub64 firstIndex 1, applyIndex = sub64 firstIndex 1\<rparr>))"

definition rl_stableTo :: "'s raft_log \<Rightarrow> nat \<Rightarrow> nat \<Rightarrow> go_err + 's raft_log" where
  "rl_stableTo r i t = rbind (u_stableTo (rlUnstable r) i t) (\<lambda>u. Inr (r\<lparr>rlUnstable := u\<rparr>))"

definition rl_unstableEntries :: "'s raft_log \<Rightarrow> entry list" where
  "rl_unstableEntries r = uEntries (rlUnstable r)"

definition rl_firstIndex :: "'s storage_ops \<Rightarrow> 's raft_log \<Rightarrow> go_err + nat" where
  "rl_firstIndex S r = must (FirstIndex S (rlStorage r))"

definition rl_lastIndex :: "'s storage_ops \<Rightarrow> 's raft_log \<Rightarrow> go_err + nat" where
  "rl_lastIndex S r =
     (case u_maybeLastIndex (rlUnstable r) of
        Some i \<Rightarrow> Inr i
      | None \<Rightarrow> must (LastIndex S (rlStorage r)))"

definition rl_mustCheckOutOfBounds :: "'s storage_ops \<Rightarrow> 's raft_log \<Rightarrow> nat \<Rightarrow> nat \<Rightarrow> go_err + unit" where
  "rl_mustCheckOutOfBounds S r lo hi =
     (if lo > hi then Inl (Panic ''invalid raft log index'')
      else rbind (rl_firstIndex S r) (\<lambda>fi.
        if lo < fi then Inl (Panic ''invalid raft log index'')
        else rbind (rl_lastIndex S r) (\<lambda>li.
          if hi > add64 li 1 then Inl (Panic ''invalid raft log index'') else Inr ())))"

definition rl_slice :: "'s storage_ops \<Rightarrow> 's raft_log \<Rightarrow> nat \<Rightarrow> nat \<Rightarrow> go_err + entry list" where
  "rl_slice S r lo hi =
     rbind (rl_mustCheckOutOfBounds S r lo hi) (\<lambda>_.
       if lo = hi then Inr []
       else let off = uOffset (rlUnstable r) in
         rbind (if lo < off then must (Entries S (rlStorage r) lo (min off hi)) else Inr [])
           (\<lambda>stable.
         rbind (if hi > off then u_slice (rlUnstable r) (max lo off) hi else Inr [])
           (\<lambda>unst. Inr (stable @ unst))))"

definition rl_nextEntries :: "'s storage_ops \<Rightarrow> 's raft_log \<Rightarrow> go_err + entry list" where
  "rl_nextEntries S r =
     rbind (rl_firstIndex S r) (\<lambda>fi. let off = max (add64 (applyIndex r) 1) fi in
       if add64 (commitIndex r) 1 > off
       then must (rl_slice S r off (add64 (commitIndex r) 1))
       else Inr [])"

definition rl_append :: "'s storage_ops \<Rightarrow> 's raft_log \<Rightarrow> entry list \<Rightarrow> go_err + ('s raft_log \<times> nat)" where
  "rl_append S r es =
     (case es of
        [] \<Rightarrow> rbind (rl_lastIndex S r) (\<lambda>li. Inr (r, li))
      | e # _ \<Rightarrow>
          if sub64 (eIndex e) 1 < commitIndex r
          then Inl (Panic ''entry index less then commit index'')
          else rbind (u_truncateAndAppend (rlUnstable r) es) (\<lambda>u.
            let r' = r\<lparr>rlUnstable := u\<rparr> in
            rbind (rl_lastIndex S r') (\<lambda>li. Inr (r', li))))"

definition rl_term :: "'s storage_ops \<Rightarrow> 's raft_log \<Rightarrow> nat \<Rightarrow> go_err + nat" where
  "rl_term S r i =
     rbind (rl_firstIndex S r) (\<lambda>fi. let dummyIndex = sub64 fi 1 in
       if i < dummyIndex then Inr 0
       else rbind (rl_lastIndex S r) (\<lambda>li.
         if i > li then Inr 0
         else rbind (u_maybeTerm (rlUnstable r) i) (\<lambda>t.
           if t \<noteq> None \<and> t \<noteq> Some 0 then Inr (the t)
           else case StTerm S (rlStorage r) i of
             Inr t' \<Rightarrow> Inr t'
           | Inl e \<Rightarrow> if e = ErrCompacted \<or> e = ErrUnavailable then Inl e else Inl (panic_on e))))"

definition rl_lastTerm :: "'s storage_ops \<Rightarrow> 's raft_log \<Rightarrow> go_err + nat" where
  "rl_lastTerm S r = rbind (rl_lastIndex S r) (\<lambda>li. must (rl_term S r li))"

definition rl_isUpToDate :: "'s storage_ops \<Rightarrow> 's raft_log \<Rightarrow> nat \<Rightarrow> nat \<Rightarrow> go_err + bool" where
  "rl_isUpToDate S r index trm =
     rbind (rl_lastTerm S r) (\<lambda>lt.
     rbind (rl_lastIndex S r) (\<lambda>li. Inr (trm > lt \<or> (trm = lt \<and> index \<ge> li))))"

definition rl_appliedTo :: "'s raft_log \<Rightarrow> nat \<Rightarrow> go_err + 's raft_log" where
  "rl_appliedTo r i =
     (if i = 0 then Inr r
      else if commitIndex r < i \<or> i < applyIndex r then Inl (Panic ''invalid apply index'')
      else Inr (r\<lparr>applyIndex := i\<rparr>))"

definition rl_entries :: "'s storage_ops \<Rightarrow> 's raft_log \<Rightarrow> nat \<Rightarrow> go_err + entry list" where
  "rl_entries S r i =
     rbind (rl_lastIndex S r) (\<lambda>li. if i > li then Inr [] else rl_slice S r i (add64 li 1))"

definition rl_commitTo :: "'s storage_ops \<Rightarrow> 's raft_log \<Rightarrow> nat \<Rightarrow> go_err + 's raft_log" where
  "rl_commitTo S r toCommit =
     (if commitIndex r \<ge> toCommit then Inr r
      else rbind (rl_lastIndex S r) (\<lambda>li.
        if li < toCommit then Inl (Panic ''commit index over last index'')
        else Inr (r\<lparr>commitIndex := toCommit\<rparr>)))"

definition zeroTermOnErrCompacted :: "go_err + nat \<Rightarrow> go_err + nat" where
  "zeroTermOnErrCompacted x =
     (case x of Inr t \<Rightarrow> Inr t
      | Inl e \<Rightarrow> if e = ErrCompacted then Inr 0 else Inl (panic_on e))"

definition rl_maybeCommit :: "'s storage_ops \<Rightarrow> 's raft_log \<Rightarrow> nat \<Rightarrow> nat \<Rightarrow> go_err + ('s raft_log \<times> bool)" where
  "rl_maybeCommit S r maxIndex trm =
     (if maxIndex > commitIndex r
      then rbind (zeroTermOnErrCompacted (rl_term S r maxIndex)) (\<lambda>t.
        if t = trm then rbind (rl_commitTo S r maxIndex) (\<lambda>r'. Inr (r', True))
        else Inr (r, False))
      else Inr (r, False))"

definition rl_matchTerm :: "'s storage_ops \<Rightarrow> 's raft_log \<Rightarrow> nat \<Rightarrow> nat \<Rightarrow> go_err + bool" where
  "rl_matchTerm S r logIndex logTerm =
     (case rl_term S r logIndex of
        Inr t \<Rightarrow> Inr (t = logTerm)
      | Inl (Err _) \<Rightarrow> Inr False
      | Inl (Panic p) \<Rightarrow> Inl (Panic p))"

fun rl_findConflict :: "'s storage_ops \<Rightarrow> 's raft_log \<Rightarrow> entry list \<Rightarrow> go_err + nat" where
  "rl_findConflict S r [] = Inr 0"
| "rl_findConflict S r (ent # es) =
     rbind (rl_matchTerm S r (eIndex ent) (eTerm ent)) (\<lambda>ok.
       if ok then rl_findConflict S r es else Inr (eIndex ent))"

text \<open>\<open>None\<close> is the result \<^verbatim>\<open>(0, false)\<close>, \<open>Some i\<close> is \<^verbatim>\<open>(i, true)\<close>.\<close>

definition rl_maybeAppend :: "'s storage_ops \<Rightarrow> 's raft_log \<Rightarrow> nat \<Rightarrow> nat \<Rightarrow> nat \<Rightarrow> entry list
    \<Rightarrow> go_err + ('s raft_log \<times> nat option)" where
  "rl_maybeAppend S r logIndex logTerm ci es =
     rbind (rl_matchTerm S r logIndex logTerm) (\<lambda>ok.
       if \<not> ok then Inr (r, None)
       else let lastNewI = add64 logIndex (length es) in
         rbind (rl_findConflict S r es) (\<lambda>conflictStart.
         rbind (if conflictStart = 0 then Inr r
                else if conflictStart \<le> commitIndex r
                then Inl (Panic ''conflict before commit index'')
                else let off = add64 logIndex 1 in
                  rbind (go_slice es (sub64 conflictStart off) (length es)) (\<lambda>tail.
                  rbind (rl_append S r tail) (\<lambda>(r', _). Inr r')))
           (\<lambda>r'. rbind (rl_commitTo S r' (min ci lastNewI)) (\<lambda>r''. Inr (r'', Some lastNewI)))))"

section \<open>The abstract log\<close>

definition rl_full :: "('s \<Rightarrow> nat) \<Rightarrow> ('s \<Rightarrow> entry list) \<Rightarrow> 's raft_log \<Rightarrow> entry list" where
  "rl_full didx slog r =
     take (uOffset (rlUnstable r) - didx (rlStorage r) - 1) (slog (rlStorage r))
       @ uEntries (rlUnstable r)"

definition rl_ok :: "('s \<Rightarrow> bool) \<Rightarrow> ('s \<Rightarrow> nat) \<Rightarrow> ('s \<Rightarrow> entry list) \<Rightarrow> 's raft_log \<Rightarrow> bool" where
  "rl_ok sinv didx slog r \<longleftrightarrow>
     (let s = rlStorage r; u = rlUnstable r in
        sinv s \<and> didx s < uOffset u \<and> uOffset u \<le> didx s + length (slog s) + 1
        \<and> indexed_from (uOffset u) (uEntries u) \<and> terms_pos (uEntries u)
        \<and> uOffset u + length (uEntries u) < U64
        \<and> (uEntries u = [] \<longrightarrow> uOffset u = didx s + length (slog s) + 1))"

text \<open>The term the abstract log has at an index: that of the dummy entry, of an entry, or 0.\<close>

definition term_at :: "nat \<Rightarrow> nat \<Rightarrow> entry list \<Rightarrow> nat \<Rightarrow> nat" where
  "term_at d dt es i =
     (if i = d then dt else if d < i \<and> i \<le> d + length es then eTerm (es ! (i - d - 1)) else 0)"

text \<open>The first entry of a message that the log does not hold with the same term.\<close>

fun first_conflict :: "nat \<Rightarrow> nat \<Rightarrow> entry list \<Rightarrow> entry list \<Rightarrow> nat" where
  "first_conflict d dt log [] = 0"
| "first_conflict d dt log (e # es) =
     (if term_at d dt log (eIndex e) = eTerm e then first_conflict d dt log es else eIndex e)"

definition rl_wf :: "('s \<Rightarrow> bool) \<Rightarrow> ('s \<Rightarrow> nat) \<Rightarrow> ('s \<Rightarrow> entry list) \<Rightarrow> 's raft_log \<Rightarrow> bool" where
  "rl_wf sinv didx slog r \<longleftrightarrow> rl_ok sinv didx slog r
     \<and> didx (rlStorage r) \<le> applyIndex r \<and> applyIndex r \<le> commitIndex r
     \<and> commitIndex r \<le> didx (rlStorage r) + length (rl_full didx slog r)"

text \<open>The abstraction and the invariant over \<^verbatim>\<open>MemoryStorage\<close>, and a log with two stable and
  two unstable entries, the first of them committed.\<close>

abbreviation ms_full :: "memory_storage raft_log \<Rightarrow> entry list" where
  "ms_full r \<equiv> rl_full ms_didx ms_log r"

abbreviation ms_ok :: "memory_storage raft_log \<Rightarrow> bool" where
  "ms_ok r \<equiv> rl_ok ms_inv ms_didx ms_log r"

abbreviation ms_d :: "memory_storage raft_log \<Rightarrow> nat" where
  "ms_d r \<equiv> ms_didx (rlStorage r)"

abbreviation ms_term_at :: "memory_storage raft_log \<Rightarrow> nat \<Rightarrow> nat" where
  "ms_term_at r \<equiv> term_at (ms_d r) (ms_dterm (rlStorage r)) (ms_full r)"

definition ent :: "nat \<Rightarrow> nat \<Rightarrow> entry" where
  "ent t i = zero_entry\<lparr>eTerm := t, eIndex := i\<rparr>"

definition sample_log :: "memory_storage raft_log" where
  "sample_log = \<lparr>rlStorage = NewMemoryStorage\<lparr>msEntries := [zero_entry, ent 1 1, ent 1 2]\<rparr>,
     rlUnstable = \<lparr>uEntries = [ent 2 3, ent 2 4], uOffset = 3\<rparr>, commitIndex = 1, applyIndex = 1\<rparr>"

lemmas sample_defs = sample_log_def ent_def zero_entry_def NewMemoryStorage_def rl_ok_def rl_full_def
  ms_inv_def ms_didx_def ms_log_def ms_dterm_def term_at_def U64_def terms_pos_def

section \<open>Lemmas on the unstable tail and on terms\<close>

lemma u_slice_in:
  assumes "uOffset u \<le> l" "l \<le> r" "r \<le> uOffset u + length (uEntries u)"
    "uOffset u + length (uEntries u) < U64"
  shows "u_slice u l r = Inr (take (r - l) (drop (l - uOffset u) (uEntries u)))"
  using assms by (simp add: u_slice_def u_mustCheckOutOfBounds_def add64_small sub64_small)

lemma u_maybeLastIndex_in:
  "uOffset u + length (uEntries u) < U64 \<Longrightarrow>
   u_maybeLastIndex u = (if uEntries u = [] then None else Some (uOffset u + length (uEntries u) - 1))"
  by (cases "uEntries u") (auto simp: u_maybeLastIndex_def add64_small sub64_small)

lemma u_maybeTerm_in:
  "uOffset u + length (uEntries u) < U64 \<Longrightarrow>
   u_maybeTerm u i = Inr (if uOffset u \<le> i \<and> i < uOffset u + length (uEntries u)
     then Some (eTerm (uEntries u ! (i - uOffset u))) else None)"
  by (cases "uEntries u") (auto simp: u_maybeTerm_def u_maybeLastIndex_in sub64_small)

lemma u_truncateAndAppend_in:
  assumes "indexed_from b es" "es \<noteq> []" "b \<le> uOffset u + length (uEntries u)"
    "uOffset u + length (uEntries u) < U64"
  shows "u_truncateAndAppend u es =
    Inr (if b \<le> uOffset u \<and> uEntries u \<noteq> [] \<or> b < uOffset u then u\<lparr>uOffset := b, uEntries := es\<rparr>
         else u\<lparr>uEntries := take (b - uOffset u) (uEntries u) @ es\<rparr>)"
proof -
  obtain e es' where es: "es = e # es'" "eIndex e = b"
    using assms(1,2) by (cases es) auto
  have "u_slice u (uOffset u) b = Inr (take (b - uOffset u) (uEntries u))" if "uOffset u \<le> b"
    using u_slice_in [of u "uOffset u" b] that assms by simp
  with es assms show ?thesis
    by (auto simp: u_truncateAndAppend_def add64_small)
qed

lemma term_at_prefix:
  "take n xs = take n ys \<Longrightarrow> n \<le> length xs \<Longrightarrow> n \<le> length ys \<Longrightarrow> i \<le> d + n \<Longrightarrow>
   term_at d dt xs i = term_at d dt ys i"
proof -
  assume a: "take n xs = take n ys" "n \<le> length xs" "n \<le> length ys" "i \<le> d + n"
  have "xs ! k = ys ! k" if "k < n" for k
    using a(1) that by (metis nth_take)
  with a show ?thesis by (auto simp: term_at_def)
qed

lemma term_at_pos: "0 < term_at d dt log j \<Longrightarrow> d < j \<Longrightarrow> j \<le> d + length log"
  by (auto simp: term_at_def split: if_splits)

lemma matched_run_length:
  assumes "\<forall>j < k. term_at d dt log (i + 1 + j) = eTerm (es ! j)" "terms_pos es" "k \<le> length es"
    "d \<le> i" "i \<le> d + length log"
  shows "i + k \<le> d + length log"
proof (cases k)
  case 0
  with assms show ?thesis by simp
next
  case (Suc j)
  then have "0 < term_at d dt log (i + 1 + j)"
    using assms(1,3) terms_pos_nth [OF assms(2), of j] by simp
  from term_at_pos [OF this] Suc assms(4) show ?thesis by simp
qed

lemma first_conflict_cases:
  assumes "indexed_from b es" "0 < b"
  shows "(first_conflict d dt log es = 0 \<and> (\<forall>k < length es. term_at d dt log (b + k) = eTerm (es ! k)))
    \<or> (\<exists>k < length es. first_conflict d dt log es = b + k
         \<and> (\<forall>j < k. term_at d dt log (b + j) = eTerm (es ! j))
         \<and> term_at d dt log (b + k) \<noteq> eTerm (es ! k))"
  using assms
proof (induction b es rule: indexed_from.induct)
  case (1 b)
  then show ?case by simp
next
  case (2 b e es)
  then have e: "eIndex e = b" and IH: "(first_conflict d dt log es = 0 \<and>
        (\<forall>k < length es. term_at d dt log (Suc b + k) = eTerm (es ! k)))
    \<or> (\<exists>k < length es. first_conflict d dt log es = Suc b + k
         \<and> (\<forall>j < k. term_at d dt log (Suc b + j) = eTerm (es ! j))
         \<and> term_at d dt log (Suc b + k) \<noteq> eTerm (es ! k))"
    by auto
  show ?case
  proof (cases "term_at d dt log b = eTerm e")
    case False
    with e show ?thesis by (intro disjI2 exI [of _ 0]) simp
  next
    case True
    from IH show ?thesis
    proof (elim disjE exE conjE)
      assume "first_conflict d dt log es = 0"
        "\<forall>k < length es. term_at d dt log (Suc b + k) = eTerm (es ! k)"
      with True e show ?thesis
        by (intro disjI1) (auto simp: nth_Cons split: nat.splits)
    next
      fix k
      assume "k < length es" "first_conflict d dt log es = Suc b + k"
        "\<forall>j < k. term_at d dt log (Suc b + j) = eTerm (es ! j)"
        "term_at d dt log (Suc b + k) \<noteq> eTerm (es ! k)"
      with True e show ?thesis
        by (intro disjI2 exI [of _ "Suc k"]) (auto simp: nth_Cons split: nat.splits)
    qed
  qed
qed

lemma u_stableTo_prefix:
  assumes "uEntries u = es @ rest" "es \<noteq> []" "uOffset u + length (uEntries u) < U64"
    "indexed_from (uOffset u) (uEntries u)"
  shows "u_stableTo u (eIndex (last es)) (eTerm (last es))
    = Inr (u\<lparr>uEntries := rest, uOffset := uOffset u + length es\<rparr>)"
proof -
  obtain n where len: "length es = Suc n" using assms(2) by (cases es) auto
  have n: "n < length (uEntries u)" using assms(1) len by simp
  have last: "last es = uEntries u ! n"
    using assms(1,2) len by (simp add: last_conv_nth nth_append)
  have idx: "eIndex (last es) = uOffset u + n"
    using indexed_from_nth [OF assms(4) n] last by simp
  have "u_maybeTerm u (uOffset u + n) = Inr (Some (eTerm (last es)))"
    using assms(3) n last by (simp add: u_maybeTerm_in)
  moreover have "sub64 (uOffset u + n) (uOffset u) = n" "add64 n 1 = length es"
    "add64 (uOffset u + n) 1 = uOffset u + length es"
    using assms(3) n len by (simp_all add: add64_small sub64_small)
  ultimately show ?thesis
    using assms(1) by (simp add: u_stableTo_def idx)
qed

text \<open>The log an accepted append message leaves behind.\<close>

lemma merged_log:
  assumes "d \<le> i" "i \<le> d + length log" "indexed_from (i + 1) es" "terms_pos es"
    "first_conflict d dt log es = c" "c = 0 \<or> com < c"
  defines "new \<equiv> (if c = 0 then log else take (c - d - 1) log @ drop (c - i - 1) es)"
  shows "\<forall>j < length es. term_at d dt new (i + 1 + j) = eTerm (es ! j)"
    and "take (com - d) new = take (com - d) log"
proof -
  have "(\<forall>j < length es. term_at d dt new (i + 1 + j) = eTerm (es ! j)) \<and> take (com - d) new = take (com - d) log"
  proof (cases "c = 0")
    case True
    then show ?thesis
      using first_conflict_cases [OF assms(3), of d dt log] assms(5) by (auto simp: new_def)
  next
    case False
    then obtain k where k: "k < length es" "c = i + 1 + k"
      "\<forall>j < k. term_at d dt log (i + 1 + j) = eTerm (es ! j)"
      using first_conflict_cases [OF assms(3), of d dt log] assms(5) by auto
    have len: "i + k \<le> d + length log"
      using k(1) by (intro matched_run_length [OF k(3) assms(4) _ assms(1,2)]) simp
    have new: "new = take (i + k - d) log @ drop k es"
      using False k by (simp add: new_def)
    have "term_at d dt new (i + 1 + j) = eTerm (es ! j)" if "j < length es" for j
    proof (cases "j < k")
      case True
      then have "term_at d dt new (i + 1 + j) = term_at d dt log (i + 1 + j)"
        using len assms(1) by (intro term_at_prefix [of "i + k - d"]) (auto simp: new)
      then show ?thesis using k(3) True by simp
    next
      case False
      have "new ! (i + j - d) = es ! j"
        using False that len assms(1) by (simp add: new nth_append)
      then show ?thesis
        using False that len assms(1) k(1) by (simp add: term_at_def new)
    qed
    moreover have "take (com - d) new = take (com - d) log"
      using assms(6) False k len assms(1) by (simp add: new)
    ultimately show ?thesis by blast
  qed
  then show "\<forall>j < length es. term_at d dt new (i + 1 + j) = eTerm (es ! j)"
    and "take (com - d) new = take (com - d) log" by blast+
qed

section \<open>The log over any storage that keeps its promises\<close>

context raft_storage
begin

abbreviation ok where "ok r \<equiv> rl_ok sinv didx slog r"
abbreviation full where "full r \<equiv> rl_full didx slog r"
abbreviation d where "d r \<equiv> didx (rlStorage r)"
abbreviation dt where "dt r \<equiv> dterm (rlStorage r)"

lemma okD:
  assumes "ok r"
  shows "sinv (rlStorage r)" "d r < uOffset (rlUnstable r)"
    "uOffset (rlUnstable r) \<le> d r + length (slog (rlStorage r)) + 1"
    "indexed_from (uOffset (rlUnstable r)) (uEntries (rlUnstable r))"
    "terms_pos (uEntries (rlUnstable r))"
    "uOffset (rlUnstable r) + length (uEntries (rlUnstable r)) < U64"
    "uEntries (rlUnstable r) = [] \<Longrightarrow> uOffset (rlUnstable r) = d r + length (slog (rlStorage r)) + 1"
  using assms by (auto simp: rl_ok_def Let_def)

lemma full_length: "ok r \<Longrightarrow>
  d r + length (full r) + 1 = uOffset (rlUnstable r) + length (uEntries (rlUnstable r))"
  using okD(2,3) [of r] by (simp add: rl_full_def)

lemma full_nth:
  assumes "ok r" "d r < i" "i \<le> d r + length (full r)"
  shows "full r ! (i - d r - 1) =
    (if i < uOffset (rlUnstable r) then slog (rlStorage r) ! (i - d r - 1)
     else uEntries (rlUnstable r) ! (i - uOffset (rlUnstable r)))"
proof -
  have "uOffset (rlUnstable r) - d r - 1 \<le> length (slog (rlStorage r))"
    using okD [OF assms(1)] by simp
  then show ?thesis
    using assms(2) okD(2) [OF assms(1)] by (auto simp: rl_full_def nth_append)
qed

lemma full_indexed: "ok r \<Longrightarrow> indexed_from (d r + 1) (full r)"
  using okD [of r] slog_indexed [of "rlStorage r"] by (simp add: rl_full_def)

lemma full_terms: "ok r \<Longrightarrow> terms_pos (full r)"
  using okD [of r] slog_terms [of "rlStorage r"] by (auto simp: rl_full_def)

lemma rl_firstIndex_ok: "ok r \<Longrightarrow> rl_firstIndex S r = Inr (d r + 1)"
  by (simp add: rl_firstIndex_def first_index okD)

lemma rl_lastIndex_ok: "ok r \<Longrightarrow> rl_lastIndex S r = Inr (d r + length (full r))"
  using okD [of r] full_length [of r]
  by (auto simp: rl_lastIndex_def u_maybeLastIndex_in last_index split: if_splits)

lemma rl_term_ok:
  assumes "ok r"
  shows "rl_term S r i = Inr (term_at (d r) (dterm (rlStorage r)) (full r) i)"
proof -
  note [simp] = rl_firstIndex_ok [OF assms] rl_lastIndex_ok [OF assms]
    u_maybeTerm_in [OF okD(6) [OF assms]]
  note facts = okD [OF assms] full_length [OF assms]
  have dU: "d r + 1 < U64" using facts by linarith
  consider "i < d r" | "i > d r + length (full r)" | "i = d r"
    | "d r < i" "i < uOffset (rlUnstable r)" "i \<le> d r + length (full r)"
    | "uOffset (rlUnstable r) \<le> i" "i \<le> d r + length (full r)"
    by linarith
  then show ?thesis
  proof cases
    case 4
    then have "StTerm S (rlStorage r) (d r + 1 + (i - d r - 1))
        = Inr (eTerm (slog (rlStorage r) ! (i - d r - 1)))"
      using facts by (intro term_in) auto
    moreover have "d r + 1 + (i - d r - 1) = i" using 4 by simp
    ultimately show ?thesis
      using 4 dU full_nth [OF assms 4(1,3)] by (simp add: rl_term_def term_at_def sub64_small)
  next
    case 5
    then have "i - uOffset (rlUnstable r) < length (uEntries (rlUnstable r))" using facts by linarith
    then have "0 < eTerm (uEntries (rlUnstable r) ! (i - uOffset (rlUnstable r)))"
      using facts(5) terms_pos_nth by blast
    then show ?thesis
      using 5 dU facts full_nth [OF assms _ 5(2)] by (auto simp: rl_term_def term_at_def sub64_small)
  qed (use dU facts in \<open>auto simp: rl_term_def term_at_def sub64_small term_dummy\<close>)
qed

lemma rl_slice_ok:
  assumes "ok r" "d r < lo" "lo \<le> hi" "hi \<le> d r + length (full r) + 1"
  shows "rl_slice S r lo hi = Inr (take (hi - lo) (drop (lo - d r - 1) (full r)))"
proof (cases "lo = hi")
  case True
  with assms show ?thesis
    using full_length [OF assms(1)] okD(6) [OF assms(1)]
    by (simp add: rl_slice_def rl_mustCheckOutOfBounds_def rl_firstIndex_ok rl_lastIndex_ok add64_small)
next
  case False
  let ?o = "uOffset (rlUnstable r)" and ?s = "slog (rlStorage r)" and ?u = "uEntries (rlUnstable r)"
  note facts = okD [OF assms(1)] full_length [OF assms(1)]
  have chk: "rl_mustCheckOutOfBounds S r lo hi = Inr ()"
    using assms facts
    by (simp add: rl_mustCheckOutOfBounds_def rl_firstIndex_ok rl_lastIndex_ok add64_small)
  have stable: "Entries S (rlStorage r) lo (min ?o hi)
      = Inr (take (min ?o hi - lo) (drop (lo - d r - 1) ?s))" if "lo < ?o"
    using that False assms facts by (intro entries_in) auto
  have unst: "u_slice (rlUnstable r) (max lo ?o) hi = Inr (take (hi - max lo ?o) (drop (max lo ?o - ?o) ?u))"
    if "?o < hi"
    using that False assms facts by (intro u_slice_in) auto
  have parts: "take (hi - lo) (drop (lo - d r - 1) (full r))
      = take (min (hi - lo) (?o - lo)) (drop (lo - d r - 1) ?s)
        @ take (hi - lo - (?o - lo)) (drop (lo - ?o) ?u)"
    unfolding rl_full_def using facts(2,3) assms(2) by (simp add: min_absorb2 drop_take)
  consider "hi \<le> ?o" | "?o \<le> lo" | "lo < ?o" "?o < hi" by linarith
  then show ?thesis
  proof cases
    case 1
    with chk stable False assms(3) show ?thesis
      unfolding parts by (simp add: rl_slice_def min_absorb2)
  next
    case 2
    with chk unst False assms(3) show ?thesis
      unfolding parts by (simp add: rl_slice_def max_absorb1)
  next
    case 3
    with chk stable unst show ?thesis
      unfolding parts by (simp add: rl_slice_def min_def max_def Let_def)
  qed
qed

lemma full_ext [simp]:
  "full (r\<lparr>commitIndex := c\<rparr>) = full r" "full (r\<lparr>applyIndex := a\<rparr>) = full r"
  "ok (r\<lparr>commitIndex := c\<rparr>) = ok r" "ok (r\<lparr>applyIndex := a\<rparr>) = ok r"
  by (simp_all add: rl_full_def rl_ok_def)

lemma rl_append_ok:
  assumes "ok r" "indexed_from b es" "terms_pos es" "es \<noteq> []" "d r < b"
    "b \<le> d r + length (full r) + 1" "commitIndex r < b" "b + length es < U64"
  shows "\<exists>u'. rl_append S r es = Inr (r\<lparr>rlUnstable := u'\<rparr>, b + length es - 1)
    \<and> ok (r\<lparr>rlUnstable := u'\<rparr>)
    \<and> full (r\<lparr>rlUnstable := u'\<rparr>) = take (b - d r - 1) (full r) @ es"
proof -
  let ?u = "rlUnstable r"
  note facts = okD [OF assms(1)] full_length [OF assms(1)]
  obtain e es' where es: "es = e # es'" "eIndex e = b"
    using assms(2,4) by (cases es) auto
  define u' where "u' = (if b \<le> uOffset ?u \<and> uEntries ?u \<noteq> [] \<or> b < uOffset ?u
     then ?u\<lparr>uOffset := b, uEntries := es\<rparr>
     else ?u\<lparr>uEntries := take (b - uOffset ?u) (uEntries ?u) @ es\<rparr>)"
  have ta: "u_truncateAndAppend ?u es = Inr u'"
    using u_truncateAndAppend_in [OF assms(2,4), of ?u] facts assms(6) by (simp add: u'_def)
  have full': "full (r\<lparr>rlUnstable := u'\<rparr>) = take (b - d r - 1) (full r) @ es"
  proof (cases "b \<le> uOffset ?u")
    case True
    then show ?thesis
      using facts(2,3) by (cases "uEntries ?u = []") (auto simp: rl_full_def u'_def min_absorb1)
  next
    case False
    then show ?thesis
      using facts(2,3) by (simp add: rl_full_def u'_def)
  qed
  have idx: "indexed_from (uOffset ?u) (take (b - uOffset ?u) (uEntries ?u) @ es)" if "uOffset ?u \<le> b"
    using that facts assms(2,6) by simp
  have ok': "ok (r\<lparr>rlUnstable := u'\<rparr>)"
    using facts assms(2-8) idx by (auto simp: rl_ok_def u'_def Let_def)
  have "sub64 b 1 = b - 1"
    using assms(5,8) by (intro sub64_small) auto
  then have "rl_append S r es = Inr (r\<lparr>rlUnstable := u'\<rparr>, d r + length (full (r\<lparr>rlUnstable := u'\<rparr>)))"
    using es assms(5,7) ta rl_lastIndex_ok [OF ok'] by (simp add: rl_append_def Let_def)
  then show ?thesis
    using ok' full' assms(5,6) by auto
qed

lemma rl_matchTerm_ok: "ok r \<Longrightarrow> rl_matchTerm S r i t = Inr (term_at (d r) (dt r) (full r) i = t)"
  by (simp add: rl_matchTerm_def rl_term_ok)

lemma rl_findConflict_ok:
  "ok r \<Longrightarrow> rl_findConflict S r es = Inr (first_conflict (d r) (dt r) (full r) es)"
  by (induction es) (simp_all add: rl_matchTerm_ok)

lemma rl_commitTo_ok:
  "ok r \<Longrightarrow> c \<le> d r + length (full r) \<Longrightarrow>
   rl_commitTo S r c = Inr (r\<lparr>commitIndex := max (commitIndex r) c\<rparr>)"
  by (auto simp: rl_commitTo_def rl_lastIndex_ok max_def)

lemma rl_maybeCommit_ok:
  assumes "ok r" "commitIndex r \<le> d r + length (full r)" "0 < t" "d r \<le> commitIndex r"
  shows "rl_maybeCommit S r i t =
    Inr (if commitIndex r < i \<and> term_at (d r) (dt r) (full r) i = t
         then (r\<lparr>commitIndex := i\<rparr>, True) else (r, False))"
proof -
  have "i \<le> d r + length (full r)" if "term_at (d r) (dt r) (full r) i = t" "commitIndex r < i"
    using that assms by (auto simp: term_at_def split: if_splits)
  then show ?thesis
    using assms(1)
    by (auto simp: rl_maybeCommit_def rl_term_ok zeroTermOnErrCompacted_def rl_commitTo_ok max_def)
qed

lemma rl_lastTerm_ok:
  "ok r \<Longrightarrow> rl_lastTerm S r = Inr (term_at (d r) (dt r) (full r) (d r + length (full r)))"
  by (simp add: rl_lastTerm_def rl_lastIndex_ok rl_term_ok)

lemma rl_isUpToDate_ok:
  "ok r \<Longrightarrow> rl_isUpToDate S r i t =
     Inr (let lt = term_at (d r) (dt r) (full r) (d r + length (full r))
          in t > lt \<or> (t = lt \<and> i \<ge> d r + length (full r)))"
  by (simp add: rl_isUpToDate_def rl_lastIndex_ok rl_lastTerm_ok Let_def)

lemma rl_entries_ok:
  assumes "ok r" "d r < i"
  shows "rl_entries S r i = Inr (drop (i - d r - 1) (full r))"
proof (cases "i > d r + length (full r)")
  case True
  with assms show ?thesis by (simp add: rl_entries_def rl_lastIndex_ok)
next
  case False
  have "d r + length (full r) + 1 < U64"
    using full_length [OF assms(1)] okD(6) [OF assms(1)] by simp
  with False assms show ?thesis
    by (simp add: rl_entries_def rl_lastIndex_ok rl_slice_ok add64_small)
qed

lemma rl_nextEntries_ok:
  assumes "ok r" "d r \<le> applyIndex r" "applyIndex r \<le> commitIndex r"
    "commitIndex r \<le> d r + length (full r)"
  shows "rl_nextEntries S r =
    Inr (take (commitIndex r - applyIndex r) (drop (applyIndex r - d r) (full r)))"
proof -
  have "d r + length (full r) + 1 < U64"
    using full_length [OF assms(1)] okD(6) [OF assms(1)] by simp
  with assms show ?thesis
    by (auto simp: rl_nextEntries_def rl_firstIndex_ok rl_slice_ok add64_small max_def)
qed

lemma rl_maybeAppend_reject:
  "ok r \<Longrightarrow> term_at (d r) (dt r) (full r) i \<noteq> t \<Longrightarrow> rl_maybeAppend S r i t ci es = Inr (r, None)"
  by (simp add: rl_maybeAppend_def rl_matchTerm_ok)

lemma rl_maybeAppend_panic:
  assumes "ok r" "term_at (d r) (dt r) (full r) i = t"
    "0 < first_conflict (d r) (dt r) (full r) es" "first_conflict (d r) (dt r) (full r) es \<le> commitIndex r"
  shows "rl_maybeAppend S r i t ci es = Inl (Panic ''conflict before commit index'')"
  using assms by (simp add: rl_maybeAppend_def rl_matchTerm_ok rl_findConflict_ok Let_def)

text \<open>The log after an accepted append message.\<close>

lemma rl_maybeAppend_ok:
  assumes ok: "ok r" and match: "term_at (d r) (dt r) (full r) i = t"
    and i: "d r \<le> i" "i \<le> d r + length (full r)"
    and es: "indexed_from (i + 1) es" "terms_pos es" "i + length es + 1 < U64"
    and cfl: "first_conflict (d r) (dt r) (full r) es = c" "c = 0 \<or> commitIndex r < c"
    and commit: "commitIndex r \<le> d r + length (full r)"
  defines "new \<equiv> (if c = 0 then full r else take (c - d r - 1) (full r) @ drop (c - i - 1) es)"
  shows "\<exists>r'. rl_maybeAppend S r i t ci es = Inr (r', Some (i + length es))
    \<and> ok r' \<and> full r' = new \<and> rlStorage r' = rlStorage r
    \<and> commitIndex r' = max (commitIndex r) (min ci (i + length es))
    \<and> applyIndex r' = applyIndex r \<and> i + length es \<le> d r + length new"
proof (cases "c = 0")
  case True
  have "\<forall>k < length es. term_at (d r) (dt r) (full r) (i + 1 + k) = eTerm (es ! k)"
    using first_conflict_cases [OF es(1), of "d r" "dt r" "full r"] cfl(1) True by auto
  then have len: "i + length es \<le> d r + length (full r)"
    by (rule matched_run_length) (use es(2) i in simp_all)
  have "rl_maybeAppend S r i t ci es
      = Inr (r\<lparr>commitIndex := max (commitIndex r) (min ci (i + length es))\<rparr>, Some (i + length es))"
    using ok match cfl True es(3) len
    by (simp add: rl_maybeAppend_def rl_matchTerm_ok rl_findConflict_ok Let_def add64_small rl_commitTo_ok)
  then show ?thesis
    using ok len True by (auto simp: new_def)
next
  case False
  then obtain k where k: "k < length es" "c = i + 1 + k"
    "\<forall>j < k. term_at (d r) (dt r) (full r) (i + 1 + j) = eTerm (es ! j)"
    using first_conflict_cases [OF es(1), of "d r" "dt r" "full r"] cfl(1) by auto
  have len: "i + k \<le> d r + length (full r)"
    using k(1) by (intro matched_run_length [OF k(3) es(2) _ i]) simp
  obtain u' where u': "rl_append S r (drop k es) = Inr (r\<lparr>rlUnstable := u'\<rparr>, c + length (drop k es) - 1)"
    "ok (r\<lparr>rlUnstable := u'\<rparr>)" "full (r\<lparr>rlUnstable := u'\<rparr>) = take (c - d r - 1) (full r) @ drop k es"
    using rl_append_ok [OF ok, of c "drop k es"] indexed_from_drop [OF es(1), of k] es k i len cfl False
    by auto
  let ?r = "r\<lparr>rlUnstable := u'\<rparr>"
  have new: "full ?r = new"
    using u'(3) k False by (simp add: new_def)
  have newlen: "i + length es = d ?r + length (full ?r)"
    using u'(3) k i len by auto
  have commit': "rl_commitTo S ?r (min ci (i + length es))
      = Inr (?r\<lparr>commitIndex := max (commitIndex r) (min ci (i + length es))\<rparr>)"
    using rl_commitTo_ok [OF u'(2), of "min ci (i + length es)"] newlen by simp
  have slice: "go_slice es (sub64 c (add64 i 1)) (length es) = Inr (drop k es)"
    using k es(3) by (simp add: add64_small sub64_small)
  have lastNew: "add64 i (length es) = i + length es"
    using es(3) by (simp add: add64_small)
  have "rl_maybeAppend S r i t ci es
      = Inr (?r\<lparr>commitIndex := max (commitIndex r) (min ci (i + length es))\<rparr>, Some (i + length es))"
    unfolding rl_maybeAppend_def
    using match cfl False
    by (simp add: rl_matchTerm_ok [OF ok] rl_findConflict_ok [OF ok] slice [unfolded One_nat_def]
        lastNew u'(1) commit' Let_def)
  then show ?thesis
    using u'(2) new newlen by auto
qed

lemma newRaftLog_ok:
  assumes "sinv s"
  shows "\<exists>r. newRaftLog S s = Inr r \<and> ok r \<and> full r = slog s \<and> rlStorage r = s
    \<and> commitIndex r = didx s \<and> applyIndex r = didx s"
  using assms slog_bound [OF assms]
  by (simp add: newRaftLog_def first_index last_index add64_small sub64_small rl_ok_def rl_full_def Let_def)

lemma rl_advance_ok:
  assumes "ok r" "uEntries (rlUnstable r) = es @ rest" "es \<noteq> []"
  shows "\<exists>s' r'. StAppend S (rlStorage r) es = Inr s'
    \<and> rl_stableTo (r\<lparr>rlStorage := s'\<rparr>) (eIndex (last es)) (eTerm (last es)) = Inr r'
    \<and> ok r' \<and> full r' = full r \<and> uEntries (rlUnstable r') = rest \<and> rlStorage r' = s'
    \<and> commitIndex r' = commitIndex r \<and> applyIndex r' = applyIndex r \<and> didx s' = d r"
proof -
  let ?u = "rlUnstable r"
  note facts = okD [OF assms(1)]
  have es: "indexed_from (uOffset ?u) es" "indexed_from (uOffset ?u + length es) rest"
    "terms_pos es" "terms_pos rest" "uOffset ?u + length es + length rest < U64"
    using facts(4-6) assms(2) by simp_all
  obtain s' where s': "StAppend S (rlStorage r) es = Inr s'" "sinv s'" "didx s' = d r"
    "slog s' = take (uOffset ?u - d r - 1) (slog (rlStorage r)) @ es"
    using append_in [OF facts(1) es(1,3) assms(3)] facts es by auto
  have len: "length (slog s') = uOffset ?u - d r - 1 + length es"
    using s'(4) facts(2,3) by simp
  let ?r = "r\<lparr>rlStorage := s', rlUnstable := ?u\<lparr>uEntries := rest, uOffset := uOffset ?u + length es\<rparr>\<rparr>"
  have "rl_stableTo (r\<lparr>rlStorage := s'\<rparr>) (eIndex (last es)) (eTerm (last es)) = Inr ?r"
    using u_stableTo_prefix [OF assms(2,3) facts(6,4)] by (simp add: rl_stableTo_def)
  moreover have "ok ?r"
    using s' es len facts(2) by (auto simp: rl_ok_def Let_def)
  moreover have "full ?r = full r"
    using s' facts(2,3) assms(2) len by (simp add: rl_full_def)
  ultimately show ?thesis
    using s' by auto
qed

text \<open>Entries that became stale between \<^verbatim>\<open>Ready\<close> and \<^verbatim>\<open>Advance\<close> may still be written to the
  storage: the unstable tail hides them.\<close>

lemma rl_stale_append_ok:
  assumes "ok r" "indexed_from b es" "terms_pos es" "es \<noteq> []" "b + length es < U64"
    "uOffset (rlUnstable r) \<le> b" "b \<le> d r + length (slog (rlStorage r)) + 1" "uEntries (rlUnstable r) \<noteq> []"
  shows "\<exists>s'. StAppend S (rlStorage r) es = Inr s' \<and> didx s' = d r \<and> ok (r\<lparr>rlStorage := s'\<rparr>)
    \<and> full (r\<lparr>rlStorage := s'\<rparr>) = full r"
proof -
  let ?u = "rlUnstable r"
  note facts = okD [OF assms(1)]
  obtain s' where s': "StAppend S (rlStorage r) es = Inr s'" "sinv s'" "didx s' = d r"
    "slog s' = take (b - d r - 1) (slog (rlStorage r)) @ es"
    using append_in [OF facts(1) assms(2-4)] facts assms by auto
  have "length (take (b - d r - 1) (slog (rlStorage r))) = b - d r - 1"
    using assms(7) facts by simp
  then have "take (uOffset ?u - d r - 1) (slog s') = take (uOffset ?u - d r - 1) (slog (rlStorage r))"
    using s'(4) assms(6) by (simp add: min_absorb2 min_absorb1)
  moreover have "uOffset ?u \<le> didx s' + length (slog s') + 1"
    using s' assms(6,7) facts(2) by simp
  ultimately show ?thesis
    using s' facts assms(8) by (auto simp: rl_ok_def rl_full_def Let_def)
qed

end

section \<open>Properties of the log over MemoryStorage\<close>

text \<open>C21: \<^verbatim>\<open>raftLog.append\<close> of a contiguous run of entries starting at index \<open>b\<close> above the commit
  index cuts the abstract log before \<open>b\<close>, appends the run, reports its last index, touches
  neither the storage nor the commit and apply indexes, and keeps the log well formed.\<close>

theorem rl_append_refines:
  assumes "ms_ok r" "indexed_from b es" "terms_pos es" "es \<noteq> []" "ms_d r < b"
    "b \<le> ms_d r + length (ms_full r) + 1" "commitIndex r < b" "b + length es < U64"
  shows "\<exists>r'. rl_append memStorage r es = Inr (r', b + length es - 1) \<and> ms_ok r'
    \<and> ms_full r' = take (b - ms_d r - 1) (ms_full r) @ es \<and> rlStorage r' = rlStorage r
    \<and> commitIndex r' = commitIndex r \<and> applyIndex r' = applyIndex r"
  using ms.rl_append_ok [OF assms] by force

theorem rl_append_refines_witness:
  "\<exists>r'. rl_append memStorage sample_log [ent 3 2] = Inr (r', 2) \<and> ms_full r' = [ent 1 1, ent 3 2]"
  using rl_append_refines [of sample_log 2 "[ent 3 2]"] by (simp add: sample_defs) force

text \<open>C22: \<^verbatim>\<open>raftLog.slice\<close> stitches the stable and the unstable part together: inside its bounds
  it returns exactly the entries \<open>lo, ..., hi - 1\<close> of the abstract log, wherever the boundary
  between storage and unstable tail lies.\<close>

theorem rl_slice_refines:
  assumes "ms_ok r" "ms_d r < lo" "lo \<le> hi" "hi \<le> ms_d r + length (ms_full r) + 1"
  shows "rl_slice memStorage r lo hi = Inr (take (hi - lo) (drop (lo - ms_d r - 1) (ms_full r)))"
  using assms by (rule ms.rl_slice_ok)

theorem rl_slice_refines_witness: "rl_slice memStorage sample_log 2 4 = Inr [ent 1 2, ent 2 3]"
  using rl_slice_refines [of sample_log 2 4] by (simp add: sample_defs)

text \<open>C20: \<^verbatim>\<open>raftLog.maybeAppend\<close> accepts a message whose previous entry matches: it keeps the log
  up to the first conflicting entry, takes the message's entries from there, and afterwards
  holds every entry of the message with the message's term.  Nothing at or below the old
  commit index changes, and the commit index becomes the larger of the old one and
  \<^verbatim>\<open>min(leaderCommit, lastNewIndex)\<close>.\<close>

theorem rl_maybeAppend_refines:
  assumes "ms_ok r" "ms_term_at r i = t" "ms_d r \<le> i" "i \<le> ms_d r + length (ms_full r)"
    "indexed_from (i + 1) es" "terms_pos es" "i + length es + 1 < U64"
    "first_conflict (ms_d r) (ms_dterm (rlStorage r)) (ms_full r) es = c" "c = 0 \<or> commitIndex r < c"
    "commitIndex r \<le> ms_d r + length (ms_full r)"
  shows "\<exists>r'. rl_maybeAppend memStorage r i t ci es = Inr (r', Some (i + length es)) \<and> ms_ok r'
    \<and> ms_full r' = (if c = 0 then ms_full r
         else take (c - ms_d r - 1) (ms_full r) @ drop (c - i - 1) es)
    \<and> (\<forall>k < length es. ms_term_at r' (i + 1 + k) = eTerm (es ! k))
    \<and> take (commitIndex r - ms_d r) (ms_full r') = take (commitIndex r - ms_d r) (ms_full r)
    \<and> commitIndex r' = max (commitIndex r) (min ci (i + length es))"
  using ms.rl_maybeAppend_ok [OF assms, of ci] merged_log [OF assms(3-6,8,9)] by auto

theorem rl_maybeAppend_refines_witness:
  "\<exists>r'. rl_maybeAppend memStorage sample_log 2 1 9 [ent 2 3, ent 3 4] = Inr (r', Some 4)
     \<and> ms_full r' = [ent 1 1, ent 1 2, ent 2 3, ent 3 4] \<and> commitIndex r' = 4"
  using rl_maybeAppend_refines [of sample_log 2 1 "[ent 2 3, ent 3 4]" 4 9]
  by (simp add: sample_defs) force

text \<open>\<^verbatim>\<open>raftLog.maybeAppend\<close> refuses a message whose previous entry is missing or has another
  term, and changes nothing; a conflict at or below the commit index is a panic, never an
  overwrite.\<close>

theorem rl_maybeAppend_refuses:
  assumes "ms_ok r"
  shows "(ms_term_at r i \<noteq> t \<longrightarrow> rl_maybeAppend memStorage r i t ci es = Inr (r, None))
    \<and> (let c = first_conflict (ms_d r) (ms_dterm (rlStorage r)) (ms_full r) es in
       ms_term_at r i = t \<and> 0 < c \<and> c \<le> commitIndex r
         \<longrightarrow> rl_maybeAppend memStorage r i t ci es = Inl (Panic ''conflict before commit index''))"
  using ms.rl_maybeAppend_reject [OF assms] ms.rl_maybeAppend_panic [OF assms] by (simp add: Let_def)

theorem rl_maybeAppend_refuses_witness:
  "rl_maybeAppend memStorage sample_log 5 2 9 [] = Inr (sample_log, None)
   \<and> rl_maybeAppend memStorage sample_log 0 0 9 [ent 2 1] = Inl (Panic ''conflict before commit index'')"
  using rl_maybeAppend_refuses [of sample_log 5 2 9 "[]"] rl_maybeAppend_refuses [of sample_log 0 0 9 "[ent 2 1]"]
  by (simp add: sample_defs)

text \<open>C23: moving a persisted prefix of the unstable tail into the storage and calling
  \<^verbatim>\<open>stableTo\<close> with its last entry, as \<^verbatim>\<open>node.onAdvance\<close> does, leaves the abstract log unchanged.\<close>

theorem rl_advance_keeps_log:
  assumes "ms_ok r" "uEntries (rlUnstable r) = es @ rest" "es \<noteq> []"
  shows "\<exists>s' r'. ms_Append (rlStorage r) es = Inr s'
    \<and> rl_stableTo (r\<lparr>rlStorage := s'\<rparr>) (eIndex (last es)) (eTerm (last es)) = Inr r'
    \<and> ms_ok r' \<and> ms_full r' = ms_full r \<and> uEntries (rlUnstable r') = rest"
  using ms.rl_advance_ok [OF assms] by auto

theorem rl_advance_keeps_log_witness:
  "\<exists>s' r'. ms_Append (rlStorage sample_log) [ent 2 3] = Inr s'
    \<and> rl_stableTo (sample_log\<lparr>rlStorage := s'\<rparr>) 3 2 = Inr r'
    \<and> ms_full r' = [ent 1 1, ent 1 2, ent 2 3, ent 2 4]"
  using rl_advance_keeps_log [of sample_log "[ent 2 3]" "[ent 2 4]"] by (simp add: sample_defs) force

end
