(* ===== verification/Raft_Node.thy ===== *)
theory Raft_Node
  imports Raft_Log
begin

text \<open>
  One Raft node: \<^verbatim>\<open>progress.go\<close>, \<^verbatim>\<open>read.go\<close>, \<^verbatim>\<open>raft.go\<close>, \<^verbatim>\<open>follower.go\<close>, \<^verbatim>\<open>candidate.go\<close>,
  \<^verbatim>\<open>leader.go\<close>, \<^verbatim>\<open>ready.go\<close> and the loop of \<^verbatim>\<open>node.go\<close>.

  The state is the record \<open>raft\<close>, field for field; every handler returns the new state or the
  panic it ends in.  The two function-valued fields \<^verbatim>\<open>step\<close> and \<^verbatim>\<open>tick\<close> are enumerations of
  the functions the code stores there.  The random source is the list \<open>rRands\<close> of the values
  it will return.  \<^verbatim>\<open>prs\<close> and \<^verbatim>\<open>votes\<close> are association lists whose order is the order of the
  next \<^verbatim>\<open>range\<close> loop.
\<close>

section \<open>Messages and small types\<close>

datatype message_type = MsgHup | MsgBeat | MsgProp | MsgApp | MsgAppResp | MsgVote | MsgVoteResp
  | MsgHeartbeat | MsgHeartbeatResp | MsgReadIndex | MsgReadIndexResp | MsgPreVote | MsgPreVoteResp

record message =
  mType :: message_type
  mTo :: nat
  mFrom :: nat
  mTerm :: nat
  mLogTerm :: nat
  mLogIndex :: nat
  mEntries :: "entry list"
  mCommitIndex :: nat
  mReject :: bool
  mRejectHint :: nat
  mContext :: bytes

text \<open>\<^verbatim>\<open>Message{Type: t}\<close>: every other field has its zero value.\<close>

definition msg0 :: "message_type \<Rightarrow> message" where
  "msg0 t = \<lparr>mType = t, mTo = 0, mFrom = 0, mTerm = 0, mLogTerm = 0, mLogIndex = 0, mEntries = [],
             mCommitIndex = 0, mReject = False, mRejectHint = 0, mContext = []\<rparr>"

datatype state_type = StateFollower | StateCandidate | StateLeader | StatePreCandidate

datatype campaign_type = campaignPreElection | campaignElection

datatype conf_change_type = ConfChangeAddNode | ConfChangeRemoveNode | ConfChangeUpdateNode

record conf_change =
  ccID :: nat
  ccType :: conf_change_type
  ccNodeID :: nat
  ccContext :: bytes

record soft_state =
  ssLead :: nat
  ssRaftState :: state_type

definition numOfPendingConf :: "entry list \<Rightarrow> nat" where
  "numOfPendingConf es = length (filter (\<lambda>e. eType e = EntryConfChange) es)"

section \<open>Progress of a follower\<close>

datatype progress_state = ProgressStateProbe | ProgressStateReplicate

record progress =
  pMatch :: nat
  pNext :: nat
  pState :: progress_state

definition pr_maybeUpdate :: "progress \<Rightarrow> nat \<Rightarrow> progress \<times> bool" where
  "pr_maybeUpdate pr n =
     (let updated = pMatch pr < n;
          pr1 = (if updated then pr\<lparr>pMatch := n\<rparr> else pr);
          pr2 = (if pNext pr1 < add64 n 1 then pr1\<lparr>pNext := add64 n 1\<rparr> else pr1)
      in (pr2, updated))"

definition pr_mayDecreaseTo :: "progress \<Rightarrow> nat \<Rightarrow> nat \<Rightarrow> progress \<times> bool" where
  "pr_mayDecreaseTo pr logIndex rejectHint =
     (if sub64 (pNext pr) 1 \<noteq> logIndex then (pr, False)
      else let n = min logIndex (add64 rejectHint 1)
           in (pr\<lparr>pNext := (if n < 1 then 1 else n)\<rparr>, True))"

section \<open>Pending reads\<close>

record read_state =
  rsIndex :: nat
  rsRequestCtx :: bytes

record read_index_status =
  risReq :: message
  risIndex :: nat
  risAcks :: "nat list"

record read_only =
  pendingReadIndex :: "bytes \<rightharpoonup> read_index_status"
  readIndexQueue :: "bytes list"

definition newReadOnly :: read_only where
  "newReadOnly = \<lparr>pendingReadIndex = Map.empty, readIndexQueue = []\<rparr>"

definition ro_addRequest :: "read_only \<Rightarrow> bytes \<Rightarrow> nat \<Rightarrow> message \<Rightarrow> read_only \<times> bool" where
  "ro_addRequest ro ctx readIndex m =
     (case pendingReadIndex ro ctx of
        Some _ \<Rightarrow> (ro, False)
      | None \<Rightarrow>
          (ro\<lparr>pendingReadIndex :=
                (pendingReadIndex ro)(ctx \<mapsto> \<lparr>risReq = m, risIndex = readIndex, risAcks = []\<rparr>),
              readIndexQueue := readIndexQueue ro @ [ctx]\<rparr>, True))"

definition ro_recvAck :: "read_only \<Rightarrow> bytes \<Rightarrow> nat \<Rightarrow> read_only \<times> nat list" where
  "ro_recvAck ro ctx from =
     (case pendingReadIndex ro ctx of
        None \<Rightarrow> (ro, [])
      | Some rs \<Rightarrow>
          let acks = List.insert from (risAcks rs)
          in (ro\<lparr>pendingReadIndex := (pendingReadIndex ro)(ctx \<mapsto> rs\<lparr>risAcks := acks\<rparr>)\<rparr>, acks))"

text \<open>The first loop of \<^verbatim>\<open>advance\<close>: the requests up to and including \<open>ctx\<close>, and whether it was
  found.\<close>

fun ro_scan :: "(bytes \<rightharpoonup> read_index_status) \<Rightarrow> bytes \<Rightarrow> bytes list
    \<Rightarrow> go_err + (read_index_status list \<times> bool)" where
  "ro_scan pend ctx [] = Inr ([], False)"
| "ro_scan pend ctx (queued # qs) =
     (case pend queued of
        None \<Rightarrow> Inl (Panic ''cannot find corresponding read state from pending map'')
      | Some rs \<Rightarrow>
          if queued = ctx then Inr ([rs], True)
          else rbind (ro_scan pend ctx qs) (\<lambda>(rss, found). Inr (rs # rss, found)))"

fun ro_delete :: "read_index_status list \<Rightarrow> (bytes \<rightharpoonup> read_index_status)
    \<Rightarrow> go_err + (bytes \<rightharpoonup> read_index_status)" where
  "ro_delete [] pend = Inr pend"
| "ro_delete (rs # rss) pend =
     rbind (go_nth (mEntries (risReq rs)) 0) (\<lambda>e. ro_delete rss (pend(eData e := None)))"

definition ro_advance :: "read_only \<Rightarrow> bytes \<Rightarrow> go_err + (read_only \<times> read_index_status list)" where
  "ro_advance ro ctx =
     rbind (ro_scan (pendingReadIndex ro) ctx (readIndexQueue ro)) (\<lambda>(rss, found).
       if found
       then rbind (ro_delete rss (pendingReadIndex ro)) (\<lambda>pend.
              Inr (ro\<lparr>readIndexQueue := drop (length rss) (readIndexQueue ro),
                      pendingReadIndex := pend\<rparr>, rss))
       else Inr (ro, []))"

section \<open>The raft state\<close>

datatype step_fn = StepFollower | StepCandidate | StepLeader

datatype tick_fn = TickElection | TickHeartbeat

record raft =
  rId :: nat
  rTerm :: nat
  rReadStates :: "read_state list"
  rLog :: "memory_storage raft_log"
  rPrs :: "(nat \<times> progress) list"
  rState :: state_type
  rVotes :: "(nat \<times> bool) list"
  rMsgs :: "message list"
  rLead :: nat
  rPendingConf :: bool
  rReadOnly :: read_only
  rPreVote :: bool
  rTick :: tick_fn
  rStep :: step_fn
  rVote :: nat
  rCheckQuorum :: bool
  rElectionTimeout :: int
  rRandomizedElectionTimeout :: int
  rElectionElapsed :: int
  rHeartbeatTimeout :: int
  rHeartbeatElapsed :: int
  rRands :: "nat list"

abbreviation lastIndexOf :: "raft \<Rightarrow> go_err + nat" where
  "lastIndexOf r \<equiv> rl_lastIndex memStorage (rLog r)"

definition resetRandomizedElectionTimeout :: "raft \<Rightarrow> raft" where
  "resetRandomizedElectionTimeout r =
     (let n = (if rElectionTimeout r \<le> 0 then 1 else rElectionTimeout r);
          x = (case rRands r of [] \<Rightarrow> 0 | v # _ \<Rightarrow> v mod nat n)
      in r\<lparr>rRandomizedElectionTimeout := s32 (n + int x), rRands := tl (rRands r)\<rparr>)"

definition reset :: "raft \<Rightarrow> nat \<Rightarrow> raft" where
  "reset r trm =
     (let r1 = (if rTerm r \<noteq> trm then r\<lparr>rTerm := trm, rVote := 0\<rparr> else r)
      in resetRandomizedElectionTimeout
           (r1\<lparr>rLead := 0, rElectionElapsed := 0, rHeartbeatElapsed := 0, rVotes := [],
               rPendingConf := False\<rparr>))"

definition softState :: "raft \<Rightarrow> soft_state" where
  "softState r = \<lparr>ssLead = rLead r, ssRaftState = rState r\<rparr>"

definition hardState :: "raft \<Rightarrow> hard_state" where
  "hardState r = \<lparr>hsTerm = rTerm r, hsVote = rVote r, hsCommitIndex = commitIndex (rLog r)\<rparr>"

definition send :: "raft \<Rightarrow> message \<Rightarrow> raft" where
  "send r m =
     (let m1 = (if mFrom m = 0 then m\<lparr>mFrom := rId r\<rparr> else m);
          m2 = (if mType m \<noteq> MsgProp \<and> mType m \<noteq> MsgReadIndex then m1\<lparr>mTerm := rTerm r\<rparr> else m1)
      in r\<lparr>rMsgs := rMsgs r @ [m2]\<rparr>)"

definition promotable :: "raft \<Rightarrow> nat \<Rightarrow> bool" where
  "promotable r i \<longleftrightarrow> map_of (rPrs r) i \<noteq> None"

definition quorum :: "raft \<Rightarrow> nat" where
  "quorum r = length (rPrs r) div 2 + 1"

definition poll :: "raft \<Rightarrow> nat \<Rightarrow> bool \<Rightarrow> raft \<times> nat" where
  "poll r i v =
     (let vs = (if map_of (rVotes r) i = None then upd_al i v (rVotes r) else rVotes r)
      in (r\<lparr>rVotes := vs\<rparr>, length (filter snd vs)))"

definition pastElectionTimeout :: "raft \<Rightarrow> bool" where
  "pastElectionTimeout r \<longleftrightarrow> rElectionElapsed r \<ge> rRandomizedElectionTimeout r"

definition becomeFollower :: "raft \<Rightarrow> nat \<Rightarrow> nat \<Rightarrow> raft" where
  "becomeFollower r trm ld =
     (reset r trm)\<lparr>rStep := StepFollower, rTick := TickElection, rLead := ld, rState := StateFollower\<rparr>"

definition becomePreCandidate :: "raft \<Rightarrow> go_err + raft" where
  "becomePreCandidate r =
     (if rState r = StateLeader then Inl (Panic ''invalid transition leader -> pre-candidate'')
      else Inr (r\<lparr>rStep := StepCandidate, rTick := TickElection, rVotes := [],
                  rState := StatePreCandidate\<rparr>))"

definition becomeCandidate :: "raft \<Rightarrow> go_err + raft" where
  "becomeCandidate r =
     (if rState r = StateLeader then Inl (Panic ''invalid transition leader -> candidate'')
      else Inr ((reset (r\<lparr>rStep := StepCandidate\<rparr>) (add64 (rTerm r) 1))
                  \<lparr>rTick := TickElection, rVote := rId r, rState := StateCandidate\<rparr>))"

section \<open>Appending and committing\<close>

definition r_maybeCommit :: "raft \<Rightarrow> go_err + (raft \<times> bool)" where
  "r_maybeCommit r =
     rbind (go_nth (rev (sort (map (pMatch \<circ> snd) (rPrs r)))) (quorum r - 1)) (\<lambda>mid.
     rbind (rl_maybeCommit memStorage (rLog r) mid (rTerm r)) (\<lambda>(l, ok).
       Inr (r\<lparr>rLog := l\<rparr>, ok)))"

fun stamp :: "nat \<Rightarrow> nat \<Rightarrow> entry list \<Rightarrow> entry list" where
  "stamp trm i [] = []"
| "stamp trm i (e # es) = e\<lparr>eTerm := trm, eIndex := i\<rparr> # stamp trm (add64 i 1) es"

definition appendEntry :: "raft \<Rightarrow> entry list \<Rightarrow> go_err + raft" where
  "appendEntry r es =
     rbind (lastIndexOf r) (\<lambda>li.
     rbind (rl_append memStorage (rLog r) (stamp (rTerm r) (add64 li 1) es)) (\<lambda>(l, li').
       case map_of (rPrs r) (rId r) of
         None \<Rightarrow> Inl (Panic ''nil pointer dereference'')
       | Some pr \<Rightarrow>
           rbind (r_maybeCommit (r\<lparr>rLog := l, rPrs := upd_al (rId r) (fst (pr_maybeUpdate pr li')) (rPrs r)\<rparr>))
             (\<lambda>(r', _). Inr r')))"

definition becomeLeader :: "raft \<Rightarrow> go_err + raft" where
  "becomeLeader r =
     (if rState r = StateFollower then Inl (Panic ''invalid transition [follower -> leader]'')
      else let r1 = (reset (r\<lparr>rStep := StepLeader\<rparr>) (rTerm r))
                      \<lparr>rTick := TickHeartbeat, rLead := rId r, rState := StateLeader\<rparr> in
        rbind (lastIndexOf r1) (\<lambda>li.
          appendEntry
            (r1\<lparr>rPrs := map (\<lambda>(i, p). if i = rId r1 then (i, p)
                 else (i, \<lparr>pMatch = 0, pNext = add64 li 1, pState = ProgressStateProbe\<rparr>)) (rPrs r1)\<rparr>)
            [zero_entry]))"

section \<open>Sending\<close>

definition sendHeartbeat :: "raft \<Rightarrow> nat \<Rightarrow> bytes \<Rightarrow> go_err + raft" where
  "sendHeartbeat r i ctx =
     (case map_of (rPrs r) i of
        None \<Rightarrow> Inl (Panic ''nil pointer dereference'')
      | Some pr \<Rightarrow>
          Inr (send r ((msg0 MsgHeartbeat)\<lparr>mTo := i, mCommitIndex := min (commitIndex (rLog r)) (pMatch pr),
                        mContext := ctx\<rparr>)))"

definition broadcastHeartbeatWithCtx :: "raft \<Rightarrow> bytes \<Rightarrow> go_err + raft" where
  "broadcastHeartbeatWithCtx r ctx =
     rfold (\<lambda>i r. if i = rId r then Inr r else sendHeartbeat r i ctx) (map fst (rPrs r)) r"

definition broadcastHeartbeat :: "raft \<Rightarrow> go_err + raft" where
  "broadcastHeartbeat r = broadcastHeartbeatWithCtx r []"

definition sendAppend :: "raft \<Rightarrow> nat \<Rightarrow> go_err + raft" where
  "sendAppend r to =
     (case map_of (rPrs r) to of
        None \<Rightarrow> Inl (Panic ''nil pointer dereference'')
      | Some pr \<Rightarrow>
          rbind (ignore_err 0 (rl_term memStorage (rLog r) (sub64 (pNext pr) 1))) (\<lambda>trm.
          rbind (ignore_err [] (rl_entries memStorage (rLog r) (pNext pr))) (\<lambda>es.
            Inr (send r ((msg0 MsgApp)\<lparr>mTo := to, mLogTerm := trm, mLogIndex := sub64 (pNext pr) 1,
                          mEntries := es, mCommitIndex := commitIndex (rLog r)\<rparr>)))))"

definition broadcastAppend :: "raft \<Rightarrow> go_err + raft" where
  "broadcastAppend r =
     rfold (\<lambda>i r. if i = rId r then Inr r else sendAppend r i) (map fst (rPrs r)) r"

section \<open>Elections\<close>

function campaign :: "raft \<Rightarrow> campaign_type \<Rightarrow> go_err + raft" where
  "campaign r typ =
     rbind (if typ = campaignPreElection then becomePreCandidate r else becomeCandidate r) (\<lambda>r1.
       let trm = (if typ = campaignPreElection then add64 (rTerm r1) 1 else rTerm r1);
           msgType = (if typ = campaignPreElection then MsgPreVote else MsgVote)
       in case poll r1 (rId r1) True of (r2, granted) \<Rightarrow>
         if quorum r2 = granted
         then (if typ = campaignPreElection then campaign r2 campaignElection else becomeLeader r2)
         else rfold (\<lambda>i r.
             if i = rId r then Inr r
             else rbind (rl_lastTerm memStorage (rLog r)) (\<lambda>lt.
                  rbind (lastIndexOf r) (\<lambda>li.
                    Inr (send r ((msg0 msgType)\<lparr>mTerm := trm, mTo := i, mLogTerm := lt,
                                  mLogIndex := li\<rparr>)))))
           (map fst (rPrs r2)) r2)"
  by pat_completeness auto
termination
  by (relation "measure (\<lambda>(_, typ). if typ = campaignPreElection then 1 else 0)") auto

declare campaign.simps [simp del]

section \<open>The handlers of the three roles\<close>

definition handleAppendEntries :: "raft \<Rightarrow> message \<Rightarrow> go_err + raft" where
  "handleAppendEntries r m =
     rbind (rl_maybeAppend memStorage (rLog r) (mLogIndex m) (mLogTerm m) (mCommitIndex m) (mEntries m))
       (\<lambda>(l, res). let r1 = r\<lparr>rLog := l\<rparr> in
         case res of
           Some mLastIndex \<Rightarrow>
             Inr (send r1 ((msg0 MsgAppResp)\<lparr>mTo := mFrom m, mLogIndex := mLastIndex\<rparr>))
         | None \<Rightarrow>
             rbind (lastIndexOf r1) (\<lambda>li.
               Inr (send r1 ((msg0 MsgAppResp)\<lparr>mTo := mFrom m, mLogIndex := mLogIndex m, mReject := True,
                              mRejectHint := li\<rparr>))))"

definition handleHeartbeat :: "raft \<Rightarrow> message \<Rightarrow> go_err + raft" where
  "handleHeartbeat r m =
     rbind (lastIndexOf r) (\<lambda>li.
     rbind (rl_commitTo memStorage (rLog r) (min (mCommitIndex m) li)) (\<lambda>l.
       Inr (send (r\<lparr>rLog := l\<rparr>) ((msg0 MsgHeartbeatResp)\<lparr>mTo := mFrom m, mContext := mContext m\<rparr>))))"

definition stepFollower :: "raft \<Rightarrow> message \<Rightarrow> go_err + raft" where
  "stepFollower r m =
     (case mType m of
        MsgProp \<Rightarrow> if rLead r = 0 then Inr r else Inr (send r (m\<lparr>mTo := rLead r\<rparr>))
      | MsgApp \<Rightarrow> handleAppendEntries (r\<lparr>rElectionElapsed := 0, rLead := mFrom m\<rparr>) m
      | MsgHeartbeat \<Rightarrow> handleHeartbeat (r\<lparr>rElectionElapsed := 0, rLead := mFrom m\<rparr>) m
      | MsgReadIndex \<Rightarrow> if rLead r = 0 then Inr r else Inr (send r (m\<lparr>mTo := rLead r\<rparr>))
      | MsgReadIndexResp \<Rightarrow>
          rbind (go_nth (mEntries m) 0) (\<lambda>e.
            Inr (r\<lparr>rReadStates := rReadStates r @ [\<lparr>rsIndex = mLogIndex m, rsRequestCtx = eData e\<rparr>]\<rparr>))
      | _ \<Rightarrow> Inr r)"

definition stepCandidate :: "raft \<Rightarrow> message \<Rightarrow> go_err + raft" where
  "stepCandidate r m =
     (let voteRespType = (if rState r = StatePreCandidate then MsgPreVoteResp else MsgVoteResp) in
      if mType m = MsgProp then Inr r
      else if mType m = MsgApp then handleAppendEntries (becomeFollower r (rTerm r) (mFrom m)) m
      else if mType m = MsgHeartbeat then handleHeartbeat (becomeFollower r (mTerm m) (mFrom m)) m
      else if mType m = voteRespType
      then (case poll r (mFrom m) (\<not> mReject m) of (r1, granted) \<Rightarrow>
        if quorum r1 = granted
        then (if rState r1 = StatePreCandidate then campaign r1 campaignElection
              else rbind (becomeLeader r1) broadcastAppend)
        else if quorum r1 = length (rVotes r1) - granted then Inr (becomeFollower r1 (rTerm r1) 0)
        else Inr r1)
      else Inr r)"

text \<open>Only the first configuration change of a proposal is kept while none is pending.\<close>

fun mark_conf :: "bool \<Rightarrow> entry list \<Rightarrow> entry list \<times> bool" where
  "mark_conf pc [] = ([], pc)"
| "mark_conf pc (e # es) =
     (if eType e = EntryConfChange
      then (case mark_conf True es of (es', pc') \<Rightarrow> ((if pc then zero_entry else e) # es', pc'))
      else (case mark_conf pc es of (es', pc') \<Rightarrow> (e # es', pc')))"

text \<open>Answering the reads that a quorum has confirmed.\<close>

fun answer_reads :: "read_index_status list \<Rightarrow> raft \<Rightarrow> go_err + raft" where
  "answer_reads [] r = Inr r"
| "answer_reads (rs # rss) r =
     (let req = risReq rs in
      if mFrom req = 0 \<or> mFrom req = rId r
      then rbind (go_nth (mEntries req) 0) (\<lambda>e.
             answer_reads rss
               (r\<lparr>rReadStates := rReadStates r @ [\<lparr>rsIndex = risIndex rs, rsRequestCtx = eData e\<rparr>]\<rparr>))
      else answer_reads rss
             (send r ((msg0 MsgReadIndexResp)\<lparr>mTo := mFrom req, mLogIndex := risIndex rs,
                       mEntries := mEntries req\<rparr>)))"

definition stepLeaderReadIndex :: "raft \<Rightarrow> message \<Rightarrow> go_err + raft" where
  "stepLeaderReadIndex r m =
     (if \<not> promotable r (rId r) then Inr r
      else if length (rPrs r) > 1
      then rbind (zeroTermOnErrCompacted (rl_term memStorage (rLog r) (commitIndex (rLog r)))) (\<lambda>t.
        if t \<noteq> rTerm r then Inr r
        else rbind (go_nth (mEntries m) 0) (\<lambda>e.
          case ro_addRequest (rReadOnly r) (eData e) (commitIndex (rLog r)) m of (ro, added) \<Rightarrow>
            if added then broadcastHeartbeatWithCtx (r\<lparr>rReadOnly := ro\<rparr>) (eData e)
            else Inr (r\<lparr>rReadOnly := ro\<rparr>)))
      else rbind (go_nth (mEntries m) 0) (\<lambda>e.
        Inr (r\<lparr>rReadStates := rReadStates r @
                 [\<lparr>rsIndex = commitIndex (rLog r), rsRequestCtx = eData e\<rparr>]\<rparr>)))"

definition stepLeaderAppResp :: "raft \<Rightarrow> progress \<Rightarrow> message \<Rightarrow> go_err + raft" where
  "stepLeaderAppResp r pr m =
     (if mReject m
      then (case pr_mayDecreaseTo pr (mLogIndex m) (mRejectHint m) of (pr', dec) \<Rightarrow>
        let r1 = r\<lparr>rPrs := upd_al (mFrom m) pr' (rPrs r)\<rparr> in
        if dec then sendAppend r1 (mFrom m) else Inr r1)
      else (case pr_maybeUpdate pr (mLogIndex m) of (pr', updated) \<Rightarrow>
        let r1 = r\<lparr>rPrs := upd_al (mFrom m) pr' (rPrs r)\<rparr> in
        if updated
        then rbind (r_maybeCommit r1) (\<lambda>(r2, committed).
               if committed then broadcastAppend r2 else Inr r2)
        else Inr r1))"

definition stepLeaderHeartbeatResp :: "raft \<Rightarrow> message \<Rightarrow> go_err + raft" where
  "stepLeaderHeartbeatResp r m =
     (if readIndexQueue (rReadOnly r) = [] then Inr r
      else case ro_recvAck (rReadOnly r) (mContext m) (mFrom m) of (ro, acks) \<Rightarrow>
        let r1 = r\<lparr>rReadOnly := ro\<rparr> in
        if length acks < quorum r1 then Inr r1
        else rbind (ro_advance ro (mContext m)) (\<lambda>(ro', rss).
          answer_reads rss (r1\<lparr>rReadOnly := ro'\<rparr>)))"

definition stepLeader :: "raft \<Rightarrow> message \<Rightarrow> go_err + raft" where
  "stepLeader r m =
     (case mType m of
        MsgBeat \<Rightarrow> broadcastHeartbeat r
      | MsgProp \<Rightarrow>
          if mEntries m = [] then Inl (Panic ''propose entries can not be empty'')
          else if \<not> promotable r (rId r) then Inr r
          else (case mark_conf (rPendingConf r) (mEntries m) of (es, pc) \<Rightarrow>
            rbind (appendEntry (r\<lparr>rPendingConf := pc\<rparr>) es) broadcastAppend)
      | MsgReadIndex \<Rightarrow> stepLeaderReadIndex r m
      | _ \<Rightarrow>
          (case map_of (rPrs r) (mFrom m) of
             None \<Rightarrow> Inr r
           | Some pr \<Rightarrow>
               (case mType m of
                  MsgAppResp \<Rightarrow> stepLeaderAppResp r pr m
                | MsgHeartbeatResp \<Rightarrow> stepLeaderHeartbeatResp r m
                | _ \<Rightarrow> Inr r)))"

fun run_step :: "step_fn \<Rightarrow> raft \<Rightarrow> message \<Rightarrow> go_err + raft" where
  "run_step StepFollower = stepFollower"
| "run_step StepCandidate = stepCandidate"
| "run_step StepLeader = stepLeader"

section \<open>Step\<close>

definition stepHup :: "raft \<Rightarrow> go_err + raft" where
  "stepHup r =
     (if rState r = StateLeader then Inr r
      else if \<not> promotable r (rId r) then Inr r
      else rbind (must (rl_slice memStorage (rLog r) (add64 (applyIndex (rLog r)) 1)
                          (add64 (commitIndex (rLog r)) 1))) (\<lambda>es.
        if numOfPendingConf es > 0 then Inr r
        else if rPreVote r then campaign r campaignPreElection
        else campaign r campaignElection))"

definition stepVote :: "raft \<Rightarrow> message \<Rightarrow> go_err + raft" where
  "stepVote r m =
     rbind (rl_isUpToDate memStorage (rLog r) (mLogIndex m) (mLogTerm m)) (\<lambda>upToDate.
       if upToDate \<and> (rVote r = 0 \<or> mTerm m > rTerm r \<or> mFrom m = rVote r)
       then (if mType m = MsgVote
             then Inr (send (r\<lparr>rVote := mFrom m\<rparr>) ((msg0 MsgVoteResp)\<lparr>mTo := mFrom m\<rparr>))
             else Inr (send r ((msg0 MsgPreVoteResp)\<lparr>mTo := mFrom m\<rparr>)))
       else if mType m = MsgVote
       then Inr (send r ((msg0 MsgVoteResp)\<lparr>mTo := mFrom m, mReject := True\<rparr>))
       else Inr (send r ((msg0 MsgPreVoteResp)\<lparr>mTo := mFrom m, mReject := True\<rparr>)))"

text \<open>The second \<^verbatim>\<open>switch\<close> of \<^verbatim>\<open>Step\<close>, on the message's type.\<close>

definition dispatch :: "raft \<Rightarrow> message \<Rightarrow> go_err + raft" where
  "dispatch r m =
     (case mType m of
        MsgHup \<Rightarrow> stepHup r
      | MsgVote \<Rightarrow> stepVote r m
      | MsgPreVote \<Rightarrow> stepVote r m
      | _ \<Rightarrow> run_step (rStep r) r m)"

definition Step :: "raft \<Rightarrow> message \<Rightarrow> go_err + raft" where
  "Step r m =
     (if mTerm m = 0 then dispatch r m
      else if mTerm m > rTerm r
      then let ld = (if mType m = MsgVote \<or> mType m = MsgPreVote then 0 else mFrom m);
               r1 = (if mType m \<noteq> MsgPreVote \<and> (mType m \<noteq> MsgPreVoteResp \<or> mReject m)
                     then becomeFollower r (mTerm m) ld else r)
           in dispatch r1 m
      else if mTerm m < rTerm r
      then (if rCheckQuorum r \<and> (mType m = MsgHeartbeat \<or> mType m = MsgApp)
            then Inr (send r ((msg0 MsgAppResp)\<lparr>mTo := mFrom m\<rparr>)) else Inr r)
      else dispatch r m)"

definition tickElection :: "raft \<Rightarrow> go_err + raft" where
  "tickElection r =
     (let r1 = r\<lparr>rElectionElapsed := s32 (rElectionElapsed r + 1)\<rparr> in
      if promotable r1 (rId r1) \<and> pastElectionTimeout r1
      then Step (r1\<lparr>rElectionElapsed := 0\<rparr>) ((msg0 MsgHup)\<lparr>mFrom := rId r1\<rparr>)
      else Inr r1)"

definition tickHeartbeat :: "raft \<Rightarrow> go_err + raft" where
  "tickHeartbeat r =
     (if rState r \<noteq> StateLeader then Inr r
      else let r1 = r\<lparr>rHeartbeatElapsed := s32 (rHeartbeatElapsed r + 1)\<rparr> in
        if rHeartbeatElapsed r1 \<ge> rHeartbeatTimeout r1
        then Step (r1\<lparr>rHeartbeatElapsed := 0\<rparr>) ((msg0 MsgBeat)\<lparr>mFrom := rId r1\<rparr>)
        else Inr r1)"

fun run_tick :: "tick_fn \<Rightarrow> raft \<Rightarrow> go_err + raft" where
  "run_tick TickElection = tickElection"
| "run_tick TickHeartbeat = tickHeartbeat"

section \<open>Membership\<close>

definition addNode :: "raft \<Rightarrow> nat \<Rightarrow> go_err + raft" where
  "addNode r i =
     (if map_of (rPrs r) i \<noteq> None then Inr r
      else rbind (lastIndexOf r) (\<lambda>li.
        Inr (r\<lparr>rPrs := upd_al i \<lparr>pMatch = 0, pNext = add64 li 1, pState = ProgressStateProbe\<rparr> (rPrs r)\<rparr>)))"

definition removeNode :: "raft \<Rightarrow> nat \<Rightarrow> raft" where
  "removeNode r i =
     (if map_of (rPrs r) i = None then r
      else let r1 = r\<lparr>rPrs := del_al i (rPrs r)\<rparr>
           in if i = rId r1 then becomeFollower r1 (rTerm r1) 0 else r1)"

definition nodes :: "raft \<Rightarrow> nat list" where
  "nodes r = sort (map fst (rPrs r))"

definition applyConfChange :: "raft \<Rightarrow> conf_change \<Rightarrow> go_err + (raft \<times> nat list)" where
  "applyConfChange r cc =
     rbind (if ccNodeID cc \<noteq> 0
            then (case ccType cc of
                    ConfChangeAddNode \<Rightarrow> addNode r (ccNodeID cc)
                  | ConfChangeRemoveNode \<Rightarrow> Inr (removeNode r (ccNodeID cc))
                  | ConfChangeUpdateNode \<Rightarrow> addNode r (ccNodeID cc))
            else Inr r)
       (\<lambda>r1. let r2 = r1\<lparr>rPendingConf := False\<rparr> in Inr (r2, nodes r2))"

section \<open>Start\<close>

record config =
  cID :: nat
  cPeers :: "nat list"
  cStorage :: memory_storage
  cApplied :: nat
  cPreVote :: bool
  cElectionTick :: int
  cHeartbeatTick :: int

definition newRaft :: "config \<Rightarrow> nat list \<Rightarrow> go_err + raft" where
  "newRaft conf rands =
     rbind (must (InitialState memStorage (cStorage conf))) (\<lambda>(hs, cs).
     rbind (newRaftLog memStorage (cStorage conf)) (\<lambda>l0.
       let peers = (if cPeers conf = [] then cs else cPeers conf) in
       rbind (rl_appliedTo l0 (cApplied conf)) (\<lambda>l1.
         let l2 = (if hsCommitIndex hs > commitIndex l1
                   then l1\<lparr>commitIndex := hsCommitIndex hs\<rparr> else l1);
             r = \<lparr>rId = cID conf, rTerm = 0, rReadStates = [], rLog = l2,
                  rPrs = fold (\<lambda>p. upd_al p \<lparr>pMatch = 0, pNext = 1, pState = ProgressStateProbe\<rparr>) peers [],
                  rState = StateFollower, rVotes = [], rMsgs = [], rLead = 0, rPendingConf = False,
                  rReadOnly = newReadOnly, rPreVote = cPreVote conf, rTick = TickElection,
                  rStep = StepFollower, rVote = 0, rCheckQuorum = False,
                  rElectionTimeout = cElectionTick conf, rRandomizedElectionTimeout = 0,
                  rElectionElapsed = 0, rHeartbeatTimeout = cHeartbeatTick conf,
                  rHeartbeatElapsed = 0, rRands = rands\<rparr>
         in Inr (becomeFollower r (if hsTerm hs = 0 then 1 else hsTerm hs) 0))))"

section \<open>Ready and the node loop\<close>

record ready =
  rdSoftState :: "soft_state option"
  rdHardState :: hard_state
  rdReadStates :: "read_state list"
  rdEntries :: "entry list"
  rdCommittedEntries :: "entry list"
  rdMessage :: "message list"

definition newReady :: "raft \<Rightarrow> soft_state \<Rightarrow> hard_state \<Rightarrow> go_err + ready" where
  "newReady r preSoft preHard =
     rbind (rl_nextEntries memStorage (rLog r)) (\<lambda>committed.
       Inr \<lparr>rdSoftState = (if softState r = preSoft then None else Some (softState r)),
            rdHardState = (if isHardStateEqual (hardState r) preHard then emptyHardState
                           else hardState r),
            rdReadStates = rReadStates r,
            rdEntries = rl_unstableEntries (rLog r),
            rdCommittedEntries = committed,
            rdMessage = rMsgs r\<rparr>)"

definition containsUpdates :: "ready \<Rightarrow> bool" where
  "containsUpdates rd \<longleftrightarrow>
     rdSoftState rd \<noteq> None \<or> \<not> IsEmptyHardState (rdHardState rd) \<or> rdEntries rd \<noteq> []
     \<or> rdCommittedEntries rd \<noteq> [] \<or> rdMessage rd \<noteq> [] \<or> rdReadStates rd \<noteq> []"

text \<open>The local variables of \<^verbatim>\<open>Node.run\<close>.  \<open>nAdvancing\<close> says that \<^verbatim>\<open>advanceChan\<close> is not nil: a
  \<^verbatim>\<open>Ready\<close> has been handed out and not yet acknowledged.\<close>

record node =
  nRaft :: raft
  nAdvancing :: bool
  nReady :: "ready option"
  nPrevSoft :: soft_state
  nPrevHard :: hard_state
  nPrevLastUnstable :: "(nat \<times> nat) option"

definition newNode :: "raft \<Rightarrow> node" where
  "newNode r = \<lparr>nRaft = r, nAdvancing = False, nReady = None, nPrevSoft = softState r,
                nPrevHard = emptyHardState, nPrevLastUnstable = None\<rparr>"

definition StartNode :: "config \<Rightarrow> nat list \<Rightarrow> nat list \<Rightarrow> go_err + node" where
  "StartNode conf peers rands =
     rbind (newRaft conf rands) (\<lambda>r0.
     rbind (rfold (\<lambda>p r. addNode r p) peers r0) (\<lambda>r1.
     rbind (lastIndexOf r1) (\<lambda>li.
       Inr (newNode (r1\<lparr>rLog := (rLog r1)\<lparr>commitIndex := li\<rparr>\<rparr>)))))"

text \<open>What \<^verbatim>\<open>select\<close> can pick: a proposal from \<^verbatim>\<open>proc\<close>, a message from \<^verbatim>\<open>recvChan\<close>, a
  configuration change, a tick, handing out a \<^verbatim>\<open>Ready\<close>, its acknowledgement.\<close>

datatype node_event = EvProc message | EvRecv message | EvConf conf_change | EvTick | EvReady | EvAdvance

definition onReady :: "node \<Rightarrow> go_err + node" where
  "onReady n =
     rbind (newReady (nRaft n) (nPrevSoft n) (nPrevHard n)) (\<lambda>rd.
       if nAdvancing n \<or> \<not> containsUpdates rd then Inr n
       else Inr (n\<lparr>nReady := Some rd,
                   nPrevSoft := (case rdSoftState rd of None \<Rightarrow> nPrevSoft n | Some ss \<Rightarrow> ss),
                   nPrevHard := (if IsEmptyHardState (rdHardState rd) then nPrevHard n
                                 else rdHardState rd),
                   nPrevLastUnstable :=
                     (if rdEntries rd = [] then nPrevLastUnstable n
                      else Some (eIndex (last (rdEntries rd)), eTerm (last (rdEntries rd)))),
                   nRaft := (nRaft n)\<lparr>rMsgs := [], rReadStates := []\<rparr>,
                   nAdvancing := True\<rparr>))"

definition onAdvance :: "node \<Rightarrow> go_err + node" where
  "onAdvance n =
     (if \<not> nAdvancing n then Inr n
      else
        let r = nRaft n; l = rLog r; es = (case nReady n of None \<Rightarrow> [] | Some rd \<Rightarrow> rdEntries rd) in
        rbind (if IsEmptyHardState (nPrevHard n) then Inr (rlStorage l)
               else must (SetHardState memStorage (rlStorage l) (nPrevHard n))) (\<lambda>s1.
        let l1 = l\<lparr>rlStorage := s1\<rparr> in
        rbind (if hsCommitIndex (nPrevHard n) \<noteq> 0 then rl_appliedTo l1 (hsCommitIndex (nPrevHard n))
               else Inr l1) (\<lambda>l2.
        rbind (case nPrevLastUnstable n of
                 None \<Rightarrow> Inr l2
               | Some (i, t) \<Rightarrow>
                   rbind (must (StAppend memStorage (rlStorage l2) es)) (\<lambda>s2.
                     rl_stableTo (l2\<lparr>rlStorage := s2\<rparr>) i t)) (\<lambda>l3.
          Inr (n\<lparr>nRaft := r\<lparr>rLog := l3\<rparr>, nPrevLastUnstable := None, nAdvancing := False\<rparr>)))))"

fun node_run :: "node \<Rightarrow> node_event \<Rightarrow> go_err + node" where
  "node_run n (EvProc m) =
     rbind (Step (nRaft n) (m\<lparr>mFrom := rId (nRaft n)\<rparr>)) (\<lambda>r. Inr (n\<lparr>nRaft := r\<rparr>))"
| "node_run n (EvRecv m) = rbind (Step (nRaft n) m) (\<lambda>r. Inr (n\<lparr>nRaft := r\<rparr>))"
| "node_run n (EvConf cc) = rbind (applyConfChange (nRaft n) cc) (\<lambda>(r, _). Inr (n\<lparr>nRaft := r\<rparr>))"
| "node_run n EvTick = rbind (run_tick (rTick (nRaft n)) (nRaft n)) (\<lambda>r. Inr (n\<lparr>nRaft := r\<rparr>))"
| "node_run n EvReady = onReady n"
| "node_run n EvAdvance = onAdvance n"

text \<open>\<^verbatim>\<open>Node.step\<close> puts a proposal on \<^verbatim>\<open>proc\<close> and every other message on \<^verbatim>\<open>recvChan\<close>; the
  other methods of \<^verbatim>\<open>Node\<close> build the message they pass to it.\<close>

definition node_step :: "message \<Rightarrow> node_event" where
  "node_step m = (if mType m = MsgProp then EvProc m else EvRecv m)"

definition api_Campaign :: node_event where
  "api_Campaign = node_step (msg0 MsgHup)"

definition api_Propose :: "bytes \<Rightarrow> node_event" where
  "api_Propose d = node_step ((msg0 MsgProp)\<lparr>mEntries := [zero_entry\<lparr>eData := d\<rparr>]\<rparr>)"

text \<open>The argument is the JSON encoding of the change.\<close>

definition api_ProposeConfChange :: "bytes \<Rightarrow> node_event" where
  "api_ProposeConfChange d =
     node_step ((msg0 MsgProp)\<lparr>mEntries := [zero_entry\<lparr>eType := EntryConfChange, eData := d\<rparr>]\<rparr>)"

definition api_ReadIndex :: "bytes \<Rightarrow> node_event" where
  "api_ReadIndex d = node_step ((msg0 MsgReadIndex)\<lparr>mEntries := [zero_entry\<lparr>eData := d\<rparr>]\<rparr>)"

end
