(* ===== verification/Raft_Election.thy ===== *)
theory Raft_Election
  imports Raft_Node
begin

text \<open>What one call of \<open>Step\<close>, one tick and one iteration of the node loop do to the
  variables an election depends on: the term, the vote, the tally and the role.
  \<open>quiet\<close> is the relation of the handlers that touch none of them; \<open>elect_step\<close> is the
  contract every message handler obeys.\<close>

section \<open>Definitions\<close>

definition grant :: "message \<Rightarrow> bool" where
  "grant m \<longleftrightarrow> mType m = MsgVoteResp \<and> \<not> mReject m"

definition stamped :: "message \<Rightarrow> bool" where
  "stamped m \<longleftrightarrow> mType m \<noteq> MsgProp \<and> mType m \<noteq> MsgReadIndex"

text \<open>Messages that only a node in a positive term sends.\<close>

definition timed :: "message \<Rightarrow> bool" where
  "timed m \<longleftrightarrow> mType m = MsgVote \<or> mType m = MsgHeartbeat \<or> grant m"

text \<open>\<open>quiet r r'\<close>: nothing that elections depend on changed, and no vote was granted.\<close>

definition quiet :: "raft \<Rightarrow> raft \<Rightarrow> bool" where
  "quiet r r' \<longleftrightarrow> rId r' = rId r \<and> rTerm r' = rTerm r \<and> rVote r' = rVote r \<and> rState r' = rState r
     \<and> rVotes r' = rVotes r \<and> rStep r' = rStep r \<and> rTick r' = rTick r \<and> map fst (rPrs r') = map fst (rPrs r)
     \<and> (\<exists>ms. rMsgs r' = rMsgs r @ ms \<and> (\<forall>x \<in> set ms. \<not> grant x \<and> (stamped x \<longrightarrow> mTerm x = rTerm r)
          \<and> (timed x \<longrightarrow> rTerm r \<noteq> 0)))"

definition roles_ok :: "raft \<Rightarrow> bool" where
  "roles_ok r \<longleftrightarrow>
     (case rState r of
        StateFollower \<Rightarrow> rStep r = StepFollower \<and> rTick r = TickElection
      | StateCandidate \<Rightarrow> rStep r = StepCandidate \<and> rTick r = TickElection
      | StatePreCandidate \<Rightarrow> rStep r = StepCandidate \<and> rTick r = TickElection
      | StateLeader \<Rightarrow> rStep r = StepLeader \<and> rTick r = TickHeartbeat)"

definition node_inv :: "raft \<Rightarrow> bool" where
  "node_inv r \<longleftrightarrow> rId r \<noteq> 0 \<and> roles_ok r \<and> distinct (map fst (rVotes r))
     \<and> (rState r = StateCandidate \<longrightarrow> rVote r = rId r)
     \<and> (rState r = StateCandidate \<or> rState r = StateLeader \<longrightarrow> rTerm r \<noteq> 0)"

text \<open>Why \<open>v\<close> may be counted as a supporter of \<open>r\<close> in term \<open>T\<close> after \<open>r\<close> handled \<open>m\<close>.\<close>

definition backed :: "raft \<Rightarrow> message \<Rightarrow> nat \<Rightarrow> nat \<Rightarrow> bool" where
  "backed r m v T \<longleftrightarrow> v = rId r
     \<or> (rState r = StateCandidate \<and> T = rTerm r \<and> (v, True) \<in> set (rVotes r))
     \<or> (grant m \<and> v = mFrom m \<and> T = rTerm r \<and> (mTerm m = 0 \<or> mTerm m = T))"

definition elect_step :: "raft \<Rightarrow> message \<Rightarrow> raft \<Rightarrow> bool" where
  "elect_step r m r' \<longleftrightarrow>
     rId r' = rId r \<and> map fst (rPrs r') = map fst (rPrs r) \<and> node_inv r'
     \<and> rTerm r \<le> rTerm r' \<and> (rTerm r' = rTerm r \<and> rVote r \<noteq> 0 \<longrightarrow> rVote r' = rVote r)
     \<and> (\<exists>ms. rMsgs r' = rMsgs r @ ms \<and> (\<forall>x \<in> set ms. (stamped x \<longrightarrow> mTerm x = rTerm r')
          \<and> (timed x \<longrightarrow> rTerm r' \<noteq> 0) \<and> (grant x \<longrightarrow> mFrom x = rId r \<and> mTo x = rVote r')))
     \<and> (rState r' = StateCandidate \<longrightarrow> (\<forall>v. (v, True) \<in> set (rVotes r') \<longrightarrow> backed r m v (rTerm r')))
     \<and> (rState r' = StateLeader \<longrightarrow> (rState r = StateLeader \<and> rTerm r' = rTerm r)
          \<or> (\<exists>V. distinct V \<and> length V = quorum r \<and> (\<forall>v \<in> set V. backed r m v (rTerm r'))
               \<and> rVote r' = rId r))"

text \<open>\<open>moved r r'\<close>: identity and members are kept and no vote was granted on the way.\<close>

definition moved :: "raft \<Rightarrow> raft \<Rightarrow> bool" where
  "moved r r' \<longleftrightarrow> rId r' = rId r \<and> map fst (rPrs r') = map fst (rPrs r)
     \<and> (\<exists>ms. rMsgs r' = rMsgs r @ ms \<and> (\<forall>x \<in> set ms. \<not> grant x \<and> (stamped x \<longrightarrow> mTerm x = rTerm r')
          \<and> (timed x \<longrightarrow> rTerm r' \<noteq> 0)))"

section \<open>Lemmas\<close>

lemma quiet_refl [simp, intro]: "quiet r r"
  by (simp add: quiet_def)

lemma quiet_trans: "quiet a b \<Longrightarrow> quiet b c \<Longrightarrow> quiet a c"
  by (fastforce simp: quiet_def)

lemma quiet_term: "quiet a b \<Longrightarrow> rTerm b = rTerm a"
  by (simp add: quiet_def)

lemma quiet_field [simp]:
  "quiet r (r\<lparr>rLog := l\<rparr>)" "quiet r (r\<lparr>rReadOnly := ro\<rparr>)" "quiet r (r\<lparr>rReadStates := rs\<rparr>)"
  "quiet r (r\<lparr>rPendingConf := pc\<rparr>)" "quiet r (r\<lparr>rElectionElapsed := i, rLead := n\<rparr>)"
  "quiet r (r\<lparr>rElectionElapsed := i\<rparr>)" "quiet r (r\<lparr>rHeartbeatElapsed := i\<rparr>)"
  "map fst ps = map fst (rPrs r) \<Longrightarrow> quiet r (r\<lparr>rPrs := ps\<rparr>)"
  by (simp_all add: quiet_def)

lemma send_quiet [simp]:
  "\<not> grant m \<Longrightarrow> timed m \<longrightarrow> rTerm r \<noteq> 0 \<Longrightarrow> quiet r (send r m)"
  by (auto simp: quiet_def send_def grant_def stamped_def timed_def Let_def)

lemma keys_upd_known [simp]: "map_of xs k = Some v \<Longrightarrow> map fst (upd_al k w xs) = map fst xs"
  by (force simp: keys_upd_al dest: map_of_SomeD)

lemma rfold_quiet:
  assumes "rfold f xs r = Inr r'" "\<And>x r1 r2. f x r1 = Inr r2 \<Longrightarrow> rTerm r1 = rTerm r \<Longrightarrow> quiet r1 r2"
  shows "quiet r r'"
  by (rule rfold_invariant [where P = "quiet r", OF assms(1)])
    (auto intro: quiet_trans [OF _ assms(2)] dest: quiet_term)

lemma r_maybeCommit_quiet: "r_maybeCommit r = Inr (r', b) \<Longrightarrow> quiet r r'"
  by (auto simp: r_maybeCommit_def res_simps)

lemma appendEntry_quiet: "appendEntry r es = Inr r' \<Longrightarrow> quiet r r'"
  by (auto simp: appendEntry_def res_simps split: option.splits
      dest!: r_maybeCommit_quiet elim!: quiet_trans [rotated])
    (simp_all add: quiet_def)

lemma sendHeartbeat_quiet: "sendHeartbeat r i ctx = Inr r' \<Longrightarrow> rTerm r \<noteq> 0 \<Longrightarrow> quiet r r'"
  by (auto simp: sendHeartbeat_def grant_def timed_def msg0_def split: option.splits)

lemma sendAppend_quiet: "sendAppend r i = Inr r' \<Longrightarrow> quiet r r'"
  by (auto simp: sendAppend_def res_simps grant_def timed_def msg0_def split: option.splits)

lemma broadcastHeartbeatWithCtx_quiet:
  "broadcastHeartbeatWithCtx r ctx = Inr r' \<Longrightarrow> rTerm r \<noteq> 0 \<Longrightarrow> quiet r r'"
  unfolding broadcastHeartbeatWithCtx_def
  by (erule rfold_quiet) (auto split: if_splits dest: sendHeartbeat_quiet)

lemma broadcastAppend_quiet: "broadcastAppend r = Inr r' \<Longrightarrow> quiet r r'"
  unfolding broadcastAppend_def
  by (erule rfold_quiet) (auto split: if_splits dest: sendAppend_quiet)

lemma handleAppendEntries_quiet: "handleAppendEntries r m = Inr r' \<Longrightarrow> quiet r r'"
  by (auto simp: handleAppendEntries_def res_simps Let_def grant_def timed_def msg0_def split: option.splits
      intro!: quiet_trans [OF quiet_field(1) send_quiet])

lemma handleHeartbeat_quiet: "handleHeartbeat r m = Inr r' \<Longrightarrow> quiet r r'"
  by (auto simp: handleHeartbeat_def res_simps grant_def timed_def msg0_def
      intro!: quiet_trans [OF quiet_field(1) send_quiet])

lemma answer_reads_quiet: "answer_reads rss r = Inr r' \<Longrightarrow> quiet r r'"
proof (induction rss r rule: answer_reads.induct)
  case (1 r)
  then show ?case by simp
next
  case (2 rs rss r)
  then show ?case
    by (auto simp: res_simps Let_def grant_def timed_def msg0_def split: if_splits
        elim!: quiet_trans [rotated] intro!: send_quiet)
qed

lemma stepFollower_quiet: "stepFollower r m = Inr r' \<Longrightarrow> quiet r r'"
  by (auto simp: stepFollower_def res_simps grant_def timed_def split: message_type.splits if_splits
      dest!: handleAppendEntries_quiet handleHeartbeat_quiet
      elim!: quiet_trans [rotated] intro!: send_quiet)

lemma stepLeaderReadIndex_quiet: "stepLeaderReadIndex r m = Inr r' \<Longrightarrow> rTerm r \<noteq> 0 \<Longrightarrow> quiet r r'"
  by (auto simp: stepLeaderReadIndex_def res_simps split: if_splits prod.splits
      dest!: broadcastHeartbeatWithCtx_quiet elim!: quiet_trans [rotated])

lemma stepLeaderAppResp_quiet:
  "map_of (rPrs r) (mFrom m) = Some pr \<Longrightarrow> stepLeaderAppResp r pr m = Inr r' \<Longrightarrow> quiet r r'"
  by (auto simp: stepLeaderAppResp_def res_simps Let_def split: if_splits prod.splits
      dest!: sendAppend_quiet r_maybeCommit_quiet broadcastAppend_quiet elim!: quiet_trans [rotated])

lemma stepLeaderHeartbeatResp_quiet: "stepLeaderHeartbeatResp r m = Inr r' \<Longrightarrow> quiet r r'"
  by (auto simp: stepLeaderHeartbeatResp_def res_simps Let_def split: if_splits prod.splits
      dest!: answer_reads_quiet elim!: quiet_trans [rotated])

lemma stepLeader_quiet: "stepLeader r m = Inr r' \<Longrightarrow> rTerm r \<noteq> 0 \<Longrightarrow> quiet r r'"
  by (auto simp: stepLeader_def res_simps broadcastHeartbeat_def
      split: message_type.splits if_splits prod.splits option.splits
      dest!: broadcastHeartbeatWithCtx_quiet appendEntry_quiet broadcastAppend_quiet
        stepLeaderReadIndex_quiet stepLeaderAppResp_quiet stepLeaderHeartbeatResp_quiet
      elim: quiet_trans elim!: quiet_trans [rotated])

lemma reset_fields [simp]:
  "rId (reset r t) = rId r" "rTerm (reset r t) = t"
  "rVote (reset r t) = (if rTerm r = t then rVote r else 0)" "rState (reset r t) = rState r"
  "rVotes (reset r t) = []" "rMsgs (reset r t) = rMsgs r" "rPrs (reset r t) = rPrs r"
  "rLog (reset r t) = rLog r" "rStep (reset r t) = rStep r" "rTick (reset r t) = rTick r"
  by (simp_all add: reset_def resetRandomizedElectionTimeout_def Let_def)

lemma becomeFollower_fields [simp]:
  "rId (becomeFollower r t l) = rId r" "rTerm (becomeFollower r t l) = t"
  "rVote (becomeFollower r t l) = (if rTerm r = t then rVote r else 0)"
  "rState (becomeFollower r t l) = StateFollower" "rVotes (becomeFollower r t l) = []"
  "rMsgs (becomeFollower r t l) = rMsgs r" "rPrs (becomeFollower r t l) = rPrs r"
  "rLog (becomeFollower r t l) = rLog r" "rStep (becomeFollower r t l) = StepFollower"
  "rTick (becomeFollower r t l) = TickElection"
  by (simp_all add: becomeFollower_def)

lemma quiet_roles: "quiet r r' \<Longrightarrow> roles_ok r' = roles_ok r"
  by (cases "rState r") (simp_all add: quiet_def roles_ok_def)

lemma quiet_inv: "quiet r r' \<Longrightarrow> node_inv r' = node_inv r"
  using quiet_roles [of r r'] by (simp add: quiet_def node_inv_def)

lemma quiet_length_prs: "quiet r r' \<Longrightarrow> length (rPrs r') = length (rPrs r)"
  unfolding quiet_def by (metis length_map)

lemma becomeLeader_elect:
  assumes "becomeLeader r = Inr r'"
  shows "rState r \<noteq> StateFollower" "moved r r'" "rTerm r' = rTerm r" "rVote r' = rVote r"
    "rState r' = StateLeader" "rVotes r' = []" "roles_ok r'"
proof -
  obtain r1 where r1: "quiet r1 r'" "rState r \<noteq> StateFollower" "rId r1 = rId r" "rTerm r1 = rTerm r"
    "rVote r1 = rVote r" "rState r1 = StateLeader" "rVotes r1 = []" "rStep r1 = StepLeader"
    "rTick r1 = TickHeartbeat" "map fst (rPrs r1) = map fst (rPrs r)" "rMsgs r1 = rMsgs r"
    using assms
    by (force simp: becomeLeader_def res_simps Let_def comp_def case_prod_beta intro!: map_cong
        dest!: appendEntry_quiet split: if_splits)
  then show "rState r \<noteq> StateFollower" "moved r r'" "rTerm r' = rTerm r" "rVote r' = rVote r"
    "rState r' = StateLeader" "rVotes r' = []" "roles_ok r'"
    by (auto simp: quiet_def moved_def roles_ok_def)
qed

lemma campaign_msgs_quiet:
  assumes "rfold (\<lambda>i r. if i = rId r then Inr r
      else rbind (rl_lastTerm memStorage (rLog r)) (\<lambda>lt. rbind (lastIndexOf r) (\<lambda>li.
        Inr (send r ((msg0 t)\<lparr>mTerm := trm, mTo := i, mLogTerm := lt, mLogIndex := li\<rparr>)))))
      is r = Inr r'" "t = MsgPreVote \<or> t = MsgVote \<and> rTerm r \<noteq> 0"
  shows "quiet r r'"
  by (rule rfold_quiet [OF assms(1)])
    (use assms(2) in \<open>auto simp: res_simps grant_def timed_def msg0_def split: if_splits intro!: send_quiet\<close>)

lemma campaign_elect:
  assumes "campaign r campaignElection = Inr r'" "rTerm r + 1 < U64"
  shows "moved r r' \<and> rTerm r' = rTerm r + 1 \<and> rVote r' = rId r \<and> roles_ok r'
    \<and> (rState r' = StateCandidate \<and> rVotes r' = [(rId r, True)]
       \<or> rState r' = StateLeader \<and> rVotes r' = [] \<and> quorum r = 1)"
proof -
  define r1 where "r1 = (reset (r\<lparr>rStep := StepCandidate\<rparr>) (add64 (rTerm r) 1))
                  \<lparr>rTick := TickElection, rVote := rId r, rState := StateCandidate\<rparr>"
  define r2 where "r2 = r1\<lparr>rVotes := [(rId r, True)]\<rparr>"
  have r2: "rId r2 = rId r" "rTerm r2 = rTerm r + 1" "rVote r2 = rId r" "rState r2 = StateCandidate"
    "rVotes r2 = [(rId r, True)]" "rStep r2 = StepCandidate" "rTick r2 = TickElection"
    "rPrs r2 = rPrs r" "rMsgs r2 = rMsgs r" "quorum r2 = quorum r"
    using assms(2) by (simp_all add: r2_def r1_def quorum_def add64_small)
  have "if quorum r2 = 1 then becomeLeader r2 = Inr r' else quiet r2 r'"
    using assms
    by (auto simp: campaign.simps [of r] becomeCandidate_def poll_def Let_def r1_def [symmetric]
        r2_def res_simps dest!: campaign_msgs_quiet split: if_splits)
       (simp_all add: r1_def add64_small)
  then show ?thesis
    using r2 becomeLeader_elect [of r2 r']
    by (auto simp: moved_def quiet_def roles_ok_def split: if_splits)
qed

lemma campaign_pre_elect:
  assumes "campaign r campaignPreElection = Inr r'" "rTerm r + 1 < U64"
  shows "moved r r' \<and> roles_ok r'
    \<and> (rTerm r' = rTerm r \<and> rVote r' = rVote r \<and> rState r' = StatePreCandidate \<and> rVotes r' = [(rId r, True)]
       \<or> rTerm r' = rTerm r + 1 \<and> rVote r' = rId r
         \<and> (rState r' = StateCandidate \<and> rVotes r' = [(rId r, True)]
            \<or> rState r' = StateLeader \<and> rVotes r' = [] \<and> quorum r = 1))"
proof -
  define r2 where "r2 = r\<lparr>rStep := StepCandidate, rTick := TickElection, rState := StatePreCandidate,
    rVotes := [(rId r, True)]\<rparr>"
  have r2: "rId r2 = rId r" "rTerm r2 = rTerm r" "rVote r2 = rVote r" "rState r2 = StatePreCandidate"
    "rVotes r2 = [(rId r, True)]" "rStep r2 = StepCandidate" "rTick r2 = TickElection"
    "rPrs r2 = rPrs r" "rMsgs r2 = rMsgs r" "quorum r2 = quorum r"
    by (simp_all add: r2_def quorum_def)
  have "if quorum r2 = 1 then campaign r2 campaignElection = Inr r' else quiet r2 r'"
    using assms(1)
    by (auto simp: campaign.simps [of r campaignPreElection] becomePreCandidate_def poll_def Let_def
        r2_def res_simps dest!: campaign_msgs_quiet split: if_splits)
  then show ?thesis
    using r2 campaign_elect [of r2 r'] assms(2)
    by (auto simp: moved_def quiet_def roles_ok_def split: if_splits)
qed

text \<open>Counting votes: the voters that said yes, each once.\<close>

lemma granted_voters:
  assumes "distinct (map fst vs)"
  shows "distinct (map fst (filter snd vs))" "length (map fst (filter snd vs)) = length (filter snd vs)"
    "v \<in> set (map fst (filter snd vs)) \<longleftrightarrow> (v, True) \<in> set vs"
  using assms by (auto simp: distinct_map_filter image_iff)

lemma set_upd_al_new: "map_of xs k = None \<Longrightarrow> set (upd_al k v xs) = insert (k, v) (set xs)"
  by (induction k v xs rule: upd_al.induct) (auto split: if_splits)

lemma moved_follow:
  assumes "moved r r'" "node_inv r'" "rTerm r \<le> rTerm r'" "rTerm r' = rTerm r \<Longrightarrow> rVote r' = rVote r"
    "rState r' \<noteq> StateLeader" "rState r' \<noteq> StateCandidate"
  shows "elect_step r m r'"
  using assms by (auto simp: elect_step_def moved_def)

lemma quiet_moved: "quiet r r' \<Longrightarrow> moved r r'"
  by (auto simp: quiet_def moved_def)

lemma moved_becomeFollower [simp]: "quiet (becomeFollower r t l) r' \<Longrightarrow> moved r r'"
  by (auto simp: quiet_def moved_def)

lemma quiet_elect: "quiet r r' \<Longrightarrow> node_inv r \<Longrightarrow> elect_step r m r'"
  using quiet_inv [of r r'] by (auto simp: elect_step_def quiet_def backed_def)

lemma follower_inv [simp]: "node_inv (becomeFollower r t l) \<longleftrightarrow> rId r \<noteq> 0"
  by (simp add: node_inv_def roles_ok_def)

lemma quiet_follower_elect:
  assumes "quiet (becomeFollower r t l) r'" "rTerm r \<le> t" "rId r \<noteq> 0"
  shows "elect_step r m r'"
proof (rule moved_follow)
  show "moved r r'" using assms(1) by simp
  show "node_inv r'" using quiet_inv [OF assms(1)] assms(3) by simp
qed (use assms in \<open>auto simp: quiet_def\<close>)

lemma campaign_elect_step:
  assumes "campaign r campaignElection = Inr r'" "rTerm r + 1 < U64" "rId r \<noteq> 0"
  shows "elect_step r m r'"
  using campaign_elect [OF assms(1,2)] assms(3)
  by (auto simp: elect_step_def moved_def node_inv_def backed_def intro!: exI [of _ "[rId r]"])

lemma campaign_pre_elect_step:
  assumes "campaign r campaignPreElection = Inr r'" "rTerm r + 1 < U64" "rId r \<noteq> 0"
  shows "elect_step r m r'"
  using campaign_pre_elect [OF assms(1,2)] assms(3)
  by (auto simp: elect_step_def moved_def node_inv_def backed_def intro!: exI [of _ "[rId r]"])

lemma stepHup_elect:
  assumes "stepHup r = Inr r'" "rTerm r + 1 < U64" "node_inv r"
  shows "elect_step r m r'"
  using assms
  by (auto simp: stepHup_def res_simps node_inv_def split: if_splits
      intro: quiet_elect [unfolded node_inv_def] campaign_elect_step campaign_pre_elect_step)

lemma stepVote_elect:
  assumes "stepVote r m = Inr r'" "node_inv r" "mType m = MsgVote \<or> mType m = MsgPreVote"
    "mType m = MsgVote \<Longrightarrow> mTerm m \<noteq> 0 \<and> mTerm m \<le> rTerm r"
  shows "elect_step r m r'"
proof -
  consider "quiet r r'"
    | "mType m = MsgVote" "rVote r = 0 \<or> mFrom m = rVote r"
      "r' = send (r\<lparr>rVote := mFrom m\<rparr>) ((msg0 MsgVoteResp)\<lparr>mTo := mFrom m\<rparr>)"
    using assms(1,3,4)
    by (fastforce simp: stepVote_def res_simps grant_def timed_def msg0_def split: if_splits)
  then show ?thesis
  proof cases
    case 1
    then show ?thesis by (rule quiet_elect [OF _ assms(2)])
  next
    case 2
    have "rTerm r \<noteq> 0" using assms(4) 2(1) by auto
    moreover have "rState r = StateCandidate \<longrightarrow> mFrom m = rId r \<or> rVote r = 0"
      using 2(2) assms(2) by (auto simp: node_inv_def)
    ultimately show ?thesis
      using 2 assms(2)
      by (auto simp: elect_step_def node_inv_def roles_ok_def send_def Let_def grant_def stamped_def
          msg0_def backed_def split: state_type.splits)
  qed
qed

lemma elect_step_quiet:
  assumes "elect_step r m r1" "quiet r1 r2"
  shows "elect_step r m r2"
proof -
  have "node_inv r2" using assms quiet_inv [OF assms(2)] by (auto simp: elect_step_def)
  moreover obtain ms1 where ms1: "rMsgs r1 = rMsgs r @ ms1"
      "\<forall>x \<in> set ms1. (stamped x \<longrightarrow> mTerm x = rTerm r1) \<and> (timed x \<longrightarrow> rTerm r1 \<noteq> 0)
        \<and> (grant x \<longrightarrow> mFrom x = rId r \<and> mTo x = rVote r1)"
    using assms(1) by (auto simp: elect_step_def)
  moreover obtain ms2 where "rMsgs r2 = rMsgs r1 @ ms2"
      "\<forall>x \<in> set ms2. \<not> grant x \<and> (stamped x \<longrightarrow> mTerm x = rTerm r1) \<and> (timed x \<longrightarrow> rTerm r1 \<noteq> 0)"
    using assms(2) by (auto simp: quiet_def)
  ultimately have "\<exists>ms. rMsgs r2 = rMsgs r @ ms \<and> (\<forall>x \<in> set ms. (stamped x \<longrightarrow> mTerm x = rTerm r1)
      \<and> (timed x \<longrightarrow> rTerm r1 \<noteq> 0) \<and> (grant x \<longrightarrow> mFrom x = rId r \<and> mTo x = rVote r1))"
    by (intro exI [of _ "ms1 @ ms2"]) auto
  then show ?thesis
    using assms \<open>node_inv r2\<close> unfolding elect_step_def quiet_def by simp
qed

lemma roles_ok_votes [simp]: "roles_ok (r\<lparr>rVotes := vs\<rparr>) = roles_ok r"
  by (simp add: roles_ok_def split: state_type.splits)

lemma poll_precandidate:
  assumes "elect_step (r\<lparr>rVotes := vs\<rparr>) m r'" "rState r \<noteq> StateCandidate"
  shows "elect_step r m r'"
  using assms by (auto simp: elect_step_def backed_def quorum_def)

lemma follow_elect:
  assumes "elect_step (becomeFollower r t l) m r'" "rTerm r < t" "\<not> grant m"
  shows "elect_step r m r'"
  using assms by (auto simp: elect_step_def backed_def quorum_def)

lemma becomeLeader_elect_step:
  assumes "becomeLeader r1 = Inr r'" and r1: "r1 = r\<lparr>rVotes := vs\<rparr>" and "node_inv r"
    "rState r = StateCandidate" "distinct (map fst vs)" "quorum r1 = length (filter snd vs)"
    "\<And>v. (v, True) \<in> set vs \<Longrightarrow> backed r m v (rTerm r)"
  shows "elect_step r m r'"
proof -
  let ?V = "map fst (filter snd vs)"
  have V: "distinct ?V" "length ?V = quorum r" "\<forall>v \<in> set ?V. backed r m v (rTerm r)"
    using granted_voters [OF assms(5)] assms(6,7) r1 by (auto simp: quorum_def)
  have vote: "rVote r = rId r" "rId r \<noteq> 0" "rTerm r \<noteq> 0"
    using assms(3,4) by (auto simp: node_inv_def)
  note l = becomeLeader_elect [OF assms(1)]
  have "node_inv r'"
    using l r1 vote by (auto simp: node_inv_def moved_def)
  moreover have "\<exists>V. distinct V \<and> length V = quorum r \<and> (\<forall>v \<in> set V. backed r m v (rTerm r))"
    using V by blast
  ultimately show ?thesis
    using l vote r1 unfolding elect_step_def moved_def by auto
qed

lemma stepCandidate_elect:
  assumes "stepCandidate r m = Inr r'" "node_inv r" "rTerm r + 1 < U64"
    "rState r = StateCandidate \<or> rState r = StatePreCandidate"
    "mType m = MsgHeartbeat \<Longrightarrow> rTerm r \<le> mTerm m"
    "mType m = MsgVoteResp \<Longrightarrow> mTerm m = 0 \<or> mTerm m = rTerm r"
  shows "elect_step r m r'"
proof -
  define vs where "vs = (if map_of (rVotes r) (mFrom m) = None
    then upd_al (mFrom m) (\<not> mReject m) (rVotes r) else rVotes r)"
  define r1 where "r1 = r\<lparr>rVotes := vs\<rparr>"
  have rid: "rId r \<noteq> 0" and dv: "distinct (map fst vs)" and inv1: "node_inv r1"
    using assms(2) by (auto simp: node_inv_def vs_def r1_def)
  have vs: "(v, b) \<in> set vs \<Longrightarrow> (v, b) \<in> set (rVotes r) \<or> v = mFrom m \<and> b = (\<not> mReject m)" for v b
    by (auto simp: vs_def set_upd_al_new split: if_splits)
  have bk: "(v, True) \<in> set vs \<Longrightarrow> mType m = MsgVoteResp \<Longrightarrow> rState r = StateCandidate
      \<Longrightarrow> backed r m v (rTerm r)" for v
    using vs [of v True] assms(6) by (auto simp: backed_def grant_def)
  have same: "elect_step r m r1" if cand: "mType m = MsgVoteResp \<or> rState r = StatePreCandidate"
    using inv1 assms(4) cand bk by (auto simp: elect_step_def r1_def)
  have poll: "poll r (mFrom m) (\<not> mReject m) = (r1, length (filter snd vs))"
    and st1: "rState r1 = rState r" "rTerm r1 = rTerm r"
    by (simp_all add: poll_def vs_def r1_def Let_def)
  have pre: "elect_step r m r'" if "rState r = StatePreCandidate" "campaign r1 campaignElection = Inr r'"
    using that campaign_elect_step [of r1 r' m] assms(3) rid
    by (intro poll_precandidate [where r = r and vs = vs]) (simp_all add: r1_def)
  have lead: "elect_step r m r'" if l: "rState r = StateCandidate" "mType m = MsgVoteResp"
      "quorum r1 = length (filter snd vs)" "becomeLeader r1 = Inr r2" "broadcastAppend r2 = Inr r'" for r2
  proof -
    from l(4) r1_def have "elect_step r m r2"
      by (rule becomeLeader_elect_step) (use assms(2) l dv bk in auto)
    then show ?thesis using broadcastAppend_quiet [OF l(5)] by (rule elect_step_quiet)
  qed
  have lost: "elect_step r m (becomeFollower r1 (rTerm r) 0)"
    using rid by (intro moved_follow) (auto simp: moved_def r1_def)
  let ?resp = "if rState r = StatePreCandidate then MsgPreVoteResp else MsgVoteResp"
  consider "mType m = MsgApp" | "mType m = MsgHeartbeat" | "mType m = ?resp"
    | "mType m \<notin> {MsgApp, MsgHeartbeat, ?resp}" by auto
  then show ?thesis
  proof cases
    case 1
    then have "quiet (becomeFollower r (rTerm r) (mFrom m)) r'"
      using assms(1) handleAppendEntries_quiet by (simp add: stepCandidate_def)
    then show ?thesis using rid by (auto intro: quiet_follower_elect)
  next
    case 2
    then have "quiet (becomeFollower r (mTerm m) (mFrom m)) r'"
      using assms(1) handleHeartbeat_quiet by (simp add: stepCandidate_def)
    then show ?thesis using rid assms(5) [OF 2] by (auto intro: quiet_follower_elect)
  next
    case 3
    then have "(if quorum r1 = length (filter snd vs)
        then if rState r = StatePreCandidate then campaign r1 campaignElection = Inr r'
             else rbind (becomeLeader r1) broadcastAppend = Inr r'
        else r' = becomeFollower r1 (rTerm r) 0 \<or> r' = r1)"
      using assms(1) by (simp add: stepCandidate_def poll st1 split: if_splits)
    then show ?thesis
      using 3 assms(4) pre lead lost same by (auto simp: res_simps split: if_splits)
  next
    case 4
    then have "r' = r"
      using assms(1) by (simp add: stepCandidate_def split: if_splits)
    then show ?thesis using quiet_elect [OF quiet_refl assms(2)] by simp
  qed
qed

lemma dispatch_elect:
  assumes "dispatch r m = Inr r'" "node_inv r" "rTerm r + 1 < U64"
    "mType m = MsgHeartbeat \<Longrightarrow> rTerm r \<le> mTerm m"
    "mType m = MsgVoteResp \<Longrightarrow> rState r = StateCandidate \<Longrightarrow> mTerm m = 0 \<or> mTerm m = rTerm r"
    "mType m = MsgVote \<Longrightarrow> mTerm m \<noteq> 0 \<and> mTerm m \<le> rTerm r"
  shows "elect_step r m r'"
proof (cases "mType m = MsgHup \<or> mType m = MsgVote \<or> mType m = MsgPreVote")
  case True
  then show ?thesis
    using assms stepHup_elect [of r r' m] stepVote_elect [of r m r']
    by (auto simp: dispatch_def)
next
  case False
  then have run: "run_step (rStep r) r m = Inr r'"
    using assms(1) by (auto simp: dispatch_def split: message_type.splits)
  show ?thesis
  proof (cases "rStep r")
    case StepFollower
    with run show ?thesis by (auto intro: quiet_elect [OF stepFollower_quiet _] assms(2))
  next
    case StepLeader
    then have "rTerm r \<noteq> 0"
      using assms(2) by (auto simp: node_inv_def roles_ok_def split: state_type.splits)
    with StepLeader run show ?thesis by (auto intro: quiet_elect [OF stepLeader_quiet _] assms(2))
  next
    case StepCandidate
    then have st: "rState r = StateCandidate \<or> rState r = StatePreCandidate"
      using assms(2) by (auto simp: node_inv_def roles_ok_def split: state_type.splits)
    show ?thesis
    proof (cases "mType m = MsgVoteResp \<and> rState r = StatePreCandidate")
      case True
      then have "r' = r" using run StepCandidate by (auto simp: stepCandidate_def Let_def)
      then show ?thesis using quiet_elect [OF quiet_refl assms(2)] by simp
    next
      case False
      then show ?thesis
        using run StepCandidate st assms(2-5) stepCandidate_elect [of r m r'] by auto
    qed
  qed
qed

lemma Step_elect:
  assumes "Step r m = Inr r'" "node_inv r" "rTerm r + 1 < U64" "mTerm m + 1 < U64"
    "mType m = MsgHeartbeat \<or> mType m = MsgVote \<Longrightarrow> mTerm m \<noteq> 0"
  shows "elect_step r m r'"
proof -
  have rid: "rId r \<noteq> 0" using assms(2) by (simp add: node_inv_def)
  consider "mTerm m = 0" "dispatch r m = Inr r'" | "mTerm m = rTerm r" "dispatch r m = Inr r'"
    | "mTerm m < rTerm r" "quiet r r'"
    | (higher) l where "rTerm r < mTerm m" "dispatch (becomeFollower r (mTerm m) l) m = Inr r'"
    | (pre) "rTerm r < mTerm m" "mType m = MsgPreVote \<or> mType m = MsgPreVoteResp" "dispatch r m = Inr r'"
    using assms(1)
    by (auto simp: Step_def Let_def grant_def timed_def msg0_def split: if_splits)
  then show ?thesis
  proof cases
    case higher
    let ?f = "becomeFollower r (mTerm m) l"
    show ?thesis
    proof (cases "grant m")
      case True
      then have "quiet ?f r'"
        using higher(2) by (auto simp: dispatch_def grant_def dest: stepFollower_quiet)
      then show ?thesis using higher(1) rid by (intro quiet_follower_elect) auto
    next
      case False
      have "elect_step ?f m r'"
        using higher rid assms(4) by (intro dispatch_elect) auto
      then show ?thesis using higher(1) False by (rule follow_elect)
    qed
  qed (use assms in \<open>auto intro: dispatch_elect quiet_elect\<close>)
qed

end
