(* ===== verification/Raft_Cluster.thy ===== *)
theory Raft_Cluster
  imports Raft_Election "HOL-Library.Multiset"
begin

text \<open>
  A cluster of nodes that run the loop of \<^verbatim>\<open>node.go\<close> and exchange the messages their
  \<^verbatim>\<open>Ready\<close> values hand out.  The network keeps every message ever sent and delivers any of
  them to its addressee any number of times or never, so loss, duplication, delay and
  reordering are all covered.  Two history variables record the votes cast and the leaders
  seen.  The membership is fixed and no node restarts.
\<close>

section \<open>The step relation\<close>

record cluster =
  cNodes :: "nat \<Rightarrow> node"
  cNet :: "message set"
  cVoted :: "(nat \<times> nat \<times> nat) set"
  cLeaders :: "(nat \<times> nat) set"

definition sent :: "node \<Rightarrow> node \<Rightarrow> message set" where
  "sent n n' = (if \<not> nAdvancing n \<and> nAdvancing n'
     then (case nReady n' of None \<Rightarrow> {} | Some rd \<Rightarrow> set (rdMessage rd)) else {})"

definition record_node :: "cluster \<Rightarrow> nat \<Rightarrow> node \<Rightarrow> cluster" where
  "record_node c i n =
     c\<lparr>cNodes := (cNodes c)(i := n), cNet := cNet c \<union> sent (cNodes c i) n,
       cVoted := cVoted c \<union> (if rVote (nRaft n) = 0 then {} else {(i, rTerm (nRaft n), rVote (nRaft n))}),
       cLeaders := cLeaders c \<union> (if rState (nRaft n) = StateLeader then {(i, rTerm (nRaft n))} else {})\<rparr>"

text \<open>What may happen at node \<open>i\<close>: a call of the application, a message addressed to it, a tick,
  a \<^verbatim>\<open>Ready\<close>, an \<^verbatim>\<open>Advance\<close>.\<close>

inductive enabled :: "message set \<Rightarrow> nat \<Rightarrow> node_event \<Rightarrow> bool" for net i where
  campaign: "enabled net i api_Campaign"
| propose: "enabled net i (api_Propose d)"
| propose_conf: "enabled net i (api_ProposeConfChange d)"
| read_index: "enabled net i (api_ReadIndex d)"
| deliver: "m \<in> net \<Longrightarrow> mTo m = i \<Longrightarrow> enabled net i (node_step m)"
| tick: "enabled net i EvTick"
| ready: "enabled net i EvReady"
| advance: "enabled net i EvAdvance"

text \<open>Terms stay below \<open>2\<^sup>6\<^sup>4 - 1\<close>.\<close>

fun term_room :: "node \<Rightarrow> node_event \<Rightarrow> bool" where
  "term_room n (EvProc m) \<longleftrightarrow> rTerm (nRaft n) + 1 < U64 \<and> mTerm m + 1 < U64"
| "term_room n (EvRecv m) \<longleftrightarrow> rTerm (nRaft n) + 1 < U64 \<and> mTerm m + 1 < U64"
| "term_room n _ \<longleftrightarrow> rTerm (nRaft n) + 1 < U64"

inductive cluster_step :: "nat list \<Rightarrow> cluster \<Rightarrow> cluster \<Rightarrow> bool" for ids where
  run: "i \<in> set ids \<Longrightarrow> enabled (cNet c) i ev \<Longrightarrow> term_room (cNodes c i) ev \<Longrightarrow>
    node_run (cNodes c i) ev = Inr n \<Longrightarrow> cluster_step ids c (record_node c i n)"
| reorder: "i \<in> set ids \<Longrightarrow> mset ps = mset (rPrs (nRaft (cNodes c i))) \<Longrightarrow>
    cluster_step ids c (record_node c i ((cNodes c i)\<lparr>nRaft := (nRaft (cNodes c i))\<lparr>rPrs := ps\<rparr>\<rparr>))"

text \<open>Every node is started by \<^verbatim>\<open>StartNode\<close> under its own id with the same members; no message
  is in flight.\<close>

definition cluster_init :: "nat list \<Rightarrow> cluster \<Rightarrow> bool" where
  "cluster_init ids c \<longleftrightarrow> distinct ids \<and> 0 \<notin> set ids \<and> cNet c = {} \<and> cVoted c = {} \<and> cLeaders c = {}
     \<and> (\<forall>i \<in> set ids. (\<exists>conf peers rands. cID conf = i \<and> StartNode conf peers rands = Inr (cNodes c i))
          \<and> mset (map fst (rPrs (nRaft (cNodes c i)))) = mset ids)"

inductive cluster_reach :: "nat list \<Rightarrow> cluster \<Rightarrow> bool" for ids where
  start: "cluster_init ids c \<Longrightarrow> cluster_reach ids c"
| step: "cluster_reach ids c \<Longrightarrow> cluster_step ids c c' \<Longrightarrow> cluster_reach ids c'"

definition majorities :: "nat list \<Rightarrow> nat set set" where
  "majorities ids = {A. A \<subseteq> set ids \<and> length ids div 2 + 1 \<le> card A}"

section \<open>Invariant\<close>

text \<open>The part of \<open>elect_step\<close> the cluster needs, also kept when messages are handed out.\<close>

definition vote_step :: "raft \<Rightarrow> message \<Rightarrow> raft \<Rightarrow> bool" where
  "vote_step r m r' \<longleftrightarrow>
     rId r' = rId r \<and> mset (map fst (rPrs r')) = mset (map fst (rPrs r)) \<and> node_inv r'
     \<and> rTerm r \<le> rTerm r' \<and> (rTerm r' = rTerm r \<and> rVote r \<noteq> 0 \<longrightarrow> rVote r' = rVote r)
     \<and> (\<forall>x \<in> set (rMsgs r'). x \<in> set (rMsgs r) \<or> (stamped x \<longrightarrow> mTerm x = rTerm r')
          \<and> (timed x \<longrightarrow> rTerm r' \<noteq> 0) \<and> (grant x \<longrightarrow> mFrom x = rId r \<and> mTo x = rVote r'))
     \<and> (rState r' = StateCandidate \<longrightarrow> (\<forall>v. (v, True) \<in> set (rVotes r') \<longrightarrow> backed r m v (rTerm r')))
     \<and> (rState r' = StateLeader \<longrightarrow> (rState r = StateLeader \<and> rTerm r' = rTerm r)
          \<or> (\<exists>V. distinct V \<and> length V = quorum r \<and> (\<forall>v \<in> set V. backed r m v (rTerm r'))
               \<and> rVote r' = rId r))"

definition msg_ok :: "cluster \<Rightarrow> message \<Rightarrow> bool" where
  "msg_ok c m \<longleftrightarrow> (timed m \<longrightarrow> mTerm m \<noteq> 0)
     \<and> (grant m \<and> mTo m \<noteq> 0 \<longrightarrow> (mFrom m, mTerm m, mTo m) \<in> cVoted c)"

definition local_ok :: "nat list \<Rightarrow> cluster \<Rightarrow> nat \<Rightarrow> bool" where
  "local_ok ids c i \<longleftrightarrow> (let r = nRaft (cNodes c i) in
     node_inv r \<and> rId r = i \<and> mset (map fst (rPrs r)) = mset ids
     \<and> (\<forall>T x. (i, T, x) \<in> cVoted c \<longrightarrow> T \<le> rTerm r \<and> (T = rTerm r \<longrightarrow> rVote r = x))
     \<and> (\<forall>m \<in> set (rMsgs r). msg_ok c m)
     \<and> (rState r = StateCandidate \<longrightarrow> (\<forall>v. (v, True) \<in> set (rVotes r) \<longrightarrow> (v, rTerm r, i) \<in> cVoted c))
     \<and> (rState r = StateLeader \<longrightarrow> (i, rTerm r) \<in> cLeaders c))"

definition cluster_inv :: "nat list \<Rightarrow> cluster \<Rightarrow> bool" where
  "cluster_inv ids c \<longleftrightarrow>
     (\<forall>i \<in> set ids. local_ok ids c i) \<and> (\<forall>m \<in> cNet c. msg_ok c m)
     \<and> (\<forall>v T x. (v, T, x) \<in> cVoted c \<longrightarrow> v \<in> set ids \<and> x \<noteq> 0)
     \<and> (\<forall>v T x y. (v, T, x) \<in> cVoted c \<longrightarrow> (v, T, y) \<in> cVoted c \<longrightarrow> x = y)
     \<and> (\<forall>i T. (i, T) \<in> cLeaders c \<longrightarrow> (\<exists>Q \<in> majorities ids. \<forall>v \<in> Q. (v, T, i) \<in> cVoted c))"

text \<open>The hypotheses of one step: \<open>r\<close> is node \<open>i\<close> before, \<open>r'\<close> after, \<open>x\<close> the message handled.\<close>

definition step_hyps :: "nat list \<Rightarrow> cluster \<Rightarrow> nat \<Rightarrow> message \<Rightarrow> node \<Rightarrow> bool" where
  "step_hyps ids c i x n \<longleftrightarrow> cluster_inv ids c \<and> 0 \<notin> set ids \<and> i \<in> set ids
     \<and> vote_step (nRaft (cNodes c i)) x (nRaft n)
     \<and> sent (cNodes c i) n \<subseteq> set (rMsgs (nRaft (cNodes c i))) \<and> (grant x \<longrightarrow> x \<in> cNet c \<and> mTo x = i)"

section \<open>Quorum systems\<close>

text \<open>What elections need of majorities: any two have a member in common.\<close>

locale quorum_system =
  fixes quorums :: "'c \<Rightarrow> 'v set set"
  assumes intersect: "A \<in> quorums c \<Longrightarrow> B \<in> quorums c \<Longrightarrow> A \<inter> B \<noteq> {}"
begin

lemma winner_unique:
  assumes "A \<in> quorums c" "B \<in> quorums c" "\<forall>v \<in> A. voted v x" "\<forall>v \<in> B. voted v y"
    "\<And>v x y. voted v x \<Longrightarrow> voted v y \<Longrightarrow> x = y"
  shows "x = y"
  using intersect [OF assms(1,2)] assms(3-5) by blast

end

lemma majorities_meet:
  assumes "A \<in> majorities ids" "B \<in> majorities ids"
  shows "A \<inter> B \<noteq> {}"
proof
  assume "A \<inter> B = {}"
  moreover have sub: "A \<subseteq> set ids" "B \<subseteq> set ids" using assms by (auto simp: majorities_def)
  ultimately have "card A + card B = card (A \<union> B)"
    using finite_subset [OF sub(1)] finite_subset [OF sub(2)] by (simp add: card_Un_disjoint)
  also have "... \<le> card (set ids)" using sub by (intro card_mono) auto
  also have "... \<le> length ids" by (rule card_length)
  finally show False using assms by (auto simp: majorities_def)
qed

interpretation maj: quorum_system majorities
  by unfold_locales (rule majorities_meet)

section \<open>One event at one node\<close>

lemma elect_vote_step: "elect_step r m r' \<Longrightarrow> vote_step r m r'"
  unfolding elect_step_def vote_step_def by (elim conjE exE) auto

lemma elapsed_elect:
  assumes "elect_step r1 x r'" "r1 = r\<lparr>rElectionElapsed := e\<rparr> \<or> r1 = r\<lparr>rHeartbeatElapsed := e\<rparr>" "\<not> grant x"
  shows "elect_step r m r'"
proof -
  have r1: "rId r1 = rId r" "rPrs r1 = rPrs r" "rTerm r1 = rTerm r" "rVote r1 = rVote r" "rMsgs r1 = rMsgs r"
    "rState r1 = rState r" "quorum r1 = quorum r" and b: "backed r1 x v T \<Longrightarrow> backed r m v T" for v T
    using assms(2,3) by (auto simp: backed_def quorum_def)
  show ?thesis using assms(1) unfolding elect_step_def r1 by (blast intro: b)
qed

lemma elapsed_inv [simp]:
  "node_inv (r\<lparr>rElectionElapsed := e\<rparr>) = node_inv r" "node_inv (r\<lparr>rHeartbeatElapsed := e\<rparr>) = node_inv r"
  using quiet_inv [OF quiet_field(6)] quiet_inv [OF quiet_field(7)] by blast+

lemma timer_elect:
  assumes "Step q x = Inr r'" "q = r\<lparr>rElectionElapsed := e\<rparr> \<or> q = r\<lparr>rHeartbeatElapsed := e\<rparr>"
    "node_inv r" "rTerm r + 1 < U64" "mTerm x = 0" "mType x = MsgHup \<or> mType x = MsgBeat"
  shows "elect_step r m r'"
proof (rule elapsed_elect)
  show "elect_step q x r'"
    using assms by (intro Step_elect) (auto simp: U64_def)
qed (use assms(2,6) in \<open>auto simp: grant_def\<close>)

lemma run_tick_elect:
  assumes "run_tick t r = Inr r'" "node_inv r" "rTerm r + 1 < U64"
  shows "elect_step r m r'"
proof (cases t)
  case TickElection
  then have "r' = r\<lparr>rElectionElapsed := s32 (rElectionElapsed r + 1)\<rparr>
      \<or> Step (r\<lparr>rElectionElapsed := 0\<rparr>) ((msg0 MsgHup)\<lparr>mFrom := rId r\<rparr>) = Inr r'"
    using assms(1) by (auto simp: tickElection_def Let_def split: if_splits)
  then show ?thesis
    using timer_elect [where q = "r\<lparr>rElectionElapsed := 0\<rparr>" and r = r and e = 0] assms(2,3) quiet_elect [OF quiet_field(6) assms(2)]
    by (elim disjE) (simp_all add: msg0_def)
next
  case TickHeartbeat
  then have "r' = r \<or> r' = r\<lparr>rHeartbeatElapsed := s32 (rHeartbeatElapsed r + 1)\<rparr>
      \<or> Step (r\<lparr>rHeartbeatElapsed := 0\<rparr>) ((msg0 MsgBeat)\<lparr>mFrom := rId r\<rparr>) = Inr r'"
    using assms(1) by (auto simp: tickHeartbeat_def Let_def split: if_splits)
  then show ?thesis
    using timer_elect [where q = "r\<lparr>rHeartbeatElapsed := 0\<rparr>" and r = r and e = 0] assms(2,3) quiet_elect [OF quiet_field(7) assms(2)]
      quiet_elect [OF quiet_refl assms(2)]
    by (elim disjE) (simp_all add: msg0_def)
qed

lemma onAdvance_elect:
  assumes "onAdvance n = Inr n'" "node_inv (nRaft n)"
  shows "elect_step (nRaft n) m (nRaft n')"
  using assms by (auto simp: onAdvance_def Let_def res_simps split: if_splits option.splits intro!: quiet_elect)

lemma vote_step_refl: "node_inv r \<Longrightarrow> vote_step r m r"
  by (intro elect_vote_step quiet_elect) auto

lemma vote_step_handed_out:
  "node_inv r \<Longrightarrow> vote_step r m (r\<lparr>rMsgs := [], rReadStates := rs\<rparr>)"
  using vote_step_refl [of r m] by (simp add: vote_step_def node_inv_def roles_ok_def cong: state_type.case_cong)

lemma vote_step_reordered:
  "node_inv r \<Longrightarrow> mset ps = mset (rPrs r) \<Longrightarrow> vote_step r m (r\<lparr>rPrs := ps\<rparr>)"
  using vote_step_refl [of r m] by (simp add: vote_step_def node_inv_def roles_ok_def cong: state_type.case_cong)

lemma onReady_vote:
  assumes "onReady n = Inr n'" "node_inv (nRaft n)"
  shows "vote_step (nRaft n) m (nRaft n')" "sent n n' \<subseteq> set (rMsgs (nRaft n))"
proof -
  have "n' = n \<or> nRaft n' = (nRaft n)\<lparr>rMsgs := [], rReadStates := []\<rparr>
      \<and> (\<exists>rd. nReady n' = Some rd \<and> rdMessage rd = rMsgs (nRaft n))"
    using assms(1) by (auto simp: onReady_def newReady_def res_simps split: if_splits)
  then show "vote_step (nRaft n) m (nRaft n')" "sent n n' \<subseteq> set (rMsgs (nRaft n))"
    using assms(2) by (auto simp: sent_def vote_step_refl vote_step_handed_out)
qed

lemma step_event_vote:
  assumes "node_run n (node_step m) = Inr n'" "node_inv (nRaft n)" "term_room n (node_step m)"
    "timed m \<longrightarrow> mTerm m \<noteq> 0"
  shows "\<exists>x. vote_step (nRaft n) x (nRaft n') \<and> sent n n' = {} \<and> (grant x \<longrightarrow> x = m)"
proof (cases "mType m = MsgProp")
  case True
  let ?m = "m\<lparr>mFrom := rId (nRaft n)\<rparr>"
  obtain r where r: "Step (nRaft n) ?m = Inr r" "n' = n\<lparr>nRaft := r\<rparr>"
    using assms(1) True by (auto simp: node_step_def res_simps)
  have "elect_step (nRaft n) ?m r"
    using r(1) assms True by (intro Step_elect) (auto simp: node_step_def)
  then show ?thesis
    using r True by (intro exI [of _ ?m]) (auto simp: elect_vote_step sent_def grant_def)
next
  case False
  obtain r where r: "Step (nRaft n) m = Inr r" "n' = n\<lparr>nRaft := r\<rparr>"
    using assms(1) False by (auto simp: node_step_def res_simps)
  have "elect_step (nRaft n) m r"
    using r(1) assms False by (intro Step_elect) (auto simp: node_step_def timed_def)
  then show ?thesis
    using r by (intro exI [of _ m]) (auto simp: elect_vote_step sent_def)
qed

lemma onAdvance_advancing: "onAdvance n = Inr n' \<Longrightarrow> nAdvancing n' \<Longrightarrow> n' = n"
  by (auto simp: onAdvance_def Let_def res_simps split: if_splits)

lemmas api_defs = api_Campaign_def api_Propose_def api_ProposeConfChange_def api_ReadIndex_def

lemma event_vote:
  assumes "node_run n ev = Inr n'" "node_inv (nRaft n)" "term_room n ev" "enabled net i ev"
    "\<forall>m \<in> net. timed m \<longrightarrow> mTerm m \<noteq> 0"
  shows "\<exists>x. vote_step (nRaft n) x (nRaft n') \<and> sent n n' \<subseteq> set (rMsgs (nRaft n))
    \<and> (grant x \<longrightarrow> x \<in> net \<and> mTo x = i)"
proof -
  have app: "\<exists>x. vote_step (nRaft n) x (nRaft n') \<and> sent n n' \<subseteq> set (rMsgs (nRaft n))
      \<and> (grant x \<longrightarrow> x \<in> net \<and> mTo x = i)"
    if "ev = node_step m" "timed m \<longrightarrow> mTerm m \<noteq> 0" "grant m \<longrightarrow> m \<in> net \<and> mTo m = i" for m
    using step_event_vote [of n m n'] assms(1-3) that by auto
  have quiet: "\<exists>x. vote_step (nRaft n) x (nRaft n') \<and> sent n n' \<subseteq> set (rMsgs (nRaft n))
      \<and> (grant x \<longrightarrow> x \<in> net \<and> mTo x = i)"
    if "vote_step (nRaft n) (msg0 MsgHup) (nRaft n')" "sent n n' \<subseteq> set (rMsgs (nRaft n))"
    using that by (intro exI [of _ "msg0 MsgHup"]) (simp add: grant_def msg0_def)
  from assms(4) show ?thesis
  proof cases
    case campaign
    then show ?thesis by (intro app) (auto simp: api_defs timed_def grant_def msg0_def)
  next
    case (propose d)
    then show ?thesis by (intro app) (auto simp: api_defs timed_def grant_def msg0_def)
  next
    case (propose_conf d)
    then show ?thesis by (intro app) (auto simp: api_defs timed_def grant_def msg0_def)
  next
    case (read_index d)
    then show ?thesis by (intro app) (auto simp: api_defs timed_def grant_def msg0_def)
  next
    case (deliver m)
    then show ?thesis using assms(5) by (intro app) auto
  next
    case tick
    then have "elect_step (nRaft n) (msg0 MsgHup) (nRaft n')" "sent n n' = {}"
      using assms(1-3) by (auto simp: res_simps sent_def intro: run_tick_elect)
    then show ?thesis by (intro quiet) (auto intro: elect_vote_step)
  next
    case ready
    then show ?thesis using onReady_vote [of n n'] assms(1,2) by (intro quiet) auto
  next
    case advance
    then have "elect_step (nRaft n) (msg0 MsgHup) (nRaft n')" "sent n n' = {}"
      using assms(1,2) onAdvance_advancing [of n n'] by (auto simp: sent_def intro: onAdvance_elect)
    then show ?thesis by (intro quiet) (auto intro: elect_vote_step)
  qed
qed

section \<open>The invariant is kept\<close>

lemma msg_ok_more: "msg_ok c m \<Longrightarrow> cVoted c \<subseteq> cVoted c' \<Longrightarrow> msg_ok c' m"
  by (auto simp: msg_ok_def)

lemma record_node_simps [simp]:
  "cNodes (record_node c i n) = (cNodes c)(i := n)"
  "cNet (record_node c i n) = cNet c \<union> sent (cNodes c i) n"
  "cVoted (record_node c i n) =
     cVoted c \<union> (if rVote (nRaft n) = 0 then {} else {(i, rTerm (nRaft n), rVote (nRaft n))})"
  "cLeaders (record_node c i n) =
     cLeaders c \<union> (if rState (nRaft n) = StateLeader then {(i, rTerm (nRaft n))} else {})"
  by (simp_all add: record_node_def)

lemma step_hyps_local:
  assumes "step_hyps ids c i x n"
  defines "r \<equiv> nRaft (cNodes c i)"
  shows "node_inv r" "rId r = i" "mset (map fst (rPrs r)) = mset ids"
    "(i, T, y) \<in> cVoted c \<Longrightarrow> T \<le> rTerm r" "(i, rTerm r, y) \<in> cVoted c \<Longrightarrow> rVote r = y"
    "m \<in> set (rMsgs r) \<Longrightarrow> msg_ok c m" "rState r = StateCandidate \<Longrightarrow> (v, True) \<in> set (rVotes r)
      \<Longrightarrow> (v, rTerm r, i) \<in> cVoted c" "rState r = StateLeader \<Longrightarrow> (i, rTerm r) \<in> cLeaders c"
    "i \<noteq> 0" "quorum r = length ids div 2 + 1"
proof -
  have "i \<noteq> 0" using assms(1) unfolding step_hyps_def by metis
  moreover have "local_ok ids c i" using assms(1) by (simp add: step_hyps_def cluster_inv_def)
  moreover from this have "length (map fst (rPrs r)) = length ids"
    unfolding r_def local_ok_def Let_def by (metis size_mset)
  ultimately show "node_inv r" "rId r = i" "mset (map fst (rPrs r)) = mset ids"
    "(i, T, y) \<in> cVoted c \<Longrightarrow> T \<le> rTerm r" "(i, rTerm r, y) \<in> cVoted c \<Longrightarrow> rVote r = y"
    "m \<in> set (rMsgs r) \<Longrightarrow> msg_ok c m" "rState r = StateCandidate \<Longrightarrow> (v, True) \<in> set (rVotes r)
      \<Longrightarrow> (v, rTerm r, i) \<in> cVoted c" "rState r = StateLeader \<Longrightarrow> (i, rTerm r) \<in> cLeaders c"
    "i \<noteq> 0" "quorum r = length ids div 2 + 1"
    by (simp_all add: local_ok_def Let_def r_def quorum_def)
qed

lemma step_backed:
  assumes h: "step_hyps ids c i x n" and b: "backed (nRaft (cNodes c i)) x v (rTerm (nRaft n))"
    and self: "rVote (nRaft n) = i"
  shows "(v, rTerm (nRaft n), i) \<in> cVoted (record_node c i n)"
proof -
  note l = step_hyps_local [OF h]
  have x: "(mFrom x, mTerm x, i) \<in> cVoted c \<and> mTerm x \<noteq> 0" if "grant x"
    using h that l(9) by (auto simp: step_hyps_def cluster_inv_def msg_ok_def timed_def)
  from b consider "v = i" | "rState (nRaft (cNodes c i)) = StateCandidate"
      "rTerm (nRaft n) = rTerm (nRaft (cNodes c i))" "(v, True) \<in> set (rVotes (nRaft (cNodes c i)))"
    | "grant x" "v = mFrom x" "mTerm x = 0 \<or> mTerm x = rTerm (nRaft n)"
    by (auto simp: backed_def l(2))
  then show ?thesis
  proof cases
    case 1
    then show ?thesis using self l(9) by simp
  next
    case 2
    then show ?thesis using l(7) by simp
  next
    case 3
    then show ?thesis using x by auto
  qed
qed


lemma voted_grows: "cVoted c \<subseteq> cVoted (record_node c i n)"
  by auto

text \<open>A vote of an earlier step for the same term is the vote the node still has.\<close>

lemma step_vote_kept:
  assumes h: "step_hyps ids c i x n" and v: "(i, T, y) \<in> cVoted c"
  shows "T \<le> rTerm (nRaft n)" "T = rTerm (nRaft n) \<Longrightarrow> rVote (nRaft n) = y"
proof -
  note l = step_hyps_local [OF h]
  have vs: "rTerm (nRaft (cNodes c i)) \<le> rTerm (nRaft n)"
    "rTerm (nRaft n) = rTerm (nRaft (cNodes c i)) \<and> rVote (nRaft (cNodes c i)) \<noteq> 0
       \<longrightarrow> rVote (nRaft n) = rVote (nRaft (cNodes c i))"
    using h unfolding step_hyps_def vote_step_def by blast+
  show "T \<le> rTerm (nRaft n)" using l(4) [OF v] vs(1) by simp
  assume T: "T = rTerm (nRaft n)"
  then have "T = rTerm (nRaft (cNodes c i))" using l(4) [OF v] vs(1) by simp
  moreover have "y \<noteq> 0" using h v unfolding step_hyps_def cluster_inv_def by blast
  ultimately show "rVote (nRaft n) = y" using vs(2) l(5) v T by auto
qed

lemma step_local:
  assumes h: "step_hyps ids c i x n"
  shows "local_ok ids (record_node c i n) i"
proof -
  let ?c = "record_node c i n" and ?r' = "nRaft n"
  note l = step_hyps_local [OF h]
  have vs: "vote_step (nRaft (cNodes c i)) x ?r'" using h by (simp add: step_hyps_def)
  have inv: "node_inv ?r'" "rId ?r' = i" "mset (map fst (rPrs ?r')) = mset ids"
    using vs l(2,3) unfolding vote_step_def by simp_all
  have voted: "\<forall>T y. (i, T, y) \<in> cVoted ?c \<longrightarrow> T \<le> rTerm ?r' \<and> (T = rTerm ?r' \<longrightarrow> rVote ?r' = y)"
  proof (intro allI impI)
    fix T y
    assume "(i, T, y) \<in> cVoted ?c"
    then consider "(i, T, y) \<in> cVoted c" | "T = rTerm ?r'" "y = rVote ?r'"
      by (auto split: if_splits)
    then show "T \<le> rTerm ?r' \<and> (T = rTerm ?r' \<longrightarrow> rVote ?r' = y)"
      by cases (simp_all add: step_vote_kept [OF h])
  qed
  have msgs: "msg_ok ?c m" if m: "m \<in> set (rMsgs ?r')" for m
  proof (cases "m \<in> set (rMsgs (nRaft (cNodes c i)))")
    case True
    from msg_ok_more [OF l(6) [OF True] voted_grows] show ?thesis .
  next
    case False
    moreover have "\<forall>x \<in> set (rMsgs ?r'). x \<in> set (rMsgs (nRaft (cNodes c i))) \<or> (stamped x \<longrightarrow> mTerm x = rTerm ?r')
        \<and> (timed x \<longrightarrow> rTerm ?r' \<noteq> 0) \<and> (grant x \<longrightarrow> mFrom x = i \<and> mTo x = rVote ?r')"
      using vs l(2) by (simp add: vote_step_def)
    ultimately have "stamped m \<longrightarrow> mTerm m = rTerm ?r'" "timed m \<longrightarrow> rTerm ?r' \<noteq> 0"
        "grant m \<longrightarrow> mFrom m = i \<and> mTo m = rVote ?r'"
      using m by auto
    moreover have "timed m \<longrightarrow> stamped m" "grant m \<longrightarrow> stamped m"
      by (auto simp: timed_def stamped_def grant_def)
    ultimately show ?thesis by (auto simp: msg_ok_def)
  qed
  have cand: "(v, rTerm ?r', i) \<in> cVoted ?c" if "rState ?r' = StateCandidate" "(v, True) \<in> set (rVotes ?r')" for v
  proof (rule step_backed [OF h])
    show "backed (nRaft (cNodes c i)) x v (rTerm ?r')" using vs that by (simp add: vote_step_def)
    show "rVote ?r' = i" using inv that(1) by (simp add: node_inv_def)
  qed
  have lead: "rState ?r' = StateLeader \<longrightarrow> (i, rTerm ?r') \<in> cLeaders ?c" by simp
  show ?thesis
    unfolding local_ok_def Let_def record_node_simps(1) fun_upd_same
    using inv voted msgs cand lead by blast
qed

lemma step_leader_quorum:
  assumes h: "step_hyps ids c i x n" and lead: "rState (nRaft n) = StateLeader"
  shows "\<exists>Q \<in> majorities ids. \<forall>v \<in> Q. (v, rTerm (nRaft n), i) \<in> cVoted (record_node c i n)"
proof -
  note l = step_hyps_local [OF h]
  have inv: "cluster_inv ids c" and vs: "vote_step (nRaft (cNodes c i)) x (nRaft n)"
    using h by (simp_all add: step_hyps_def)
  from vs lead consider "rState (nRaft (cNodes c i)) = StateLeader" "rTerm (nRaft n) = rTerm (nRaft (cNodes c i))"
    | V where "distinct V" "length V = quorum (nRaft (cNodes c i))"
      "\<forall>v \<in> set V. backed (nRaft (cNodes c i)) x v (rTerm (nRaft n))" "rVote (nRaft n) = i"
    unfolding vote_step_def l(2) by blast
  then show ?thesis
  proof cases
    case 1
    then have "\<exists>Q \<in> majorities ids. \<forall>v \<in> Q. (v, rTerm (nRaft n), i) \<in> cVoted c"
      using l(8) inv unfolding cluster_inv_def by metis
    then show ?thesis by auto
  next
    case 2
    have voted: "\<forall>v \<in> set V. (v, rTerm (nRaft n), i) \<in> cVoted (record_node c i n)"
      using 2(3) step_backed [OF h _ 2(4)] by blast
    moreover have "v \<in> set ids" if "(v, T, y) \<in> cVoted (record_node c i n)" for v T y
      using that inv h unfolding cluster_inv_def step_hyps_def by (auto split: if_splits)
    ultimately have "set V \<in> majorities ids"
      using 2(1,2) l(10) by (auto simp: majorities_def distinct_card)
    then show ?thesis using voted by blast
  qed
qed

lemma step_inv:
  assumes h: "step_hyps ids c i x n"
  shows "cluster_inv ids (record_node c i n)"
proof -
  let ?c = "record_node c i n"
  note l = step_hyps_local [OF h]
  have inv: "cluster_inv ids c" and i: "i \<in> set ids"
    and sent: "sent (cNodes c i) n \<subseteq> set (rMsgs (nRaft (cNodes c i)))"
    using h by (simp_all add: step_hyps_def)
  have other: "local_ok ids ?c j" if j: "j \<in> set ids" "j \<noteq> i" for j
  proof -
    have loc: "local_ok ids c j" using inv j(1) by (simp add: cluster_inv_def)
    have node: "cNodes ?c j = cNodes c j" using j(2) by simp
    have voted: "(j, T, y) \<in> cVoted ?c \<longleftrightarrow> (j, T, y) \<in> cVoted c" for T y using j(2) by auto
    have leads: "(j, T) \<in> cLeaders ?c \<longleftrightarrow> (j, T) \<in> cLeaders c" for T using j(2) by auto
    have msgs: "msg_ok c m \<Longrightarrow> msg_ok ?c m" for m by (rule msg_ok_more [OF _ voted_grows])
    have grows: "z \<in> cVoted c \<Longrightarrow> z \<in> cVoted ?c" for z using voted_grows [of c i n] by blast
    show ?thesis
      unfolding local_ok_def Let_def node voted leads
      using loc [unfolded local_ok_def Let_def] msgs grows by blast
  qed
  have "\<forall>j \<in> set ids. local_ok ids ?c j" using other step_local [OF h] by blast
  moreover have "\<forall>m \<in> cNet ?c. msg_ok ?c m"
  proof
    fix m assume "m \<in> cNet ?c"
    then have "msg_ok c m" using inv sent l(6) by (auto simp: cluster_inv_def)
    then show "msg_ok ?c m" by (rule msg_ok_more [OF _ voted_grows])
  qed
  moreover have "\<forall>v T y. (v, T, y) \<in> cVoted ?c \<longrightarrow> v \<in> set ids \<and> y \<noteq> 0"
    using inv i unfolding cluster_inv_def by (auto split: if_splits)
  moreover have "\<forall>v T y z. (v, T, y) \<in> cVoted ?c \<longrightarrow> (v, T, z) \<in> cVoted ?c \<longrightarrow> y = z"
  proof (intro allI impI)
    fix v T y z
    assume y: "(v, T, y) \<in> cVoted ?c" and z: "(v, T, z) \<in> cVoted ?c"
    have old: "w = rVote (nRaft n)" if "(i, rTerm (nRaft n), w) \<in> cVoted c" for w
      using step_vote_kept(2) [OF h that] by simp
    have "\<forall>v T x y. (v, T, x) \<in> cVoted c \<longrightarrow> (v, T, y) \<in> cVoted c \<longrightarrow> x = y"
      using inv by (simp add: cluster_inv_def)
    then show "y = z" using y z old by (auto split: if_splits)
  qed
  moreover have "\<forall>j T. (j, T) \<in> cLeaders ?c \<longrightarrow> (\<exists>Q \<in> majorities ids. \<forall>v \<in> Q. (v, T, j) \<in> cVoted ?c)"
  proof (intro allI impI)
    fix j T
    assume "(j, T) \<in> cLeaders ?c"
    then consider "(j, T) \<in> cLeaders c" | "rState (nRaft n) = StateLeader" "j = i" "T = rTerm (nRaft n)"
      by (auto split: if_splits)
    then show "\<exists>Q \<in> majorities ids. \<forall>v \<in> Q. (v, T, j) \<in> cVoted ?c"
    proof cases
      case 1
      then have "\<exists>Q \<in> majorities ids. \<forall>v \<in> Q. (v, T, j) \<in> cVoted c"
        using inv by (simp add: cluster_inv_def)
      then show ?thesis using voted_grows [of c i n] by blast
    next
      case 2
      then show ?thesis using step_leader_quorum [OF h] by blast
    qed
  qed
  ultimately show ?thesis unfolding cluster_inv_def by blast
qed

lemma StartNode_fields:
  assumes "StartNode conf peers rands = Inr n"
  shows "rId (nRaft n) = cID conf" "rState (nRaft n) = StateFollower" "rStep (nRaft n) = StepFollower"
    "rTick (nRaft n) = TickElection" "rVotes (nRaft n) = []" "rMsgs (nRaft n) = []"
proof -
  have "rId r = cID conf \<and> rState r = StateFollower \<and> rStep r = StepFollower \<and> rTick r = TickElection
      \<and> rVotes r = [] \<and> rMsgs r = []" if "newRaft conf rands = Inr r" for r
    using that by (auto simp: newRaft_def res_simps Let_def split: prod.splits)
  moreover have "rId r' = rId r \<and> rState r' = rState r \<and> rStep r' = rStep r \<and> rTick r' = rTick r
      \<and> rVotes r' = rVotes r \<and> rMsgs r' = rMsgs r" if "rfold (\<lambda>p r. addNode r p) peers r = Inr r'" for r r'
    by (rule rfold_invariant [where P = "\<lambda>r'. rId r' = rId r \<and> rState r' = rState r \<and> rStep r' = rStep r
        \<and> rTick r' = rTick r \<and> rVotes r' = rVotes r \<and> rMsgs r' = rMsgs r", OF that])
      (auto simp: addNode_def res_simps split: if_splits)
  ultimately show "rId (nRaft n) = cID conf" "rState (nRaft n) = StateFollower" "rStep (nRaft n) = StepFollower"
    "rTick (nRaft n) = TickElection" "rVotes (nRaft n) = []" "rMsgs (nRaft n) = []"
    using assms by (fastforce simp: StartNode_def res_simps newNode_def)+
qed

lemma init_inv:
  assumes "cluster_init ids c"
  shows "cluster_inv ids c"
proof -
  have "local_ok ids c i" if i: "i \<in> set ids" for i
  proof -
    obtain conf peers rands where "cID conf = i" "StartNode conf peers rands = Inr (cNodes c i)"
      using assms i unfolding cluster_init_def by blast
    note f = StartNode_fields [OF this(2), unfolded this(1)]
    have "i \<noteq> 0" using assms i unfolding cluster_init_def by metis
    then show ?thesis
      using assms i f by (simp add: cluster_init_def local_ok_def Let_def node_inv_def roles_ok_def)
  qed
  then show ?thesis using assms by (simp add: cluster_init_def cluster_inv_def)
qed

lemma reach_inv: "cluster_reach ids c \<Longrightarrow> cluster_inv ids c \<and> 0 \<notin> set ids"
proof (induction rule: cluster_reach.induct)
  case (start c)
  then show ?case by (simp add: init_inv) (simp add: cluster_init_def)
next
  case (step c c')
  from step(2) show ?case
  proof cases
    case (run i ev n)
    have "\<exists>x. step_hyps ids c i x n"
      using event_vote [OF run(5) _ run(4,3)] step.IH run(2)
      by (auto simp: step_hyps_def cluster_inv_def local_ok_def Let_def msg_ok_def)
    then show ?thesis using step_inv step.IH run(1) by blast
  next
    case (reorder i ps)
    have "step_hyps ids c i (msg0 MsgHup) ((cNodes c i)\<lparr>nRaft := (nRaft (cNodes c i))\<lparr>rPrs := ps\<rparr>\<rparr>)"
      using step.IH reorder vote_step_reordered
      by (auto simp: step_hyps_def sent_def grant_def msg0_def cluster_inv_def local_ok_def Let_def)
    then show ?thesis using step_inv step.IH reorder(1) by blast
  qed
qed

section \<open>Election safety\<close>

text \<open>C1: Election safety.  In every reachable state of a cluster of nodes started by
  \<^verbatim>\<open>StartNode\<close>, at most one node has ever been leader of a term, whatever the network delivered,
  lost, repeated or reordered.\<close>

theorem election_safety:
  assumes "cluster_reach ids c" "(i, T) \<in> cLeaders c" "(j, T) \<in> cLeaders c"
  shows "i = j"
proof -
  have inv: "cluster_inv ids c" using reach_inv [OF assms(1)] by simp
  then obtain A B where q: "A \<in> majorities ids" "B \<in> majorities ids"
    "\<forall>v \<in> A. (v, T, i) \<in> cVoted c" "\<forall>v \<in> B. (v, T, j) \<in> cVoted c"
    using assms(2,3) unfolding cluster_inv_def by meson
  show ?thesis
    by (rule maj.winner_unique [OF q(1,2), where voted = "\<lambda>v x. (v, T, x) \<in> cVoted c"])
      (use q(3,4) inv in \<open>auto simp: cluster_inv_def\<close>)
qed

text \<open>C24: A node votes for at most one candidate in a term, over the whole run.\<close>

theorem vote_once:
  assumes "cluster_reach ids c" "(v, T, x) \<in> cVoted c" "(v, T, y) \<in> cVoted c"
  shows "x = y"
  using reach_inv [OF assms(1)] assms(2,3) unfolding cluster_inv_def by blast

text \<open>C25: Every leader of a term was voted for in that term by a majority of the members.\<close>

theorem leader_has_majority:
  assumes "cluster_reach ids c" "i \<in> set ids" "rState (nRaft (cNodes c i)) = StateLeader"
  shows "\<exists>Q. Q \<subseteq> set ids \<and> length ids div 2 + 1 \<le> card Q
    \<and> (\<forall>v \<in> Q. (v, rTerm (nRaft (cNodes c i)), i) \<in> cVoted c)"
proof -
  have inv: "cluster_inv ids c" using reach_inv [OF assms(1)] by simp
  then have "(i, rTerm (nRaft (cNodes c i))) \<in> cLeaders c"
    using assms(2,3) by (simp add: cluster_inv_def local_ok_def Let_def)
  with inv show ?thesis by (auto simp: cluster_inv_def majorities_def)
qed

end
