(* ===== verification/Raft_Replication.thy ===== *)
theory Raft_Replication
  imports Raft_Election "HOL-Library.Multiset"
begin

text \<open>
  What one call of \<^verbatim>\<open>Step\<close> does to the replicated log, the commit rule of the leader, and the
  queue of pending reads.  \<open>extends\<close> is the contract of every handler: the log stays well formed,
  the commit index never moves back and no committed entry changes.
\<close>

section \<open>Definitions\<close>

definition log_inv :: "memory_storage raft_log \<Rightarrow> bool" where
  "log_inv l \<longleftrightarrow> rl_wf ms_inv ms_didx ms_log l \<and> ms_d l = 0 \<and> ms_dterm (rlStorage l) = 0"

text \<open>\<open>extends l l'\<close>: the log is still well formed, commits nothing back and keeps every committed
  entry.\<close>

definition extends :: "memory_storage raft_log \<Rightarrow> memory_storage raft_log \<Rightarrow> bool" where
  "extends l l' \<longleftrightarrow> log_inv l' \<and> commitIndex l \<le> commitIndex l' \<and> applyIndex l' = applyIndex l
     \<and> take (commitIndex l) (ms_full l') = take (commitIndex l) (ms_full l)"

definition log_room :: "raft \<Rightarrow> message \<Rightarrow> bool" where
  "log_room r m \<longleftrightarrow> length (ms_full (rLog r)) + length (mEntries m) + 2 < U64"

text \<open>The shape of an append message: contiguous entries of positive terms after the previous
  index, whose term is 0 only at index 0.\<close>

definition app_ok :: "message \<Rightarrow> bool" where
  "app_ok m \<longleftrightarrow> indexed_from (mLogIndex m + 1) (mEntries m) \<and> terms_pos (mEntries m)
     \<and> (mLogTerm m = 0 \<longrightarrow> mLogIndex m = 0) \<and> mLogIndex m + length (mEntries m) + 1 < U64"

text \<open>The pending reads and their queue agree.\<close>

definition ro_inv :: "read_only \<Rightarrow> bool" where
  "ro_inv ro \<longleftrightarrow> distinct (readIndexQueue ro) \<and> dom (pendingReadIndex ro) = set (readIndexQueue ro)
     \<and> (\<forall>ctx rs. pendingReadIndex ro ctx = Some rs \<longrightarrow> (\<exists>e es. mEntries (risReq rs) = e # es \<and> eData e = ctx))"

section \<open>The log under one step\<close>

lemma log_invD:
  assumes "log_inv l"
  shows "ms_ok l" "ms_d l = 0" "applyIndex l \<le> commitIndex l" "commitIndex l \<le> length (ms_full l)"
    "ms_dterm (rlStorage l) = 0"
  using assms by (auto simp: log_inv_def rl_wf_def)

lemma log_inv_commit [simp]:
  "log_inv l \<Longrightarrow> commitIndex l \<le> c \<Longrightarrow> c \<le> length (ms_full l) \<Longrightarrow> log_inv (l\<lparr>commitIndex := c\<rparr>)"
  by (auto simp: log_inv_def rl_wf_def)

lemma extends_refl [simp]: "extends l l = log_inv l"
  by (simp add: extends_def)

lemma extends_trans:
  assumes "extends a b" "extends b c"
  shows "extends a c"
proof -
  have "take (commitIndex a) (ms_full c) = take (commitIndex a) (take (commitIndex b) (ms_full c))"
    using assms(1) by (simp add: extends_def min_absorb1)
  also have "... = take (commitIndex a) (ms_full b)"
    using assms by (simp add: extends_def min_absorb1)
  finally show ?thesis using assms by (auto simp: extends_def)
qed

lemma last_index: "log_inv l \<Longrightarrow> rl_lastIndex memStorage l = Inr (length (ms_full l))"
  using ms.rl_lastIndex_ok [of l] log_invD [of l] by simp

lemma commitTo_extends:
  assumes "rl_commitTo memStorage l c = Inr l'" "log_inv l"
  shows "extends l l'"
proof (cases "c \<le> commitIndex l")
  case True
  then show ?thesis using assms by (simp add: rl_commitTo_def)
next
  case False
  then have "c \<le> length (ms_full l) \<and> l' = l\<lparr>commitIndex := c\<rparr>"
    using assms by (auto simp: rl_commitTo_def res_simps last_index split: if_splits)
  then show ?thesis using False assms(2) by (auto simp: extends_def)
qed

lemma maybeCommit_extends:
  "rl_maybeCommit memStorage l i t = Inr (l', b) \<Longrightarrow> log_inv l \<Longrightarrow> extends l l'"
  by (auto simp: rl_maybeCommit_def res_simps intro: commitTo_extends split: if_splits)

lemma append_extends:
  assumes "rl_append memStorage l es = Inr (l', i)" "log_inv l" "indexed_from (length (ms_full l) + 1) es"
    "terms_pos es" "length (ms_full l) + length es + 1 < U64"
  shows "extends l l' \<and> ms_full l' = ms_full l @ es \<and> i = length (ms_full l) + length es"
proof (cases "es = []")
  case True
  then show ?thesis using assms(1,2) by (auto simp: rl_append_def res_simps last_index)
next
  case False
  note l = log_invD [OF assms(2)]
  obtain u where "rl_append memStorage l es = Inr (l\<lparr>rlUnstable := u\<rparr>, length (ms_full l) + length es)"
    "ms_ok (l\<lparr>rlUnstable := u\<rparr>)" "ms_full (l\<lparr>rlUnstable := u\<rparr>) = ms_full l @ es"
    using ms.rl_append_ok [OF l(1) assms(3,4) False] assms(5) l(2,4) by auto
  then show ?thesis
    using assms(1,2) l by (auto simp: extends_def log_inv_def rl_wf_def)
qed

lemma maybeAppend_extends:
  assumes "rl_maybeAppend memStorage l (mLogIndex m) (mLogTerm m) ci (mEntries m) = Inr (l', res)"
    "log_inv l" "app_ok m"
  shows "extends l l'"
proof -
  note l = log_invD [OF assms(2)]
  let ?i = "mLogIndex m" and ?t = "mLogTerm m" and ?es = "mEntries m"
  let ?c = "first_conflict 0 0 (ms_full l) ?es"
  have m: "indexed_from (?i + 1) ?es" "terms_pos ?es" "?i + length ?es + 1 < U64" "?t = 0 \<longrightarrow> ?i = 0"
    using assms(3) by (auto simp: app_ok_def)
  show ?thesis
  proof (cases "term_at 0 0 (ms_full l) ?i = ?t")
    case False
    then show ?thesis using ms.rl_maybeAppend_reject [OF l(1)] assms(1,2) l(2,5) by simp
  next
    case match: True
    then have i: "?i \<le> length (ms_full l)"
      using m(4) by (cases "?t = 0") (auto simp: term_at_def split: if_splits)
    show ?thesis
    proof (cases "0 < ?c \<and> ?c \<le> commitIndex l")
      case True
      then show ?thesis using ms.rl_maybeAppend_panic [OF l(1)] assms(1) match l(2,5) by simp
    next
      case False
      then have c: "?c = 0 \<or> commitIndex l < ?c" by auto
      define N where "N = (if ?c = 0 then ms_full l
        else take (?c - ms_d l - 1) (ms_full l) @ drop (?c - ?i - 1) ?es)"
      have kept: "take (commitIndex l - 0) N = take (commitIndex l - 0) (ms_full l)"
        unfolding N_def l(2) by (rule merged_log(2) [OF _ _ m(1,2) refl c]) (use i in auto)
      then have "length (take (commitIndex l) N) = commitIndex l" using l(4) by simp
      then have len: "commitIndex l \<le> length N" by (simp add: min_def split: if_splits)
      have "\<exists>l2. rl_maybeAppend memStorage l ?i ?t ci ?es = Inr (l2, Some (?i + length ?es)) \<and> ms_ok l2
          \<and> ms_full l2 = N \<and> rlStorage l2 = rlStorage l \<and> commitIndex l2 = max (commitIndex l) (min ci (?i + length ?es))
          \<and> applyIndex l2 = applyIndex l \<and> ?i + length ?es \<le> ms_d l + length N"
        unfolding N_def
        by (rule ms.rl_maybeAppend_ok [OF l(1) _ _ _ m(1-3)]) (use l match i c in auto)
      then show ?thesis
        using assms(1) l(2,3,5) kept len by (auto simp: extends_def log_inv_def rl_wf_def)
    qed
  qed
qed

lemma stamp_indexed: "i + length es < U64 \<Longrightarrow> indexed_from i (stamp t i es)"
  by (induction t i es rule: stamp.induct) (auto simp: add64_small)

lemma stamp_terms: "0 < t \<Longrightarrow> terms_pos (stamp t i es)"
  by (induction t i es rule: stamp.induct) auto

lemma length_stamp [simp]: "length (stamp t i es) = length es"
  by (induction t i es rule: stamp.induct) auto

lemma r_maybeCommit_extends:
  "r_maybeCommit r = Inr (r', b) \<Longrightarrow> log_inv (rLog r) \<Longrightarrow> extends (rLog r) (rLog r')"
  by (auto simp: r_maybeCommit_def res_simps dest: maybeCommit_extends)

lemma appendEntry_extends:
  assumes "appendEntry r es = Inr r'" "log_inv (rLog r)" "0 < rTerm r"
    "length (ms_full (rLog r)) + length es + 1 < U64"
  shows "extends (rLog r) (rLog r')"
proof -
  let ?n = "length (ms_full (rLog r))"
  have li: "add64 ?n 1 = ?n + 1" using assms(4) by (simp add: add64_small)
  obtain l i pr b where l: "rl_append memStorage (rLog r) (stamp (rTerm r) (?n + 1) es) = Inr (l, i)"
    "r_maybeCommit (r\<lparr>rLog := l, rPrs := upd_al (rId r) (fst (pr_maybeUpdate pr i)) (rPrs r)\<rparr>) = Inr (r', b)"
    using assms(1) by (auto simp: appendEntry_def last_index [OF assms(2)] li [simplified] res_simps split: option.splits)
  have e: "extends (rLog r) l"
    using append_extends [OF l(1) assms(2)] assms(3,4) by (simp add: stamp_indexed stamp_terms)
  moreover have "extends l (rLog r')"
    using r_maybeCommit_extends [OF l(2)] e by (simp add: extends_def)
  ultimately show ?thesis by (rule extends_trans)
qed

lemma becomeLeader_extends:
  assumes "becomeLeader r = Inr r'" "log_inv (rLog r)" "0 < rTerm r" "length (ms_full (rLog r)) + 2 < U64"
  shows "extends (rLog r) (rLog r')"
proof -
  have "\<exists>r1. appendEntry r1 [zero_entry] = Inr r' \<and> rLog r1 = rLog r \<and> rTerm r1 = rTerm r"
    using assms(1)
    by (auto simp: becomeLeader_def res_simps Let_def split: if_splits)
  then obtain r1 where r1: "appendEntry r1 [zero_entry] = Inr r'" "rLog r1 = rLog r" "rTerm r1 = rTerm r"
    by blast
  from appendEntry_extends [OF r1(1)] assms(2-4) r1(2,3) show ?thesis by simp
qed

lemma send_log [simp]: "rLog (send r m) = rLog r"
  by (simp add: send_def Let_def)

lemma rfold_log:
  assumes "rfold f xs r = Inr r'" "\<And>x r1 r2. f x r1 = Inr r2 \<Longrightarrow> rLog r2 = rLog r1"
  shows "rLog r' = rLog r"
  by (rule rfold_invariant [where P = "\<lambda>r'. rLog r' = rLog r", OF assms(1)]) (auto dest: assms(2))

lemma sendHeartbeat_log: "sendHeartbeat r i ctx = Inr r' \<Longrightarrow> rLog r' = rLog r"
  by (auto simp: sendHeartbeat_def split: option.splits)

lemma sendAppend_log: "sendAppend r i = Inr r' \<Longrightarrow> rLog r' = rLog r"
  by (auto simp: sendAppend_def res_simps split: option.splits)

lemma broadcastHeartbeatWithCtx_log: "broadcastHeartbeatWithCtx r ctx = Inr r' \<Longrightarrow> rLog r' = rLog r"
  unfolding broadcastHeartbeatWithCtx_def
  by (erule rfold_log) (auto split: if_splits dest: sendHeartbeat_log)

lemma broadcastAppend_log: "broadcastAppend r = Inr r' \<Longrightarrow> rLog r' = rLog r"
  unfolding broadcastAppend_def by (erule rfold_log) (auto split: if_splits dest: sendAppend_log)

lemma answer_reads_log: "answer_reads rss r = Inr r' \<Longrightarrow> rLog r' = rLog r"
  by (induction rss r rule: answer_reads.induct) (auto simp: res_simps Let_def split: if_splits)

lemmas send_logs = sendHeartbeat_log sendAppend_log broadcastHeartbeatWithCtx_log broadcastAppend_log answer_reads_log

lemma campaign_extends:
  assumes "campaign r ct = Inr r'" "log_inv (rLog r)" "rTerm r + 1 < U64" "length (ms_full (rLog r)) + 2 < U64"
  shows "extends (rLog r) (rLog r')"
proof -
  have quiet: "rLog r' = rLog r1" if "rfold (\<lambda>i r. if i = rId r then Inr r
      else rbind (rl_lastTerm memStorage (rLog r)) (\<lambda>lt. rbind (lastIndexOf r) (\<lambda>li.
        Inr (send r ((msg0 t)\<lparr>mTerm := trm, mTo := i, mLogTerm := lt, mLogIndex := li\<rparr>)))))
      ks r1 = Inr r'" for r1 t trm ks
    by (rule rfold_log [OF that]) (auto simp: res_simps split: if_splits)
  have elect: "extends (rLog q) (rLog r')" if "campaign q campaignElection = Inr r'" "rLog q = rLog r" "rTerm q = rTerm r" for q
    using that assms(2-4)
    by (auto simp: campaign.simps [of q] becomeCandidate_def poll_def Let_def res_simps add64_small
        dest!: quiet becomeLeader_extends split: if_splits)
  show ?thesis
  proof (cases ct)
    case campaignElection
    then show ?thesis using assms(1) elect [of r] by simp
  next
    case campaignPreElection
    then show ?thesis
      using assms(1,2) elect
      by (auto simp: campaign.simps [of r] becomePreCandidate_def poll_def Let_def res_simps
          dest!: quiet split: if_splits)
  qed
qed


lemma handleAppendEntries_extends:
  assumes "handleAppendEntries r m = Inr r'" "log_inv (rLog r)" "app_ok m"
  shows "extends (rLog r) (rLog r')"
proof -
  obtain l res where l: "rl_maybeAppend memStorage (rLog r) (mLogIndex m) (mLogTerm m) (mCommitIndex m) (mEntries m)
      = Inr (l, res)" "rLog r' = l"
    using assms(1) by (auto simp: handleAppendEntries_def res_simps Let_def split: option.splits)
  with maybeAppend_extends [OF l(1) assms(2,3)] show ?thesis by simp
qed

lemma handleHeartbeat_extends:
  "handleHeartbeat r m = Inr r' \<Longrightarrow> log_inv (rLog r) \<Longrightarrow> extends (rLog r) (rLog r')"
  by (auto simp: handleHeartbeat_def res_simps dest: commitTo_extends)

lemma stepFollower_extends:
  assumes "stepFollower r m = Inr r'" "log_inv (rLog r)" "mType m = MsgApp \<longrightarrow> app_ok m"
  shows "extends (rLog r) (rLog r')"
proof (cases "mType m = MsgApp \<or> mType m = MsgHeartbeat")
  case True
  then show ?thesis
    using assms handleAppendEntries_extends [of "r\<lparr>rElectionElapsed := 0, rLead := mFrom m\<rparr>" m r']
      handleHeartbeat_extends [of "r\<lparr>rElectionElapsed := 0, rLead := mFrom m\<rparr>" m r']
    by (auto simp: stepFollower_def)
next
  case False
  then have "rLog r' = rLog r"
    using assms(1) by (auto simp: stepFollower_def res_simps split: message_type.splits if_splits)
  then show ?thesis using assms(2) by simp
qed

lemma stepCandidate_extends:
  assumes "stepCandidate r m = Inr r'" "log_inv (rLog r)" "mType m = MsgApp \<longrightarrow> app_ok m"
    "0 < rTerm r" "rTerm r + 1 < U64" "length (ms_full (rLog r)) + 2 < U64"
  shows "extends (rLog r) (rLog r')"
proof (cases "mType m = MsgApp \<or> mType m = MsgHeartbeat")
  case True
  then show ?thesis
    using assms handleAppendEntries_extends [of "becomeFollower r (rTerm r) (mFrom m)" m r']
      handleHeartbeat_extends [of "becomeFollower r (mTerm m) (mFrom m)" m r']
    by (auto simp: stepCandidate_def)
next
  case False
  have lead: "extends (rLog r) (rLog r')" if "becomeLeader q = Inr s" "broadcastAppend s = Inr r'" "rLog q = rLog r" "rTerm q = rTerm r" for q s
    using becomeLeader_extends [OF that(1)] broadcastAppend_log [OF that(2)] that(3,4) assms by simp
  have camp: "extends (rLog r) (rLog r')" if "campaign q campaignElection = Inr r'" "rLog q = rLog r" "rTerm q = rTerm r" for q
    using campaign_extends [OF that(1)] that(2,3) assms by simp
  show ?thesis
    using False assms(1,2)
    by (auto simp: stepCandidate_def poll_def Let_def res_simps intro: lead camp split: if_splits)
qed

lemma length_mark_conf: "length (fst (mark_conf pc es)) = length es"
  by (induction es arbitrary: pc) (auto simp: case_prod_beta)

lemma stepLeader_extends:
  assumes "stepLeader r m = Inr r'" "log_inv (rLog r)" "0 < rTerm r"
    "length (ms_full (rLog r)) + length (mEntries m) + 1 < U64"
  shows "extends (rLog r) (rLog r')"
proof (cases "mType m = MsgProp")
  case True
  obtain es pc where es: "mark_conf (rPendingConf r) (mEntries m) = (es, pc)" by fastforce
  have len: "length es = length (mEntries m)" using length_mark_conf [of "rPendingConf r" "mEntries m"] es by simp
  have "r' = r \<or> (\<exists>s. appendEntry (r\<lparr>rPendingConf := pc\<rparr>) es = Inr s \<and> broadcastAppend s = Inr r')"
    using assms(1) True es by (auto simp: stepLeader_def res_simps split: if_splits)
  then show ?thesis
    using appendEntry_extends [of "r\<lparr>rPendingConf := pc\<rparr>" es] broadcastAppend_log assms(2-4) len by auto
next
  case other: False
  have resp: "extends (rLog r) (rLog r')" if "stepLeaderAppResp r pr m = Inr r'" for pr
  proof -
    have "extends (rLog r) (rLog q)" if "r_maybeCommit (r\<lparr>rPrs := ps\<rparr>) = Inr (q, b)" for ps q b
      using r_maybeCommit_extends [OF that] assms(2) by simp
    then show ?thesis
      using that assms(2)
      by (auto simp: stepLeaderAppResp_def res_simps Let_def split: if_splits prod.splits
          dest!: sendAppend_log broadcastAppend_log)
  qed
  have "rLog r' = rLog r \<or> (\<exists>pr. stepLeaderAppResp r pr m = Inr r')"
    using assms(1) other
    by (auto simp: stepLeader_def stepLeaderReadIndex_def stepLeaderHeartbeatResp_def broadcastHeartbeat_def
        res_simps Let_def split: message_type.splits if_splits prod.splits option.splits dest!: send_logs)
  then show ?thesis using resp assms(2) by auto
qed


lemma dispatch_extends:
  assumes "dispatch r m = Inr r'" "log_inv (rLog r)" "mType m = MsgApp \<longrightarrow> app_ok m" "log_room r m"
    "0 < rTerm r" "rTerm r + 1 < U64"
  shows "extends (rLog r) (rLog r')"
proof -
  have room: "length (ms_full (rLog r)) + 2 < U64" "length (ms_full (rLog r)) + length (mEntries m) + 1 < U64"
    using assms(4) by (auto simp: log_room_def)
  consider "mType m = MsgHup" | "mType m = MsgVote \<or> mType m = MsgPreVote" | "run_step (rStep r) r m = Inr r'"
    using assms(1) by (auto simp: dispatch_def split: message_type.splits)
  then show ?thesis
  proof cases
    case 1
    then show ?thesis
      using assms(1,2,6) room
      by (auto simp: dispatch_def stepHup_def res_simps split: if_splits intro: campaign_extends)
  next
    case 2
    then have "rLog r' = rLog r"
      using assms(1) by (auto simp: dispatch_def stepVote_def res_simps split: if_splits)
    then show ?thesis using assms(2) by simp
  next
    case 3
    then show ?thesis
      using assms(2,3,5,6) room
      by (cases "rStep r") (auto intro: stepFollower_extends stepCandidate_extends stepLeader_extends)
  qed
qed

lemma Step_extends:
  assumes "Step r m = Inr r'" "log_inv (rLog r)" "mType m = MsgApp \<longrightarrow> app_ok m" "log_room r m"
    "0 < rTerm r" "rTerm r + 1 < U64" "mTerm m + 1 < U64"
  shows "extends (rLog r) (rLog r')"
proof -
  consider "dispatch r m = Inr r'" | "rLog r' = rLog r"
    | l where "rTerm r < mTerm m" "dispatch (becomeFollower r (mTerm m) l) m = Inr r'"
    using assms(1) by (auto simp: Step_def Let_def split: if_splits)
  then show ?thesis
  proof cases
    case 1
    then show ?thesis using assms(2-6) by (rule dispatch_extends)
  next
    case 2
    then show ?thesis using assms(2) by simp
  next
    case 3
    then show ?thesis
      using dispatch_extends [OF 3(2)] assms by (simp add: log_room_def)
  qed
qed

section \<open>The commit rule\<close>

lemma length_filter_take: "length (filter P (take n xs)) \<le> length (filter P xs)"
  using filter_append [of P "take n xs" "drop n xs"] by (simp del: filter_append)

lemma mset_length_filter: "mset xs = mset ys \<Longrightarrow> length (filter P xs) = length (filter P ys)"
  by (simp flip: size_mset)

text \<open>The element at position \<open>k\<close> of a list sorted downwards is reached by \<open>k + 1\<close> elements.\<close>

lemma nth_descending:
  fixes ms :: "nat list"
  assumes "k < length ms"
  shows "k + 1 \<le> length (filter (\<lambda>x. rev (sort ms) ! k \<le> x) ms)"
proof -
  let ?xs = "rev (sort ms)" and ?P = "\<lambda>x. rev (sort ms) ! k \<le> x"
  have ge: "?P x" if x: "x \<in> set (take (k + 1) ?xs)" for x
  proof -
    obtain j where j: "j < length (take (k + 1) ?xs)" "x = take (k + 1) ?xs ! j"
      using x unfolding in_set_conv_nth by blast
    then have j: "j \<le> k" "j < length ms" "x = ?xs ! j" using assms by auto
    have "sort ms ! (length ms - 1 - k) \<le> sort ms ! (length ms - 1 - j)"
      using j(1,2) assms by (intro sorted_nth_mono) auto
    then show ?thesis using j assms by (simp add: rev_nth)
  qed
  have "k + 1 = length (filter ?P (take (k + 1) ?xs))"
    using ge assms by (simp add: filter_True)
  also have "... \<le> length (filter ?P ?xs)"
    by (rule length_filter_take)
  also have "... = length (filter ?P ms)"
    by (rule mset_length_filter) simp
  finally show ?thesis .
qed

text \<open>Fewer than that reach anything above it.\<close>

lemma nth_descending_above:
  fixes ms :: "nat list"
  assumes "rev (sort ms) ! k < j"
  shows "length (filter (\<lambda>x. j \<le> x) ms) \<le> k"
proof -
  let ?xs = "rev (sort ms)"
  have less: "x < j" if x: "x \<in> set (drop k ?xs)" for x
  proof -
    obtain i where i: "i < length (drop k ?xs)" "x = drop k ?xs ! i" using x unfolding in_set_conv_nth by blast
    then have i: "k + i < length ms" "x = ?xs ! (k + i)" by auto
    have "sort ms ! (length ms - 1 - (k + i)) \<le> sort ms ! (length ms - 1 - k)"
      using i(1) by (intro sorted_nth_mono) auto
    then show ?thesis using i assms by (simp add: rev_nth)
  qed
  then have "filter (\<lambda>x. j \<le> x) (drop k ?xs) = []" by (fastforce simp: filter_empty_conv)
  then have "filter (\<lambda>x. j \<le> x) ?xs = filter (\<lambda>x. j \<le> x) (take k ?xs)"
    using filter_append [of "\<lambda>x. j \<le> x" "take k ?xs" "drop k ?xs"] by (simp del: filter_append)
  then have "length (filter (\<lambda>x. j \<le> x) ?xs) \<le> k"
    using length_filter_le [of "\<lambda>x. j \<le> x" "take k ?xs"] by simp
  then show ?thesis using mset_length_filter [of ?xs ms] by simp
qed

text \<open>The members known to hold the log up to \<open>i\<close>.\<close>

definition holders :: "raft \<Rightarrow> nat \<Rightarrow> nat" where
  "holders r i = length (filter (\<lambda>x. i \<le> pMatch (snd x)) (rPrs r))"

section \<open>Pending reads\<close>

lemma ro_scan_found:
  assumes "set (qs @ ctx # qs') \<subseteq> dom pend" "ctx \<notin> set qs"
  shows "ro_scan pend ctx (qs @ ctx # qs') = Inr (map (the \<circ> pend) (qs @ [ctx]), True)"
  using assms by (induction qs) (auto split: option.splits)

lemma ro_delete_map:
  assumes "\<And>c. c \<in> set cs \<Longrightarrow> \<exists>e es. mEntries (risReq (f c)) = e # es \<and> eData e = c"
  shows "ro_delete (map f cs) pend = Inr (\<lambda>c. if c \<in> set cs then None else pend c)"
  using assms
proof (induction cs arbitrary: pend)
  case Nil
  then show ?case by simp
next
  case (Cons c cs)
  obtain e es where e: "mEntries (risReq (f c)) = e # es" "eData e = c"
    using Cons.prems [of c] by auto
  have "ro_delete (map f cs) (pend(c := None)) = Inr (\<lambda>x. if x \<in> set cs then None else (pend(c := None)) x)"
    by (rule Cons.IH) (use Cons.prems in simp)
  then show ?case using e by (auto simp: fun_eq_iff)
qed

lemma ro_advance_ok:
  assumes "ro_inv ro" "readIndexQueue ro = qs @ ctx # qs'"
  shows "ro_advance ro ctx = Inr (ro\<lparr>readIndexQueue := qs',
      pendingReadIndex := (\<lambda>c. if c \<in> set (qs @ [ctx]) then None else pendingReadIndex ro c)\<rparr>,
      map (the \<circ> pendingReadIndex ro) (qs @ [ctx]))"
proof -
  let ?p = "pendingReadIndex ro"
  have scan: "ro_scan ?p ctx (qs @ ctx # qs') = Inr (map (the \<circ> ?p) (qs @ [ctx]), True)"
    by (rule ro_scan_found) (use assms in \<open>auto simp: ro_inv_def\<close>)
  have "ro_delete (map (the \<circ> ?p) (qs @ [ctx])) ?p = Inr (\<lambda>c. if c \<in> set (qs @ [ctx]) then None else ?p c)"
  proof (rule ro_delete_map)
    fix c assume "c \<in> set (qs @ [ctx])"
    then have "c \<in> set (readIndexQueue ro)" using assms(2) by auto
    moreover have "dom ?p = set (readIndexQueue ro)" using assms(1) by (simp add: ro_inv_def)
    ultimately obtain rs where "?p c = Some rs" by (metis domD)
    then show "\<exists>e es. mEntries (risReq ((the \<circ> ?p) c)) = e # es \<and> eData e = c"
      using assms(1) by (auto simp: ro_inv_def)
  qed
  with scan show ?thesis by (simp add: ro_advance_def assms(2))
qed

section \<open>Properties\<close>

text \<open>C9: A call of \<^verbatim>\<open>Step\<close> that returns, on a message whose entries are contiguous, keeps the log
  well formed, never moves the commit index back and never changes a committed entry.\<close>

theorem Step_keeps_committed:
  assumes "Step r m = Inr r'" "log_inv (rLog r)" "mType m = MsgApp \<longrightarrow> app_ok m" "log_room r m"
    "0 < rTerm r" "rTerm r + 1 < U64" "mTerm m + 1 < U64"
  shows "log_inv (rLog r') \<and> commitIndex (rLog r) \<le> commitIndex (rLog r')
    \<and> take (commitIndex (rLog r)) (ms_full (rLog r')) = take (commitIndex (rLog r)) (ms_full (rLog r))"
  using Step_extends [OF assms] by (simp add: extends_def)

text \<open>C10: The leader's commit rule.  \<^verbatim>\<open>raft.maybeCommit\<close> always returns, and what it does is decided by the
  highest index \<open>i\<close> that a majority of the members is known to hold: when \<open>i\<close> is above the commit index and
  its entry is of the leader's own term, the commit index becomes \<open>i\<close>; otherwise nothing changes.\<close>

theorem commit_needs_quorum:
  assumes "log_inv (rLog r)" "0 < rTerm r" "rPrs r \<noteq> []"
  shows "\<exists>i. length (rPrs r) < 2 * holders r i \<and> (\<forall>j > i. 2 * holders r j \<le> length (rPrs r))
    \<and> r_maybeCommit r = Inr (if commitIndex (rLog r) < i \<and> ms_term_at (rLog r) i = rTerm r
        then (r\<lparr>rLog := (rLog r)\<lparr>commitIndex := i\<rparr>\<rparr>, True) else (r, False))"
proof -
  note l = log_invD [OF assms(1)]
  let ?ms = "map (pMatch \<circ> snd) (rPrs r)"
  define i where "i = rev (sort ?ms) ! (quorum r - 1)"
  have k: "quorum r - 1 < length (rPrs r)" using assms(3) by (simp add: quorum_def)
  then have i: "go_nth (rev (sort ?ms)) (quorum r - 1) = Inr i"
    by (simp add: i_def go_nth_def)
  have holders: "holders r j = length (filter (\<lambda>x. j \<le> x) ?ms)" for j
    by (simp add: holders_def filter_map comp_def)
  have "quorum r - 1 + 1 \<le> holders r i"
    unfolding holders i_def by (rule nth_descending) (use k in simp)
  then have "length (rPrs r) < 2 * holders r i" by (simp add: quorum_def)
  moreover have "2 * holders r j \<le> length (rPrs r)" if "i < j" for j
    using nth_descending_above [OF that [unfolded i_def]] by (simp add: holders quorum_def)
  moreover have "rl_maybeCommit memStorage (rLog r) i (rTerm r) =
    Inr (if commitIndex (rLog r) < i \<and> ms_term_at (rLog r) i = rTerm r
         then ((rLog r)\<lparr>commitIndex := i\<rparr>, True) else (rLog r, False))"
    using ms.rl_maybeCommit_ok [OF l(1) _ assms(2)] l by simp
  then have "r_maybeCommit r = Inr (if commitIndex (rLog r) < i \<and> ms_term_at (rLog r) i = rTerm r
        then (r\<lparr>rLog := (rLog r)\<lparr>commitIndex := i\<rparr>\<rparr>, True) else (r, False))"
    by (simp add: r_maybeCommit_def i [unfolded One_nat_def])
  ultimately show ?thesis by blast
qed

text \<open>\<^verbatim>\<open>readOnly.advance\<close> on a queued context returns the requests up to and including it in the
  order they were queued, removes exactly these, and keeps queue and pending map in agreement.\<close>

theorem ro_advance_fifo:
  assumes "ro_inv ro" "readIndexQueue ro = qs @ ctx # qs'"
  shows "\<exists>ro'. ro_advance ro ctx = Inr (ro', map (the \<circ> pendingReadIndex ro) (qs @ [ctx]))
    \<and> readIndexQueue ro' = qs' \<and> pendingReadIndex ro' = pendingReadIndex ro |` set qs' \<and> ro_inv ro'"
proof -
  have "(\<lambda>c. if c \<in> set (qs @ [ctx]) then None else pendingReadIndex ro c) = pendingReadIndex ro |` set qs'"
    using assms by (fastforce simp: fun_eq_iff restrict_map_def ro_inv_def)
  with ro_advance_ok [OF assms] show ?thesis
    using assms by (auto simp: ro_inv_def restrict_map_def split: if_splits)
qed

text \<open>C26: A rejected probe makes progress: \<^verbatim>\<open>mayDecreaseTo\<close> on the answer to the outstanding probe
  moves \<^verbatim>\<open>Next\<close> strictly down until it is 1, never below, and leaves \<^verbatim>\<open>Match\<close> alone; a stale answer
  changes nothing.\<close>

theorem probe_makes_progress:
  assumes "1 \<le> pNext pr" "pNext pr < U64" "hint + 1 < U64"
  shows "(i \<noteq> pNext pr - 1 \<longrightarrow> pr_mayDecreaseTo pr i hint = (pr, False))
    \<and> (\<exists>pr'. pr_mayDecreaseTo pr (pNext pr - 1) hint = (pr', True) \<and> pMatch pr' = pMatch pr
        \<and> 1 \<le> pNext pr' \<and> pNext pr' \<le> hint + 1 \<and> (1 < pNext pr \<longrightarrow> pNext pr' < pNext pr))"
  using assms by (auto simp: pr_mayDecreaseTo_def Let_def sub64_small add64_small)

end
