(* ===== verification/Raft_Run.thy ===== *)
theory Raft_Run
  imports Raft_Cluster Raft_Replication
begin

text \<open>
  A concrete run of a three-node cluster, evaluated by the simplifier: node 1 campaigns, node 2
  votes for it, node 1 becomes leader.  It shows that the hypotheses of the cluster theorems are
  met by runs that elect a leader.
\<close>

definition demo_conf :: "nat \<Rightarrow> config" where
  "demo_conf i = \<lparr>cID = i, cPeers = [1, 2, 3], cStorage = NewMemoryStorage, cApplied = 0, cPreVote = False,
     cElectionTick = 10, cHeartbeatTick = 1\<rparr>"

definition demo_raft :: "nat \<Rightarrow> raft" where
  "demo_raft i = \<lparr>rId = i, rTerm = 1, rReadStates = [],
     rLog = \<lparr>rlStorage = NewMemoryStorage, rlUnstable = \<lparr>uEntries = [], uOffset = 1\<rparr>, commitIndex = 0, applyIndex = 0\<rparr>,
     rPrs = map (\<lambda>p. (p, \<lparr>pMatch = 0, pNext = 1, pState = ProgressStateProbe\<rparr>)) [1, 2, 3],
     rState = StateFollower, rVotes = [], rMsgs = [], rLead = 0, rPendingConf = False,
     rReadOnly = newReadOnly, rPreVote = False, rTick = TickElection, rStep = StepFollower, rVote = 0,
     rCheckQuorum = False, rElectionTimeout = 10, rRandomizedElectionTimeout = 10, rElectionElapsed = 0,
     rHeartbeatTimeout = 1, rHeartbeatElapsed = 0, rRands = []\<rparr>"

definition vote_req :: "nat \<Rightarrow> message" where
  "vote_req i = (msg0 MsgVote)\<lparr>mFrom := 1, mTo := i, mTerm := 2\<rparr>"

definition vote_ok :: message where
  "vote_ok = (msg0 MsgVoteResp)\<lparr>mFrom := 2, mTo := 1, mTerm := 2\<rparr>"

definition cand_raft :: raft where
  "cand_raft = (demo_raft 1)\<lparr>rTerm := 2, rState := StateCandidate, rVotes := [(1, True)],
     rMsgs := [vote_req 2, vote_req 3], rStep := StepCandidate, rVote := 1\<rparr>"

definition voter_raft :: raft where
  "voter_raft = (demo_raft 2)\<lparr>rTerm := 2, rVote := 1, rMsgs := [vote_ok]\<rparr>"

definition demo_cluster :: cluster where
  "demo_cluster = \<lparr>cNodes = (\<lambda>i. newNode (demo_raft i)), cNet = {}, cVoted = {}, cLeaders = {}\<rparr>"

definition rep_raft :: raft where
  "rep_raft = (demo_raft 2)\<lparr>rTerm := 3, rLog := sample_log\<rparr>"

definition app_msg :: message where
  "app_msg = (msg0 MsgApp)\<lparr>mFrom := 1, mTo := 2, mTerm := 3, mLogIndex := 2, mLogTerm := 1,
     mEntries := [ent 3 3], mCommitIndex := 3\<rparr>"

definition lead_raft :: raft where
  "lead_raft = (demo_raft 1)\<lparr>rTerm := 2, rState := StateLeader, rLog := sample_log,
     rPrs := [(1, \<lparr>pMatch = 4, pNext = 5, pState = ProgressStateProbe\<rparr>),
              (2, \<lparr>pMatch = 3, pNext = 4, pState = ProgressStateProbe\<rparr>),
              (3, \<lparr>pMatch = 0, pNext = 1, pState = ProgressStateProbe\<rparr>)]\<rparr>"

definition read_req :: "bytes \<Rightarrow> message" where
  "read_req d = (msg0 MsgReadIndex)\<lparr>mEntries := [zero_entry\<lparr>eData := d\<rparr>]\<rparr>"

definition sample_reads :: read_only where
  "sample_reads = fst (ro_addRequest (fst (ro_addRequest newReadOnly [1] 4 (read_req [1]))) [2] 5 (read_req [2]))"

lemmas storage_eval = NewMemoryStorage_def zero_entry_def emptyHardState_def ms_InitialState_def ms_firstIndex_def
  ms_lastIndex_def ms_Term_def ms_Entries_def memStorage_def add64_def sub64_def U64_def
  rl_appliedTo_def rl_lastIndex_def rl_firstIndex_def rl_lastTerm_def rl_term_def rl_nextEntries_def
  rl_isUpToDate_def rl_unstableEntries_def u_maybeLastIndex_def u_maybeTerm_def newRaftLog_def
  rl_append_def u_truncateAndAppend_def rl_maybeCommit_def rl_entries_def rl_slice_def rl_mustCheckOutOfBounds_def
  u_slice_def u_mustCheckOutOfBounds_def zeroTermOnErrCompacted_def rl_commitTo_def ignore_err_def

lemmas raft_eval = storage_eval Let_def s32_def
  becomeFollower_def reset_def resetRandomizedElectionTimeout_def softState_def hardState_def
  Step_def dispatch_def stepHup_def campaign.simps becomeCandidate_def becomePreCandidate_def poll_def quorum_def
  send_def msg0_def stepVote_def stepCandidate_def becomeLeader_def promotable_def numOfPendingConf_def
  appendEntry_def r_maybeCommit_def broadcastAppend_def sendAppend_def ms_dterm_def
  onReady_def newReady_def containsUpdates_def isHardStateEqual_def IsEmptyHardState_def node_step_def
  pr_maybeUpdate_def

lemmas demo_defs = demo_conf_def demo_raft_def vote_req_def vote_ok_def cand_raft_def voter_raft_def

lemma demo_start: "StartNode (demo_conf i) [] [] = Inr (newNode (demo_raft i))"
  by (simp add: StartNode_def newRaft_def demo_defs raft_eval)

lemma demo_campaign:
  "node_run (newNode (demo_raft 1)) api_Campaign = Inr ((newNode (demo_raft 1))\<lparr>nRaft := cand_raft\<rparr>)"
  by (simp add: api_Campaign_def newNode_def demo_defs raft_eval)

lemma demo_vote:
  "node_run (newNode (demo_raft 2)) (node_step (vote_req 2)) = Inr ((newNode (demo_raft 2))\<lparr>nRaft := voter_raft\<rparr>)"
  by (simp add: newNode_def demo_defs raft_eval)


lemma demo_cand_ready:
  "\<exists>n. node_run ((newNode (demo_raft 1))\<lparr>nRaft := cand_raft\<rparr>) EvReady = Inr n
     \<and> nRaft n = cand_raft\<lparr>rMsgs := []\<rparr>
     \<and> sent ((newNode (demo_raft 1))\<lparr>nRaft := cand_raft\<rparr>) n = {vote_req 2, vote_req 3}"
  by (simp add: newNode_def demo_defs raft_eval sent_def)

lemma demo_voter_ready:
  "\<exists>n. node_run ((newNode (demo_raft 2))\<lparr>nRaft := voter_raft\<rparr>) EvReady = Inr n
     \<and> nRaft n = voter_raft\<lparr>rMsgs := []\<rparr>
     \<and> sent ((newNode (demo_raft 2))\<lparr>nRaft := voter_raft\<rparr>) n = {vote_ok}"
  by (simp add: newNode_def demo_defs raft_eval sent_def)

lemma demo_elected:
  assumes "nRaft n = cand_raft\<lparr>rMsgs := []\<rparr>"
  shows "\<exists>n'. node_run n (node_step vote_ok) = Inr n'
     \<and> rState (nRaft n') = StateLeader \<and> rTerm (nRaft n') = 2 \<and> rVote (nRaft n') = 1"
  using assms by (simp add: demo_defs raft_eval)

lemma run_step_reach:
  assumes "cluster_reach ids c" "i \<in> set ids" "enabled (cNet c) i ev" "term_room (cNodes c i) ev"
    "node_run (cNodes c i) ev = Inr n"
  shows "cluster_reach ids (record_node c i n)"
  using assms by (blast intro: cluster_reach.step cluster_step.run)

lemma demo_init: "cluster_init [1, 2, 3] demo_cluster"
proof -
  have "\<exists>conf peers rands. cID conf = i \<and> StartNode conf peers rands = Inr (newNode (demo_raft i))" for i
    using demo_start [of i] by (intro exI [of _ "demo_conf i"]) (auto simp: demo_conf_def)
  then show ?thesis
    by (simp add: cluster_init_def demo_cluster_def) (simp add: newNode_def demo_raft_def)
qed

text \<open>A run in which node 1 campaigns, node 2 votes for it and node 1 becomes leader of term 2.\<close>

lemma demo_reach:
  "\<exists>c. cluster_reach [1, 2, 3] c \<and> (1, 2) \<in> cLeaders c \<and> (2, 2, 1) \<in> cVoted c
     \<and> rState (nRaft (cNodes c 1)) = StateLeader \<and> rTerm (nRaft (cNodes c 1)) = 2"
proof -
  have room: "term_room n (node_step m)" if "rTerm (nRaft n) \<le> 2" "mTerm m \<le> 2" for n m
    using that by (simp add: node_step_def U64_def)
  let ?n1 = "(newNode (demo_raft 1))\<lparr>nRaft := cand_raft\<rparr>" and ?n2 = "(newNode (demo_raft 2))\<lparr>nRaft := voter_raft\<rparr>"
  have t1: "term_room (newNode (demo_raft 1)) api_Campaign"
    by (simp add: api_Campaign_def room newNode_def demo_raft_def msg0_def)
  define c1 where "c1 = record_node demo_cluster 1 ?n1"
  have r1: "cluster_reach [1, 2, 3] c1" unfolding c1_def
    by (rule run_step_reach [OF cluster_reach.start [OF demo_init], where ev = api_Campaign])
      (use demo_campaign t1 in \<open>simp_all add: demo_cluster_def enabled.campaign\<close>)
  obtain n1 where n1: "node_run ?n1 EvReady = Inr n1" "nRaft n1 = cand_raft\<lparr>rMsgs := []\<rparr>"
    "sent ?n1 n1 = {vote_req 2, vote_req 3}"
    using demo_cand_ready by blast
  define c2 where "c2 = record_node c1 1 n1"
  have r2: "cluster_reach [1, 2, 3] c2" unfolding c2_def
    by (rule run_step_reach [OF r1, where ev = EvReady])
      (simp_all add: c1_def n1(1) [simplified] enabled.ready, simp add: cand_raft_def U64_def)
  have c2: "cNodes c2 1 = n1" "cNodes c2 2 = newNode (demo_raft 2)" "vote_req 2 \<in> cNet c2"
    using n1(3) by (simp_all add: c2_def c1_def demo_cluster_def)
  define c3 where "c3 = record_node c2 2 ?n2"
  have r3: "cluster_reach [1, 2, 3] c3" unfolding c3_def
    by (rule run_step_reach [OF r2, where ev = "node_step (vote_req 2)"])
      (use demo_vote c2 in \<open>simp_all add: room newNode_def demo_raft_def vote_req_def enabled.deliver\<close>)
  obtain n2 where n2: "node_run ?n2 EvReady = Inr n2" "nRaft n2 = voter_raft\<lparr>rMsgs := []\<rparr>" "sent ?n2 n2 = {vote_ok}"
    using demo_voter_ready by blast
  define c4 where "c4 = record_node c3 2 n2"
  have r4: "cluster_reach [1, 2, 3] c4" unfolding c4_def
    by (rule run_step_reach [OF r3, where ev = EvReady])
      (simp_all add: c3_def n2(1) [simplified] enabled.ready, simp add: voter_raft_def U64_def)
  have c4: "cNodes c4 1 = n1" "vote_ok \<in> cNet c4" "(2, 2, 1) \<in> cVoted c4"
    using n2(2,3) c2 by (simp_all add: c4_def c3_def voter_raft_def)
  obtain n3 where n3: "node_run n1 (node_step vote_ok) = Inr n3" "rState (nRaft n3) = StateLeader" "rTerm (nRaft n3) = 2"
    using demo_elected [OF n1(2)] by blast
  have "cluster_reach [1, 2, 3] (record_node c4 1 n3)"
    by (rule run_step_reach [OF r4, where ev = "node_step vote_ok"])
      (use n3 c4 n1(2) in \<open>simp_all add: room cand_raft_def vote_ok_def enabled.deliver\<close>)
  with n3 c4 show ?thesis by (intro exI [of _ "record_node c4 1 n3"]) simp
qed

section \<open>Witnesses\<close>

theorem election_safety_witness:
  "\<exists>c. cluster_reach [1, 2, 3] c \<and> (1, 2) \<in> cLeaders c \<and> {i. (i, 2) \<in> cLeaders c} = {1}"
  using demo_reach election_safety by blast

theorem vote_once_witness:
  "\<exists>c. cluster_reach [1, 2, 3] c \<and> (2, 2, 1) \<in> cVoted c \<and> (2, 2, 3) \<notin> cVoted c"
  using demo_reach vote_once [of "[1, 2, 3]" _ 2 2 1 3] by (metis numeral_eq_one_iff semiring_norm(86))

theorem leader_has_majority_witness:
  "\<exists>c Q. cluster_reach [1, 2, 3] c \<and> rState (nRaft (cNodes c 1)) = StateLeader
     \<and> Q \<subseteq> {1, 2, 3} \<and> 2 \<le> card Q \<and> (\<forall>v \<in> Q. (v, 2, 1) \<in> cVoted c)"
proof -
  obtain c where c: "cluster_reach [1, 2, 3] c" "rState (nRaft (cNodes c 1)) = StateLeader"
      "rTerm (nRaft (cNodes c 1)) = 2"
    using demo_reach by blast
  have "(1::nat) \<in> set [1, 2, 3]" by simp
  from leader_has_majority [OF c(1) this c(2)] obtain Q where q: "Q \<subseteq> set [1, 2, 3]"
      "length [1, 2, 3 :: nat] div 2 + 1 \<le> card Q" "\<forall>v \<in> Q. (v, rTerm (nRaft (cNodes c 1)), 1) \<in> cVoted c"
    by blast
  have "2 \<le> card Q" using q(2) by simp
  with q c show ?thesis by (intro exI [of _ c] exI [of _ Q]) simp
qed

lemma sample_log_inv: "log_inv sample_log"
  by (simp add: log_inv_def rl_wf_def sample_defs)

theorem Step_keeps_committed_witness:
  "\<exists>r'. Step rep_raft app_msg = Inr r' \<and> log_inv (rLog r') \<and> commitIndex (rLog r') = 3
     \<and> ms_full (rLog r') = [ent 1 1, ent 1 2, ent 3 3] \<and> take 1 (ms_full (rLog r')) = [ent 1 1]"
proof -
  have "\<exists>r'. Step rep_raft app_msg = Inr r' \<and> commitIndex (rLog r') = 3
      \<and> ms_full (rLog r') = [ent 1 1, ent 1 2, ent 3 3]"
    by (simp add: rep_raft_def app_msg_def demo_raft_def raft_eval sample_defs stepFollower_def
        handleAppendEntries_def rl_maybeAppend_def rl_matchTerm_def ErrCompacted_def ErrUnavailable_def)
  then obtain r' where r': "Step rep_raft app_msg = Inr r'" "commitIndex (rLog r') = 3"
      "ms_full (rLog r') = [ent 1 1, ent 1 2, ent 3 3]" by blast
  have "log_inv (rLog r')"
    using Step_keeps_committed [OF r'(1)] sample_log_inv
    by (simp add: rep_raft_def app_msg_def app_ok_def msg0_def log_room_def sample_defs)
  with r' show ?thesis by simp
qed

text \<open>Of three members one holds the log up to 4, two up to 3 and all up to 0.\<close>

theorem commit_needs_quorum_witness:
  "r_maybeCommit lead_raft = Inr (lead_raft\<lparr>rLog := (rLog lead_raft)\<lparr>commitIndex := 3\<rparr>\<rparr>, True)"
proof -
  have "log_inv (rLog lead_raft)" "0 < rTerm lead_raft" "rPrs lead_raft \<noteq> []"
    using sample_log_inv by (simp_all add: lead_raft_def)
  from commit_needs_quorum [OF this] obtain i where i: "length (rPrs lead_raft) < 2 * holders lead_raft i"
    "\<forall>j > i. 2 * holders lead_raft j \<le> length (rPrs lead_raft)"
    "r_maybeCommit lead_raft = Inr (if commitIndex (rLog lead_raft) < i \<and> ms_term_at (rLog lead_raft) i = rTerm lead_raft
        then (lead_raft\<lparr>rLog := (rLog lead_raft)\<lparr>commitIndex := i\<rparr>\<rparr>, True) else (lead_raft, False))" by blast
  have "i \<le> 3" using i(1) by (auto simp: holders_def lead_raft_def split: if_splits)
  moreover have "\<not> i < 3" using i(2) [rule_format, of 3] by (auto simp: holders_def lead_raft_def)
  ultimately have "i = 3" by simp
  moreover have "commitIndex (rLog lead_raft) < 3 \<and> ms_term_at (rLog lead_raft) 3 = rTerm lead_raft"
    by (simp add: lead_raft_def demo_raft_def raft_eval sample_defs term_at_def)
  ultimately show ?thesis using i(3) by simp
qed

theorem ro_advance_fifo_witness:
  "\<exists>ro'. ro_advance sample_reads [2] = Inr (ro', [\<lparr>risReq = read_req [1], risIndex = 4, risAcks = []\<rparr>,
      \<lparr>risReq = read_req [2], risIndex = 5, risAcks = []\<rparr>]) \<and> readIndexQueue ro' = []"
proof -
  have "ro_inv sample_reads" "readIndexQueue sample_reads = [[1]] @ [2] # []"
    by (auto simp: ro_inv_def sample_reads_def ro_addRequest_def newReadOnly_def read_req_def msg0_def zero_entry_def)
  from ro_advance_fifo [OF this] show ?thesis
    by (auto simp: sample_reads_def ro_addRequest_def newReadOnly_def)
qed

theorem probe_makes_progress_witness:
  "\<exists>pr'. pr_mayDecreaseTo \<lparr>pMatch = 0, pNext = 9, pState = ProgressStateProbe\<rparr> 8 4 = (pr', True) \<and> pNext pr' = 5"
  using probe_makes_progress [of "\<lparr>pMatch = 0, pNext = 9, pState = ProgressStateProbe\<rparr>" 4]
  by (simp add: U64_def pr_mayDecreaseTo_def sub64_def add64_def)

section \<open>Behaviours that depart from the protocol\<close>

text \<open>\<^verbatim>\<open>campaign\<close> computes the next term for a pre-vote, but \<^verbatim>\<open>send\<close> overwrites it with the current
  one, and a node that voted for another candidate in that term refuses such a pre-vote.\<close>

lemma prevote_carries_current_term:
  assumes "campaign r campaignPreElection = Inr r'" "rState r' = StatePreCandidate" "rTerm r + 1 < U64"
  shows "\<exists>ms. rMsgs r' = rMsgs r @ ms \<and> (\<forall>x \<in> set ms. mType x = MsgPreVote \<longrightarrow> mTerm x = rTerm r)"
  using campaign_pre_elect [OF assms(1,3)] assms(2) by (fastforce simp: moved_def stamped_def)

lemma prevote_of_current_term_refused:
  assumes "Step r m = Inr r'" "mType m = MsgPreVote" "mTerm m = rTerm r" "rVote r \<noteq> 0" "rVote r \<noteq> mFrom m"
  shows "r' = send r ((msg0 MsgPreVoteResp)\<lparr>mTo := mFrom m, mReject := True\<rparr>)"
  using assms by (auto simp: Step_def dispatch_def stepVote_def res_simps split: if_splits)

text \<open>\<^verbatim>\<open>newRaft\<close> restores the term and the commit index of the stored \<^verbatim>\<open>HardState\<close>, not the vote; so a
  node that voted for 1, stored its state and restarted votes for 3 in the same term.\<close>

lemma newRaft_forgets_vote: "newRaft conf rands = Inr r \<Longrightarrow> rVote r = 0"
  by (auto simp: newRaft_def res_simps Let_def split: prod.splits)

lemma restarted_node_votes_twice:
  "\<exists>r r'. newRaft ((demo_conf 2)\<lparr>cStorage := NewMemoryStorage\<lparr>msHardState := hardState voter_raft\<rparr>\<rparr>) [] = Inr r
     \<and> rTerm r = rTerm voter_raft \<and> rVote voter_raft = 1
     \<and> Step r ((msg0 MsgVote)\<lparr>mFrom := 3, mTo := 2, mTerm := 2\<rparr>) = Inr r' \<and> rTerm r' = 2 \<and> rVote r' = 3"
  by (simp add: newRaft_def demo_defs raft_eval)

text \<open>\<^verbatim>\<open>StartNode\<close> declares every stored entry committed.\<close>

lemma StartNode_commits_everything:
  assumes "StartNode conf peers rands = Inr n"
  shows "rl_lastIndex memStorage (rLog (nRaft n)) = Inr (commitIndex (rLog (nRaft n)))"
proof -
  obtain r li where "lastIndexOf r = Inr li" "nRaft n = r\<lparr>rLog := (rLog r)\<lparr>commitIndex := li\<rparr>\<rparr>"
    using assms by (auto simp: StartNode_def res_simps newNode_def)
  then show ?thesis by (simp add: rl_lastIndex_def split: option.splits)
qed

text \<open>The leader does not count itself among the acknowledgements of a read: with two members the
  answer of the only follower leaves the read pending.\<close>

lemma two_member_read_stays_pending:
  assumes "stepLeaderHeartbeatResp r m = Inr r'" "length (rPrs r) = 2"
    "pendingReadIndex (rReadOnly r) (mContext m) = Some rs" "risAcks rs = []"
  shows "rReadStates r' = rReadStates r \<and> rMsgs r' = rMsgs r"
  using assms by (auto simp: stepLeaderHeartbeatResp_def ro_recvAck_def quorum_def Let_def split: if_splits)

end
