(* ===== verification/Go_Binary.thy ===== *)
theory Go_Binary
  imports Go_Prelude "HOL-Library.List_Lexorder"
begin

text \<open>
  The parts of Go's \<^verbatim>\<open>encoding/binary\<close> and \<^verbatim>\<open>io\<close> packages the code relies on: variable-length
  unsigned integers and full reads.  A reader is the list of bytes it has left; a read returns
  the value and the rest.  \<^verbatim>\<open>bytes.Compare\<close> is the lexicographic order on byte lists.
\<close>

abbreviation EOF :: go_err where "EOF \<equiv> Err ''EOF''"

abbreviation ErrUnexpectedEOF :: go_err where "ErrUnexpectedEOF \<equiv> Err ''unexpected EOF''"

abbreviation errOverflow :: go_err where "errOverflow \<equiv> Err ''binary: varint overflows a 64-bit integer''"

fun putUvarint :: "nat \<Rightarrow> bytes" where
  "putUvarint x = (if x < 128 then [word_of_nat x] else word_of_nat (x mod 128 + 128) # putUvarint (x div 128))"

declare putUvarint.simps [simp del]

text \<open>\<^verbatim>\<open>binary.ReadUvarint\<close>: \<open>i\<close> counts the bytes read, \<open>x\<close> is the value so far.\<close>

fun uvarint_from :: "nat \<Rightarrow> nat \<Rightarrow> bytes \<Rightarrow> go_err + (nat \<times> bytes)" where
  "uvarint_from i x [] = Inl (if i = 10 then errOverflow else if i = 0 then EOF else ErrUnexpectedEOF)"
| "uvarint_from i x (b # bs) =
     (if i = 10 then Inl errOverflow
      else if unat b < 128
      then (if i = 9 \<and> unat b > 1 then Inl errOverflow else Inr (x + unat b * 2 ^ (7 * i), bs))
      else uvarint_from (i + 1) (x + (unat b - 128) * 2 ^ (7 * i)) bs)"

definition readUvarint :: "bytes \<Rightarrow> go_err + (nat \<times> bytes)" where
  "readUvarint bs = uvarint_from 0 0 bs"

text \<open>\<^verbatim>\<open>binary.Uvarint\<close> returns the value and the number of bytes read: 0 when the slice is too
  short, a negative number when the value overflows.\<close>

fun uvarint_slice :: "nat \<Rightarrow> nat \<Rightarrow> bytes \<Rightarrow> nat \<times> int" where
  "uvarint_slice i x [] = (0, 0)"
| "uvarint_slice i x (b # bs) =
     (if i = 10 then (0, - 11)
      else if unat b < 128
      then (if i = 9 \<and> unat b > 1 then (0, - 10) else (x + unat b * 2 ^ (7 * i), int i + 1))
      else uvarint_slice (i + 1) (x + (unat b - 128) * 2 ^ (7 * i)) bs)"

definition uvarint :: "bytes \<Rightarrow> nat \<times> int" where
  "uvarint bs = uvarint_slice 0 0 bs"

text \<open>FNV-1a of \<^verbatim>\<open>hash/fnv\<close>.\<close>

definition fnv32a :: "bytes \<Rightarrow> 32 word" where
  "fnv32a key = fold (\<lambda>b h. xor h (ucast b) * 16777619) key 2166136261"

text \<open>\<^verbatim>\<open>io.ReadFull\<close> into a fresh buffer of \<open>n\<close> bytes.\<close>

definition maxAlloc :: nat where
  "maxAlloc = 281474976710656"

definition readFull :: "nat \<Rightarrow> bytes \<Rightarrow> go_err + (bytes \<times> bytes)" where
  "readFull n bs =
     (if n > maxAlloc then Inl (Panic ''makeslice: len out of range'')
      else if n \<le> length bs then Inr (take n bs, drop n bs)
      else Inl (if bs = [] then EOF else ErrUnexpectedEOF))"

section \<open>Lemmas\<close>

lemma putUvarint_nonempty [simp]: "putUvarint x \<noteq> []"
  by (subst putUvarint.simps) simp

lemma uvarint_from_put:
  "x * 2 ^ (7 * i) < 2 ^ 64 \<Longrightarrow> i \<le> 9 \<Longrightarrow>
   uvarint_from i acc (putUvarint x @ rest) = Inr (acc + x * 2 ^ (7 * i), rest)"
proof (induction x arbitrary: i acc rule: less_induct)
  case (less x)
  show ?case
  proof (cases "x < 128")
    case True
    have "x \<le> 1" if "i = 9"
      using less.prems(1) that by simp
    with True less.prems show ?thesis
      by (subst putUvarint.simps) (auto simp: unat_of_nat)
  next
    case False
    have i: "i \<noteq> 9" using less.prems(1) False by auto
    have w: "unat (word_of_nat (x mod 128 + 128) :: byte) = x mod 128 + 128"
      by (simp only: unat_of_nat) (simp add: take_bit_nat_eq_self)
    have pow: "(2::nat) ^ (7 * (i + 1)) = 128 * 2 ^ (7 * i)"
      by (simp add: power_add)
    have "x div 128 * 2 ^ (7 * (i + 1)) \<le> x * 2 ^ (7 * i)"
      unfolding pow by (simp add: div_times_less_eq_dividend mult.assoc [symmetric])
    then have "uvarint_from (i + 1) (acc + x mod 128 * 2 ^ (7 * i)) (putUvarint (x div 128) @ rest)
        = Inr (acc + x mod 128 * 2 ^ (7 * i) + x div 128 * 2 ^ (7 * (i + 1)), rest)"
      using less.prems i False by (intro less.IH) auto
    moreover have "x mod 128 * 2 ^ (7 * i) + x div 128 * 2 ^ (7 * (i + 1)) = x * 2 ^ (7 * i)"
    proof -
      have "x mod 128 * 2 ^ (7 * i) + x div 128 * 2 ^ (7 * (i + 1)) = (x mod 128 + x div 128 * 128) * 2 ^ (7 * i)"
        unfolding pow by (simp only: distrib_right mult.assoc)
      also have "... = x * 2 ^ (7 * i)" by simp
      finally show ?thesis .
    qed
    ultimately show ?thesis
      using False w less.prems(2) i by (subst putUvarint.simps) (simp add: add.assoc)
  qed
qed

lemma readUvarint_put [simp]: "x < U64 \<Longrightarrow> readUvarint (putUvarint x @ rest) = Inr (x, rest)"
  using uvarint_from_put [of x 0 0 rest] by (simp add: readUvarint_def U64_def)

lemma uvarint_from_cut:
  "x * 2 ^ (7 * i) < 2 ^ 64 \<Longrightarrow> i \<le> 9 \<Longrightarrow> n < length (putUvarint x) \<Longrightarrow> 0 < i + n \<Longrightarrow>
   uvarint_from i acc (take n (putUvarint x)) = Inl ErrUnexpectedEOF"
proof (induction x arbitrary: i acc n rule: less_induct)
  case (less x)
  show ?case
  proof (cases n)
    case 0
    then show ?thesis using less.prems by auto
  next
    case (Suc n')
    have x: "\<not> x < 128" using less.prems(3) Suc by (subst (asm) putUvarint.simps) (auto split: if_splits)
    have i: "i \<noteq> 9" using less.prems(1) x by auto
    have "x div 128 * 2 ^ (7 * (i + 1)) \<le> x * 2 ^ (7 * i)"
      by (simp add: power_add div_times_less_eq_dividend mult.assoc [symmetric])
    then have "uvarint_from (i + 1) (acc + x mod 128 * 2 ^ (7 * i)) (take n' (putUvarint (x div 128))) = Inl ErrUnexpectedEOF"
      using less.prems x i Suc by (intro less.IH) (auto simp: putUvarint.simps [of x])
    moreover have "unat (word_of_nat (x mod 128 + 128) :: byte) = x mod 128 + 128"
      by (simp only: unat_of_nat) (simp add: take_bit_nat_eq_self)
    ultimately show ?thesis
      using x i less.prems(2) Suc by (simp add: putUvarint.simps [of x])
  qed
qed

lemma readUvarint_cut:
  "x < U64 \<Longrightarrow> 0 < n \<Longrightarrow> n < length (putUvarint x) \<Longrightarrow> readUvarint (take n (putUvarint x)) = Inl ErrUnexpectedEOF"
  using uvarint_from_cut [of x 0 n 0] by (simp add: readUvarint_def U64_def)

lemma readUvarint_nil [simp]: "readUvarint [] = Inl EOF"
  by (simp add: readUvarint_def)

lemma uvarint_from_shorter: "uvarint_from i x bs = Inr (y, rest) \<Longrightarrow> length rest < length bs"
  by (induction i x bs rule: uvarint_from.induct) (auto split: if_splits)

lemma uvarint_slice_from:
  "uvarint_from i x bs = Inr (y, rest) \<Longrightarrow> uvarint_slice i x bs = (y, int i + int (length bs - length rest))"
proof (induction i x bs rule: uvarint_from.induct)
  case (1 i x)
  then show ?case by simp
next
  case (2 i x b bs)
  show ?case
  proof (cases "i = 10 \<or> unat b < 128")
    case True
    with "2.prems" show ?thesis by (auto split: if_splits)
  next
    case False
    then have rec: "uvarint_from (i + 1) (x + (unat b - 128) * 2 ^ (7 * i)) bs = Inr (y, rest)"
      using "2.prems" by simp
    then show ?thesis
      using False "2.IH" uvarint_from_shorter [OF rec] by (auto simp: Suc_diff_le)
  qed
qed

lemma uvarint_put [simp]:
  "x < U64 \<Longrightarrow> uvarint (putUvarint x @ rest) = (x, int (length (putUvarint x)))"
  using uvarint_slice_from [of 0 0 "putUvarint x @ rest" x rest] readUvarint_put [of x rest]
  by (simp add: uvarint_def readUvarint_def)

lemma readUvarint_shorter: "readUvarint bs = Inr (y, rest) \<Longrightarrow> length rest < length bs"
  unfolding readUvarint_def by (rule uvarint_from_shorter)

lemma uvarint_from_bound:
  "uvarint_from i x bs = Inr (y, rest) \<Longrightarrow> x < 2 ^ (7 * i) \<Longrightarrow> i \<le> 9 \<Longrightarrow> y < 2 ^ 64"
proof (induction i x bs rule: uvarint_from.induct)
  case (1 i x)
  then show ?case by simp
next
  case (2 i x b bs)
  have lt: "x + c * 2 ^ (7 * i) < 2 ^ (7 * (i + 1))" if "c < 128" for c
  proof -
    have "x + c * 2 ^ (7 * i) < (c + 1) * 2 ^ (7 * i)" using "2.prems"(2) by simp
    also have "... \<le> 128 * 2 ^ (7 * i)" using that by (intro mult_right_mono) auto
    finally show ?thesis by (simp add: power_add)
  qed
  show ?case
  proof (cases "unat b < 128")
    case True
    show ?thesis
    proof (cases "i = 9")
      case True
      with 2 \<open>unat b < 128\<close> show ?thesis by (cases "unat b") (auto split: if_splits)
    next
      case False
      then have "(2::nat) ^ (7 * (i + 1)) \<le> 2 ^ 64" using "2.prems"(3) by (intro power_increasing) auto
      then show ?thesis using 2 lt [OF True] True False by (auto split: if_splits)
    qed
  next
    case False
    have ten: "uvarint_from 10 z bs = Inr (y, rest) \<Longrightarrow> False" for z
      by (cases bs) auto
    have "unat b - 128 < 128" using unsigned_less [of b, where ?'a = nat] by simp
    from lt [OF this] show ?thesis
      using 2 False ten by (cases "i = 9") (auto split: if_splits)
  qed
qed

lemma readFull_put [simp]: "length xs = n \<Longrightarrow> n \<le> maxAlloc \<Longrightarrow> readFull n (xs @ rest) = Inr (xs, rest)"
  by (simp add: readFull_def)

lemma readFull_shorter: "readFull n bs = Inr (xs, rest) \<Longrightarrow> length rest \<le> length bs"
  by (auto simp: readFull_def split: if_splits)

end
