(* ===== verification/LSM_Codec.thy ===== *)
theory LSM_Codec
  imports Go_Binary
begin

text \<open>
  The byte formats of \<^verbatim>\<open>components/lsm_tree\<close>: the prefix-compressed records of \<^verbatim>\<open>block.go\<close> and
  their reader in \<^verbatim>\<open>sst_reader.go\<close>, and the records of the write-ahead log in \<^verbatim>\<open>wal\<close>.  A key-value
  pair (\<^verbatim>\<open>KV\<close>) is a pair of byte lists.
\<close>

type_synonym kv = "bytes \<times> bytes"

section \<open>Helpers of util/string.go\<close>

fun SharedPrefixLen :: "bytes \<Rightarrow> bytes \<Rightarrow> nat" where
  "SharedPrefixLen (a # as) (b # bs) = (if a \<noteq> b then 0 else Suc (SharedPrefixLen as bs))"
| "SharedPrefixLen _ _ = 0"

definition GetSeparatorBetween :: "bytes \<Rightarrow> bytes \<Rightarrow> bytes" where
  "GetSeparatorBetween a b =
     (if b = [] then b
      else if a = [] then butlast b @ [last b - 1]
      else a)"

section \<open>Blocks\<close>

record block =
  bRecord :: bytes
  bEntriesCnt :: nat
  bPrevKey :: bytes

definition NewBlock :: block where
  "NewBlock = \<lparr>bRecord = [], bEntriesCnt = 0, bPrevKey = []\<rparr>"

definition block_Append :: "block \<Rightarrow> bytes \<Rightarrow> bytes \<Rightarrow> block" where
  "block_Append b key value =
     (let sharedPrefixLen = SharedPrefixLen (bPrevKey b) key;
          buffer = putUvarint sharedPrefixLen @ putUvarint (length key - sharedPrefixLen) @ putUvarint (length value)
      in \<lparr>bRecord = bRecord b @ buffer @ drop sharedPrefixLen key @ value,
          bEntriesCnt = bEntriesCnt b + 1, bPrevKey = key\<rparr>)"

definition block_Size :: "block \<Rightarrow> nat" where
  "block_Size b = length (bRecord b)"

definition block_clear :: "block \<Rightarrow> block" where
  "block_clear b = \<lparr>bRecord = [], bEntriesCnt = 0, bPrevKey = []\<rparr>"

text \<open>Writing to an in-memory buffer succeeds: the block's bytes go to the end of \<open>dest\<close>.\<close>

definition block_FlushTo :: "block \<Rightarrow> bytes \<Rightarrow> block \<times> bytes \<times> nat" where
  "block_FlushTo b dest = (block_clear b, dest @ bRecord b, length (bRecord b))"

section \<open>Reading records\<close>

text \<open>A record may claim to share more bytes than the previous key has.  Go then panics, unless the
  spare capacity of that key's slice, which is not modelled, covers them.\<close>

definition ReadRecord :: "bytes \<Rightarrow> bytes \<Rightarrow> go_err + (bytes \<times> bytes \<times> bytes)" where
  "ReadRecord prevKey buf =
     rbind (readUvarint buf) (\<lambda>(sharedPrefixLen, buf).
     rbind (readUvarint buf) (\<lambda>(keyLen, buf).
     rbind (readUvarint buf) (\<lambda>(valLen, buf).
     rbind (readFull keyLen buf) (\<lambda>(key, buf).
     rbind (readFull valLen buf) (\<lambda>(val, buf).
     if sharedPrefixLen > maxAlloc then Inl (Panic ''makeslice: len out of range'')
     else rbind (go_slice prevKey 0 sharedPrefixLen) (\<lambda>sharedPrefix.
       Inr (sharedPrefix @ key, val, buf)))))))"

text \<open>The loop of \<^verbatim>\<open>ReadBlockData\<close>, also the one of \<^verbatim>\<open>readFilter\<close> and \<^verbatim>\<open>readIndex\<close>: a record after
  which the input ends cleanly is the last one.\<close>

function read_records :: "bytes \<Rightarrow> bytes \<Rightarrow> go_err + kv list" where
  "read_records prevKey buf =
     (case ReadRecord prevKey buf of
        Inl e \<Rightarrow> if e = EOF then Inr [] else Inl e
      | Inr (key, val, rest) \<Rightarrow>
          rbind (read_records key rest) (\<lambda>kvs. Inr ((key, val) # kvs)))"
  by pat_completeness auto
termination
  by (relation "measure (\<lambda>(_, buf). length buf)") (auto simp: ReadRecord_def res_simps
      split: if_splits dest!: readUvarint_shorter readFull_shorter)

declare read_records.simps [simp del]

definition ReadBlockData :: "bytes \<Rightarrow> go_err + kv list" where
  "ReadBlockData block = read_records [] block"

section \<open>Write-ahead log\<close>

text \<open>The file of a \<^verbatim>\<open>WALWriter\<close> is opened in append mode; its content is a byte list.\<close>

definition wal_Write :: "bytes \<Rightarrow> bytes \<Rightarrow> bytes \<Rightarrow> bytes" where
  "wal_Write dest key value = dest @ putUvarint (length key) @ putUvarint (length value) @ key @ value"

definition wal_record :: "bytes \<Rightarrow> go_err + (kv \<times> bytes)" where
  "wal_record reader =
     rbind (readUvarint reader) (\<lambda>(keyLen, reader).
     rbind (readUvarint reader) (\<lambda>(valLen, reader).
     rbind (readFull keyLen reader) (\<lambda>(keyBuf, reader).
     rbind (readFull valLen reader) (\<lambda>(valBuf, reader). Inr ((keyBuf, valBuf), reader)))))"

text \<open>Only the end of the file where a record would start ends the loop.\<close>

function wal_readAll :: "bytes \<Rightarrow> go_err + kv list" where
  "wal_readAll reader =
     (if readUvarint reader = Inl EOF then Inr []
      else case wal_record reader of
        Inl e \<Rightarrow> Inl e
      | Inr (x, rest) \<Rightarrow> rbind (wal_readAll rest) (\<lambda>kvs. Inr (x # kvs)))"
  by pat_completeness auto
termination
  by (relation "measure length") (auto simp: wal_record_def res_simps dest!: readUvarint_shorter readFull_shorter)

declare wal_readAll.simps [simp del]

text \<open>\<^verbatim>\<open>for _, kv := range kvs { memTable.Put(kv.Key, kv.Value) }\<close>, with the memtable it leaves.\<close>

fun put_kvs :: "('m \<Rightarrow> bytes \<Rightarrow> bytes \<Rightarrow> go_err + 'm) \<Rightarrow> kv list \<Rightarrow> 'm \<Rightarrow> (go_err + unit) \<times> 'm" where
  "put_kvs put [] m = (Inr (), m)"
| "put_kvs put ((k, v) # kvs) m = (case put m k v of Inl e \<Rightarrow> (Inl e, m) | Inr m' \<Rightarrow> put_kvs put kvs m')"

definition RestoreToMemtable :: "('m \<Rightarrow> bytes \<Rightarrow> bytes \<Rightarrow> go_err + 'm) \<Rightarrow> bytes \<Rightarrow> 'm \<Rightarrow> (go_err + unit) \<times> 'm" where
  "RestoreToMemtable put body m =
     (case wal_readAll body of Inl e \<Rightarrow> (Inl e, m) | Inr kvs \<Rightarrow> put_kvs put kvs m)"

section \<open>The formats as functions of the pairs\<close>

text \<open>Pairs whose lengths fit the format.\<close>

definition kv_fits :: "kv \<Rightarrow> bool" where
  "kv_fits kv \<longleftrightarrow> length (fst kv) \<le> maxAlloc \<and> length (snd kv) \<le> maxAlloc"

text \<open>The bytes one record adds to a block whose previous key is \<open>prev\<close>.\<close>

definition enc_record :: "bytes \<Rightarrow> bytes \<Rightarrow> bytes \<Rightarrow> bytes" where
  "enc_record prev key value =
     (let n = SharedPrefixLen prev key
      in putUvarint n @ putUvarint (length key - n) @ putUvarint (length value) @ drop n key @ value)"

fun enc_records :: "bytes \<Rightarrow> kv list \<Rightarrow> bytes" where
  "enc_records prev [] = []"
| "enc_records prev ((k, v) # kvs) = enc_record prev k v @ enc_records k kvs"

definition wal_bytes :: "kv \<Rightarrow> bytes" where
  "wal_bytes kv = putUvarint (length (fst kv)) @ putUvarint (length (snd kv)) @ fst kv @ snd kv"

section \<open>Lemmas\<close>

lemma maxAlloc_U64: "n \<le> maxAlloc \<Longrightarrow> n < U64"
  by (simp add: maxAlloc_def U64_def)

lemma SharedPrefixLen_le: "SharedPrefixLen a b \<le> length a" "SharedPrefixLen a b \<le> length b"
  by (induction a b rule: SharedPrefixLen.induct) auto

lemma SharedPrefixLen_take: "take (SharedPrefixLen a b) a = take (SharedPrefixLen a b) b"
  by (induction a b rule: SharedPrefixLen.induct) auto

lemma SharedPrefixLen_nil [simp]: "SharedPrefixLen [] b = 0"
  by (cases b) auto

lemma block_Append_enc:
  "block_Append b k v = \<lparr>bRecord = bRecord b @ enc_record (bPrevKey b) k v, bEntriesCnt = bEntriesCnt b + 1, bPrevKey = k\<rparr>"
  by (simp add: block_Append_def enc_record_def Let_def)

lemma ReadRecord_enc:
  assumes "kv_fits (k, v)" "p = prev \<or> p = []"
  shows "ReadRecord prev (enc_record p k v @ rest) = Inr (k, v, rest)"
proof -
  let ?n = "SharedPrefixLen p k"
  have n: "?n \<le> length k" "?n \<le> length prev" "take ?n prev = take ?n k"
    using SharedPrefixLen_le [of p k] SharedPrefixLen_take [of p k] assms(2) by auto
  have fits: "length k \<le> maxAlloc" "length v \<le> maxAlloc" using assms(1) by (auto simp: kv_fits_def)
  have u: "?n < U64" "length k - ?n < U64" "length v < U64" "?n \<le> maxAlloc" "length k - ?n \<le> maxAlloc"
    using fits n(1) maxAlloc_U64 [of "length k"] maxAlloc_U64 [of "length v"] by simp_all
  show ?thesis
    using u fits n by (simp add: ReadRecord_def enc_record_def Let_def go_slice_def)
qed

lemma ReadRecord_nil [simp]: "ReadRecord prev [] = Inl EOF"
  by (simp add: ReadRecord_def)

lemma read_records_nil [simp]: "read_records prev [] = Inr []"
  by (simp add: read_records.simps [of prev])

lemma read_records_enc:
  assumes "list_all kv_fits kvs" "p = prev \<or> p = []"
  shows "read_records prev (enc_records p kvs @ rest)
    = rbind (read_records (if kvs = [] then prev else fst (last kvs)) rest) (\<lambda>kvs'. Inr (kvs @ kvs'))"
  using assms
proof (induction p kvs arbitrary: prev rule: enc_records.induct)
  case (1 p)
  then show ?case by (cases "read_records prev rest") simp_all
next
  case (2 p k v kvs)
  have rec: "ReadRecord prev (enc_record p k v @ enc_records k kvs @ rest) = Inr (k, v, enc_records k kvs @ rest)"
    by (rule ReadRecord_enc) (use 2 in auto)
  have "read_records k (enc_records k kvs @ rest)
      = rbind (read_records (if kvs = [] then k else fst (last kvs)) rest) (\<lambda>kvs'. Inr (kvs @ kvs'))"
    by (rule "2.IH") (use 2 in auto)
  then show ?case
    by (simp add: read_records.simps [of prev] rec)
      (cases "read_records (if kvs = [] then k else fst (last kvs)) rest", simp_all split: if_splits)
qed

lemma ReadBlockData_enc: "list_all kv_fits kvs \<Longrightarrow> ReadBlockData (enc_records [] kvs) = Inr kvs"
  using read_records_enc [of kvs "[]" "[]" "[]"] by (simp add: ReadBlockData_def)

lemma block_Append_fold:
  "bRecord (fold (\<lambda>(k, v) b. block_Append b k v) kvs b) = bRecord b @ enc_records (bPrevKey b) kvs
   \<and> bEntriesCnt (fold (\<lambda>(k, v) b. block_Append b k v) kvs b) = bEntriesCnt b + length kvs"
  by (induction kvs arbitrary: b) (auto simp: block_Append_enc)

lemma wal_record_write [simp]: "kv_fits kv \<Longrightarrow> wal_record (wal_bytes kv @ rest) = Inr (kv, rest)"
  by (simp add: wal_record_def wal_bytes_def kv_fits_def maxAlloc_U64)

lemma wal_start [simp]: "kv_fits kv \<Longrightarrow> readUvarint (wal_bytes kv @ rest) \<noteq> Inl EOF"
  by (simp add: wal_bytes_def kv_fits_def maxAlloc_U64)

lemma wal_readAll_bytes:
  "list_all kv_fits kvs \<Longrightarrow>
   wal_readAll (concat (map wal_bytes kvs) @ rest) = rbind (wal_readAll rest) (\<lambda>kvs'. Inr (kvs @ kvs'))"
proof (induction kvs)
  case Nil
  then show ?case by (cases "wal_readAll rest") simp_all
next
  case (Cons x kvs)
  then show ?case
    by (simp add: wal_readAll.simps [of "wal_bytes x @ _"]) (cases "wal_readAll rest", simp_all)
qed

lemma wal_readAll_nil [simp]: "wal_readAll [] = Inr []"
  by (simp add: wal_readAll.simps [of "[]"])

lemma wal_Write_fold:
  "fold (\<lambda>(k, v) dest. wal_Write dest k v) kvs dest = dest @ concat (map wal_bytes kvs)"
  by (induction kvs arbitrary: dest) (auto simp: wal_Write_def wal_bytes_def)

lemma put_kvs_rfold: "rfold (\<lambda>(k, v) m. put m k v) kvs m = Inr m' \<Longrightarrow> put_kvs put kvs m = (Inr (), m')"
  by (induction put kvs m rule: put_kvs.induct) (auto simp: res_simps split: sum.splits)

lemma put_kvs_total: "put_kvs (\<lambda>m k v. Inr (put m k v)) kvs m = (Inr (), fold (\<lambda>(k, v) m. put m k v) kvs m)"
  by (induction kvs arbitrary: m) auto

text \<open>A record cut anywhere inside is a read error: the end of the file between two fields, an unexpected
  end inside one.\<close>

definition cut_error :: "go_err \<Rightarrow> bool" where
  "cut_error e \<longleftrightarrow> e = EOF \<or> e = ErrUnexpectedEOF"

lemma cut_error_simps [simp]: "cut_error EOF" "cut_error ErrUnexpectedEOF"
  by (simp_all add: cut_error_def)

lemma readFull_cut: "n < m \<Longrightarrow> length bs = n \<Longrightarrow> m \<le> maxAlloc \<Longrightarrow> \<exists>e. readFull m bs = Inl e \<and> cut_error e"
  by (auto simp: readFull_def)

lemma wal_record_cut:
  assumes "kv_fits kv" "0 < n" "n < length (wal_bytes kv)"
  shows "readUvarint (take n (wal_bytes kv)) \<noteq> Inl EOF" "\<exists>e. wal_record (take n (wal_bytes kv)) = Inl e \<and> cut_error e"
proof -
  obtain k v where kv: "kv = (k, v)" by fastforce
  let ?a = "putUvarint (length k)" and ?b = "putUvarint (length v)"
  have len: "length k < U64" "length v < U64" "length k \<le> maxAlloc" "length v \<le> maxAlloc"
    using assms(1) kv by (auto simp: kv_fits_def maxAlloc_U64)
  consider "n < length ?a" | "length ?a \<le> n" "n - length ?a < length ?b"
    | "length ?a \<le> n" "length ?b \<le> n - length ?a" by linarith
  then show "readUvarint (take n (wal_bytes kv)) \<noteq> Inl EOF" "\<exists>e. wal_record (take n (wal_bytes kv)) = Inl e \<and> cut_error e"
  proof (atomize (full), cases)
    case 1
    then show "readUvarint (take n (wal_bytes kv)) \<noteq> Inl EOF \<and> (\<exists>e. wal_record (take n (wal_bytes kv)) = Inl e \<and> cut_error e)"
      using readUvarint_cut [of "length k" n] assms(2) len(1) by (simp add: kv wal_bytes_def wal_record_def)
  next
    case 2
    show "readUvarint (take n (wal_bytes kv)) \<noteq> Inl EOF \<and> (\<exists>e. wal_record (take n (wal_bytes kv)) = Inl e \<and> cut_error e)"
    proof (cases "n - length ?a = 0")
      case True
      then show ?thesis using 2 len(1) readUvarint_put [of "length k" "[]"]
        by (simp add: kv wal_bytes_def wal_record_def)
    next
      case False
      then show ?thesis
        using 2 len readUvarint_cut [of "length v" "n - length ?a"]
        by (simp add: kv wal_bytes_def wal_record_def)
    qed
  next
    case 3
    let ?r = "take (n - length ?a - length ?b) (k @ v)"
    have bytes: "take n (wal_bytes kv) = ?a @ ?b @ ?r"
      using 3 by (simp add: kv wal_bytes_def)
    have short: "length ?r < length k + length v"
      using assms(3) 3 by (simp add: kv wal_bytes_def)
    have "\<exists>e. rbind (readFull (length k) ?r) (\<lambda>(keyBuf, reader).
        rbind (readFull (length v) reader) (\<lambda>(valBuf, reader). Inr ((keyBuf, valBuf), reader))) = Inl e \<and> cut_error e"
    proof (cases "length k \<le> length ?r")
      case True
      then have "readFull (length k) ?r = Inr (k, drop (length k) ?r)"
        using len(3) by (simp add: readFull_def)
      moreover have "\<exists>e. readFull (length v) (drop (length k) ?r) = Inl e \<and> cut_error e"
        by (rule readFull_cut [OF _ refl len(4)]) (use True short in auto)
      ultimately show ?thesis by auto
    next
      case False
      then have "\<exists>e. readFull (length k) ?r = Inl e \<and> cut_error e" by (intro readFull_cut [OF _ refl len(3)]) simp
      then show ?thesis by auto
    qed
    then show "readUvarint (take n (wal_bytes kv)) \<noteq> Inl EOF \<and> (\<exists>e. wal_record (take n (wal_bytes kv)) = Inl e \<and> cut_error e)"
      unfolding bytes using len by (simp add: wal_record_def)
  qed
qed

lemma wal_readAll_torn:
  assumes "list_all kv_fits kvs" "kv_fits kv" "0 < n" "n < length (wal_bytes kv)"
  shows "\<exists>e. wal_readAll (concat (map wal_bytes kvs) @ take n (wal_bytes kv)) = Inl e \<and> cut_error e"
proof -
  have "\<exists>e. wal_readAll (take n (wal_bytes kv)) = Inl e \<and> cut_error e"
    using wal_record_cut [OF assms(2-4)] by (auto simp: wal_readAll.simps [of "take n _"])
  then show ?thesis
    using wal_readAll_bytes [OF assms(1), of "take n (wal_bytes kv)"] by auto
qed

section \<open>Properties\<close>

text \<open>What a block was given is what \<^verbatim>\<open>ReadBlockData\<close> reads back from its bytes: the same pairs
  in the same order, whatever prefixes their keys share.\<close>

theorem block_roundtrip:
  assumes "list_all kv_fits kvs"
  shows "ReadBlockData (bRecord (fold (\<lambda>(k, v) b. block_Append b k v) kvs NewBlock)) = Inr kvs"
  using ReadBlockData_enc [OF assms] block_Append_fold [of kvs NewBlock] by (simp add: NewBlock_def)

theorem block_roundtrip_witness:
  "ReadBlockData (bRecord (fold (\<lambda>(k, v) b. block_Append b k v) [([1, 2], [7]), ([1, 2, 3], []), ([2], [9])] NewBlock))
    = Inr [([1, 2], [7]), ([1, 2, 3], []), ([2], [9])]"
  by (rule block_roundtrip) (simp add: kv_fits_def maxAlloc_def)

text \<open>C31: Recovery replays the log: restoring from a file that holds the records of a sequence of
  writes puts exactly these pairs into the memtable, in the order they were written.\<close>

theorem wal_roundtrip:
  assumes "list_all kv_fits kvs"
  shows "RestoreToMemtable (\<lambda>m k v. Inr (put m k v)) (fold (\<lambda>(k, v) dest. wal_Write dest k v) kvs []) m
    = (Inr (), fold (\<lambda>(k, v) m. put m k v) kvs m)"
  using wal_readAll_bytes [OF assms, of "[]"] by (simp add: RestoreToMemtable_def wal_Write_fold put_kvs_total)

theorem wal_roundtrip_witness:
  "RestoreToMemtable (\<lambda>m k v. Inr (m(k \<mapsto> v))) (fold (\<lambda>(k, v) dest. wal_Write dest k v) [([1], [2]), ([1], [3, 4])] []) Map.empty
    = (Inr (), [[1] \<mapsto> [3, 4]])"
  using wal_roundtrip [of "[([1], [2]), ([1], [3, 4])]" "\<lambda>m k v. m(k \<mapsto> v)" Map.empty]
  by (simp add: kv_fits_def maxAlloc_def)

text \<open>C32: A torn write is noticed: when the file ends inside its last record, wherever that is,
  recovery does not panic but returns \<^verbatim>\<open>io.EOF\<close> or \<^verbatim>\<open>io.ErrUnexpectedEOF\<close>, and the memtable is the one it was
  given: neither the torn record nor any of the complete records before it is put.\<close>

theorem wal_torn_record:
  assumes "list_all kv_fits kvs" "kv_fits kv" "0 < n" "n < length (wal_bytes kv)"
  shows "\<exists>e. e \<in> {EOF, ErrUnexpectedEOF}
    \<and> RestoreToMemtable put (fold (\<lambda>(k, v) dest. wal_Write dest k v) kvs [] @ take n (wal_bytes kv)) m = (Inl e, m)"
  using wal_readAll_torn [OF assms] by (auto simp: RestoreToMemtable_def wal_Write_fold cut_error_def)

theorem wal_torn_record_witness:
  "\<exists>e. e \<in> {EOF, ErrUnexpectedEOF}
    \<and> RestoreToMemtable (\<lambda>m k v. Inr (m(k \<mapsto> v))) ([1, 1, 5, 6] @ take 3 [1, 1, 7, 8]) Map.empty = (Inl e, Map.empty)"
  using wal_torn_record [of "[([5], [6])]" "([7], [8])" 3 "\<lambda>m k v. Inr (m(k \<mapsto> v))" Map.empty]
  by (simp add: kv_fits_def maxAlloc_def wal_bytes_def wal_Write_def putUvarint.simps)

end
