(* ===== verification/LSM_Filter.thy ===== *)
theory LSM_Filter
  imports LSM_Codec
begin

unbundle bit_operations_syntax

text \<open>
  The filter of a data block, \<^verbatim>\<open>components/lsm_tree/filter\<close>.  The interface \<^verbatim>\<open>Filter\<close> is the record
  \<open>filter_ops\<close> of its methods; the locale \<open>key_filter\<close> says what the rest of the tree relies on, and
  the Bloom filter of \<^verbatim>\<open>bloom_filter.go\<close> is shown to provide it.
\<close>

section \<open>The interface\<close>

text \<open>A \<^verbatim>\<open>nil\<close> bitmap is \<open>None\<close>.\<close>

record 'f filter_ops =
  fAdd :: "'f \<Rightarrow> bytes \<Rightarrow> 'f"
  fExist :: "'f \<Rightarrow> bytes option \<Rightarrow> bytes \<Rightarrow> go_err + bool"
  fHash :: "'f \<Rightarrow> go_err + bytes"
  fReset :: "'f \<Rightarrow> 'f"
  fKeyLen :: "'f \<Rightarrow> nat"

section \<open>The Bloom filter\<close>

definition hashKey :: "bytes \<Rightarrow> 32 word" where
  "hashKey key = fnv32a key"

record bloom =
  bfM :: nat
  hashedKeys :: "32 word list"

definition NewBloomFilter :: "int \<Rightarrow> go_err + bloom" where
  "NewBloomFilter m = (if m \<le> 0 then Inl (Err ''m must be positive'') else Inr \<lparr>bfM = nat m, hashedKeys = []\<rparr>)"

definition bf_Add :: "bloom \<Rightarrow> bytes \<Rightarrow> bloom" where
  "bf_Add bf key = bf\<lparr>hashedKeys := hashedKeys bf @ [hashKey key]\<rparr>"

definition bf_Reset :: "bloom \<Rightarrow> bloom" where
  "bf_Reset bf = bf\<lparr>hashedKeys := []\<rparr>"

definition bf_KeyLen :: "bloom \<Rightarrow> nat" where
  "bf_KeyLen bf = length (hashedKeys bf)"

definition bf_bestK :: "bloom \<Rightarrow> go_err + nat" where
  "bf_bestK bf =
     (if hashedKeys bf = [] then Inl (Panic ''integer divide by zero'')
      else Inr (min (max ((69 * bfM bf div 100 div length (hashedKeys bf)) mod 256) 1) 30))"

definition bf_bitmap :: "bloom \<Rightarrow> nat \<Rightarrow> bytes" where
  "bf_bitmap bf k = replicate ((bfM bf + 7) div 8) 0 @ [word_of_nat k]"

text \<open>The bit a hash sets in round \<open>i\<close>.\<close>

definition targetBit :: "bloom \<Rightarrow> 32 word \<Rightarrow> nat \<Rightarrow> go_err + nat" where
  "targetBit bf h i =
     (let delta = drop_bit 17 h OR push_bit 15 h; m = (word_of_nat (bfM bf) :: 32 word)
      in if m = 0 then Inl (Panic ''integer divide by zero'')
         else Inr (unat ((h + word_of_nat i * delta) mod m)))"

definition setBit :: "bytes \<Rightarrow> nat \<Rightarrow> go_err + bytes" where
  "setBit bitmap t =
     rbind (go_nth bitmap (t div 8)) (\<lambda>b. Inr (bitmap[t div 8 := b OR push_bit (t mod 8) 1]))"

definition bf_Hash :: "bloom \<Rightarrow> go_err + bytes" where
  "bf_Hash bf =
     rbind (bf_bestK bf) (\<lambda>k.
       rfold (\<lambda>h. rfold (\<lambda>i bitmap. rbind (targetBit bf h i) (setBit bitmap)) [0..<k])
         (hashedKeys bf) (bf_bitmap bf k))"

text \<open>The rounds \<open>i, i + 1, ...\<close> of \<^verbatim>\<open>Exist\<close>, \<open>n\<close> of them.\<close>

fun bf_rounds :: "bloom \<Rightarrow> bytes \<Rightarrow> 32 word \<Rightarrow> nat \<Rightarrow> nat \<Rightarrow> go_err + bool" where
  "bf_rounds bf bitmap h i 0 = Inr True"
| "bf_rounds bf bitmap h i (Suc n) =
     rbind (targetBit bf h i) (\<lambda>t.
     rbind (go_nth bitmap (t div 8)) (\<lambda>b.
       if b AND push_bit (t mod 8) 1 = 0 then Inr False else bf_rounds bf bitmap h (i + 1) n))"

definition bf_Exist :: "bloom \<Rightarrow> bytes option \<Rightarrow> bytes \<Rightarrow> go_err + bool" where
  "bf_Exist bf bitmap key =
     rbind (case bitmap of None \<Rightarrow> bf_Hash bf | Some bm \<Rightarrow> Inr bm) (\<lambda>bm.
     if bm = [] then Inl (Panic ''index out of range'')
     else bf_rounds bf bm (hashKey key) 0 (unat (last bm)))"

definition bloomFilter :: "bloom filter_ops" where
  "bloomFilter = \<lparr>fAdd = bf_Add, fExist = bf_Exist, fHash = bf_Hash, fReset = bf_Reset, fKeyLen = bf_KeyLen\<rparr>"

text \<open>The sizes for which \<^verbatim>\<open>uint32(m)\<close> is \<^verbatim>\<open>m\<close>.\<close>

definition bf_inv :: "bloom \<Rightarrow> bool" where
  "bf_inv bf \<longleftrightarrow> 0 < bfM bf \<and> bfM bf < 2 ^ 32"

definition bf_member :: "bloom \<Rightarrow> bytes \<Rightarrow> bool" where
  "bf_member bf key \<longleftrightarrow> hashKey key \<in> set (hashedKeys bf)"

text \<open>Bit \<open>t\<close> of a bitmap.\<close>

definition bit_set :: "bytes \<Rightarrow> nat \<Rightarrow> bool" where
  "bit_set bm t \<longleftrightarrow> t div 8 < length bm \<and> bm ! (t div 8) AND push_bit (t mod 8) 1 \<noteq> 0"

definition bm_ok :: "bloom \<Rightarrow> nat \<Rightarrow> bytes \<Rightarrow> bool" where
  "bm_ok bf k bm \<longleftrightarrow> length bm = (bfM bf + 7) div 8 + 1 \<and> last bm = word_of_nat k"

section \<open>What the tree relies on\<close>

locale key_filter =
  fixes F :: "'f filter_ops" and finv :: "'f \<Rightarrow> bool" and member :: "'f \<Rightarrow> bytes \<Rightarrow> bool" and size :: "'f \<Rightarrow> nat"
  assumes add: "finv f \<Longrightarrow> finv (fAdd F f k) \<and> size (fAdd F f k) = size f \<and> fKeyLen F (fAdd F f k) = fKeyLen F f + 1"
    and add_member: "finv f \<Longrightarrow> x = k \<or> member f x \<Longrightarrow> member (fAdd F f k) x"
    and reset: "finv f \<Longrightarrow> finv (fReset F f) \<and> size (fReset F f) = size f \<and> fKeyLen F (fReset F f) = 0"
    and hash: "finv f \<Longrightarrow> 0 < fKeyLen F f \<Longrightarrow> \<exists>bm. fHash F f = Inr bm \<and> length bm \<le> size f + 2
      \<and> (\<forall>f' k. finv f' \<longrightarrow> size f' = size f \<longrightarrow> (\<exists>b. fExist F f' (Some bm) k = Inr b \<and> (member f k \<longrightarrow> b)))"

section \<open>The Bloom filter provides it\<close>

lemma setBit_ok:
  assumes "t div 8 < length bm"
  shows "\<exists>bm'. setBit bm t = Inr bm' \<and> length bm' = length bm \<and> bit_set bm' t
    \<and> (\<forall>s. bit_set bm s \<longrightarrow> bit_set bm' s) \<and> (\<forall>j. j \<noteq> t div 8 \<longrightarrow> bm' ! j = bm ! j)"
proof -
  have t: "(x OR push_bit (t mod 8) 1) AND push_bit (t mod 8) 1 \<noteq> 0" for x :: byte
  proof -
    have "bit ((x OR push_bit (t mod 8) 1) AND push_bit (t mod 8) 1) (t mod 8)"
      by (auto simp: bit_simps)
    then show ?thesis by auto
  qed
  have mono: "x AND y \<noteq> 0 \<Longrightarrow> (x OR z) AND y \<noteq> 0" for x y z :: byte
    by (metis bit.conj_disj_distrib2 or_eq_0_iff)
  show ?thesis
    using assms t mono by (auto simp: setBit_def bit_set_def nth_list_update)
qed


lemma targetBit_ok:
  assumes "bf_inv bf"
  shows "\<exists>t. targetBit bf h i = Inr t \<and> t < bfM bf"
proof -
  let ?m = "word_of_nat (bfM bf) :: 32 word"
  have m: "unat ?m = bfM bf"
    using assms by (simp add: bf_inv_def unat_of_nat take_bit_nat_eq_self)
  then have "?m \<noteq> 0" using assms by (auto simp: bf_inv_def)
  moreover have "unat (x mod ?m) < bfM bf" for x :: "32 word"
    using m assms by (simp add: unat_mod bf_inv_def)
  ultimately show ?thesis by (simp add: targetBit_def Let_def)
qed

lemma hash_round:
  assumes "bf_inv bf" "bm_ok bf k bm"
  shows "\<exists>bm'. rbind (targetBit bf h i) (setBit bm) = Inr bm' \<and> bm_ok bf k bm'
    \<and> (\<forall>s. bit_set bm s \<longrightarrow> bit_set bm' s) \<and> (\<exists>t. targetBit bf h i = Inr t \<and> bit_set bm' t)"
proof -
  obtain t where t: "targetBit bf h i = Inr t" "t < bfM bf" using targetBit_ok [OF assms(1)] by blast
  then have lt: "t div 8 < (bfM bf + 7) div 8" by (simp add: less_mult_imp_div_less div_less_iff_less_mult)
  then have len: "t div 8 < length bm" using assms(2) by (simp add: bm_ok_def)
  obtain bm' where bm': "setBit bm t = Inr bm'" "length bm' = length bm" "bit_set bm' t"
    "\<forall>s. bit_set bm s \<longrightarrow> bit_set bm' s" "\<forall>j. j \<noteq> t div 8 \<longrightarrow> bm' ! j = bm ! j"
    using setBit_ok [OF len] by blast
  have "last bm' = last bm"
  proof -
    have "bm \<noteq> []" "bm' \<noteq> []" using len bm'(2) by auto
    then show ?thesis using bm'(2,5) lt assms(2) by (simp add: bm_ok_def last_conv_nth)
  qed
  then show ?thesis using t bm' assms(2) by (auto simp: bm_ok_def)
qed

lemma bf_Hash_ok:
  assumes "bf_inv bf" "hashedKeys bf \<noteq> []"
  shows "\<exists>bm k. bf_Hash bf = Inr bm \<and> k < 256 \<and> bm_ok bf k bm
    \<and> (\<forall>h \<in> set (hashedKeys bf). \<forall>i < k. \<exists>t. targetBit bf h i = Inr t \<and> bit_set bm t)"
proof -
  define k where "k = min (max ((69 * bfM bf div 100 div length (hashedKeys bf)) mod 256) 1) 30"
  have k: "bf_bestK bf = Inr k" using assms(2) by (simp add: bf_bestK_def k_def)
  let ?R = "\<lambda>a b. \<forall>s. bit_set a s \<longrightarrow> bit_set b s"
  let ?Q = "\<lambda>h i bm. \<exists>t. targetBit bf h i = Inr t \<and> bit_set bm t"
  have inner: "\<exists>bm'. rfold (\<lambda>i bitmap. rbind (targetBit bf h i) (setBit bitmap)) [0..<k] bm = Inr bm'
      \<and> bm_ok bf k bm' \<and> ?R bm bm' \<and> (\<forall>i \<in> set [0..<k]. ?Q h i bm')" if "bm_ok bf k bm" for h bm
    by (rule rfold_total [where I = "bm_ok bf k" and R = ?R and P = "?Q h"])
      (use that hash_round [OF assms(1)] in \<open>auto\<close>)
  have "\<exists>bm'. rfold (\<lambda>h. rfold (\<lambda>i bitmap. rbind (targetBit bf h i) (setBit bitmap)) [0..<k])
      (hashedKeys bf) (bf_bitmap bf k) = Inr bm' \<and> bm_ok bf k bm' \<and> ?R (bf_bitmap bf k) bm'
      \<and> (\<forall>h \<in> set (hashedKeys bf). \<forall>i \<in> set [0..<k]. ?Q h i bm')"
    by (rule rfold_total [where I = "bm_ok bf k" and R = ?R and P = "\<lambda>h bm. \<forall>i \<in> set [0..<k]. ?Q h i bm"])
      (use inner in \<open>auto simp: bm_ok_def bf_bitmap_def\<close>)
  moreover have "k < 256" by (simp add: k_def)
  ultimately show ?thesis
    unfolding bf_Hash_def k rbind_Inr by (metis atLeastLessThan_iff set_upt zero_le)
qed


lemma bf_rounds_ok:
  assumes "bf_inv bf" "bm_ok bf k bm"
  shows "\<exists>b. bf_rounds bf bm h i n = Inr b
    \<and> ((\<forall>j < n. \<exists>t. targetBit bf h (i + j) = Inr t \<and> bit_set bm t) \<longrightarrow> b)"
proof (induction n arbitrary: i)
  case 0
  show ?case by (intro exI [of _ True]) simp
next
  case (Suc n)
  obtain t where t: "targetBit bf h i = Inr t" "t < bfM bf" using targetBit_ok [OF assms(1)] by blast
  then have "t div 8 < length bm"
    using assms(2) by (simp add: bm_ok_def less_Suc_eq_le div_le_mono)
  then have b: "go_nth bm (t div 8) = Inr (bm ! (t div 8))" by (simp add: go_nth_def)
  obtain b' where b': "bf_rounds bf bm h (i + 1) n = Inr b'"
    "(\<forall>j < n. \<exists>t. targetBit bf h (i + 1 + j) = Inr t \<and> bit_set bm t) \<longrightarrow> b'"
    using Suc.IH [of "i + 1"] by blast
  have all: "bit_set bm t \<and> b'" if a: "\<forall>j < Suc n. \<exists>t. targetBit bf h (i + j) = Inr t \<and> bit_set bm t"
  proof -
    have "\<exists>t. targetBit bf h (i + 1 + j) = Inr t \<and> bit_set bm t" if "j < n" for j
      using a [rule_format, of "Suc j"] that by simp
    moreover have "bit_set bm t" using a [rule_format, of 0] t(1) by simp
    ultimately show ?thesis using b'(2) by blast
  qed
  have "bf_rounds bf bm h i (Suc n) = Inr (bit_set bm t \<and> b')"
    using t(1) b b'(1) by (simp add: bit_set_def go_nth_def split: if_splits)
  with all show ?case by blast
qed

lemma targetBit_cong: "bfM bf' = bfM bf \<Longrightarrow> targetBit bf' = targetBit bf"
  by (simp add: targetBit_def fun_eq_iff)

lemma bf_rounds_cong: "bfM bf' = bfM bf \<Longrightarrow> bf_rounds bf' bm h i n = bf_rounds bf bm h i n"
  by (induction n arbitrary: i) (simp_all add: targetBit_cong [of bf' bf] cong: if_cong)

lemma bf_Exist_ok:
  assumes "bf_inv bf" "hashedKeys bf \<noteq> []"
  shows "\<exists>bm. bf_Hash bf = Inr bm \<and> length bm \<le> bfM bf + 2 \<and> (\<forall>bf' key. bfM bf' = bfM bf \<longrightarrow>
    (\<exists>b. bf_Exist bf' (Some bm) key = Inr b \<and> (bf_member bf key \<longrightarrow> b)))"
proof -
  obtain bm k where bm: "bf_Hash bf = Inr bm" "k < 256" "bm_ok bf k bm"
    "\<forall>h \<in> set (hashedKeys bf). \<forall>i < k. \<exists>t. targetBit bf h i = Inr t \<and> bit_set bm t"
    using bf_Hash_ok [OF assms] by blast
  have "bm \<noteq> []" "unat (last bm) = k"
    using bm(2,3) by (auto simp: bm_ok_def unat_of_nat take_bit_nat_eq_self)
  then have "bfM bf' = bfM bf \<Longrightarrow> \<exists>b. bf_Exist bf' (Some bm) key = Inr b \<and> (bf_member bf key \<longrightarrow> b)" for bf' key
    using bf_rounds_ok [OF assms(1) bm(3), of "hashKey key" 0 k] bm(4)
    by (auto simp: bf_Exist_def bf_member_def bf_rounds_cong [of bf' bf])
  moreover have "length bm \<le> bfM bf + 2" using bm(3) by (simp add: bm_ok_def)
  ultimately show ?thesis using bm(1) by blast
qed

lemma bloomFilter_simps [simp]:
  "fAdd bloomFilter = bf_Add" "fExist bloomFilter = bf_Exist" "fHash bloomFilter = bf_Hash"
  "fReset bloomFilter = bf_Reset" "fKeyLen bloomFilter = bf_KeyLen"
  by (simp_all add: bloomFilter_def)

interpretation bloom: key_filter bloomFilter bf_inv bf_member bfM
proof unfold_locales
  fix f :: bloom
  assume "bf_inv f" "0 < fKeyLen bloomFilter f"
  then show "\<exists>bm. fHash bloomFilter f = Inr bm \<and> length bm \<le> bfM f + 2 \<and> (\<forall>f' k. bf_inv f' \<longrightarrow> bfM f' = bfM f \<longrightarrow>
      (\<exists>b. fExist bloomFilter f' (Some bm) k = Inr b \<and> (bf_member f k \<longrightarrow> b)))"
    using bf_Exist_ok [of f] by (auto simp: bf_KeyLen_def)
qed (auto simp: bf_inv_def bf_Add_def bf_Reset_def bf_KeyLen_def bf_member_def)

section \<open>Histories of a filter\<close>

datatype bf_cmd = BAdd bytes | BReset

fun bf_do :: "bf_cmd \<Rightarrow> bloom \<Rightarrow> bloom" where
  "bf_do (BAdd key) bf = bf_Add bf key"
| "bf_do BReset bf = bf_Reset bf"

text \<open>The keys added since the last reset.\<close>

definition since_reset :: "bf_cmd list \<Rightarrow> bytes list" where
  "since_reset cs = fold (\<lambda>c keys. case c of BAdd key \<Rightarrow> keys @ [key] | BReset \<Rightarrow> []) cs []"

lemma bf_do_fields:
  "bfM (fold bf_do cs \<lparr>bfM = m, hashedKeys = []\<rparr>) = m"
  "hashedKeys (fold bf_do cs \<lparr>bfM = m, hashedKeys = []\<rparr>) = map hashKey (since_reset cs)"
proof -
  have "bfM (fold bf_do cs b) = bfM b \<and> (hashedKeys b = map hashKey keys \<longrightarrow>
      hashedKeys (fold bf_do cs b) = map hashKey (fold (\<lambda>c keys. case c of BAdd key \<Rightarrow> keys @ [key] | BReset \<Rightarrow> []) cs keys))"
    for b keys
  proof (induction cs arbitrary: b keys)
    case (Cons c cs)
    show ?case
    proof (cases c)
      case (BAdd key)
      then show ?thesis using Cons.IH [of "bf_do c b" "keys @ [key]"] by (simp add: bf_Add_def)
    next
      case BReset
      then show ?thesis using Cons.IH [of "bf_do c b" "[]"] by (simp add: bf_Reset_def)
    qed
  qed simp
  from this [of "\<lparr>bfM = m, hashedKeys = []\<rparr>" "[]"]
  show "bfM (fold bf_do cs \<lparr>bfM = m, hashedKeys = []\<rparr>) = m"
    "hashedKeys (fold bf_do cs \<lparr>bfM = m, hashedKeys = []\<rparr>) = map hashKey (since_reset cs)"
    by (simp_all add: since_reset_def)
qed

lemma since_reset_adds [simp]: "since_reset (map BAdd keys) = keys"
  by (induction keys rule: rev_induct) (simp_all add: since_reset_def)

lemma bf_do_adds:
  "fold bf_do (map BAdd (since_reset cs)) \<lparr>bfM = m, hashedKeys = []\<rparr> = fold bf_do cs \<lparr>bfM = m, hashedKeys = []\<rparr>"
  using bf_do_fields [of cs m] bf_do_fields [of "map BAdd (since_reset cs)" m] by (intro bloom.equality) simp_all

section \<open>Properties\<close>

text \<open>C33: No false negatives.  Take a new filter of less than 2^32 bits and any history of \<^verbatim>\<open>Add\<close> and
  \<^verbatim>\<open>Reset\<close>.  For every key added since the last reset, \<^verbatim>\<open>Exist\<close> returns true: on the bitmap that \<^verbatim>\<open>Hash\<close>
  returns now, whatever is added to the filter or reset afterwards or before, and without a bitmap on
  the filter itself.  A reset leaves nothing behind: the bitmap and the number of keys are those of a
  new filter to which only these keys were added.\<close>

theorem bloom_no_false_negative:
  assumes "0 < m" "m < 2 ^ 32" "k \<in> set (since_reset cs)"
  shows "\<exists>bf bm. NewBloomFilter m = Inr bf \<and> bf_Hash (fold bf_do cs bf) = Inr bm
    \<and> (\<forall>cs'. bf_Exist (fold bf_do cs' bf) (Some bm) k = Inr True) \<and> bf_Exist (fold bf_do cs bf) None k = Inr True
    \<and> bf_Hash (fold bf_do (map BAdd (since_reset cs)) bf) = Inr bm \<and> bf_KeyLen (fold bf_do cs bf) = length (since_reset cs)"
proof -
  let ?b0 = "\<lparr>bfM = nat m, hashedKeys = []\<rparr>" and ?bf = "\<lambda>cs. fold bf_do cs \<lparr>bfM = nat m, hashedKeys = []\<rparr>"
  have b: "bf_inv (?bf cs)" "hashedKeys (?bf cs) \<noteq> []" "bf_member (?bf cs) k"
    using assms by (auto simp: bf_inv_def bf_member_def nat_less_iff bf_do_fields)
  obtain bm where bm: "bf_Hash (?bf cs) = Inr bm" "\<forall>bf' key. bfM bf' = bfM (?bf cs) \<longrightarrow>
      (\<exists>b. bf_Exist bf' (Some bm) key = Inr b \<and> (bf_member (?bf cs) key \<longrightarrow> b))"
    using bf_Exist_ok [OF b(1,2)] by blast
  have any: "bf_Exist (?bf cs') (Some bm) k = Inr True" for cs'
    using bm(2) [rule_format, of "?bf cs'" k] b(3) by (auto simp: bf_do_fields)
  have "bf_Exist (?bf cs) None k = bf_Exist (?bf cs) (Some bm) k" using bm(1) by (simp add: bf_Exist_def)
  then show ?thesis
    using bm(1) any assms(1) by (intro exI [of _ ?b0] exI [of _ bm])
      (simp add: NewBloomFilter_def bf_do_adds bf_KeyLen_def bf_do_fields)
qed

theorem bloom_no_false_negative_witness:
  "\<exists>bf bm. NewBloomFilter 16 = Inr bf \<and> bf_Hash (fold bf_do [BAdd [99], BReset, BAdd [97], BAdd [98]] bf) = Inr bm
    \<and> bf_Exist (fold bf_do [BAdd [100]] bf) (Some bm) [98] = Inr True
    \<and> bf_Hash (fold bf_do [BAdd [97], BAdd [98]] bf) = Inr bm"
proof -
  let ?cs = "[BAdd [99], BReset, BAdd [97], BAdd [98]]"
  have s: "since_reset ?cs = [[97], [98]]" by (simp add: since_reset_def)
  obtain bf bm where "NewBloomFilter 16 = Inr bf" "bf_Hash (fold bf_do ?cs bf) = Inr bm"
    "\<forall>cs'. bf_Exist (fold bf_do cs' bf) (Some bm) [98] = Inr True"
    "bf_Hash (fold bf_do (map BAdd (since_reset ?cs)) bf) = Inr bm"
    using bloom_no_false_negative [of 16 "[98]" ?cs] s by auto
  then show ?thesis by (intro exI [of _ bf] exI [of _ bm]) (simp add: s del: fold.simps)
qed

end
