(* ===== verification/LSM_SST.thy ===== *)
theory LSM_SST
  imports LSM_Filter
begin

text \<open>
  Sorted string tables: \<^verbatim>\<open>sst_writer.go\<close>, \<^verbatim>\<open>sst_reader.go\<close> and the lookup of \<^verbatim>\<open>node.go\<close>.  A file is
  its list of bytes; writes to it succeed.  The filter \<^verbatim>\<open>conf.Filter\<close>, which the writer fills and
  resets, is a component of the writer's state, and its methods are the argument \<open>F\<close>.
\<close>

record lsm_config =
  cfMaxLevel :: nat
  cfSSTSize :: nat
  cfSSTNumPerLevel :: nat
  cfSSTDataBlockSize :: nat
  cfSSTFooterSize :: nat

section \<open>Writer\<close>

record index =
  ixKey :: bytes
  ixPrevBlockOffset :: nat
  ixPrevBlockSize :: nat

record 'f sst_writer =
  swFilter :: 'f
  swDest :: bytes
  swDataBuf :: bytes
  swFilterBuf :: bytes
  swIndexBuf :: bytes
  swBlockToFilter :: "nat \<rightharpoonup> bytes"
  swIndex :: "index list"
  swDataBlock :: block
  swFilterBlock :: block
  swIndexBlock :: block
  swPrevKey :: bytes
  swPrevBlockOffset :: nat
  swPrevBlockSize :: nat

definition NewSSTWriter :: "'f \<Rightarrow> bytes \<Rightarrow> 'f sst_writer" where
  "NewSSTWriter f dest =
     \<lparr>swFilter = f, swDest = dest, swDataBuf = [], swFilterBuf = [], swIndexBuf = [], swBlockToFilter = Map.empty,
      swIndex = [], swDataBlock = NewBlock, swFilterBlock = NewBlock, swIndexBlock = NewBlock,
      swPrevKey = [], swPrevBlockOffset = 0, swPrevBlockSize = 0\<rparr>"

definition sw_insertIndex :: "'f sst_writer \<Rightarrow> bytes \<Rightarrow> 'f sst_writer" where
  "sw_insertIndex s key =
     (let indexKey = GetSeparatorBetween (swPrevKey s) key;
          scratch = putUvarint (swPrevBlockOffset s) @ putUvarint (swPrevBlockSize s)
      in s\<lparr>swIndexBlock := block_Append (swIndexBlock s) indexKey scratch,
           swIndex := swIndex s @ [\<lparr>ixKey = indexKey, ixPrevBlockOffset = swPrevBlockOffset s,
                                    ixPrevBlockSize = swPrevBlockSize s\<rparr>]\<rparr>)"

definition sw_refreshBlock :: "'f filter_ops \<Rightarrow> 'f sst_writer \<Rightarrow> go_err + 'f sst_writer" where
  "sw_refreshBlock F s =
     (if fKeyLen F (swFilter s) = 0 then Inr s
      else let off = length (swDataBuf s) in
        rbind (fHash F (swFilter s)) (\<lambda>filterBitmap.
          case block_FlushTo (swDataBlock s) (swDataBuf s) of (blk, buf, n) \<Rightarrow>
            Inr (s\<lparr>swPrevBlockOffset := off,
                   swBlockToFilter := (swBlockToFilter s)(off \<mapsto> filterBitmap),
                   swFilterBlock := block_Append (swFilterBlock s) (putUvarint off) filterBitmap,
                   swFilter := fReset F (swFilter s),
                   swDataBlock := blk, swDataBuf := buf, swPrevBlockSize := n\<rparr>)))"

definition sw_Append :: "lsm_config \<Rightarrow> 'f filter_ops \<Rightarrow> 'f sst_writer \<Rightarrow> bytes \<Rightarrow> bytes \<Rightarrow> go_err + 'f sst_writer" where
  "sw_Append conf F s key value =
     (let s1 = (if bEntriesCnt (swDataBlock s) = 0 then sw_insertIndex s key else s);
          s2 = s1\<lparr>swDataBlock := block_Append (swDataBlock s1) key value,
                  swFilter := fAdd F (swFilter s1) key, swPrevKey := key\<rparr>
      in if block_Size (swDataBlock s2) \<ge> cfSSTDataBlockSize conf then sw_refreshBlock F s2 else Inr s2)"

definition sw_Size :: "'f sst_writer \<Rightarrow> nat" where
  "sw_Size s = length (swDataBuf s)"

text \<open>The footer: four numbers in a fixed number of bytes; \<^verbatim>\<open>PutUvarint\<close> panics when they do not
  fit.\<close>

definition sst_footer :: "lsm_config \<Rightarrow> nat \<Rightarrow> nat \<Rightarrow> nat \<Rightarrow> nat \<Rightarrow> go_err + bytes" where
  "sst_footer conf a b c d =
     (let f = putUvarint a @ putUvarint b @ putUvarint c @ putUvarint d
      in if length f \<le> cfSSTFooterSize conf then Inr (f @ replicate (cfSSTFooterSize conf - length f) 0)
         else Inl (Panic ''index out of range''))"

text \<open>Writing to a file opened without truncation replaces its beginning.\<close>

definition sw_Finish :: "lsm_config \<Rightarrow> 'f filter_ops \<Rightarrow> 'f sst_writer
    \<Rightarrow> go_err + ('f sst_writer \<times> nat \<times> (nat \<rightharpoonup> bytes) \<times> index list)" where
  "sw_Finish conf F s =
     rbind (sw_refreshBlock F s) (\<lambda>s1.
       let s2 = sw_insertIndex s1 (swPrevKey s1) in
       case block_FlushTo (swFilterBlock s2) (swFilterBuf s2) of (fblk, fbuf, _) \<Rightarrow>
       case block_FlushTo (swIndexBlock s2) (swIndexBuf s2) of (iblk, ibuf, _) \<Rightarrow>
         let dsize = length (swDataBuf s2); isize = dsize + length fbuf in
         rbind (sst_footer conf dsize (length fbuf) isize (length ibuf)) (\<lambda>footer.
           let out = swDataBuf s2 @ fbuf @ ibuf @ footer in
           Inr (s2\<lparr>swFilterBlock := fblk, swFilterBuf := fbuf, swIndexBlock := iblk, swIndexBuf := ibuf,
                    swDest := out @ drop (length out) (swDest s2)\<rparr>,
                isize + length ibuf, swBlockToFilter s2, swIndex s2)))"

section \<open>Reader\<close>

record sst_reader =
  srSrc :: bytes
  srFilterOffset :: nat
  srFilterSize :: nat
  srIndexOffset :: nat
  srIndexSize :: nat

definition NewSSTReader :: "bytes \<Rightarrow> sst_reader" where
  "NewSSTReader src = \<lparr>srSrc = src, srFilterOffset = 0, srFilterSize = 0, srIndexOffset = 0, srIndexSize = 0\<rparr>"

definition sr_readFooter :: "lsm_config \<Rightarrow> sst_reader \<Rightarrow> go_err + sst_reader" where
  "sr_readFooter conf s =
     (if cfSSTFooterSize conf > length (srSrc s) then Inl (Err ''invalid argument'')
      else
        rbind (readUvarint (drop (length (srSrc s) - cfSSTFooterSize conf) (srSrc s))) (\<lambda>(fo, r).
        rbind (readUvarint r) (\<lambda>(fs, r).
        rbind (readUvarint r) (\<lambda>(io, r).
        rbind (readUvarint r) (\<lambda>(is, r).
          Inr (s\<lparr>srFilterOffset := fo, srFilterSize := fs, srIndexOffset := io, srIndexSize := is\<rparr>))))))"

definition sr_readBlock :: "sst_reader \<Rightarrow> nat \<Rightarrow> nat \<Rightarrow> go_err + bytes" where
  "sr_readBlock s offset n =
     (if offset \<ge> 2 ^ 63 then Inl (Err ''invalid argument'')
      else rbind (readFull n (drop offset (srSrc s))) (\<lambda>(buf, _). Inr buf))"

definition sr_Size :: "lsm_config \<Rightarrow> sst_reader \<Rightarrow> go_err + (sst_reader \<times> nat)" where
  "sr_Size conf s =
     rbind (if srIndexOffset s = 0 then sr_readFooter conf s else Inr s) (\<lambda>s.
       Inr (s, srIndexOffset s + srIndexSize s))"

definition readFilter :: "bytes \<Rightarrow> go_err + (nat \<rightharpoonup> bytes)" where
  "readFilter block =
     rbind (read_records [] block) (\<lambda>kvs. Inr (fold (\<lambda>(k, v) m. m(fst (uvarint k) \<mapsto> v)) kvs Map.empty))"

definition sr_ReadFilter :: "lsm_config \<Rightarrow> sst_reader \<Rightarrow> go_err + (sst_reader \<times> (nat \<rightharpoonup> bytes))" where
  "sr_ReadFilter conf s =
     rbind (if srFilterOffset s = 0 \<or> srFilterSize s = 0 then sr_readFooter conf s else Inr s) (\<lambda>s.
     rbind (sr_readBlock s (srFilterOffset s) (srFilterSize s)) (\<lambda>filterBlock.
     rbind (readFilter filterBlock) (\<lambda>m. Inr (s, m))))"

definition decode_index :: "kv \<Rightarrow> go_err + index" where
  "decode_index r =
     (case r of (key, val) \<Rightarrow> case uvarint val of (blockOffset, n) \<Rightarrow>
        if n < 0 then Inl (Panic ''slice bounds out of range'')
        else Inr \<lparr>ixKey = key, ixPrevBlockOffset = blockOffset, ixPrevBlockSize = fst (uvarint (drop (nat n) val))\<rparr>)"

fun rmap :: "('a \<Rightarrow> 'e + 'b) \<Rightarrow> 'a list \<Rightarrow> 'e + 'b list" where
  "rmap f [] = Inr []"
| "rmap f (x # xs) = rbind (f x) (\<lambda>y. rbind (rmap f xs) (\<lambda>ys. Inr (y # ys)))"

definition readIndex :: "bytes \<Rightarrow> go_err + index list" where
  "readIndex block = rbind (read_records [] block) (rmap decode_index)"

definition sr_ReadIndex :: "lsm_config \<Rightarrow> sst_reader \<Rightarrow> go_err + (sst_reader \<times> index list)" where
  "sr_ReadIndex conf s =
     rbind (if srIndexOffset s = 0 \<or> srIndexSize s = 0 then sr_readFooter conf s else Inr s) (\<lambda>s.
     rbind (sr_readBlock s (srIndexOffset s) (srIndexSize s)) (\<lambda>indexBlock.
     rbind (readIndex indexBlock) (\<lambda>ix. Inr (s, ix))))"

definition sr_ReadData :: "lsm_config \<Rightarrow> sst_reader \<Rightarrow> go_err + (sst_reader \<times> kv list)" where
  "sr_ReadData conf s =
     rbind (if srIndexOffset s = 0 \<or> srIndexSize s = 0 \<or> srFilterOffset s = 0 \<or> srFilterSize s = 0
            then sr_readFooter conf s else Inr s) (\<lambda>s.
     rbind (sr_readBlock s 0 (srFilterOffset s)) (\<lambda>dataBlock.
     rbind (ReadBlockData dataBlock) (\<lambda>kvs. Inr (s, kvs))))"

section \<open>Nodes\<close>

record sst_node =
  ndLevel :: nat
  ndSeq :: int
  ndSize :: nat
  ndBlockToFilter :: "nat \<rightharpoonup> bytes"
  ndIndex :: "index list"
  ndStartKey :: bytes
  ndEndKey :: bytes
  ndReader :: sst_reader

definition NewNode :: "sst_reader \<Rightarrow> nat \<Rightarrow> int \<Rightarrow> nat \<Rightarrow> (nat \<rightharpoonup> bytes) \<Rightarrow> index list \<Rightarrow> go_err + sst_node" where
  "NewNode rd level seq sz b2f ix =
     rbind (go_nth ix 0) (\<lambda>i0.
     rbind (go_nth ix (length ix - 1)) (\<lambda>iN.
       Inr \<lparr>ndLevel = level, ndSeq = seq, ndSize = sz, ndBlockToFilter = b2f, ndIndex = ix,
            ndStartKey = ixKey i0, ndEndKey = ixKey iN, ndReader = rd\<rparr>))"

function binarySearchIndex :: "index list \<Rightarrow> bytes \<Rightarrow> nat \<Rightarrow> nat \<Rightarrow> index \<times> bool" where
  "binarySearchIndex ix key start end =
     (if start \<ge> end then (ix ! start, ixKey (ix ! start) \<ge> key)
      else let mid = start + (end - start) div 2
           in if ixKey (ix ! mid) < key then binarySearchIndex ix key (mid + 1) end
              else binarySearchIndex ix key start mid)"
  by pat_completeness auto
termination
  by (relation "measure (\<lambda>(_, _, start, end). end - start)") auto

declare binarySearchIndex.simps [simp del]

definition node_Get :: "'f filter_ops \<Rightarrow> 'f \<Rightarrow> sst_node \<Rightarrow> bytes \<Rightarrow> go_err + bytes option" where
  "node_Get F f n key =
     (if ndIndex n = [] then Inr None
      else case binarySearchIndex (ndIndex n) key 0 (length (ndIndex n) - 1) of (ix, ok) \<Rightarrow>
        if \<not> ok then Inr None
        else case ndBlockToFilter n (ixPrevBlockOffset ix) of
          None \<Rightarrow> Inr None
        | Some bitmap \<Rightarrow>
            rbind (fExist F f (Some bitmap) key) (\<lambda>ok.
              if \<not> ok then Inr None
              else rbind (sr_readBlock (ndReader n) (ixPrevBlockOffset ix) (ixPrevBlockSize ix)) (\<lambda>block.
                   rbind (ReadBlockData block) (\<lambda>kvs. Inr (map_of kvs key)))))"

definition node_GetAll :: "lsm_config \<Rightarrow> sst_node \<Rightarrow> go_err + kv list" where
  "node_GetAll conf n = rbind (sr_ReadData conf (ndReader n)) (\<lambda>(_, kvs). Inr kvs)"

section \<open>The shape of a table\<close>

text \<open>A table holds its pairs in blocks.  \<open>full_index\<close> is the index a finished table has: one entry
  below the first key, then for every block its last key, offset and size.\<close>

definition blk :: "kv list \<Rightarrow> block" where
  "blk kvs = \<lparr>bRecord = enc_records [] kvs, bEntriesCnt = length kvs,
     bPrevKey = (if kvs = [] then [] else fst (last kvs))\<rparr>"

definition table_data :: "kv list list \<Rightarrow> bytes" where
  "table_data blocks = concat (map (enc_records []) blocks)"

fun block_index :: "nat \<Rightarrow> kv list list \<Rightarrow> index list" where
  "block_index off [] = []"
| "block_index off (b # bs) =
     \<lparr>ixKey = fst (last b), ixPrevBlockOffset = off, ixPrevBlockSize = length (enc_records [] b)\<rparr>
       # block_index (off + length (enc_records [] b)) bs"

definition first_index :: "bytes \<Rightarrow> index" where
  "first_index k = \<lparr>ixKey = butlast k @ [last k - 1], ixPrevBlockOffset = 0, ixPrevBlockSize = 0\<rparr>"

definition full_index :: "kv list list \<Rightarrow> index list" where
  "full_index blocks = first_index (fst (hd (concat blocks))) # block_index 0 blocks"

text \<open>The index while block \<open>cur\<close> is being filled.\<close>

definition index_of :: "kv list list \<Rightarrow> kv list \<Rightarrow> index list" where
  "index_of blocks cur =
     (if concat blocks @ cur = [] then []
      else first_index (fst (hd (concat blocks @ cur))) # block_index 0 (if cur = [] then butlast blocks else blocks))"

definition ix_kv :: "index \<Rightarrow> kv" where
  "ix_kv ix = (ixKey ix, putUvarint (ixPrevBlockOffset ix) @ putUvarint (ixPrevBlockSize ix))"

definition flt_kv :: "nat \<times> bytes \<Rightarrow> kv" where
  "flt_kv p = (putUvarint (fst p), snd p)"

definition sw_state :: "'f \<Rightarrow> bytes \<Rightarrow> kv list list \<Rightarrow> (nat \<times> bytes) list \<Rightarrow> kv list \<Rightarrow> 'f sst_writer" where
  "sw_state f dest blocks fl cur =
     \<lparr>swFilter = f, swDest = dest, swDataBuf = table_data blocks, swFilterBuf = [], swIndexBuf = [],
      swBlockToFilter = map_of (rev fl), swIndex = index_of blocks cur,
      swDataBlock = blk cur, swFilterBlock = blk (map flt_kv fl), swIndexBlock = blk (map ix_kv (index_of blocks cur)),
      swPrevKey = (if concat blocks @ cur = [] then [] else fst (last (concat blocks @ cur))),
      swPrevBlockOffset = (if blocks = [] then 0 else length (table_data (butlast blocks))),
      swPrevBlockSize = (if blocks = [] then 0 else length (enc_records [] (last blocks)))\<rparr>"

fun offsets :: "nat \<Rightarrow> kv list list \<Rightarrow> nat list" where
  "offsets off [] = []"
| "offsets off (b # bs) = off # offsets (off + length (enc_records [] b)) bs"

text \<open>Keys a table can hold: none is empty.\<close>

definition keys_ok :: "kv list \<Rightarrow> bool" where
  "keys_ok kvs \<longleftrightarrow> (\<forall>kv \<in> set kvs. fst kv \<noteq> [] \<and> kv_fits kv)"

text \<open>An upper bound on the bytes of one record.\<close>

definition kv_len :: "kv \<Rightarrow> nat" where
  "kv_len kv = 21 + length (fst kv) + length (snd kv)"

text \<open>A bound on the file of a table, from its pairs and the size of a filter bitmap.\<close>

definition table_bound :: "nat \<Rightarrow> kv list \<Rightarrow> nat" where
  "table_bound m kvs = sum_list (map (\<lambda>kv. 140 + m + 3 * length (fst kv) + length (snd kv)) kvs)"

text \<open>A whole run of a writer: every pair appended, then \<^verbatim>\<open>Finish\<close>.\<close>

definition write_table :: "lsm_config \<Rightarrow> 'f filter_ops \<Rightarrow> 'f \<Rightarrow> kv list
    \<Rightarrow> go_err + ('f sst_writer \<times> nat \<times> (nat \<rightharpoonup> bytes) \<times> index list)" where
  "write_table conf F f kvs =
     rbind (rfold (\<lambda>(k, v) s. sw_Append conf F s k v) kvs (NewSSTWriter f [])) (sw_Finish conf F)"

text \<open>What a table written from \<open>kvs\<close> needs: sorted keys, none of them empty, the first one not
  ending in a zero byte, and a file whose size fits.\<close>

definition table_fits :: "lsm_config \<Rightarrow> nat \<Rightarrow> kv list \<Rightarrow> bool" where
  "table_fits conf m kvs \<longleftrightarrow> kvs \<noteq> [] \<and> keys_ok kvs \<and> sorted_wrt (<) (map fst kvs) \<and> last (fst (hd kvs)) \<noteq> 0
     \<and> table_bound m kvs \<le> maxAlloc \<and> 28 \<le> cfSSTFooterSize conf"

section \<open>Lemmas on the shape\<close>

lemma enc_records_snoc:
  "enc_records p (kvs @ [(k, v)]) = enc_records p kvs @ enc_record (if kvs = [] then p else fst (last kvs)) k v"
  by (induction p kvs rule: enc_records.induct) auto

lemma blk_simps [simp]:
  "NewBlock = blk []" "block_clear b = blk []" "bRecord (blk kvs) = enc_records [] kvs"
  "bEntriesCnt (blk kvs) = length kvs" "block_Append (blk kvs) k v = blk (kvs @ [(k, v)])"
  by (simp_all add: blk_def NewBlock_def block_clear_def block_Append_enc enc_records_snoc)

lemma enc_record_nonempty [simp]: "enc_record p k v \<noteq> []"
  by (simp add: enc_record_def Let_def)

lemma enc_records_empty [simp]: "enc_records p kvs = [] \<longleftrightarrow> kvs = []"
  by (cases kvs) auto

lemma block_index_snoc:
  "block_index off (bs @ [b]) = block_index off bs
     @ [\<lparr>ixKey = fst (last b), ixPrevBlockOffset = off + length (table_data bs), ixPrevBlockSize = length (enc_records [] b)\<rparr>]"
  by (induction off bs rule: block_index.induct) (auto simp: table_data_def)

lemma offsets_snoc: "offsets off (bs @ [b]) = offsets off bs @ [off + length (table_data bs)]"
  by (induction off bs rule: offsets.induct) (auto simp: table_data_def)

lemma table_data_snoc [simp]: "table_data (bs @ [b]) = table_data bs @ enc_records [] b" "table_data [] = []"
  by (simp_all add: table_data_def)

lemma hd_concat_append: "concat bs \<noteq> [] \<Longrightarrow> hd (concat bs @ xs) = hd (concat bs)"
  by simp

lemma insertIndex_first:
  assumes "k \<noteq> []"
  shows "sw_insertIndex (sw_state f dest [] fl []) k
    = (sw_state f dest [] fl [])\<lparr>swIndex := index_of [] [(k, v)], swIndexBlock := blk (map ix_kv (index_of [] [(k, v)]))\<rparr>"
  using assms
  by (simp add: sw_insertIndex_def sw_state_def index_of_def GetSeparatorBetween_def first_index_def ix_kv_def Let_def)

lemma insertIndex_next:
  assumes "blocks \<noteq> []" "[] \<notin> set blocks" "keys_ok (concat blocks)" "k \<noteq> []"
  shows "sw_insertIndex (sw_state f dest blocks fl []) k
    = (sw_state f dest blocks fl [])\<lparr>swIndex := full_index blocks, swIndexBlock := blk (map ix_kv (full_index blocks))\<rparr>"
proof -
  obtain bs b where bs: "blocks = bs @ [b]" "b \<noteq> []"
    using assms(1,2) by (cases blocks rule: rev_cases) auto
  have "last b \<in> set (concat blocks)" using bs by auto
  then have lk: "fst (last b) \<noteq> []" using assms(3) by (auto simp: keys_ok_def)
  have c: "concat bs @ b \<noteq> []" using bs by simp
  have i: "full_index blocks = index_of blocks []
      @ [\<lparr>ixKey = fst (last b), ixPrevBlockOffset = length (table_data bs), ixPrevBlockSize = length (enc_records [] b)\<rparr>]"
    using bs by (simp add: full_index_def index_of_def block_index_snoc)
  show ?thesis
    unfolding i using bs lk assms(4)
    by (simp add: sw_insertIndex_def sw_state_def GetSeparatorBetween_def ix_kv_def Let_def)
qed

lemma index_of_grows: "cur \<noteq> [] \<Longrightarrow> index_of blocks (cur @ xs) = index_of blocks cur"
  by (simp add: index_of_def hd_append)

lemma index_of_flushed: "cur \<noteq> [] \<Longrightarrow> index_of (blocks @ [cur]) [] = index_of blocks cur"
  by (simp add: index_of_def)

lemma index_of_full:
  assumes "blocks \<noteq> []" "[] \<notin> set blocks"
  shows "index_of blocks [(k, v)] = full_index blocks"
proof -
  have "concat blocks \<noteq> []" using assms by (cases blocks) auto
  then show ?thesis by (simp add: index_of_def full_index_def)
qed

lemma NewSSTWriter_state: "NewSSTWriter f dest = sw_state f dest [] [] []"
  by (simp add: NewSSTWriter_def sw_state_def index_of_def)

lemma sw_state_cnt [simp]: "bEntriesCnt (swDataBlock (sw_state f dest blocks fl cur)) = length cur"
  by (simp add: sw_state_def)

text \<open>The first steps of \<open>sw_Append\<close>, before the block is closed.\<close>

lemma append_to_block:
  assumes "[] \<notin> set blocks" "keys_ok (concat blocks)" "k \<noteq> []"
  shows "(let s = sw_state f dest blocks fl cur; s1 = (if bEntriesCnt (swDataBlock s) = 0 then sw_insertIndex s k else s)
          in s1\<lparr>swDataBlock := block_Append (swDataBlock s1) k v, swFilter := fAdd F (swFilter s1) k, swPrevKey := k\<rparr>)
     = sw_state (fAdd F f k) dest blocks fl (cur @ [(k, v)])"
proof (cases "cur = []")
  case True
  show ?thesis
  proof (cases "blocks = []")
    case True
    then show ?thesis using \<open>cur = []\<close> assms(3)
      by (simp add: insertIndex_first [where v = v] Let_def) (simp add: sw_state_def)
  next
    case False
    then show ?thesis using \<open>cur = []\<close> assms
      by (simp add: insertIndex_next Let_def) (simp add: sw_state_def index_of_full)
  qed
next
  case False
  then show ?thesis by (simp add: sw_state_def Let_def index_of_grows)
qed

section \<open>Sizes\<close>

lemma putUvarint_len: "x < 2 ^ (7 * n) \<Longrightarrow> 0 < n \<Longrightarrow> length (putUvarint x) \<le> n"
proof (induction n arbitrary: x)
  case (Suc n)
  show ?case
  proof (cases "x < 128")
    case True
    then show ?thesis by (simp add: putUvarint.simps [of x])
  next
    case False
    then have "x div 128 < 2 ^ (7 * n)" using Suc.prems(1)
      by (simp add: power_add div_less_iff_less_mult ac_simps)
    moreover have "0 < n" using False Suc.prems(1) by (cases n) auto
    ultimately show ?thesis using Suc.IH [of "x div 128"] False by (simp add: putUvarint.simps [of x])
  qed
qed simp

lemma putUvarint_len7: "x \<le> maxAlloc \<Longrightarrow> length (putUvarint x) \<le> 7"
  by (rule putUvarint_len) (simp_all add: maxAlloc_def)

lemma enc_record_len: "kv_fits (k, v) \<Longrightarrow> length (enc_record p k v) \<le> kv_len (k, v)"
  using putUvarint_len7 [of "SharedPrefixLen p k"] putUvarint_len7 [of "length k - SharedPrefixLen p k"]
    putUvarint_len7 [of "length v"] SharedPrefixLen_le [of p k] le_trans [OF diff_le_self, of "length k" maxAlloc]
  by (simp add: enc_record_def kv_len_def kv_fits_def Let_def)

lemma enc_records_len: "list_all kv_fits kvs \<Longrightarrow> length (enc_records p kvs) \<le> sum_list (map kv_len kvs)"
proof (induction p kvs rule: enc_records.induct)
  case (2 p k v kvs)
  then show ?case using enc_record_len [of k v p] by simp
qed simp

lemma keys_ok_fits: "keys_ok kvs \<Longrightarrow> list_all kv_fits kvs"
  by (auto simp: keys_ok_def list_all_iff)

lemma keys_ok_append [simp]: "keys_ok (xs @ ys) \<longleftrightarrow> keys_ok xs \<and> keys_ok ys"
  by (auto simp: keys_ok_def)

lemma table_data_len: "keys_ok (concat blocks) \<Longrightarrow> length (table_data blocks) \<le> sum_list (map kv_len (concat blocks))"
proof (induction blocks)
  case (Cons b blocks)
  then show ?case using enc_records_len [of b "[]"] keys_ok_fits [of b] by (simp add: table_data_def)
qed (simp add: table_data_def)

lemma table_data_split:
  assumes "j < length blocks"
  shows "table_data blocks = table_data (take j blocks) @ enc_records [] (blocks ! j) @ table_data (drop (Suc j) blocks)"
  by (subst id_take_nth_drop [OF assms]) (simp add: table_data_def)

lemma length_block_index [simp]: "length (block_index off blocks) = length blocks"
  by (induction off blocks rule: block_index.induct) auto

lemma length_offsets [simp]: "length (offsets off blocks) = length blocks"
  by (induction off blocks rule: offsets.induct) auto

lemma block_index_nth: "j < length blocks \<Longrightarrow> block_index off blocks ! j
    = \<lparr>ixKey = fst (last (blocks ! j)), ixPrevBlockOffset = off + length (table_data (take j blocks)),
       ixPrevBlockSize = length (enc_records [] (blocks ! j))\<rparr>"
proof (induction off blocks arbitrary: j rule: block_index.induct)
  case (2 off b bs)
  then show ?case by (cases j) (auto simp: table_data_def)
qed simp

lemma offsets_nth: "j < length blocks \<Longrightarrow> offsets off blocks ! j = off + length (table_data (take j blocks))"
proof (induction off blocks arbitrary: j rule: offsets.induct)
  case (2 off b bs)
  then show ?case by (cases j) (auto simp: table_data_def)
qed simp

lemma offsets_distinct: "[] \<notin> set blocks \<Longrightarrow> distinct (offsets off blocks) \<and> (\<forall>x \<in> set (offsets off blocks). off \<le> x)"
proof (induction off blocks rule: offsets.induct)
  case (2 off b bs)
  then have "0 < length (enc_records [] b)" by auto
  then show ?case using 2 by fastforce
qed simp

lemma sum_list_blocks:
  fixes g :: "'a \<Rightarrow> nat"
  assumes "[] \<notin> set blocks"
  shows "sum_list (map (\<lambda>b. g (last b)) blocks) \<le> sum_list (map g (concat blocks))"
  using assms
proof (induction blocks)
  case (Cons b blocks)
  then have "g (last b) \<le> sum_list (map g b)" by (auto intro: member_le_sum_list)
  then show ?case using Cons by simp
qed simp

lemma filter_block_len:
  assumes "length fl = length blocks" "\<forall>p \<in> set fl. fst p \<le> maxAlloc \<and> length (snd p) \<le> m" "m \<le> maxAlloc"
  shows "length (enc_records [] (map flt_kv fl)) \<le> length blocks * (28 + m)" "list_all kv_fits (map flt_kv fl)"
proof -
  have p: "kv_fits (flt_kv p) \<and> kv_len (flt_kv p) \<le> 28 + m" if "p \<in> set fl" for p
    using assms(2,3) that putUvarint_len7 [of "fst p"]
    by (auto simp: kv_fits_def flt_kv_def kv_len_def maxAlloc_def)
  then show f: "list_all kv_fits (map flt_kv fl)" by (simp add: list_all_iff)
  have "sum_list (map kv_len (map flt_kv fl)) \<le> sum_list (map (\<lambda>p. 28 + m) fl)"
    unfolding list.map_comp using p by (intro sum_list_mono) simp
  then show "length (enc_records [] (map flt_kv fl)) \<le> length blocks * (28 + m)"
    using enc_records_len [OF f, of "[]"] assms(1) by (simp add: sum_list_triv)
qed

lemma ix_kv_len:
  assumes "ixPrevBlockOffset ix \<le> maxAlloc" "ixPrevBlockSize ix \<le> maxAlloc" "length (ixKey ix) \<le> maxAlloc"
  shows "kv_fits (ix_kv ix)" "kv_len (ix_kv ix) \<le> 35 + length (ixKey ix)"
  using assms putUvarint_len7 [of "ixPrevBlockOffset ix"] putUvarint_len7 [of "ixPrevBlockSize ix"]
  by (auto simp: kv_fits_def ix_kv_def kv_len_def maxAlloc_def)

lemma index_block_len:
  assumes "[] \<notin> set blocks" "blocks \<noteq> []" "keys_ok (concat blocks)" "length (table_data blocks) \<le> maxAlloc"
  shows "list_all kv_fits (map ix_kv (full_index blocks))"
    "length (enc_records [] (map ix_kv (full_index blocks)))
      \<le> 35 + length (fst (hd (concat blocks))) + sum_list (map (\<lambda>kv. 35 + length (fst kv)) (concat blocks))"
proof -
  have c: "concat blocks \<noteq> []" using assms(1,2) by (cases blocks) auto
  let ?k = "fst (hd (concat blocks))"
  have k: "?k \<noteq> []" "length ?k \<le> maxAlloc"
    using assms(3) hd_in_set [OF c] by (auto simp: keys_ok_def kv_fits_def)
  have first: "kv_fits (ix_kv (first_index ?k))" "kv_len (ix_kv (first_index ?k)) \<le> 35 + length ?k"
    using ix_kv_len [of "first_index ?k"] k by (simp_all add: first_index_def)
  have nth: "kv_fits (ix_kv (block_index 0 blocks ! j))
      \<and> kv_len (ix_kv (block_index 0 blocks ! j)) \<le> 35 + length (fst (last (blocks ! j)))" if "j < length blocks" for j
  proof -
    have "blocks ! j \<in> set blocks" "blocks ! j \<noteq> []" using that assms(1) by (auto simp: in_set_conv_nth)
    then have "last (blocks ! j) \<in> set (concat blocks)" by (auto intro!: bexI [of _ "blocks ! j"])
    then have "length (fst (last (blocks ! j))) \<le> maxAlloc" using assms(3) by (auto simp: keys_ok_def kv_fits_def)
    moreover have "length (table_data (take j blocks)) + length (enc_records [] (blocks ! j)) \<le> maxAlloc"
      using table_data_split [OF that] assms(4) by simp
    ultimately show ?thesis
      using ix_kv_len [of "block_index 0 blocks ! j"] that by (simp add: block_index_nth)
  qed
  show f: "list_all kv_fits (map ix_kv (full_index blocks))"
    using first nth by (auto simp: full_index_def list_all_length nth_Cons split: nat.splits)
  have "map (kv_len \<circ> ix_kv) (block_index 0 blocks) = map (\<lambda>j. kv_len (ix_kv (block_index 0 blocks ! j))) [0..<length blocks]"
    by (rule nth_equalityI) simp_all
  also have "sum_list \<dots> \<le> sum_list (map (\<lambda>j. 35 + length (fst (last (blocks ! j)))) [0..<length blocks])"
    using nth by (intro sum_list_mono) auto
  also have "\<dots> = sum_list (map (\<lambda>b. 35 + length (fst (last b))) blocks)"
    by (intro arg_cong [where f = sum_list] nth_equalityI) simp_all
  also have "\<dots> \<le> sum_list (map (\<lambda>kv. 35 + length (fst kv)) (concat blocks))"
    by (rule sum_list_blocks) (fact assms(1))
  finally show "length (enc_records [] (map ix_kv (full_index blocks)))
      \<le> 35 + length (fst (hd (concat blocks))) + sum_list (map (\<lambda>kv. 35 + length (fst kv)) (concat blocks))"
    using enc_records_len [OF f, of "[]"] first(2) by (simp add: full_index_def)
qed

lemma table_bound_split:
  "table_bound sz kvs = sum_list (map kv_len kvs) + length kvs * (30 + sz)
      + sum_list (map (\<lambda>kv. 35 + length (fst kv)) kvs) + sum_list (map (\<lambda>kv. 54 + length (fst kv)) kvs)"
  unfolding table_bound_def kv_len_def by (induction kvs) (auto simp: algebra_simps)

lemma blocks_le_pairs: "[] \<notin> set blocks \<Longrightarrow> length blocks \<le> length (concat blocks)"
proof (induction blocks)
  case (Cons b blocks)
  then show ?case by (cases b) auto
qed simp

section \<open>What a writer produces with any filter that keeps its promise\<close>

context key_filter
begin

definition bm_good :: "nat \<Rightarrow> bytes \<Rightarrow> kv list \<Rightarrow> bool" where
  "bm_good sz bm kvs \<longleftrightarrow> (\<forall>f k. finv f \<longrightarrow> size f = sz \<longrightarrow>
     (\<exists>b. fExist F f (Some bm) k = Inr b \<and> (k \<in> fst ` set kvs \<longrightarrow> b)))"

definition cur_ok :: "nat \<Rightarrow> 'f \<Rightarrow> kv list \<Rightarrow> bool" where
  "cur_ok sz f cur \<longleftrightarrow> finv f \<and> size f = sz \<and> fKeyLen F f = length cur \<and> (\<forall>k \<in> fst ` set cur. member f k)"

definition filters_ok :: "nat \<Rightarrow> kv list list \<Rightarrow> (nat \<times> bytes) list \<Rightarrow> bool" where
  "filters_ok sz blocks fl \<longleftrightarrow> map fst fl = offsets 0 blocks
     \<and> list_all2 (\<lambda>b p. bm_good sz (snd p) b \<and> length (snd p) \<le> sz + 2) blocks fl"

definition sw_ok :: "nat \<Rightarrow> 'f \<Rightarrow> kv list list \<Rightarrow> (nat \<times> bytes) list \<Rightarrow> kv list \<Rightarrow> bool" where
  "sw_ok sz f blocks fl cur \<longleftrightarrow>
     cur_ok sz f cur \<and> filters_ok sz blocks fl \<and> [] \<notin> set blocks \<and> keys_ok (concat blocks @ cur)"

lemma refreshBlock_ok:
  assumes "sw_ok sz f blocks fl cur"
  shows "\<exists>f' blocks' fl'. sw_refreshBlock F (sw_state f dest blocks fl cur) = Inr (sw_state f' dest blocks' fl' [])
    \<and> sw_ok sz f' blocks' fl' [] \<and> concat blocks' = concat blocks @ cur"
proof (cases "cur = []")
  case True
  then have "sw_refreshBlock F (sw_state f dest blocks fl cur) = Inr (sw_state f dest blocks fl [])"
    using assms by (simp add: sw_refreshBlock_def sw_ok_def cur_ok_def sw_state_def)
  then show ?thesis using assms True by auto
next
  case False
  have f: "finv f" "size f = sz" "fKeyLen F f = length cur" "\<forall>k \<in> fst ` set cur. member f k"
    using assms by (simp_all add: sw_ok_def cur_ok_def)
  have "0 < fKeyLen F f" using f(3) False by simp
  then obtain bm where bm: "fHash F f = Inr bm" "length bm \<le> size f + 2"
      "\<forall>f' k. finv f' \<longrightarrow> size f' = size f \<longrightarrow> (\<exists>b. fExist F f' (Some bm) k = Inr b \<and> (member f k \<longrightarrow> b))"
    using hash [OF f(1)] by blast
  have good: "bm_good sz bm cur"
    unfolding bm_good_def using bm(3) f(2,4) by metis
  have fo: "filters_ok sz (blocks @ [cur]) (fl @ [(length (table_data blocks), bm)])"
    using assms good bm(2) f(2) by (auto simp: sw_ok_def filters_ok_def offsets_snoc intro: list_all2_appendI)
  have co: "cur_ok sz (fReset F f) []"
    using reset [OF f(1)] f(2) by (simp add: cur_ok_def)
  have step: "sw_refreshBlock F (sw_state f dest blocks fl cur)
      = Inr (sw_state (fReset F f) dest (blocks @ [cur]) (fl @ [(length (table_data blocks), bm)]) [])"
    using f(3) False bm(1)
    by (simp add: sw_refreshBlock_def sw_state_def Let_def block_FlushTo_def index_of_flushed flt_kv_def)
  show ?thesis
    using step fo co assms False by (intro exI [of _ "fReset F f"] exI [of _ "blocks @ [cur]"] exI) (auto simp: sw_ok_def)
qed

lemma Append_ok:
  assumes "sw_ok sz f blocks fl cur" "k \<noteq> []" "kv_fits (k, v)"
  shows "\<exists>f' blocks' fl' cur'. sw_Append conf F (sw_state f dest blocks fl cur) k v = Inr (sw_state f' dest blocks' fl' cur')
    \<and> sw_ok sz f' blocks' fl' cur' \<and> concat blocks' @ cur' = concat blocks @ cur @ [(k, v)]"
proof -
  let ?s2 = "sw_state (fAdd F f k) dest blocks fl (cur @ [(k, v)])"
  have b: "[] \<notin> set blocks" "keys_ok (concat blocks)"
    using assms(1) by (auto simp: sw_ok_def keys_ok_def)
  have app: "sw_Append conf F (sw_state f dest blocks fl cur) k v
      = (if block_Size (swDataBlock ?s2) \<ge> cfSSTDataBlockSize conf then sw_refreshBlock F ?s2 else Inr ?s2)"
    unfolding sw_Append_def append_to_block [OF b assms(2), where f = f and dest = dest and fl = fl and cur = cur and v = v, symmetric]
    by (simp add: Let_def)
  have "finv f" using assms(1) by (simp add: sw_ok_def cur_ok_def)
  then have ok: "sw_ok sz (fAdd F f k) blocks fl (cur @ [(k, v)])"
    using assms add [of f k] add_member [of f _ k] by (auto simp: sw_ok_def cur_ok_def keys_ok_def)
  show ?thesis
  proof (cases "block_Size (swDataBlock ?s2) \<ge> cfSSTDataBlockSize conf")
    case True
    from refreshBlock_ok [OF ok, of dest] obtain f' blocks' fl'
      where r: "sw_refreshBlock F ?s2 = Inr (sw_state f' dest blocks' fl' [])"
        "sw_ok sz f' blocks' fl' []" "concat blocks' = concat blocks @ cur @ [(k, v)]" by auto
    then show ?thesis unfolding app using True
      by (intro exI [of _ f'] exI [of _ blocks'] exI [of _ fl'] exI [of _ "[]"]) simp
  next
    case False
    then show ?thesis unfolding app using ok by auto
  qed
qed

lemma Append_fold_ok:
  assumes "sw_ok sz f blocks fl cur" "keys_ok kvs"
  shows "\<exists>f' blocks' fl' cur'. rfold (\<lambda>(k, v) s. sw_Append conf F s k v) kvs (sw_state f dest blocks fl cur)
      = Inr (sw_state f' dest blocks' fl' cur')
    \<and> sw_ok sz f' blocks' fl' cur' \<and> concat blocks' @ cur' = concat blocks @ cur @ kvs"
  using assms
proof (induction kvs arbitrary: f blocks fl cur)
  case Nil
  then show ?case by auto
next
  case (Cons kv kvs)
  obtain k v where kv: "kv = (k, v)" by fastforce
  have "k \<noteq> []" "kv_fits (k, v)" using Cons.prems(2) by (auto simp: keys_ok_def kv)
  from Append_ok [OF Cons.prems(1) this, of conf dest] obtain f1 b1 fl1 c1
    where a: "sw_Append conf F (sw_state f dest blocks fl cur) k v = Inr (sw_state f1 dest b1 fl1 c1)"
      "sw_ok sz f1 b1 fl1 c1" "concat b1 @ c1 = concat blocks @ cur @ [(k, v)]" by blast
  have "keys_ok kvs" using Cons.prems(2) by (simp add: keys_ok_def)
  from Cons.IH [OF a(2) this] obtain f2 b2 fl2 c2
    where r: "rfold (\<lambda>(k, v) s. sw_Append conf F s k v) kvs (sw_state f1 dest b1 fl1 c1) = Inr (sw_state f2 dest b2 fl2 c2)"
      "sw_ok sz f2 b2 fl2 c2" "concat b2 @ c2 = concat b1 @ c1 @ kvs" by blast
  have "concat b2 @ c2 = (concat b1 @ c1) @ kvs" using r(3) by simp
  then have "concat b2 @ c2 = concat blocks @ cur @ kv # kvs" unfolding a(3) kv by simp
  then show ?case using a(1) r(1,2) by (auto simp: kv)
qed


text \<open>The file and the returned index and filters of a finished table.\<close>

definition finished :: "lsm_config \<Rightarrow> nat \<Rightarrow> kv list list \<Rightarrow> (nat \<times> bytes) list
    \<Rightarrow> 'f sst_writer \<times> nat \<times> (nat \<rightharpoonup> bytes) \<times> index list \<Rightarrow> bool" where
  "finished conf sz blocks fl r \<longleftrightarrow>
     (case r of (s, n, b2f, ix) \<Rightarrow>
       let d = table_data blocks; fb = enc_records [] (map flt_kv fl); ib = enc_records [] (map ix_kv ix) in
       b2f = map_of (rev fl) \<and> ix = full_index blocks \<and> n = length d + length fb + length ib \<and> n \<le> maxAlloc
       \<and> (\<exists>footer. sst_footer conf (length d) (length fb) (length d + length fb) (length ib) = Inr footer
            \<and> swDest s = d @ fb @ ib @ footer)
       \<and> list_all kv_fits (map flt_kv fl) \<and> list_all kv_fits (map ix_kv ix)
       \<and> filters_ok sz blocks fl \<and> cur_ok sz (swFilter s) [] \<and> [] \<notin> set blocks)"

lemma filters_ok_bounds:
  assumes "filters_ok sz blocks fl" "length (table_data blocks) \<le> maxAlloc"
  shows "length fl = length blocks" "\<forall>p \<in> set fl. fst p \<le> maxAlloc \<and> length (snd p) \<le> sz + 2"
proof -
  show len: "length fl = length blocks"
    using assms(1) by (auto simp: filters_ok_def dest: list_all2_lengthD)
  have "fst (fl ! j) \<le> maxAlloc \<and> length (snd (fl ! j)) \<le> sz + 2" if "j < length fl" for j
  proof -
    have "map fst fl = offsets 0 blocks" using assms(1) by (simp add: filters_ok_def)
    then have "fst (fl ! j) = offsets 0 blocks ! j" using that by (simp flip: nth_map)
    then have "fst (fl ! j) = length (table_data (take j blocks))" using that len by (simp add: offsets_nth)
    moreover have "j < length blocks" using that len by simp
    ultimately have "fst (fl ! j) \<le> maxAlloc"
      using table_data_split [of j blocks] assms(2) by simp
    then show ?thesis using assms(1) that len by (auto simp: filters_ok_def list_all2_conv_all_nth)
  qed
  then show "\<forall>p \<in> set fl. fst p \<le> maxAlloc \<and> length (snd p) \<le> sz + 2" by (metis in_set_conv_nth)
qed

lemma table_sizes:
  assumes "filters_ok sz blocks fl" "[] \<notin> set blocks" "blocks \<noteq> []" "keys_ok (concat blocks)"
    "table_bound sz (concat blocks) \<le> maxAlloc"
  shows "length (table_data blocks) + length (enc_records [] (map flt_kv fl))
      + length (enc_records [] (map ix_kv (full_index blocks))) \<le> maxAlloc"
    "list_all kv_fits (map flt_kv fl)" "list_all kv_fits (map ix_kv (full_index blocks))"
proof -
  let ?kvs = "concat blocks"
  define w where "w = length ?kvs * (30 + sz)"
  have c: "?kvs \<noteq> []" using assms(2,3) by (cases blocks) auto
  have sum: "table_bound sz ?kvs = sum_list (map kv_len ?kvs) + w
      + sum_list (map (\<lambda>kv. 35 + length (fst kv)) ?kvs) + sum_list (map (\<lambda>kv. 54 + length (fst kv)) ?kvs)"
    unfolding w_def by (rule table_bound_split)
  have hd: "54 + length (fst (hd ?kvs)) \<le> sum_list (map (\<lambda>kv. 54 + length (fst kv)) ?kvs)"
    using c by (cases ?kvs) auto
  have d: "length (table_data blocks) \<le> sum_list (map kv_len ?kvs)" by (rule table_data_len) (fact assms(4))
  then have dm: "length (table_data blocks) \<le> maxAlloc" using sum assms(5) by linarith
  have "1 * (30 + sz) \<le> w" unfolding w_def by (rule mult_right_mono) (use c in \<open>cases ?kvs, auto\<close>)
  then have "30 + sz \<le> w" by simp
  then have m: "sz + 2 \<le> maxAlloc" using sum assms(5) by simp
  note fb = filter_block_len [OF filters_ok_bounds [OF assms(1) dm] m]
  note ib = index_block_len [OF assms(2-4) dm]
  have "length blocks * (28 + (sz + 2)) \<le> w"
    unfolding w_def using blocks_le_pairs [OF assms(2)] by (intro mult_le_mono) simp_all
  then show "length (table_data blocks) + length (enc_records [] (map flt_kv fl))
      + length (enc_records [] (map ix_kv (full_index blocks))) \<le> maxAlloc"
    using fb(1) ib(2) d hd sum assms(5) by linarith
  show "list_all kv_fits (map flt_kv fl)" "list_all kv_fits (map ix_kv (full_index blocks))" by (fact fb ib)+
qed

lemma sst_footer_fits:
  assumes "a \<le> maxAlloc" "b \<le> maxAlloc" "c \<le> maxAlloc" "d \<le> maxAlloc" "28 \<le> cfSSTFooterSize conf"
  shows "\<exists>footer. sst_footer conf a b c d = Inr footer"
  using assms putUvarint_len7 [of a] putUvarint_len7 [of b] putUvarint_len7 [of c] putUvarint_len7 [of d]
  by (simp add: sst_footer_def Let_def)

lemma Finish_ok:
  assumes "sw_ok sz f blocks fl cur" "concat blocks @ cur \<noteq> []" "table_bound sz (concat blocks @ cur) \<le> maxAlloc"
    "28 \<le> cfSSTFooterSize conf"
  shows "\<exists>r blocks' fl'. sw_Finish conf F (sw_state f [] blocks fl cur) = Inr r
    \<and> finished conf sz blocks' fl' r \<and> concat blocks' = concat blocks @ cur"
proof -
  from refreshBlock_ok [OF assms(1), of "[]"] obtain f1 b1 fl1
    where r: "sw_refreshBlock F (sw_state f [] blocks fl cur) = Inr (sw_state f1 [] b1 fl1 [])"
      "sw_ok sz f1 b1 fl1 []" "concat b1 = concat blocks @ cur" by blast
  have b: "[] \<notin> set b1" "b1 \<noteq> []" "keys_ok (concat b1)" "filters_ok sz b1 fl1" "cur_ok sz f1 []"
    using r(2,3) assms(2) by (auto simp: sw_ok_def)
  have c: "concat b1 \<noteq> []" using r(3) assms(2) by simp
  have pk: "swPrevKey (sw_state f1 [] b1 fl1 []) = fst (last (concat b1))"
    using c by (simp add: sw_state_def del: concat_eq_Nil_conv)
  have "fst (last (concat b1)) \<noteq> []" using last_in_set [OF c] b(3) by (auto simp: keys_ok_def)
  note ins = insertIndex_next [OF b(2,1,3) this, of f1 "[]" fl1]
  have "table_bound sz (concat b1) \<le> maxAlloc" using assms(3) r(3) by simp
  note sz = table_sizes [OF b(4,1,2,3) this]
  let ?d = "table_data b1" and ?fb = "enc_records [] (map flt_kv fl1)" and ?ib = "enc_records [] (map ix_kv (full_index b1))"
  obtain footer where ft: "sst_footer conf (length ?d) (length ?fb) (length ?d + length ?fb) (length ?ib) = Inr footer"
    using sst_footer_fits [of "length ?d" "length ?fb" "length ?d + length ?fb" "length ?ib" conf] sz(1) assms(4) by auto
  have fin: "\<exists>s. sw_Finish conf F (sw_state f [] blocks fl cur)
      = Inr (s, length ?d + length ?fb + length ?ib, map_of (rev fl1), full_index b1)
      \<and> swDest s = ?d @ ?fb @ ?ib @ footer \<and> swFilter s = f1"
    unfolding sw_Finish_def r(1) rbind_Inr Let_def pk ins
    by (simp add: block_FlushTo_def sw_state_def ft)
  then obtain s where s: "sw_Finish conf F (sw_state f [] blocks fl cur)
      = Inr (s, length ?d + length ?fb + length ?ib, map_of (rev fl1), full_index b1)"
      "swDest s = ?d @ ?fb @ ?ib @ footer" "swFilter s = f1" by blast
  have "finished conf sz b1 fl1 (s, length ?d + length ?fb + length ?ib, map_of (rev fl1), full_index b1)"
    unfolding finished_def prod.case Let_def using s(2,3) ft sz b by simp
  then show ?thesis using s(1) r(3) by blast
qed

lemma write_table_ok:
  assumes "finv f" "fKeyLen F f = 0" "kvs \<noteq> []" "keys_ok kvs" "table_bound (size f) kvs \<le> maxAlloc"
    "28 \<le> cfSSTFooterSize conf"
  shows "\<exists>r blocks fl. write_table conf F f kvs = Inr r \<and> finished conf (size f) blocks fl r \<and> concat blocks = kvs"
proof -
  have "sw_ok (size f) f [] [] []"
    using assms(1,2) by (simp add: sw_ok_def cur_ok_def filters_ok_def keys_ok_def)
  from Append_fold_ok [OF this assms(4), of conf "[]"] obtain f1 b1 fl1 c1
    where a: "rfold (\<lambda>(k, v) s. sw_Append conf F s k v) kvs (sw_state f [] [] [] []) = Inr (sw_state f1 [] b1 fl1 c1)"
      "sw_ok (size f) f1 b1 fl1 c1" "concat b1 @ c1 = kvs" by auto
  from Finish_ok [OF a(2)] assms(3,5,6) show ?thesis
    unfolding write_table_def NewSSTWriter_state a(1) rbind_Inr a(3) by blast
qed

end

end
