(* ===== verification/LSM_Lookup.thy ===== *)
theory LSM_Lookup
  imports LSM_SST
begin

text \<open>
  Reading a finished table: the binary search and the lookup of \<^verbatim>\<open>node.go\<close> find exactly the pairs
  that were written, and a reader opened on the file alone recovers the size, the index, the
  filters and the pairs.
\<close>

section \<open>Binary search\<close>

lemma binarySearchIndex_spec:
  assumes "start \<le> end" "\<And>i j. start \<le> i \<Longrightarrow> i \<le> j \<Longrightarrow> j \<le> end \<Longrightarrow> ixKey (ix ! i) \<le> ixKey (ix ! j)"
  shows "\<exists>i. binarySearchIndex ix key start end = (ix ! i, key \<le> ixKey (ix ! i)) \<and> start \<le> i \<and> i \<le> end
    \<and> (\<forall>j. start \<le> j \<longrightarrow> j < i \<longrightarrow> ixKey (ix ! j) < key) \<and> (\<not> key \<le> ixKey (ix ! i) \<longrightarrow> i = end)"
  using assms
proof (induction ix key start "end" rule: binarySearchIndex.induct)
  case (1 ix key start "end")
  let ?mid = "start + (end - start) div 2"
  show ?case
  proof (cases "start \<ge> end")
    case True
    then show ?thesis using 1(3) by (intro exI [of _ start]) (auto simp: binarySearchIndex.simps [of ix key start])
  next
    case False
    then have mid: "start \<le> ?mid" "?mid < end" by auto
    show ?thesis
    proof (cases "ixKey (ix ! ?mid) < key")
      case True
      have "\<exists>i. binarySearchIndex ix key (?mid + 1) end = (ix ! i, key \<le> ixKey (ix ! i)) \<and> ?mid + 1 \<le> i \<and> i \<le> end
          \<and> (\<forall>j. ?mid + 1 \<le> j \<longrightarrow> j < i \<longrightarrow> ixKey (ix ! j) < key) \<and> (\<not> key \<le> ixKey (ix ! i) \<longrightarrow> i = end)"
        by (rule 1(1) [OF False refl True]) (use mid 1(4) in auto)
      then obtain i where i: "binarySearchIndex ix key (?mid + 1) end = (ix ! i, key \<le> ixKey (ix ! i))"
          "?mid + 1 \<le> i" "i \<le> end" "\<forall>j. ?mid + 1 \<le> j \<longrightarrow> j < i \<longrightarrow> ixKey (ix ! j) < key"
          "\<not> key \<le> ixKey (ix ! i) \<longrightarrow> i = end" by blast
      have "ixKey (ix ! j) < key" if "start \<le> j" "j < i" for j
      proof (cases "?mid + 1 \<le> j")
        case True
        then show ?thesis using i(4) that by blast
      next
        case False
        then have "ixKey (ix ! j) \<le> ixKey (ix ! ?mid)" by (intro 1(4)) (use that mid in auto)
        then show ?thesis using True by simp
      qed
      then show ?thesis
        using False True i mid by (intro exI [of _ i]) (simp add: binarySearchIndex.simps [of ix key start] Let_def)
    next
      case ge: False
      have "\<exists>i. binarySearchIndex ix key start ?mid = (ix ! i, key \<le> ixKey (ix ! i)) \<and> start \<le> i \<and> i \<le> ?mid
          \<and> (\<forall>j. start \<le> j \<longrightarrow> j < i \<longrightarrow> ixKey (ix ! j) < key) \<and> (\<not> key \<le> ixKey (ix ! i) \<longrightarrow> i = ?mid)"
        by (rule 1(2) [OF False refl ge]) (use mid 1(4) in auto)
      then obtain i where i: "binarySearchIndex ix key start ?mid = (ix ! i, key \<le> ixKey (ix ! i))"
          "start \<le> i" "i \<le> ?mid" "\<forall>j. start \<le> j \<longrightarrow> j < i \<longrightarrow> ixKey (ix ! j) < key"
          "\<not> key \<le> ixKey (ix ! i) \<longrightarrow> i = ?mid" by blast
      have ok: "key \<le> ixKey (ix ! i)" using i(5) ge by (auto simp: not_less)
      have e: "binarySearchIndex ix key start end = binarySearchIndex ix key start ?mid"
        by (subst binarySearchIndex.simps) (use False ge in \<open>simp add: Let_def\<close>)
      show ?thesis
        unfolding e using i mid ok by (intro exI [of _ i]) simp
    qed
  qed
qed

lemma binarySearchIndex_first:
  "start \<le> end \<Longrightarrow> (\<And>j. start \<le> j \<Longrightarrow> j \<le> end \<Longrightarrow> key \<le> ixKey (ix ! j)) \<Longrightarrow>
   binarySearchIndex ix key start end = (ix ! start, True)"
proof (induction ix key start "end" rule: binarySearchIndex.induct)
  case (1 ix key start "end")
  let ?mid = "start + (end - start) div 2"
  show ?case
  proof (cases "start \<ge> end")
    case True
    then show ?thesis using 1(3,4) by (simp add: binarySearchIndex.simps [of ix key start])
  next
    case False
    then have ge: "\<not> ixKey (ix ! ?mid) < key" using 1(4) [of ?mid] by (auto simp: not_less)
    have "binarySearchIndex ix key start ?mid = (ix ! start, True)"
      by (rule 1(2) [OF False refl ge]) (use False 1(4) in auto)
    then show ?thesis using False ge by (subst binarySearchIndex.simps) (simp add: Let_def)
  qed
qed

section \<open>Sorted blocks\<close>

lemma le_last_key:
  assumes "sorted_wrt (<) (map fst (concat blocks))" "b \<in> set blocks" "x \<in> set b"
  shows "fst x \<le> (fst (last b) :: bytes)"
proof -
  obtain ys zs where "blocks = ys @ b # zs" using assms(2) by (meson split_list)
  then have "sorted_wrt (<) (map fst b)" using assms(1) by (simp add: sorted_wrt_append)
  moreover have "b \<noteq> []" using assms(3) by auto
  ultimately show ?thesis using assms(3)
    by (cases b rule: rev_cases) (auto simp: sorted_wrt_append less_imp_le)
qed

lemma sorted_blocks_split:
  assumes "sorted_wrt (<) (map fst (concat blocks))" "j < length blocks" "[] \<notin> set blocks"
    and lo: "\<And>i. i < j \<Longrightarrow> fst (last (blocks ! i)) < key" and hi: "key \<le> fst (last (blocks ! j))"
  shows "map_of (concat blocks) key = map_of (blocks ! j) (key :: bytes)"
proof -
  let ?b = "blocks ! j"
  have split: "concat blocks = concat (take j blocks) @ ?b @ concat (drop (Suc j) blocks)"
    by (subst id_take_nth_drop [OF assms(2)]) simp
  have srt: "sorted_wrt (<) (map fst (concat (take j blocks) @ ?b @ concat (drop (Suc j) blocks)))"
    using assms(1) split by simp
  have bne: "?b \<noteq> []" using assms(2,3) by (auto simp: in_set_conv_nth)
  have pre: "key \<notin> fst ` set (concat (take j blocks))"
  proof
    assume "key \<in> fst ` set (concat (take j blocks))"
    then obtain b x where b: "b \<in> set (take j blocks)" "x \<in> set b" "key = fst x" by auto
    then obtain i where i: "i < j" "b = blocks ! i" using assms(2) by (auto simp: in_set_conv_nth)
    have "b \<in> set blocks" using b(1) by (meson in_set_takeD)
    then have "fst x \<le> fst (last b)" using le_last_key [OF assms(1)] b(2) by blast
    then show False using lo [OF i(1)] i(2) b(3) by simp
  qed
  have post: "key \<notin> fst ` set (concat (drop (Suc j) blocks))"
  proof
    assume "key \<in> fst ` set (concat (drop (Suc j) blocks))"
    then obtain x where x: "x \<in> set (concat (drop (Suc j) blocks))" "key = fst x" by auto
    have "last ?b \<in> set ?b" using bne by simp
    then have "fst (last ?b) < fst x" using srt x(1) by (auto simp: sorted_wrt_append)
    then show False using hi x(2) by simp
  qed
  from pre post have "map_of (concat (take j blocks)) key = None" "map_of (concat (drop (Suc j) blocks)) key = None"
    by (simp_all only: map_of_eq_None_iff simp_thms)
  then show ?thesis unfolding split by (simp add: map_add_def split: option.splits)
qed

lemma sorted_last_keys:
  assumes "sorted_wrt (<) (map fst (concat blocks))" "[] \<notin> set blocks" "i \<le> j" "j < length blocks"
  shows "fst (last (blocks ! i)) \<le> (fst (last (blocks ! j)) :: bytes)"
proof (cases "i = j")
  case False
  then have "i < j" using assms(3) by simp
  have split: "concat blocks = concat (take j blocks) @ blocks ! j @ concat (drop (Suc j) blocks)"
    by (subst id_take_nth_drop [OF assms(4)]) simp
  have "blocks ! i \<in> set (take j blocks)" using \<open>i < j\<close> assms(4) by (auto simp: in_set_conv_nth intro!: exI [of _ i])
  moreover have "blocks ! i \<noteq> []" "blocks ! j \<noteq> []" using assms(2-4) by (auto simp: in_set_conv_nth)
  ultimately have "last (blocks ! i) \<in> set (concat (take j blocks))" "last (blocks ! j) \<in> set (blocks ! j)"
    by (auto intro!: bexI [of _ "blocks ! i"])
  then show ?thesis using assms(1) unfolding split by (auto simp: sorted_wrt_append less_imp_le)
qed simp

lemma above_last_keys:
  assumes "sorted_wrt (<) (map fst (concat blocks))" "\<And>l. l < length blocks \<Longrightarrow> fst (last (blocks ! l)) < (key :: bytes)"
  shows "key \<notin> fst ` set (concat blocks)"
proof
  assume "key \<in> fst ` set (concat blocks)"
  then obtain b x where b: "b \<in> set blocks" "x \<in> set b" "key = fst x" by auto
  then obtain l where l: "l < length blocks" "b = blocks ! l" by (auto simp: in_set_conv_nth)
  have "fst x \<le> fst (last b)" by (rule le_last_key [OF assms(1) b(1,2)])
  then show False using assms(2) [OF l(1)] l(2) b(3) by simp
qed

lemma separator_less:
  assumes "k \<noteq> []" "last k \<noteq> (0 :: byte)"
  shows "butlast k @ [last k - 1] < k"
proof -
  have "last k - 1 < last k"
    using assms(2) by (simp add: word_less_nat_alt unat_minus_one unat_gt_0)
  then have "butlast k @ [last k - 1] < butlast k @ [last k]"
    by (simp add: list_less_def lexord_append_leftI)
  then show ?thesis using assms(1) by simp
qed

lemma separator_greater:
  assumes "k \<noteq> []" "last k = (0 :: byte)"
  shows "k < butlast k @ [last k - 1]"
proof -
  have "butlast k @ [last k] < butlast k @ [last k - 1]"
    unfolding list_less_def by (rule lexord_append_leftI) (simp add: assms(2) word_gt_0)
  then show ?thesis using assms(1) by simp
qed

section \<open>Lookup in a finished table\<close>

lemma full_index_nth:
  "full_index blocks ! 0 = first_index (fst (hd (concat blocks)))"
  "j < length blocks \<Longrightarrow> full_index blocks ! Suc j
    = \<lparr>ixKey = fst (last (blocks ! j)), ixPrevBlockOffset = length (table_data (take j blocks)),
       ixPrevBlockSize = length (enc_records [] (blocks ! j))\<rparr>"
  by (simp_all add: full_index_def block_index_nth)

lemma full_index_sorted:
  assumes "sorted_wrt (<) (map fst (concat blocks))" "[] \<notin> set blocks" "blocks \<noteq> []"
    "fst (hd (concat blocks)) \<noteq> []" "last (fst (hd (concat blocks))) \<noteq> 0" "i \<le> j" "j < length (full_index blocks)"
  shows "ixKey (full_index blocks ! i) \<le> ixKey (full_index blocks ! j)"
proof (cases i)
  case (Suc i')
  then obtain j' where "j = Suc j'" using assms(6) by (cases j) auto
  then show ?thesis
    using Suc assms(6,7) sorted_last_keys [OF assms(1,2), of i' j'] by (simp add: full_index_nth full_index_def block_index_nth)
next
  case 0
  show ?thesis
  proof (cases j)
    case (Suc j')
    then have j': "j' < length blocks" using assms(7) by (simp add: full_index_def)
    have c: "concat blocks \<noteq> []" using assms(2,3) by (cases blocks) auto
    have "blocks ! j' \<in> set blocks" "blocks ! j' \<noteq> []" using j' assms(2) by (auto simp: in_set_conv_nth)
    then have "last (blocks ! j') \<in> set (concat blocks)" by (auto intro!: bexI [of _ "blocks ! j'"])
    then have "fst (hd (concat blocks)) \<le> fst (last (blocks ! j'))"
      using assms(1) c by (cases "concat blocks") (auto simp del: set_concat concat_eq_Nil_conv)
    moreover have "butlast (fst (hd (concat blocks))) @ [last (fst (hd (concat blocks))) - 1] < fst (hd (concat blocks))"
      by (rule separator_less) (fact assms(4,5))+
    ultimately show ?thesis using 0 Suc j' by (simp add: full_index_nth first_index_def)
  qed (use 0 in simp)
qed

lemma read_blocks:
  assumes "list_all kv_fits (concat blocks)"
  shows "read_records prev (concat (map (enc_records []) blocks)) = Inr (concat blocks)"
  using assms
proof (induction blocks arbitrary: prev)
  case (Cons b blocks)
  then show ?case
    using read_records_enc [of b "[]" prev "concat (map (enc_records []) blocks)"] by simp
qed simp

context key_filter
begin

lemma table_filter:
  assumes "filters_ok sz blocks fl" "[] \<notin> set blocks" "j < length blocks"
  shows "\<exists>bm. map_of (rev fl) (length (table_data (take j blocks))) = Some bm \<and> bm_good sz bm (blocks ! j)"
proof -
  have len: "length fl = length blocks" and m: "map fst fl = offsets 0 blocks"
    using assms(1) by (auto simp: filters_ok_def dest: list_all2_lengthD)
  have "fst (fl ! j) = offsets 0 blocks ! j" using arg_cong [OF m, of "\<lambda>xs. xs ! j"] assms(3) len by simp
  then have k: "fst (fl ! j) = length (table_data (take j blocks))" using assms(3) by (simp add: offsets_nth)
  have "distinct (map fst (rev fl))"
    using offsets_distinct [OF assms(2), of 0] m by (simp add: rev_map [symmetric])
  moreover have "(length (table_data (take j blocks)), snd (fl ! j)) \<in> set (rev fl)"
    unfolding k [symmetric] using assms(3) len by simp
  ultimately have "map_of (rev fl) (length (table_data (take j blocks))) = Some (snd (fl ! j))"
    by (simp add: map_of_is_SomeI)
  moreover have "bm_good sz (snd (fl ! j)) (blocks ! j)"
    using assms(1,3) len by (auto simp: filters_ok_def list_all2_conv_all_nth)
  ultimately show ?thesis by blast
qed

lemma finished_nonempty: "finished conf sz blocks fl (s, n, b2f, ix) \<Longrightarrow> ix \<noteq> []"
  by (simp add: finished_def full_index_def Let_def)

lemma finished_node:
  assumes "finished conf sz blocks fl (s, n, b2f, ix)"
  shows "NewNode rd level seq n b2f ix = Inr \<lparr>ndLevel = level, ndSeq = seq, ndSize = n, ndBlockToFilter = b2f, ndIndex = ix,
     ndStartKey = ixKey (hd ix), ndEndKey = ixKey (last ix), ndReader = rd\<rparr>"
  using finished_nonempty [OF assms] by (simp add: NewNode_def hd_conv_nth last_conv_nth)

lemma readBlock_data:
  assumes "finished conf sz blocks fl (s, n, b2f, ix)" "j < length blocks" "srSrc rd = swDest s"
  shows "sr_readBlock rd (length (table_data (take j blocks))) (length (enc_records [] (blocks ! j)))
    = Inr (enc_records [] (blocks ! j))"
proof -
  obtain rest where d: "swDest s = table_data blocks @ rest" "length (table_data blocks) \<le> maxAlloc"
    using assms(1) by (auto simp: finished_def Let_def)
  note sp = table_data_split [OF assms(2)]
  have "drop (length (table_data (take j blocks))) (swDest s)
      = enc_records [] (blocks ! j) @ table_data (drop (Suc j) blocks) @ rest"
    unfolding d(1) by (subst sp) simp
  moreover have "length (table_data (take j blocks)) + length (enc_records [] (blocks ! j)) \<le> maxAlloc"
    using d(2) sp by simp
  ultimately show ?thesis using assms(3) by (simp add: sr_readBlock_def maxAlloc_def)
qed

lemma node_Get_ok:
  assumes fin: "finished conf sz blocks fl (s, n, b2f, ix)" and "blocks \<noteq> []"
    and srt: "sorted_wrt (<) (map fst (concat blocks))" and "keys_ok (concat blocks)" "last (fst (hd (concat blocks))) \<noteq> 0"
    and f: "finv f" "size f = sz"
    and nd: "ndIndex nd = ix" "ndBlockToFilter nd = b2f" "srSrc (ndReader nd) = swDest s"
  shows "node_Get F f nd key = Inr (map_of (concat blocks) key)"
proof -
  have ix: "ix = full_index blocks" and b2f: "b2f = map_of (rev fl)" and fok: "filters_ok sz blocks fl"
    and ne: "[] \<notin> set blocks"
    using fin by (simp_all add: finished_def Let_def)
  have c: "concat blocks \<noteq> []" using ne assms(2) by (cases blocks) auto
  have k0: "fst (hd (concat blocks)) \<noteq> []" using hd_in_set [OF c] assms(4) by (auto simp: keys_ok_def)
  have len: "length ix = Suc (length blocks)" by (simp add: ix full_index_def)
  have mono: "ixKey (ix ! i) \<le> ixKey (ix ! j)" if "i \<le> j" "j \<le> length ix - 1" for i j
    unfolding ix by (rule full_index_sorted) (use srt ne assms(2,5) k0 that len ix in auto)
  from binarySearchIndex_spec [of 0 "length ix - 1" ix key] mono obtain i
    where i: "binarySearchIndex ix key 0 (length ix - 1) = (ix ! i, key \<le> ixKey (ix ! i))" "i \<le> length ix - 1"
      "\<forall>j < i. ixKey (ix ! j) < key" "\<not> key \<le> ixKey (ix ! i) \<longrightarrow> i = length ix - 1" by auto
  have exist: "\<exists>b. fExist F f (Some bm) key = Inr b \<and> (key \<in> fst ` set kvs \<longrightarrow> b)" if "bm_good sz bm kvs" for bm kvs
    using that f by (simp add: bm_good_def)
  show ?thesis
  proof (cases i)
    case 0
    have small: "key \<notin> fst ` set (concat blocks)"  if "key \<le> ixKey (ix ! 0)"
    proof
      assume "key \<in> fst ` set (concat blocks)"
      then have "fst (hd (concat blocks)) \<le> key"
        using srt c by (cases "concat blocks") (auto simp del: set_concat concat_eq_Nil_conv)
      moreover have "ixKey (ix ! 0) < fst (hd (concat blocks))"
        using separator_less [OF k0 assms(5)] by (simp add: ix full_index_nth first_index_def)
      ultimately show False using that by simp
    qed
    have "key \<le> ixKey (ix ! 0)" using i(4) 0 len assms(2) by auto
    note none = small [OF this]
    have "0 < length blocks" using assms(2) by simp
    from table_filter [OF fok ne this] obtain bm where bm: "b2f 0 = Some bm" "bm_good sz bm (blocks ! 0)"
      by (auto simp: b2f)
    obtain b where b: "fExist F f (Some bm) key = Inr b" using exist [OF bm(2)] by blast
    have "ixPrevBlockOffset (ix ! 0) = 0" "ixPrevBlockSize (ix ! 0) = 0"
      by (simp_all add: ix full_index_nth first_index_def)
    moreover have "map_of (concat blocks) key = None" using none by (simp only: map_of_eq_None_iff simp_thms)
    ultimately show ?thesis
      using i(1) 0 bm(1) b len nd by (auto simp: node_Get_def sr_readBlock_def readFull_def ReadBlockData_def)
  next
    case (Suc j)
    then have j: "j < length blocks" using i(2) len by simp
    have ixj: "ix ! i = \<lparr>ixKey = fst (last (blocks ! j)), ixPrevBlockOffset = length (table_data (take j blocks)),
       ixPrevBlockSize = length (enc_records [] (blocks ! j))\<rparr>"
      using full_index_nth(2) [OF j] by (simp add: ix Suc)
    have lo: "fst (last (blocks ! l)) < key" if "l < j" for l
      using i(3) [rule_format, of "Suc l"] that Suc j by (simp add: ix full_index_nth)
    show ?thesis
    proof (cases "key \<le> ixKey (ix ! i)")
      case False
      then have "j = length blocks - 1" "fst (last (blocks ! j)) < key" using i(4) len Suc ixj by auto
      then have last: "fst (last (blocks ! l)) < key" if "l < length blocks" for l
        using lo [of l] that by (cases "l = j") auto
      have "key \<notin> fst ` set (concat blocks)"
        by (rule above_last_keys [OF srt last])
      then have "map_of (concat blocks) key = None" by (simp only: map_of_eq_None_iff simp_thms)
      then show ?thesis using False i(1) len nd by (auto simp: node_Get_def)
    next
      case True
      have m: "map_of (concat blocks) key = map_of (blocks ! j) key"
        by (rule sorted_blocks_split [OF srt j ne lo]) (use True ixj in auto)
      from table_filter [OF fok ne j] obtain bm
        where bm: "b2f (length (table_data (take j blocks))) = Some bm" "bm_good sz bm (blocks ! j)" by (auto simp: b2f)
      obtain b where b: "fExist F f (Some bm) key = Inr b" "key \<in> fst ` set (blocks ! j) \<longrightarrow> b" using exist [OF bm(2)] by blast
      have "list_all kv_fits (blocks ! j)"
        using nth_mem [OF j] assms(4) by (fastforce simp: keys_ok_def list_all_iff)
      note data = ReadBlockData_enc [OF this]
      show ?thesis
      proof (cases b)
        case True
        then show ?thesis using i(1) ixj bm b len nd \<open>key \<le> ixKey (ix ! i)\<close> readBlock_data [OF fin j nd(3)] data m
          by (auto simp: node_Get_def)
      next
        case False
        then have "map_of (blocks ! j) key = None" using b(2) by (simp add: map_of_eq_None_iff)
        then show ?thesis using i(1) ixj bm b len nd \<open>key \<le> ixKey (ix ! i)\<close> False m by (auto simp: node_Get_def)
      qed
    qed
  qed
qed


lemma node_Get_zero:
  assumes fin: "finished conf sz blocks fl (s, n, b2f, ix)" and "blocks \<noteq> []"
    and srt: "sorted_wrt (<) (map fst (concat blocks))" and "keys_ok (concat blocks)" "last (fst (hd (concat blocks))) = 0"
    and f: "finv f" "size f = sz"
    and nd: "ndIndex nd = ix" "ndBlockToFilter nd = b2f" "srSrc (ndReader nd) = swDest s"
  shows "node_Get F f nd (fst (hd (concat blocks))) = Inr None"
proof -
  let ?k = "fst (hd (concat blocks))"
  have ix: "ix = full_index blocks" and b2f: "b2f = map_of (rev fl)" and fok: "filters_ok sz blocks fl"
    and ne: "[] \<notin> set blocks"
    using fin by (simp_all add: finished_def Let_def)
  have c: "concat blocks \<noteq> []" using ne assms(2) by (cases blocks) auto
  have k0: "?k \<noteq> []" using hd_in_set [OF c] assms(4) by (auto simp: keys_ok_def)
  have "?k \<le> ixKey (ix ! j)" if "j \<le> length ix - 1" for j
  proof (cases j)
    case 0
    then show ?thesis using separator_greater [OF k0 assms(5)] by (simp add: ix full_index_nth first_index_def)
  next
    case (Suc l)
    then have l: "l < length blocks" using that assms(2) by (simp add: ix full_index_def)
    have "blocks ! l \<in> set blocks" "blocks ! l \<noteq> []" using l ne by (auto simp: in_set_conv_nth)
    then have "last (blocks ! l) \<in> set (concat blocks)" by (auto intro!: bexI [of _ "blocks ! l"])
    then have "?k \<le> fst (last (blocks ! l))"
      using srt c by (cases "concat blocks") (auto simp del: set_concat concat_eq_Nil_conv)
    then show ?thesis using Suc l by (simp add: ix full_index_nth)
  qed
  then have b: "binarySearchIndex ix ?k 0 (length ix - 1) = (ix ! 0, True)"
    by (intro binarySearchIndex_first) simp_all
  have "0 < length blocks" using assms(2) by simp
  from table_filter [OF fok ne this] obtain bm where bm: "b2f 0 = Some bm" "bm_good sz bm (blocks ! 0)"
    by (auto simp: b2f)
  obtain e where e: "fExist F f (Some bm) ?k = Inr e" using bm(2) f unfolding bm_good_def by blast
  have "ixPrevBlockOffset (ix ! 0) = 0" "ixPrevBlockSize (ix ! 0) = 0" "ix \<noteq> []"
    by (simp_all add: ix full_index_nth first_index_def full_index_def)
  then show ?thesis
    using b bm(1) e nd by (auto simp: node_Get_def sr_readBlock_def readFull_def ReadBlockData_def)
qed

section \<open>Reopening a table\<close>

definition opened :: "kv list list \<Rightarrow> (nat \<times> bytes) list \<Rightarrow> 'f sst_writer \<times> nat \<times> (nat \<rightharpoonup> bytes) \<times> index list \<Rightarrow> sst_reader" where
  "opened blocks fl r = (case r of (s, n, b2f, ix) \<Rightarrow>
     \<lparr>srSrc = swDest s, srFilterOffset = length (table_data blocks),
      srFilterSize = length (enc_records [] (map flt_kv fl)),
      srIndexOffset = length (table_data blocks) + length (enc_records [] (map flt_kv fl)),
      srIndexSize = length (enc_records [] (map ix_kv ix))\<rparr>)"

lemma readFooter_finished:
  assumes "finished conf sz blocks fl (s, n, b2f, ix)" "srSrc rd = swDest s"
  shows "sr_readFooter conf rd = Inr (opened blocks fl (s, n, b2f, ix))"
proof -
  let ?d = "table_data blocks" and ?fb = "enc_records [] (map flt_kv fl)" and ?ib = "enc_records [] (map ix_kv ix)"
  obtain footer where ft: "sst_footer conf (length ?d) (length ?fb) (length ?d + length ?fb) (length ?ib) = Inr footer"
      "swDest s = ?d @ ?fb @ ?ib @ footer"
    and b: "length ?d + length ?fb + length ?ib \<le> maxAlloc"
    using assms(1) by (auto simp: finished_def Let_def)
  have u: "length ?d < U64" "length ?fb < U64" "length ?d + length ?fb < U64" "length ?ib < U64"
    using b by (simp_all add: U64_def maxAlloc_def)
  obtain z where z: "footer = putUvarint (length ?d) @ putUvarint (length ?fb) @ putUvarint (length ?d + length ?fb)
      @ putUvarint (length ?ib) @ z" "length footer = cfSSTFooterSize conf"
    using ft(1) by (auto simp: sst_footer_def Let_def split: if_splits)
  have "drop (length (srSrc rd) - cfSSTFooterSize conf) (srSrc rd) = footer" "cfSSTFooterSize conf \<le> length (srSrc rd)"
    using ft(2) assms(2) z(2) by simp_all
  then show ?thesis using z(1) u assms(2) by (cases rd) (simp add: sr_readFooter_def opened_def)
qed

lemma fold_filters:
  "\<forall>p \<in> set fl. fst p < U64 \<Longrightarrow>
   fold (\<lambda>(k, v) m. m(fst (uvarint k) \<mapsto> v)) (map flt_kv fl) m = m ++ map_of (rev fl)"
proof (induction fl arbitrary: m)
  case (Cons p fl)
  then show ?case using uvarint_put [of "fst p" "[]"] by (auto simp: flt_kv_def map_add_def fun_eq_iff split: option.splits)
qed simp

lemma decode_index_kv:
  "ixPrevBlockOffset ix < U64 \<Longrightarrow> ixPrevBlockSize ix < U64 \<Longrightarrow> decode_index (ix_kv ix) = Inr ix"
  using uvarint_put [of "ixPrevBlockSize ix" "[]"] by (simp add: decode_index_def ix_kv_def)

lemma rmap_decode:
  "\<forall>i \<in> set ix. ixPrevBlockOffset i < U64 \<and> ixPrevBlockSize i < U64 \<Longrightarrow> rmap decode_index (map ix_kv ix) = Inr ix"
  by (induction ix) (simp_all add: decode_index_kv)

lemma full_index_bounds:
  assumes "length (table_data blocks) \<le> maxAlloc" "i \<in> set (full_index blocks)"
  shows "ixPrevBlockOffset i < U64 \<and> ixPrevBlockSize i < U64"
proof -
  obtain j where j: "j < length (full_index blocks)" "i = full_index blocks ! j"
    using assms(2) by (auto simp: in_set_conv_nth)
  show ?thesis
  proof (cases j)
    case 0
    then show ?thesis using j by (simp add: full_index_nth first_index_def)
  next
    case (Suc l)
    then have l: "l < length blocks" using j(1) by (simp add: full_index_def)
    have "length (table_data (take l blocks)) + length (enc_records [] (blocks ! l)) \<le> maxAlloc"
      using table_data_split [OF l] assms(1) by simp
    then show ?thesis using j(2) Suc l by (simp add: full_index_nth maxAlloc_def U64_def)
  qed
qed

lemma reopen_ok:
  assumes fin: "finished conf sz blocks fl (s, n, b2f, ix)" and "keys_ok (concat blocks)"
    and rd: "rd = NewSSTReader (swDest s) \<or> rd = opened blocks fl (s, n, b2f, ix)"
  defines "R \<equiv> opened blocks fl (s, n, b2f, ix)"
  shows "sr_Size conf rd = Inr (R, n)" "sr_ReadFilter conf rd = Inr (R, b2f)"
    "sr_ReadIndex conf rd = Inr (R, ix)" "sr_ReadData conf rd = Inr (R, concat blocks)"
proof -
  let ?d = "table_data blocks" and ?fb = "enc_records [] (map flt_kv fl)" and ?ib = "enc_records [] (map ix_kv ix)"
  obtain footer where dest: "swDest s = ?d @ ?fb @ ?ib @ footer" and b: "length ?d + length ?fb + length ?ib \<le> maxAlloc"
    and n: "n = length ?d + length ?fb + length ?ib" and ix: "ix = full_index blocks" and b2f: "b2f = map_of (rev fl)"
    and fits: "list_all kv_fits (map flt_kv fl)" "list_all kv_fits (map ix_kv ix)" and fok: "filters_ok sz blocks fl"
    using fin by (auto simp: finished_def Let_def)
  have src: "srSrc rd = swDest s" using rd by (auto simp: NewSSTReader_def opened_def)
  note ft = readFooter_finished [OF fin src, folded R_def]
  have R: "srSrc R = swDest s" "srFilterOffset R = length ?d" "srFilterSize R = length ?fb"
    "srIndexOffset R = length ?d + length ?fb" "srIndexSize R = length ?ib" by (simp_all add: R_def opened_def)
  have "srFilterOffset rd = 0 \<and> srIndexOffset rd = 0 \<or> rd = R" using rd by (auto simp: NewSSTReader_def R_def)
  then have op: "(if srIndexOffset rd = 0 then sr_readFooter conf rd else Inr rd) = Inr R"
    "(if srFilterOffset rd = 0 \<or> srFilterSize rd = 0 then sr_readFooter conf rd else Inr rd) = Inr R"
    "(if srIndexOffset rd = 0 \<or> srIndexSize rd = 0 then sr_readFooter conf rd else Inr rd) = Inr R"
    "(if srIndexOffset rd = 0 \<or> srIndexSize rd = 0 \<or> srFilterOffset rd = 0 \<or> srFilterSize rd = 0 then sr_readFooter conf rd else Inr rd) = Inr R"
    using ft by auto
  have m: "length ?d \<le> maxAlloc" "length ?fb \<le> maxAlloc" "length ?ib \<le> maxAlloc" "length ?d + length ?fb \<le> maxAlloc"
    using b by linarith+
  show "sr_Size conf rd = Inr (R, n)" unfolding sr_Size_def op by (simp add: R n)
  have "\<forall>p \<in> set fl. fst p < U64" using filters_ok_bounds [OF fok m(1)] maxAlloc_U64 by blast
  then have "readFilter ?fb = Inr b2f"
    using fold_filters [of fl Map.empty] ReadBlockData_enc [OF fits(1)]
    by (simp add: readFilter_def ReadBlockData_def b2f)
  then show "sr_ReadFilter conf rd = Inr (R, b2f)"
    unfolding sr_ReadFilter_def op using m by (simp add: sr_readBlock_def R dest maxAlloc_def)
  have "readIndex ?ib = Inr ix"
    using ReadBlockData_enc [OF fits(2)] rmap_decode [of ix] full_index_bounds [OF m(1)]
    by (simp add: readIndex_def ReadBlockData_def ix)
  then show "sr_ReadIndex conf rd = Inr (R, ix)"
    unfolding sr_ReadIndex_def op using m by (simp add: sr_readBlock_def R dest maxAlloc_def)
  have "ReadBlockData ?d = Inr (concat blocks)"
    unfolding ReadBlockData_def table_data_def by (rule read_blocks) (rule keys_ok_fits, fact)
  then show "sr_ReadData conf rd = Inr (R, concat blocks)"
    unfolding sr_ReadData_def op using m by (simp add: sr_readBlock_def R dest maxAlloc_def)
qed

end

section \<open>Properties\<close>

text \<open>C13: A table returns what was written to it.  Whatever the block size, a writer given at least one pair,
  with sorted, non-empty keys of which the first does not end in a zero byte, and a table no larger than
  memory can hold (\<open>table_fits\<close>), finishes, and the node over its file finds for every key exactly the
  value written under it, and nothing for a key that was not written.  \<open>sst_zero_key_lost\<close> below shows
  what happens when the first key does end in a zero byte.\<close>

theorem sst_lookup:
  assumes "bf_inv f" "hashedKeys f = []" "table_fits conf (bfM f) kvs"
  shows "\<exists>s n b2f ix nd. write_table conf bloomFilter f kvs = Inr (s, n, b2f, ix)
    \<and> NewNode (NewSSTReader (swDest s)) level seq n b2f ix = Inr nd
    \<and> (\<forall>key. node_Get bloomFilter (swFilter s) nd key = Inr (map_of kvs key))"
proof -
  have k: "kvs \<noteq> []" "keys_ok kvs" "sorted_wrt (<) (map fst kvs)" "last (fst (hd kvs)) \<noteq> 0"
      "table_bound (bfM f) kvs \<le> maxAlloc" "28 \<le> cfSSTFooterSize conf"
    using assms(3) by (simp_all add: table_fits_def)
  have "fKeyLen bloomFilter f = 0" using assms(2) by (simp add: bf_KeyLen_def)
  from bloom.write_table_ok [OF assms(1) this k(1,2,5,6)] obtain s n b2f ix blocks fl
    where w: "write_table conf bloomFilter f kvs = Inr (s, n, b2f, ix)"
      "bloom.finished conf (bfM f) blocks fl (s, n, b2f, ix)" "concat blocks = kvs" by (metis prod_cases4)
  have "bf_inv (swFilter s)" "bfM (swFilter s) = bfM f" "blocks \<noteq> []"
    using w(2,3) k(1) by (auto simp: bloom.finished_def bloom.cur_ok_def Let_def)
  note get = bloom.node_Get_ok [OF w(2) this(3) _ _ _ this(1,2)]
  obtain nd where nd: "NewNode (NewSSTReader (swDest s)) level seq n b2f ix = Inr nd"
      "ndIndex nd = ix" "ndBlockToFilter nd = b2f" "srSrc (ndReader nd) = swDest s"
    by (simp add: bloom.finished_node [OF w(2)] NewSSTReader_def)
  have "node_Get bloomFilter (swFilter s) nd key = Inr (map_of kvs key)" for key
    using get [OF _ _ _ nd(2-4)] k w(3) by simp
  then show ?thesis using w(1) nd(1) by blast
qed

text \<open>C28: A table survives a restart: a reader opened on the file alone recovers the size, the filters
  and the index that \<^verbatim>\<open>Finish\<close> returned, and \<^verbatim>\<open>ReadData\<close> returns every pair in order.\<close>

theorem sst_reopen:
  assumes "bf_inv f" "hashedKeys f = []" "table_fits conf (bfM f) kvs"
  shows "\<exists>s n b2f ix r1 r2 r3 r4. write_table conf bloomFilter f kvs = Inr (s, n, b2f, ix)
    \<and> sr_Size conf (NewSSTReader (swDest s)) = Inr (r1, n)
    \<and> sr_ReadFilter conf (NewSSTReader (swDest s)) = Inr (r2, b2f)
    \<and> sr_ReadIndex conf (NewSSTReader (swDest s)) = Inr (r3, ix)
    \<and> sr_ReadData conf (NewSSTReader (swDest s)) = Inr (r4, kvs)"
proof -
  have k: "kvs \<noteq> []" "keys_ok kvs" "table_bound (bfM f) kvs \<le> maxAlloc" "28 \<le> cfSSTFooterSize conf"
    using assms(3) by (simp_all add: table_fits_def)
  have "fKeyLen bloomFilter f = 0" using assms(2) by (simp add: bf_KeyLen_def)
  from bloom.write_table_ok [OF assms(1) this k] obtain s n b2f ix blocks fl
    where w: "write_table conf bloomFilter f kvs = Inr (s, n, b2f, ix)"
      "bloom.finished conf (bfM f) blocks fl (s, n, b2f, ix)" "concat blocks = kvs" by (metis prod_cases4)
  have "keys_ok (concat blocks)" using k(2) w(3) by simp
  note r = bloom.reopen_ok [OF w(2) this disjI1 [OF refl]]
  show ?thesis unfolding w(1) using r w(3) by auto
qed

text \<open>Three pairs in blocks of at least eight bytes, with a footer of 32 bytes.\<close>

definition demo_conf :: lsm_config where
  "demo_conf = \<lparr>cfMaxLevel = 7, cfSSTSize = 1024, cfSSTNumPerLevel = 2, cfSSTDataBlockSize = 8, cfSSTFooterSize = 32\<rparr>"

definition demo_kvs :: "kv list" where
  "demo_kvs = [([1, 5], [7]), ([1, 6], [8, 8]), ([2], [])]"

lemma demo_fits: "table_fits demo_conf 64 demo_kvs"
  by (simp add: table_fits_def demo_kvs_def demo_conf_def keys_ok_def kv_fits_def maxAlloc_def table_bound_def list_less_def)

theorem sst_lookup_witness:
  "\<exists>s n b2f ix nd. write_table demo_conf bloomFilter \<lparr>bfM = 64, hashedKeys = []\<rparr> demo_kvs = Inr (s, n, b2f, ix)
    \<and> NewNode (NewSSTReader (swDest s)) 0 1 n b2f ix = Inr nd
    \<and> node_Get bloomFilter (swFilter s) nd [1, 6] = Inr (Some [8, 8])
    \<and> node_Get bloomFilter (swFilter s) nd [1, 7] = Inr None"
proof -
  have "map_of demo_kvs [1, 6] = Some [8, 8]" "map_of demo_kvs [1, 7] = None" by (simp_all add: demo_kvs_def)
  then show ?thesis
    using sst_lookup [of "\<lparr>bfM = 64, hashedKeys = []\<rparr>" demo_conf demo_kvs 0 1] demo_fits by (auto simp: bf_inv_def)
qed

theorem sst_reopen_witness:
  "\<exists>s n b2f ix r1 r2 r3 r4. write_table demo_conf bloomFilter \<lparr>bfM = 64, hashedKeys = []\<rparr> demo_kvs = Inr (s, n, b2f, ix)
    \<and> sr_Size demo_conf (NewSSTReader (swDest s)) = Inr (r1, n)
    \<and> sr_ReadFilter demo_conf (NewSSTReader (swDest s)) = Inr (r2, b2f)
    \<and> sr_ReadIndex demo_conf (NewSSTReader (swDest s)) = Inr (r3, ix)
    \<and> sr_ReadData demo_conf (NewSSTReader (swDest s)) = Inr (r4, demo_kvs)"
  by (rule sst_reopen) (simp_all add: bf_inv_def demo_fits)

section \<open>A first key that ends in a zero byte\<close>

text \<open>\<^verbatim>\<open>GetSeparatorBetween\<close> decrements the last byte of the first key with wrap-around.  When that byte is
  0 the table's start key lies above its first key, and no lookup finds the first key.\<close>

theorem sst_zero_key_lost:
  assumes "bf_inv f" "hashedKeys f = []" "kvs \<noteq> []" "keys_ok kvs" "sorted_wrt (<) (map fst kvs)" "last (fst (hd kvs)) = 0"
    "table_bound (bfM f) kvs \<le> maxAlloc" "28 \<le> cfSSTFooterSize conf"
  shows "\<exists>s n b2f ix nd. write_table conf bloomFilter f kvs = Inr (s, n, b2f, ix)
    \<and> NewNode (NewSSTReader (swDest s)) level seq n b2f ix = Inr nd
    \<and> fst (hd kvs) < ndStartKey nd \<and> node_Get bloomFilter (swFilter s) nd (fst (hd kvs)) = Inr None"
proof -
  have "fKeyLen bloomFilter f = 0" using assms(2) by (simp add: bf_KeyLen_def)
  from bloom.write_table_ok [OF assms(1) this assms(3,4,7,8)] obtain s n b2f ix blocks fl
    where w: "write_table conf bloomFilter f kvs = Inr (s, n, b2f, ix)"
      "bloom.finished conf (bfM f) blocks fl (s, n, b2f, ix)" "concat blocks = kvs" by (metis prod_cases4)
  have "bf_inv (swFilter s)" "bfM (swFilter s) = bfM f" "blocks \<noteq> []" and ix: "ix = full_index blocks"
    using w(2,3) assms(3) by (auto simp: bloom.finished_def bloom.cur_ok_def Let_def)
  note get = bloom.node_Get_zero [OF w(2) this(3) _ _ _ this(1,2)]
  obtain nd where nd: "NewNode (NewSSTReader (swDest s)) level seq n b2f ix = Inr nd"
      "ndIndex nd = ix" "ndBlockToFilter nd = b2f" "srSrc (ndReader nd) = swDest s" "ndStartKey nd = ixKey (hd ix)"
    by (simp add: bloom.finished_node [OF w(2)] NewSSTReader_def)
  have "fst (hd kvs) \<noteq> []" using assms(3,4) by (cases kvs) (auto simp: keys_ok_def)
  then have "fst (hd kvs) < ndStartKey nd"
    using separator_greater assms(6) nd(5) w(3) ix by (simp add: full_index_def first_index_def)
  moreover have "node_Get bloomFilter (swFilter s) nd (fst (hd kvs)) = Inr None"
    using get [OF _ _ _ nd(2-4)] assms w(3) by simp
  ultimately show ?thesis using w(1) nd(1) by blast
qed

end
