(* ===== verification/Skip_Heap.thy ===== *)
theory Skip_Heap
  imports Go_Prelude
begin

text \<open>
  Skiplists with their pointers.  The repository has two, the memtable of the LSM tree and the ring
  of the consistent hash; both walk, link and unlink nodes in the same way.  A node is an index into
  the list of allocated nodes, node 0 is the head, \<^verbatim>\<open>nil\<close> is \<open>None\<close>.  The lemmas show that a
  well-formed heap is a sorted list of pairs and that the loops find, insert and remove in it.
\<close>

section \<open>Nodes and walks\<close>

record ('k, 'v) skipNode =
  snNexts :: "nat option list"
  snKey :: 'k
  snValue :: 'v

text \<open>\<^verbatim>\<open>for move.nexts[level] != nil && p(move.nexts[level].key) { move = move.nexts[level] }\<close>.  A walk
  longer than the number of nodes visits a node twice and never ends.\<close>

fun advance :: "nat \<Rightarrow> ('k, 'v) skipNode list \<Rightarrow> nat \<Rightarrow> ('k \<Rightarrow> bool) \<Rightarrow> nat \<Rightarrow> go_err + nat" where
  "advance 0 nodes level p move = Inl (Panic ''endless loop'')"
| "advance (Suc fuel) nodes level p move =
     rbind (go_nth (snNexts (nodes ! move)) level) (\<lambda>nx.
       case nx of
         None \<Rightarrow> Inr move
       | Some b \<Rightarrow> if p (snKey (nodes ! b)) then advance fuel nodes level p b else Inr move)"

text \<open>The search loop over levels \<open>n - 1, ..., 0\<close>.\<close>

fun getNode_loop :: "('k :: linorder, 'v) skipNode list \<Rightarrow> 'k \<Rightarrow> nat \<Rightarrow> nat \<Rightarrow> go_err + nat option" where
  "getNode_loop nodes key 0 move = Inr None"
| "getNode_loop nodes key (Suc level) move =
     rbind (advance (length nodes) nodes level (\<lambda>k. k < key) move) (\<lambda>move.
     rbind (go_nth (snNexts (nodes ! move)) level) (\<lambda>nx.
       case nx of
         Some b \<Rightarrow> if snKey (nodes ! b) = key then Inr (Some b) else getNode_loop nodes key level move
       | None \<Rightarrow> getNode_loop nodes key level move))"

text \<open>Walking down without looking for a node.\<close>

fun walk_down :: "('k, 'v) skipNode list \<Rightarrow> ('k \<Rightarrow> bool) \<Rightarrow> nat \<Rightarrow> nat \<Rightarrow> go_err + nat" where
  "walk_down nodes p 0 move = Inr move"
| "walk_down nodes p (Suc level) move =
     rbind (advance (length nodes) nodes level p move) (walk_down nodes p level)"

definition set_next :: "('k, 'v) skipNode list \<Rightarrow> nat \<Rightarrow> nat \<Rightarrow> nat option \<Rightarrow> ('k, 'v) skipNode list" where
  "set_next nodes a level b = nodes[a := (nodes ! a)\<lparr>snNexts := (snNexts (nodes ! a))[level := b]\<rparr>]"

text \<open>Node \<open>new\<close> is linked in at levels \<open>n - 1, ..., 0\<close>.\<close>

fun link_loop :: "('k :: linorder, 'v) skipNode list \<Rightarrow> 'k \<Rightarrow> nat \<Rightarrow> nat \<Rightarrow> nat \<Rightarrow> go_err + ('k, 'v) skipNode list" where
  "link_loop nodes key new 0 move = Inr nodes"
| "link_loop nodes key new (Suc level) move =
     rbind (advance (length nodes) nodes level (\<lambda>k. k < key) move) (\<lambda>move.
     rbind (go_nth (snNexts (nodes ! move)) level) (\<lambda>nx.
       link_loop (set_next (set_next nodes new level nx) move level (Some new)) key new level move))"

text \<open>The node of a key is unlinked at levels \<open>n - 1, ..., 0\<close>.\<close>

fun unlink_loop :: "('k :: linorder, 'v) skipNode list \<Rightarrow> 'k \<Rightarrow> nat \<Rightarrow> nat \<Rightarrow> go_err + ('k, 'v) skipNode list" where
  "unlink_loop nodes key 0 move = Inr nodes"
| "unlink_loop nodes key (Suc level) move =
     rbind (advance (length nodes) nodes level (\<lambda>k. k < key) move) (\<lambda>move.
     rbind (go_nth (snNexts (nodes ! move)) level) (\<lambda>nx.
       case nx of
         None \<Rightarrow> unlink_loop nodes key level move
       | Some b \<Rightarrow>
           if snKey (nodes ! b) > key then unlink_loop nodes key level move
           else rbind (go_nth (snNexts (nodes ! b)) level) (\<lambda>nx'.
                  unlink_loop (set_next nodes move level nx') key level move)))"

definition extend_head :: "('k, 'v) skipNode list \<Rightarrow> nat \<Rightarrow> ('k, 'v) skipNode list" where
  "extend_head nodes n =
     nodes[0 := (nodes ! 0)\<lparr>snNexts := snNexts (nodes ! 0) @ replicate (n - length (snNexts (nodes ! 0))) None\<rparr>]"

section \<open>Well-formed heaps\<close>

text \<open>\<open>chain\<close>: the nodes that follow \<open>a\<close> at a level.  In a well-formed heap the chain of each level is
  the sorted list of the nodes that reach it.\<close>

fun chain :: "('k, 'v) skipNode list \<Rightarrow> nat \<Rightarrow> nat \<Rightarrow> nat list \<Rightarrow> bool" where
  "chain nodes l a [] \<longleftrightarrow> l < length (snNexts (nodes ! a)) \<and> snNexts (nodes ! a) ! l = None"
| "chain nodes l a (b # bs) \<longleftrightarrow>
     l < length (snNexts (nodes ! a)) \<and> snNexts (nodes ! a) ! l = Some b \<and> chain nodes l b bs"

abbreviation ht :: "('k, 'v) skipNode list \<Rightarrow> nat \<Rightarrow> nat" where
  "ht nodes a \<equiv> length (snNexts (nodes ! a))"

abbreviation key_of :: "('k, 'v) skipNode list \<Rightarrow> nat \<Rightarrow> 'k" where
  "key_of nodes a \<equiv> snKey (nodes ! a)"

abbreviation kv_of :: "('k, 'v) skipNode list \<Rightarrow> nat \<Rightarrow> 'k \<times> 'v" where
  "kv_of nodes a \<equiv> (snKey (nodes ! a), snValue (nodes ! a))"

abbreviation key_sorted :: "('k :: linorder, 'v) skipNode list \<Rightarrow> nat list \<Rightarrow> bool" where
  "key_sorted nodes \<equiv> sorted_wrt (\<lambda>a b. key_of nodes a < key_of nodes b)"

definition nodes_ok :: "('k :: linorder, 'v) skipNode list \<Rightarrow> nat list \<Rightarrow> bool" where
  "nodes_ok nodes xs \<longleftrightarrow> nodes \<noteq> [] \<and> set xs \<subseteq> {1..<length nodes} \<and> key_sorted nodes xs
     \<and> (\<forall>a \<in> set xs. 0 < ht nodes a \<and> ht nodes a \<le> ht nodes 0)
     \<and> (\<forall>l < ht nodes 0. chain nodes l 0 (filter (\<lambda>a. l < ht nodes a) xs))"

text \<open>The nodes of a level that a walk passes and those it stops before.\<close>

definition passed :: "('k, 'v) skipNode list \<Rightarrow> nat list \<Rightarrow> nat \<Rightarrow> ('k \<Rightarrow> bool) \<Rightarrow> nat list" where
  "passed nodes xs l p = filter (\<lambda>b. l < ht nodes b \<and> p (key_of nodes b)) xs"

definition ahead :: "('k, 'v) skipNode list \<Rightarrow> nat list \<Rightarrow> nat \<Rightarrow> ('k \<Rightarrow> bool) \<Rightarrow> nat list" where
  "ahead nodes xs l p = filter (\<lambda>b. l < ht nodes b \<and> \<not> p (key_of nodes b)) xs"

definition downward :: "('k :: linorder \<Rightarrow> bool) \<Rightarrow> bool" where
  "downward p \<longleftrightarrow> (\<forall>a b. a < b \<longrightarrow> p b \<longrightarrow> p a)"

text \<open>Where a new node goes.\<close>

definition with_new :: "('k :: linorder, 'v) skipNode list \<Rightarrow> nat list \<Rightarrow> nat \<Rightarrow> nat list" where
  "with_new nodes xs new = filter (\<lambda>b. key_of nodes b < key_of nodes new) xs @ new
     # filter (\<lambda>b. \<not> key_of nodes b < key_of nodes new) xs"

text \<open>Levels from \<open>n\<close> on have the new node, those below not yet.\<close>

definition linking :: "('k :: linorder, 'v) skipNode list \<Rightarrow> nat list \<Rightarrow> nat \<Rightarrow> nat \<Rightarrow> bool" where
  "linking nodes xs new n \<longleftrightarrow>
     set xs \<subseteq> {1..<new} \<and> distinct xs \<and> Suc new = length nodes \<and> 0 < new
     \<and> key_sorted nodes xs \<and> n \<le> ht nodes new \<and> ht nodes new \<le> ht nodes 0
     \<and> (\<forall>l < n. chain nodes l 0 (filter (\<lambda>a. l < ht nodes a) xs))
     \<and> (\<forall>l < ht nodes 0. n \<le> l \<longrightarrow> chain nodes l 0 (filter (\<lambda>a. l < ht nodes a) (with_new nodes xs new)))"

text \<open>Levels from \<open>n\<close> on have lost node \<open>a\<close>.\<close>

definition unlinking :: "('k :: linorder, 'v) skipNode list \<Rightarrow> nat list \<Rightarrow> nat \<Rightarrow> nat \<Rightarrow> bool" where
  "unlinking nodes xs a n \<longleftrightarrow>
     set xs \<subseteq> {1..<length nodes} \<and> distinct xs \<and> a \<in> set xs \<and> nodes \<noteq> [] \<and> key_sorted nodes xs \<and> n \<le> ht nodes 0
     \<and> (\<forall>l < n. chain nodes l 0 (filter (\<lambda>a. l < ht nodes a) xs))
     \<and> (\<forall>l < ht nodes 0. n \<le> l \<longrightarrow> chain nodes l 0 (filter (\<lambda>a. l < ht nodes a) (remove1 a xs)))"

text \<open>Inserting into a sorted list of pairs.\<close>

fun ins_kv :: "'k :: linorder \<Rightarrow> 'v \<Rightarrow> ('k \<times> 'v) list \<Rightarrow> ('k \<times> 'v) list" where
  "ins_kv k v [] = [(k, v)]"
| "ins_kv k v ((k', v') # kvs) =
     (if k < k' then (k, v) # (k', v') # kvs else if k = k' then (k, v) # kvs else (k', v') # ins_kv k v kvs)"

section \<open>Walking\<close>

lemma advance_chain:
  assumes "chain nodes l a bs" "length bs < fuel"
  shows "advance fuel nodes l p a = Inr (last (a # takeWhile (\<lambda>b. p (key_of nodes b)) bs))"
  using assms
proof (induction bs arbitrary: a fuel)
  case Nil
  then show ?case by (cases fuel) auto
next
  case (Cons b bs)
  then show ?case by (cases fuel) auto
qed

lemma chain_append: "chain nodes l a (bs @ cs) \<Longrightarrow> chain nodes l (last (a # bs)) cs"
  by (induction bs arbitrary: a) auto

lemma downward_less [simp]: "downward (\<lambda>k. k < key)" "downward (\<lambda>_. True)"
  by (auto simp: downward_def)

lemma sorted_split_key:
  assumes "sorted_wrt (\<lambda>a b. f a < (f b :: 'k :: linorder)) xs" "downward p"
  shows "xs = filter (\<lambda>b. p (f b)) xs @ filter (\<lambda>b. \<not> p (f b)) xs"
  using assms(1)
proof (induction xs)
  case (Cons x xs)
  show ?case
  proof (cases "p (f x)")
    case True
    then show ?thesis using Cons by simp
  next
    case False
    then have "filter (\<lambda>b. p (f b)) xs = []" using Cons.prems assms(2) by (auto simp: filter_empty_conv downward_def)
    then show ?thesis using False Cons by simp
  qed
qed simp

lemma find_filter_key:
  "find (\<lambda>b. f b = k) xs = find (\<lambda>b. f b = (k :: 'k :: linorder)) (filter (\<lambda>b. \<not> f b < k) xs)"
  by (induction xs) auto

lemma find_unique_key:
  assumes "sorted_wrt (\<lambda>a b. f a < (f b :: 'k :: linorder)) xs" "b \<in> set xs" "f b = k"
  shows "find (\<lambda>b. f b = k) xs = Some b"
  using assms by (induction xs) auto

lemma key_inj:
  assumes "sorted_wrt (\<lambda>a b. f a < (f b :: 'k :: linorder)) xs" "b \<in> set xs" "a \<in> set xs" "f b = f a"
  shows "b = a"
proof -
  have "find (\<lambda>c. f c = f a) xs = Some b" by (rule find_unique_key [OF assms(1,2,4)])
  moreover have "find (\<lambda>c. f c = f a) xs = Some a" by (rule find_unique_key [OF assms(1,3) refl])
  ultimately show ?thesis by simp
qed

lemma level_split:
  assumes "key_sorted nodes xs" "downward p"
  shows "filter (\<lambda>a. l < ht nodes a) xs = passed nodes xs l p @ ahead nodes xs l p"
  using sorted_split_key [where f = "key_of nodes" and xs = "filter (\<lambda>a. l < ht nodes a) xs" and p = p] assms
  by (simp add: passed_def ahead_def sorted_wrt_filter conj_commute)

lemma ahead_mem: "b \<in> set (ahead nodes xs l p) \<Longrightarrow> \<not> p (key_of nodes b)"
  by (simp add: ahead_def)

lemma ahead_sorted: "key_sorted nodes xs \<Longrightarrow> key_sorted nodes (ahead nodes xs l p)"
  by (simp add: ahead_def sorted_wrt_filter)

lemma level_step:
  assumes srt: "key_sorted nodes xs" and p: "downward p"
    and ch: "chain nodes l 0 (filter (\<lambda>a. l < ht nodes a) xs)" and a: "a = 0 \<or> a \<in> set (passed nodes xs l p)"
    and len: "length xs < fuel"
  shows "advance fuel nodes l p a = Inr (last (0 # passed nodes xs l p))"
    "chain nodes l (last (0 # passed nodes xs l p)) (ahead nodes xs l p)"
proof -
  let ?F = "passed nodes xs l p" and ?G = "ahead nodes xs l p"
  have ch': "chain nodes l 0 (?F @ ?G)" using ch level_split [OF srt p, of l] by simp
  then show "chain nodes l (last (0 # ?F)) ?G" by (rule chain_append)
  obtain pre rest where pre: "0 # ?F = pre @ a # rest" using a split_list [of a "0 # ?F"] by auto
  have rest: "chain nodes l a (rest @ ?G)" and sub: "set rest \<subseteq> set ?F"
  proof (atomize (full), cases pre)
    case Nil
    then show "chain nodes l a (rest @ ?G) \<and> set rest \<subseteq> set ?F" using pre ch' by simp
  next
    case (Cons q ps)
    then have F: "?F = (ps @ [a]) @ rest" using pre by simp
    then have "chain nodes l 0 ((ps @ [a]) @ (rest @ ?G))" using ch' by simp
    from chain_append [OF this] F show "chain nodes l a (rest @ ?G) \<and> set rest \<subseteq> set ?F" by auto
  qed
  have "\<forall>b \<in> set rest. p (key_of nodes b)" using sub by (auto simp: passed_def)
  moreover have "takeWhile (\<lambda>b. p (key_of nodes b)) ?G = []"
    using ahead_mem [of _ nodes xs l p] by (cases ?G) auto
  ultimately have tw: "takeWhile (\<lambda>b. p (key_of nodes b)) (rest @ ?G) = rest" by (simp add: takeWhile_append2)
  have "length (pre @ a # rest) = Suc (length ?F)" using pre by (metis length_Cons)
  then have "length (rest @ ?G) \<le> length (?F @ ?G)" by simp
  also have "\<dots> = length (filter (\<lambda>a. l < ht nodes a) xs)" using level_split [OF srt p, of l] by simp
  also have "\<dots> \<le> length xs" by simp
  finally have "length (rest @ ?G) < fuel" using len by simp
  from advance_chain [OF rest this, of p] have "advance fuel nodes l p a = Inr (last (a # rest))" unfolding tw .
  moreover have "last (a # rest) = last (0 # ?F)" unfolding pre by simp
  ultimately show "advance fuel nodes l p a = Inr (last (0 # ?F))" by simp
qed

lemma chain_next:
  "chain nodes l a bs \<Longrightarrow> go_nth (snNexts (nodes ! a)) l = Inr (case bs of [] \<Rightarrow> None | b # _ \<Rightarrow> Some b)"
  by (cases bs) auto

lemma key_sorted_distinct: "key_sorted nodes xs \<Longrightarrow> distinct xs"
  by (metis distinct_map sorted_wrt_map strict_sorted_iff)

lemma nodes_okD:
  assumes "nodes_ok nodes xs"
  shows "key_sorted nodes xs" "length xs < length nodes"
    "l < ht nodes 0 \<Longrightarrow> chain nodes l 0 (filter (\<lambda>a. l < ht nodes a) xs)" "distinct xs"
proof -
  show "distinct xs" using assms unfolding nodes_ok_def by (intro key_sorted_distinct [of nodes]) simp
  then have "length xs = card (set xs)" by (simp add: distinct_card)
  also have "\<dots> \<le> card {1..<length nodes}" using assms by (intro card_mono) (simp_all add: nodes_ok_def)
  also have "\<dots> < length nodes" using assms by (cases nodes) (simp_all add: nodes_ok_def)
  finally show "length xs < length nodes" .
qed (use assms in \<open>simp_all add: nodes_ok_def\<close>)

lemma last_passed: "last (0 # passed nodes xs l p) = 0 \<or> last (0 # passed nodes xs l p) \<in> set (passed nodes xs l p)"
  by auto

lemma passed_lower: "a \<in> set (passed nodes xs (Suc l) p) \<Longrightarrow> a \<in> set (passed nodes xs l p)"
  by (auto simp: passed_def)

text \<open>A position from which the walk at level \<open>n - 1\<close> may start.\<close>

definition start_ok :: "('k, 'v) skipNode list \<Rightarrow> nat list \<Rightarrow> ('k \<Rightarrow> bool) \<Rightarrow> nat \<Rightarrow> nat \<Rightarrow> bool" where
  "start_ok nodes xs p n a \<longleftrightarrow> n = 0 \<or> a = 0 \<or> a \<in> set (passed nodes xs (n - 1) p)"

lemma start_ok_0 [simp]: "start_ok nodes xs p n 0"
  by (simp add: start_ok_def)

lemma start_ok_next: "start_ok nodes xs p l (last (0 # passed nodes xs l p))"
  using last_passed [of nodes xs l p] passed_lower [of _ nodes xs "l - 1" p] by (cases l) (auto simp: start_ok_def)

lemma ahead_level0:
  assumes "nodes_ok nodes xs"
  shows "ahead nodes xs 0 p = filter (\<lambda>b. \<not> p (key_of nodes b)) xs" "passed nodes xs 0 p = filter (\<lambda>b. p (key_of nodes b)) xs"
  using assms by (auto simp: nodes_ok_def ahead_def passed_def intro!: filter_cong)

lemma walk_down_ok:
  assumes ok: "nodes_ok nodes xs" and p: "downward p" and "n \<le> ht nodes 0" "start_ok nodes xs p n a" "0 < n"
  shows "walk_down nodes p n a = Inr (last (0 # passed nodes xs 0 p))"
  using assms(3-5)
proof (induction n arbitrary: a)
  case (Suc l)
  have ch: "chain nodes l 0 (filter (\<lambda>a. l < ht nodes a) xs)" using nodes_okD(3) [OF ok] Suc.prems(1) by simp
  have adv: "advance (length nodes) nodes l p a = Inr (last (0 # passed nodes xs l p))"
    by (rule level_step(1) [OF nodes_okD(1) [OF ok] p ch]) (use Suc.prems(2) nodes_okD(2) [OF ok] in \<open>auto simp: start_ok_def\<close>)
  show ?case
  proof (cases "l = 0")
    case False
    then show ?thesis using adv Suc.IH [of "last (0 # passed nodes xs l p)"] Suc.prems start_ok_next [of nodes xs p l] by simp
  qed (use adv in simp)
qed simp

lemma getNode_loop_ok:
  assumes ok: "nodes_ok nodes xs" and "n \<le> ht nodes 0" "start_ok nodes xs (\<lambda>k. k < key) n a"
  shows "getNode_loop nodes key n a = Inr (if n = 0 then None else find (\<lambda>b. key_of nodes b = key) xs)"
  using assms(2,3)
proof (induction n arbitrary: a)
  case (Suc l)
  let ?p = "\<lambda>k. k < key"
  let ?F = "passed nodes xs l ?p" and ?G = "ahead nodes xs l ?p"
  note srt = nodes_okD(1) [OF ok] and len = nodes_okD(2) [OF ok]
  have ch: "chain nodes l 0 (filter (\<lambda>a. l < ht nodes a) xs)" using nodes_okD(3) [OF ok] Suc.prems(1) by simp
  have adv: "advance (length nodes) nodes l ?p a = Inr (last (0 # ?F))"
    by (rule level_step(1) [OF srt _ ch]) (use Suc.prems(2) len in \<open>auto simp: start_ok_def\<close>)
  have nx: "go_nth (snNexts (nodes ! last (0 # ?F))) l = Inr (case ?G of [] \<Rightarrow> None | b # _ \<Rightarrow> Some b)"
    by (rule chain_next, rule level_step(2) [OF srt _ ch, of _ 0 "length nodes"]) (use len in auto)
  have IH: "getNode_loop nodes key l (last (0 # ?F)) = Inr (if l = 0 then None else find (\<lambda>b. key_of nodes b = key) xs)"
    by (rule Suc.IH) (use Suc.prems in \<open>simp_all add: start_ok_next del: last.simps\<close>)
  have sp: "find (\<lambda>b. key_of nodes b = key) xs = find (\<lambda>b. key_of nodes b = key) (filter (\<lambda>b. \<not> key_of nodes b < key) xs)"
    by (rule find_filter_key)
  show ?case
  proof (cases "\<exists>b bs. ?G = b # bs \<and> key_of nodes b = key")
    case True
    then obtain b bs where b: "?G = b # bs" "key_of nodes b = key" by blast
    then have "b \<in> set ?G" by simp
    then have "b \<in> set xs" by (simp add: ahead_def)
    then have "find (\<lambda>b. key_of nodes b = key) xs = Some b" by (intro find_unique_key [OF srt] b(2))
    then show ?thesis using adv nx b by simp
  next
    case False
    have none: "find (\<lambda>b. key_of nodes b = key) xs = None" if "l = 0"
    proof (cases ?G)
      case Nil
      then show ?thesis unfolding sp using ahead_level0(1) [OF ok, of ?p] that by simp
    next
      case (Cons b bs)
      have "key_sorted nodes ?G" "\<not> key_of nodes b < key"
        using ahead_sorted [OF srt, of l ?p] ahead_mem [of b nodes xs l ?p] Cons by simp_all
      moreover have "key_of nodes b \<noteq> key" using False Cons by auto
      ultimately have "\<forall>c \<in> set ?G. key_of nodes c \<noteq> key" using Cons by auto
      then show ?thesis unfolding sp using ahead_level0(1) [OF ok, of ?p] that by (auto simp: find_None_iff)
    qed
    have "getNode_loop nodes key (Suc l) a = getNode_loop nodes key l (last (0 # ?F))"
      using adv nx False by (cases ?G) (simp_all del: last.simps)
    then show ?thesis using IH none by simp
  qed
qed simp

lemma getNode_head:
  assumes "nodes_ok nodes xs"
  shows "getNode_loop nodes key (ht nodes 0) 0 = Inr (find (\<lambda>b. key_of nodes b = key) xs)"
proof -
  have "xs = []" if "ht nodes 0 = 0" using assms that by (auto simp: nodes_ok_def intro: ccontr)
  then show ?thesis using getNode_loop_ok [OF assms order_refl, of key 0] by auto
qed

section \<open>Linking a node in\<close>

lemma set_next_nth:
  "set_next nodes a l b ! c = (if c = a \<and> a < length nodes then (nodes ! a)\<lparr>snNexts := (snNexts (nodes ! a))[l := b]\<rparr> else nodes ! c)"
  by (cases "a < length nodes") (simp_all add: set_next_def nth_list_update list_update_beyond)

lemma set_next_simps [simp]:
  "length (set_next nodes a l b) = length nodes" "ht (set_next nodes a l b) c = ht nodes c"
  "key_of (set_next nodes a l b) c = key_of nodes c" "snValue (set_next nodes a l b ! c) = snValue (nodes ! c)"
  by (simp_all add: set_next_nth) (simp add: set_next_def)

lemma set_next_nexts:
  "a < length nodes \<Longrightarrow> snNexts (set_next nodes a l b ! c) = (if c = a then (snNexts (nodes ! a))[l := b] else snNexts (nodes ! c))"
  by (simp add: set_next_nth)

lemma chain_cong:
  "(\<And>b. b \<in> set (a # bs) \<Longrightarrow> (l < ht nodes b \<longleftrightarrow> l < ht nodes' b) \<and> (l < ht nodes b \<longrightarrow> snNexts (nodes ! b) ! l = snNexts (nodes' ! b) ! l)) \<Longrightarrow>
   chain nodes l a bs \<longleftrightarrow> chain nodes' l a bs"
proof (induction bs arbitrary: a)
  case Nil
  then show ?case by auto
next
  case (Cons b bs)
  have "chain nodes l b bs \<longleftrightarrow> chain nodes' l b bs" by (rule Cons.IH) (rule Cons.prems, simp)
  then show ?case using Cons.prems [of a] by auto
qed

lemma chain_set_other:
  "a < length nodes \<Longrightarrow> l \<noteq> l' \<Longrightarrow> chain (set_next nodes a l' b) l c cs \<longleftrightarrow> chain nodes l c cs"
  by (rule chain_cong) (auto simp: set_next_nexts)

lemma chain_set_outside:
  "a < length nodes \<Longrightarrow> a \<notin> set (c # cs) \<Longrightarrow> chain (set_next nodes a l' b) l c cs \<longleftrightarrow> chain nodes l c cs"
  by (rule chain_cong) (auto simp: set_next_nexts)

lemma chain_insert:
  assumes "chain nodes l a (bs @ cs)" "distinct (a # bs @ cs)" "new \<notin> set (a # bs @ cs)" "l < ht nodes new"
    "new < length nodes" "\<forall>b \<in> set (a # bs @ cs). b < length nodes"
  shows "chain (set_next (set_next nodes new l (case cs of [] \<Rightarrow> None | c # _ \<Rightarrow> Some c)) (last (a # bs)) l (Some new)) l a
    (bs @ new # cs)"
  using assms
proof (induction bs arbitrary: a)
  case Nil
  let ?n1 = "set_next nodes new l (case cs of [] \<Rightarrow> None | c # _ \<Rightarrow> Some c)"
  have "l < ht nodes a" using Nil(1) by (cases cs) auto
  have tail: "chain ?n1 l new cs"
  proof (cases cs)
    case (Cons c cs')
    have "chain nodes l c cs'" using Nil(1) Cons by simp
    then show ?thesis using Nil Cons by (auto simp: set_next_nexts chain_set_outside)
  qed (use Nil in \<open>auto simp: set_next_nexts\<close>)
  then have "chain (set_next ?n1 a l (Some new)) l new cs" using Nil by (subst chain_set_outside) auto
  then show ?case using Nil \<open>l < ht nodes a\<close> by (auto simp: set_next_nexts)
next
  case (Cons b bs)
  have IH: "chain (set_next (set_next nodes new l (case cs of [] \<Rightarrow> None | c # _ \<Rightarrow> Some c)) (last (b # bs)) l (Some new)) l b
    (bs @ new # cs)"
    by (rule Cons.IH) (use Cons.prems in auto)
  have "last (b # bs) \<in> set (b # bs)" by (rule last_in_set) simp
  then have "last (b # bs) \<noteq> a" "last (b # bs) < length nodes" using Cons.prems by auto
  then show ?case using IH Cons.prems by (auto simp: set_next_nexts)
qed

lemma with_new_level:
  "l < ht nodes new \<Longrightarrow> filter (\<lambda>a. l < ht nodes a) (with_new nodes xs new)
    = passed nodes xs l (\<lambda>k. k < key_of nodes new) @ new # ahead nodes xs l (\<lambda>k. k < key_of nodes new)"
  by (simp add: with_new_def passed_def ahead_def conj_commute)

lemma with_new_high:
  assumes "key_sorted nodes xs" "\<not> l < ht nodes new"
  shows "filter (\<lambda>a. l < ht nodes a) (with_new nodes xs new) = filter (\<lambda>a. l < ht nodes a) xs"
proof -
  let ?p = "\<lambda>k. k < key_of nodes new"
  have "filter (\<lambda>a. l < ht nodes a) (with_new nodes xs new)
      = filter (\<lambda>a. l < ht nodes a) (filter (\<lambda>b. ?p (key_of nodes b)) xs @ filter (\<lambda>b. \<not> ?p (key_of nodes b)) xs)"
    using assms(2) by (simp add: with_new_def)
  then show ?thesis using sorted_split_key [OF assms(1), of ?p] by simp
qed

lemma with_new_set_next [simp]: "with_new (set_next nodes a l b) xs new = with_new nodes xs new"
  by (simp add: with_new_def)

lemma passed_set_next [simp]: "passed (set_next nodes a l b) xs l' p = passed nodes xs l' p"
  "start_ok (set_next nodes a l b) xs p n c = start_ok nodes xs p n c"
  by (simp_all add: passed_def start_ok_def)

lemma linking_step:
  assumes lk: "linking nodes xs new (Suc l)" and key: "key = key_of nodes new"
    and st: "start_ok nodes xs (\<lambda>k. k < key) (Suc l) a"
  defines "m \<equiv> last (0 # passed nodes xs l (\<lambda>k. k < key))"
  shows "\<exists>nx. advance (length nodes) nodes l (\<lambda>k. k < key) a = Inr m \<and> go_nth (snNexts (nodes ! m)) l = Inr nx
    \<and> linking (set_next (set_next nodes new l nx) m l (Some new)) xs new l"
proof -
  let ?p = "\<lambda>k. k < key"
  let ?F = "passed nodes xs l ?p" and ?G = "ahead nodes xs l ?p"
  have srt: "key_sorted nodes xs" and ch: "chain nodes l 0 (filter (\<lambda>a. l < ht nodes a) xs)"
    and set: "set xs \<subseteq> {1..<new}" "distinct xs" "Suc new = length nodes" "0 < new" "Suc l \<le> ht nodes new" "ht nodes new \<le> ht nodes 0"
    using lk by (simp_all add: linking_def)
  have "length xs \<le> card {1..<new}" using set(1,2) by (metis card_mono distinct_card finite_atLeastLessThan)
  then have len: "length xs < length nodes" using set(3,4) by simp
  have step: "advance (length nodes) nodes l ?p a = Inr m" "chain nodes l m ?G"
    unfolding m_def using level_step [OF srt _ ch _ len] st by (simp_all add: start_ok_def)
  define nx where "nx = (case ?G of [] \<Rightarrow> None | b # _ \<Rightarrow> Some b)"
  let ?n = "set_next (set_next nodes new l nx) m l (Some new)"
  have "set (?F @ ?G) \<subseteq> set xs" by (auto simp: passed_def ahead_def)
  then have sub: "set (?F @ ?G) \<subseteq> {1..<new}" using set(1) by blast
  have dis: "distinct (?F @ ?G)" using set(2) level_split [OF srt, of ?p l] by (metis distinct_filter downward_less(1))
  have mlt: "m < new" using last_passed [of nodes xs l ?p] sub set(4) by (auto simp: m_def)
  have "chain nodes l 0 (?F @ ?G)" using ch level_split [OF srt, of ?p l] by simp
  then have ins: "chain ?n l 0 (?F @ new # ?G)"
    unfolding nx_def m_def by (rule chain_insert) (use dis sub set in auto)
  have other: "chain ?n l' 0 cs \<longleftrightarrow> chain nodes l' 0 cs" if "l' \<noteq> l" for l' cs
    using that mlt set(3) by (simp add: chain_set_other)
  have "linking ?n xs new l"
    unfolding linking_def
  proof (intro conjI allI impI)
    fix l' assume "l' < l"
    then show "chain ?n l' 0 (filter (\<lambda>a. l' < ht ?n a) xs)"
      using lk by (simp add: other linking_def)
  next
    fix l' assume l': "l' < ht ?n 0" "l \<le> l'"
    show "chain ?n l' 0 (filter (\<lambda>a. l' < ht ?n a) (with_new ?n xs new))"
    proof (cases "l' = l")
      case True
      then show ?thesis using ins set(5) with_new_level [of l nodes new xs] by (simp add: key)
    next
      case False
      then show ?thesis using lk l' by (simp add: other linking_def)
    qed
  qed (use set srt in simp_all)
  then show ?thesis using step(1) chain_next [OF step(2)] by (auto simp: nx_def)
qed

text \<open>Keys, values and heights of all nodes are kept.\<close>

definition same_data :: "('k, 'v) skipNode list \<Rightarrow> ('k, 'v) skipNode list \<Rightarrow> bool" where
  "same_data nodes nodes' \<longleftrightarrow> length nodes' = length nodes
     \<and> (\<forall>b. key_of nodes' b = key_of nodes b \<and> snValue (nodes' ! b) = snValue (nodes ! b) \<and> ht nodes' b = ht nodes b)"

lemma same_data_set_next: "same_data (set_next nodes a l b) nodes' \<longleftrightarrow> same_data nodes nodes'"
  by (simp add: same_data_def)

lemma link_loop_ok:
  assumes "linking nodes xs new n" "key = key_of nodes new" "start_ok nodes xs (\<lambda>k. k < key) n a"
  shows "\<exists>nodes'. link_loop nodes key new n a = Inr nodes' \<and> linking nodes' xs new 0 \<and> same_data nodes nodes'"
  using assms
proof (induction n arbitrary: nodes a)
  case (Suc l)
  let ?m = "last (0 # passed nodes xs l (\<lambda>k. k < key))"
  from linking_step [OF Suc.prems] obtain nx
    where nx: "advance (length nodes) nodes l (\<lambda>k. k < key) a = Inr ?m" "go_nth (snNexts (nodes ! ?m)) l = Inr nx"
      "linking (set_next (set_next nodes new l nx) ?m l (Some new)) xs new l" by blast
  let ?n = "set_next (set_next nodes new l nx) ?m l (Some new)"
  have "start_ok ?n xs (\<lambda>k. k < key) l ?m" by (simp add: start_ok_next del: last.simps)
  from Suc.IH [OF nx(3) _ this] Suc.prems(2) show ?case using nx(1,2) by (auto simp: same_data_set_next)
qed (auto simp: same_data_def)

lemma ins_kv_new:
  "\<forall>kv \<in> set ys. fst kv < k \<Longrightarrow> \<forall>kv \<in> set zs. k < fst kv \<Longrightarrow> ins_kv k v (ys @ zs) = ys @ (k, v) # zs"
proof (induction ys)
  case Nil
  then show ?case by (cases zs) auto
qed auto

lemma ins_kv_old: "\<forall>kv \<in> set ys. fst kv < k \<Longrightarrow> ins_kv k v (ys @ (k, v') # zs) = ys @ (k, v) # zs"
  by (induction ys) auto

lemma extend_head_ok:
  assumes "nodes_ok nodes xs"
  shows "nodes_ok (extend_head nodes n) xs" "length (extend_head nodes n) = length nodes"
    "ht (extend_head nodes n) 0 = max (ht nodes 0) n" "\<And>b. kv_of (extend_head nodes n) b = kv_of nodes b"
    "\<And>b. b \<in> set xs \<Longrightarrow> extend_head nodes n ! b = nodes ! b"
proof -
  let ?e = "extend_head nodes n"
  have ne: "0 < length nodes" and sx: "set xs \<subseteq> {1..<length nodes}" and hts: "\<forall>a \<in> set xs. 0 < ht nodes a \<and> ht nodes a \<le> ht nodes 0"
    using assms by (simp_all add: nodes_ok_def)
  show len: "length ?e = length nodes" by (simp add: extend_head_def)
  have other: "?e ! b = nodes ! b" if "0 < b" for b using that by (simp add: extend_head_def)
  show h0: "ht ?e 0 = max (ht nodes 0) n" using ne by (simp add: extend_head_def)
  show kv: "kv_of ?e b = kv_of nodes b" for b using ne other [of b] by (cases "b = 0") (simp_all add: extend_head_def)
  show xb: "?e ! b = nodes ! b" if "b \<in> set xs" for b using other sx that by auto
  have flt: "filter (\<lambda>a. l < ht ?e a) xs = filter (\<lambda>a. l < ht nodes a) xs" for l using xb by (auto intro: filter_cong)
  have head: "snNexts (?e ! 0) = snNexts (nodes ! 0) @ replicate (n - ht nodes 0) None" using ne by (simp add: extend_head_def)
  have "chain ?e l 0 (filter (\<lambda>a. l < ht nodes a) xs)" if "l < ht ?e 0" for l
  proof (cases "l < ht nodes 0")
    case True
    have "chain ?e l 0 (filter (\<lambda>a. l < ht nodes a) xs) \<longleftrightarrow> chain nodes l 0 (filter (\<lambda>a. l < ht nodes a) xs)"
    proof (rule chain_cong)
      fix b assume "b \<in> set (0 # filter (\<lambda>a. l < ht nodes a) xs)"
      then show "(l < ht ?e b \<longleftrightarrow> l < ht nodes b) \<and> (l < ht ?e b \<longrightarrow> snNexts (?e ! b) ! l = snNexts (nodes ! b) ! l)"
        using True xb [of b] h0 head by (cases "b = 0") (auto simp: nth_append)
    qed
    then show ?thesis using nodes_okD(3) [OF assms True] by simp
  next
    case False
    then have "filter (\<lambda>a. l < ht nodes a) xs = []" using hts unfolding filter_empty_conv by force
    then show ?thesis using False that head by (simp add: nth_append)
  qed
  moreover have "key_sorted ?e xs" using nodes_okD(1) [OF assms] kv by simp
  ultimately show "nodes_ok ?e xs"
    unfolding nodes_ok_def flt using ne sx hts len h0 xb by fastforce
qed

text \<open>The new node is on the heap but not yet linked.\<close>

lemma linking_start:
  assumes ok: "nodes_ok nodes xs" and h: "h \<le> ht nodes 0"
  shows "linking (nodes @ [\<lparr>snNexts = replicate h None, snKey = key, snValue = val\<rparr>]) xs (length nodes) h"
proof -
  let ?n = "nodes @ [\<lparr>snNexts = replicate h None, snKey = key, snValue = val\<rparr>]"
  have ne: "0 < length nodes" and sx: "set xs \<subseteq> {1..<length nodes}" using ok by (simp_all add: nodes_ok_def)
  have xb: "?n ! b = nodes ! b" if "b = 0 \<or> b \<in> set xs" for b using that sx ne by (auto simp: nth_append)
  have nw: "?n ! length nodes = \<lparr>snNexts = replicate h None, snKey = key, snValue = val\<rparr>" by simp
  have flt: "filter (\<lambda>a. l < ht ?n a) xs = filter (\<lambda>a. l < ht nodes a) xs" for l using xb by (auto intro: filter_cong)
  have ch: "chain ?n l 0 (filter (\<lambda>a. l < ht ?n a) xs)" if "l < ht nodes 0" for l
  proof -
    have "chain ?n l 0 (filter (\<lambda>a. l < ht nodes a) xs) \<longleftrightarrow> chain nodes l 0 (filter (\<lambda>a. l < ht nodes a) xs)"
      by (rule chain_cong) (use xb in auto)
    then show ?thesis using nodes_okD(3) [OF ok that] flt by simp
  qed
  have srt: "key_sorted ?n xs"
    using nodes_okD(1) [OF ok] xb by (auto intro: sorted_wrt_mono_rel [rotated])
  show ?thesis
    unfolding linking_def
  proof (intro conjI allI impI)
    fix l assume "l < h"
    then show "chain ?n l 0 (filter (\<lambda>a. l < ht ?n a) xs)" using ch h by simp
  next
    fix l assume "l < ht ?n 0" "h \<le> l"
    then show "chain ?n l 0 (filter (\<lambda>a. l < ht ?n a) (with_new ?n xs (length nodes)))"
      using ch with_new_high [OF srt, of l "length nodes"] nw xb [of 0] by simp
  qed (use sx nodes_okD(4) [OF ok] ne srt nw xb [of 0] h in auto)
qed

lemma linking_done:
  assumes "linking nodes xs new 0" "0 < ht nodes new" "\<forall>a \<in> set xs. 0 < ht nodes a \<and> ht nodes a \<le> ht nodes 0"
    "\<forall>a \<in> set xs. key_of nodes a \<noteq> key_of nodes new"
  shows "nodes_ok nodes (with_new nodes xs new)"
    "map (kv_of nodes) (with_new nodes xs new) = ins_kv (key_of nodes new) (snValue (nodes ! new)) (map (kv_of nodes) xs)"
proof -
  have lk: "set xs \<subseteq> {1..<new}" "Suc new = length nodes" "0 < new" "ht nodes new \<le> ht nodes 0" "key_sorted nodes xs"
    "\<forall>l < ht nodes 0. chain nodes l 0 (filter (\<lambda>a. l < ht nodes a) (with_new nodes xs new))"
    using assms(1) by (simp_all add: linking_def)
  have lt: "key_of nodes new < key_of nodes b" if "b \<in> set xs" "\<not> key_of nodes b < key_of nodes new" for b
    using assms(4) that by (metis linorder_neqE)
  have "set (with_new nodes xs new) = insert new (set xs)" by (auto simp: with_new_def)
  then have st: "set (with_new nodes xs new) \<subseteq> {1..<length nodes}" using lk(1-3) by auto
  have "key_sorted nodes (with_new nodes xs new)"
    using lk(5) lt by (auto simp: with_new_def sorted_wrt_append sorted_wrt_filter)
  then show "nodes_ok nodes (with_new nodes xs new)"
    unfolding nodes_ok_def using st lk assms(2,3) by (auto simp: with_new_def)
  let ?a = "filter (\<lambda>b. key_of nodes b < key_of nodes new) xs" and ?b = "filter (\<lambda>b. \<not> key_of nodes b < key_of nodes new) xs"
  have "map (kv_of nodes) xs = map (kv_of nodes) ?a @ map (kv_of nodes) ?b"
    using arg_cong [OF sorted_split_key [OF lk(5) downward_less(1)], of "map (kv_of nodes)"] unfolding map_append .
  moreover have "ins_kv (key_of nodes new) (snValue (nodes ! new)) (map (kv_of nodes) ?a @ map (kv_of nodes) ?b)
      = map (kv_of nodes) ?a @ (key_of nodes new, snValue (nodes ! new)) # map (kv_of nodes) ?b"
    by (rule ins_kv_new) (use lt in auto)
  ultimately show "map (kv_of nodes) (with_new nodes xs new) = ins_kv (key_of nodes new) (snValue (nodes ! new)) (map (kv_of nodes) xs)"
    by (simp add: with_new_def)
qed

text \<open>Inserting a new key.\<close>

lemma insert_node_ok:
  assumes ok: "nodes_ok nodes xs" and h: "0 < h" "h \<le> ht nodes 0" and fresh: "\<forall>a \<in> set xs. key_of nodes a \<noteq> key"
  shows "\<exists>nodes' xs'. link_loop (nodes @ [\<lparr>snNexts = replicate h None, snKey = key, snValue = val\<rparr>]) key (length nodes) h 0 = Inr nodes'
    \<and> nodes_ok nodes' xs' \<and> map (kv_of nodes') xs' = ins_kv key val (map (kv_of nodes) xs)
    \<and> ht nodes' 0 = ht nodes 0 \<and> (\<forall>l < ht nodes 0. (\<exists>a \<in> set xs. l < ht nodes a) \<or> l < h \<longrightarrow> (\<exists>a \<in> set xs'. l < ht nodes' a))"
proof -
  let ?n = "nodes @ [\<lparr>snNexts = replicate h None, snKey = key, snValue = val\<rparr>]" and ?new = "length nodes"
  have ne: "0 < length nodes" and sx: "set xs \<subseteq> {1..<length nodes}" and hts: "\<forall>a \<in> set xs. 0 < ht nodes a \<and> ht nodes a \<le> ht nodes 0"
    using ok by (simp_all add: nodes_ok_def)
  have xb: "?n ! b = nodes ! b" if "b = 0 \<or> b \<in> set xs" for b using that sx ne by (auto simp: nth_append)
  have nw: "?n ! ?new = \<lparr>snNexts = replicate h None, snKey = key, snValue = val\<rparr>" by simp
  from link_loop_ok [OF linking_start [OF ok h(2), of key val], of key 0] obtain nodes'
    where l: "link_loop ?n key ?new h 0 = Inr nodes'" "linking nodes' xs ?new 0" "same_data ?n nodes'" by auto
  have sd: "key_of nodes' b = key_of ?n b" "snValue (nodes' ! b) = snValue (?n ! b)" "ht nodes' b = ht ?n b" for b
    using l(3) by (simp_all add: same_data_def)
  have "0 < ht nodes' ?new" "\<forall>a \<in> set xs. 0 < ht nodes' a \<and> ht nodes' a \<le> ht nodes' 0" "\<forall>a \<in> set xs. key_of nodes' a \<noteq> key_of nodes' ?new"
    using sd xb nw h hts fresh by auto
  note dn = linking_done [OF l(2) this]
  have mx: "map (kv_of nodes') xs = map (kv_of nodes) xs" using sd xb by auto
  have "key_of nodes' ?new = key" "snValue (nodes' ! ?new) = val" using sd [of ?new] nw by simp_all
  note kv = dn(2) [unfolded mx this]
  have mem: "set (with_new nodes' xs ?new) = insert ?new (set xs)" by (auto simp: with_new_def)
  have "\<exists>a \<in> set (with_new nodes' xs ?new). l < ht nodes' a" if "(\<exists>a \<in> set xs. l < ht nodes a) \<or> l < h" for l
    unfolding mem using that sd xb nw by auto
  then show ?thesis using l(1) dn(1) kv sd xb [of 0] by (intro exI [of _ nodes'] exI [of _ "with_new nodes' xs ?new"]) simp
qed

text \<open>Changing a value.\<close>

lemma set_value_ok:
  fixes nodes :: "('k :: linorder, 'v) skipNode list" and val :: 'v
  assumes "nodes_ok nodes xs" "a \<in> set xs"
  defines "nodes' \<equiv> nodes[a := (nodes ! a)\<lparr>snValue := val\<rparr>]"
  shows "nodes_ok nodes' xs" "map (kv_of nodes') xs = ins_kv (key_of nodes a) val (map (kv_of nodes) xs)"
    "\<And>b. snNexts (nodes' ! b) = snNexts (nodes ! b)"
proof -
  have lt: "a < length nodes" using assms by (auto simp: nodes_ok_def)
  show nx: "snNexts (nodes' ! b) = snNexts (nodes ! b)" for b using lt by (cases "b = a") (simp_all add: nodes'_def)
  have ky: "key_of nodes' b = key_of nodes b" for b using lt by (cases "b = a") (simp_all add: nodes'_def)
  have len: "length nodes' = length nodes" "nodes' \<noteq> [] \<longleftrightarrow> nodes \<noteq> []" by (simp_all add: nodes'_def)
  have "chain nodes' l 0 bs \<longleftrightarrow> chain nodes l 0 bs" for l bs by (rule chain_cong) (simp add: nx)
  then show "nodes_ok nodes' xs" using assms(1) by (simp add: nodes_ok_def nx ky len)
  obtain ys zs where xs: "xs = ys @ a # zs" using assms(2) by (meson split_list)
  have "key_sorted nodes xs" by (rule nodes_okD(1) [OF assms(1)])
  then have ys: "\<forall>b \<in> set ys. key_of nodes b < key_of nodes a" and "a \<notin> set ys" "a \<notin> set zs"
    by (auto simp: xs sorted_wrt_append)
  then have m: "map (kv_of nodes') ys = map (kv_of nodes) ys" "map (kv_of nodes') zs = map (kv_of nodes) zs"
    "kv_of nodes' a = (key_of nodes a, val)" using lt by (auto simp: nodes'_def nth_list_update)
  show "map (kv_of nodes') xs = ins_kv (key_of nodes a) val (map (kv_of nodes) xs)"
    unfolding xs list.map map_append m by (rule ins_kv_old [symmetric]) (use ys in auto)
qed

section \<open>Unlinking a node\<close>

lemma chain_delete:
  assumes "chain nodes l c (bs @ a # cs)" "distinct (c # bs @ a # cs)" "\<forall>b \<in> set (c # bs). b < length nodes"
  shows "chain (set_next nodes (last (c # bs)) l (case cs of [] \<Rightarrow> None | d # _ \<Rightarrow> Some d)) l c (bs @ cs)"
  using assms
proof (induction bs arbitrary: c)
  case Nil
  show ?case
  proof (cases cs)
    case Nil
    then show ?thesis using \<open>chain nodes l c ([] @ a # cs)\<close> \<open>\<forall>b \<in> set (c # []). b < length nodes\<close> by (simp add: set_next_nexts)
  next
    case (Cons d ds)
    have "c \<notin> set (d # ds)" "c < length nodes" using Nil.prems Cons by auto
    then show ?thesis using Nil.prems Cons by (simp add: set_next_nexts chain_set_outside)
  qed
next
  case (Cons b bs)
  have IH: "chain (set_next nodes (last (b # bs)) l (case cs of [] \<Rightarrow> None | d # _ \<Rightarrow> Some d)) l b (bs @ cs)"
    by (rule Cons.IH) (use Cons.prems in auto)
  have "last (b # bs) \<in> set (b # bs)" by (rule last_in_set) simp
  then have "last (b # bs) \<noteq> c" "last (b # bs) < length nodes" using Cons.prems by auto
  then show ?case using IH Cons.prems by (auto simp: set_next_nexts)
qed

lemma unlinking_step:
  assumes ul: "unlinking nodes xs a (Suc l)" and key: "key = key_of nodes a"
    and st: "start_ok nodes xs (\<lambda>k. k < key) (Suc l) c"
  defines "m \<equiv> last (0 # passed nodes xs l (\<lambda>k. k < key))"
  shows "\<exists>nodes'. unlink_loop nodes key (Suc l) c = unlink_loop nodes' key l m \<and> unlinking nodes' xs a l
    \<and> same_data nodes nodes'"
proof -
  let ?p = "\<lambda>k. k < key"
  let ?F = "passed nodes xs l ?p" and ?G = "ahead nodes xs l ?p"
  have srt: "key_sorted nodes xs" and ch: "chain nodes l 0 (filter (\<lambda>a. l < ht nodes a) xs)"
    and set: "set xs \<subseteq> {1..<length nodes}" "distinct xs" "a \<in> set xs" "Suc l \<le> ht nodes 0" "0 < length nodes"
    using ul by (simp_all add: unlinking_def)
  have "length xs \<le> card {1..<length nodes}" using set(1,2) by (metis card_mono distinct_card finite_atLeastLessThan)
  then have "length xs \<le> length nodes - 1" by simp
  then have len: "length xs < length nodes" using set(5) by linarith
  have step: "advance (length nodes) nodes l ?p c = Inr m" "chain nodes l m ?G"
    unfolding m_def using level_step [OF srt _ ch _ len] st by (simp_all add: start_ok_def)
  note sp = level_split [OF srt downward_less(1), of l key]
  have dis: "distinct (?F @ ?G)" using set(2) sp by (metis distinct_filter)
  have sub: "set (?F @ ?G) \<subseteq> set xs" by (auto simp: passed_def ahead_def)
  have mlt: "m < length nodes" using last_passed [of nodes xs l ?p] sub set(1,5) by (auto simp: m_def)
  have keep: "unlinking nodes' xs a l"
    if "\<And>l' cs. l' \<noteq> l \<Longrightarrow> chain nodes' l' 0 cs \<longleftrightarrow> chain nodes l' 0 cs" "same_data nodes nodes'"
      "chain nodes' l 0 (filter (\<lambda>a. l < ht nodes a) (remove1 a xs))" for nodes'
  proof -
    have sd: "length nodes' = length nodes" "ht nodes' b = ht nodes b" "key_of nodes' b = key_of nodes b" for b
      using that(2) by (simp_all add: same_data_def)
    then have ne: "nodes' \<noteq> []" using set(5) by auto
    have "chain nodes' l' 0 (filter (\<lambda>a. l' < ht nodes a) (remove1 a xs))" if "l' < ht nodes 0" "l \<le> l'" for l'
      using ul that \<open>chain nodes' l 0 _\<close> \<open>\<And>l' cs. l' \<noteq> l \<Longrightarrow> chain nodes' l' 0 cs \<longleftrightarrow> chain nodes l' 0 cs\<close> [of l']
      by (cases "l' = l") (auto simp: unlinking_def)
    moreover have "chain nodes' l' 0 (filter (\<lambda>a. l' < ht nodes a) xs)" if "l' < l" for l'
      using ul that \<open>\<And>l' cs. l' \<noteq> l \<Longrightarrow> chain nodes' l' 0 cs \<longleftrightarrow> chain nodes l' 0 cs\<close> [of l'] by (auto simp: unlinking_def)
    ultimately show ?thesis unfolding unlinking_def using sd ne set srt by simp
  qed
  show ?thesis
  proof (cases "l < ht nodes a")
    case True
    have "a \<in> set ?G" using set(3) True by (simp add: ahead_def key)
    then obtain g gs where G: "?G = g # gs" by (cases ?G) auto
    have "g = a"
    proof -
      have "key_sorted nodes ?G" by (rule ahead_sorted [OF srt])
      moreover have "\<not> key_of nodes g < key" using ahead_mem [of g nodes xs l ?p] G by simp
      ultimately show ?thesis using \<open>a \<in> set ?G\<close> G by (auto simp: key)
    qed
    let ?nx = "case gs of [] \<Rightarrow> None | d # _ \<Rightarrow> Some d"
    let ?n = "set_next nodes m l ?nx"
    have ca: "chain nodes l a gs" "go_nth (snNexts (nodes ! m)) l = Inr (Some a)"
      using step(2) chain_next [OF step(2)] G \<open>g = a\<close> by auto
    have "unlink_loop nodes key (Suc l) c = unlink_loop ?n key l m"
      using step(1) ca(2) chain_next [OF ca(1)] by (simp add: key)
    moreover have "chain ?n l 0 (?F @ gs)"
      unfolding m_def by (rule chain_delete) (use ch sp dis G \<open>g = a\<close> sub set(1,5) in auto)
    moreover have "filter (\<lambda>a. l < ht nodes a) (remove1 a xs) = ?F @ gs"
      unfolding filter_remove1 sp using dis G \<open>g = a\<close> by (simp add: remove1_append)
    ultimately show ?thesis
      using keep [of ?n] mlt by (intro exI [of _ ?n]) (simp add: chain_set_other same_data_def)
  next
    case False
    have "unlink_loop nodes key (Suc l) c = unlink_loop nodes key l m"
    proof (cases ?G)
      case Nil
      then show ?thesis using step(1) chain_next [OF step(2)] by simp
    next
      case (Cons g gs)
      have "g \<in> set ?G" using Cons by simp
      then have g: "g \<in> set xs" "l < ht nodes g" "\<not> key_of nodes g < key" by (simp_all add: ahead_def)
      have "g \<noteq> a" using g(2) False by auto
      then have "key_of nodes g \<noteq> key" using key_inj [OF srt g(1) set(3)] key by auto
      then show ?thesis using step(1) chain_next [OF step(2)] Cons g(3) by simp
    qed
    moreover have "filter (\<lambda>a. l < ht nodes a) (remove1 a xs) = filter (\<lambda>a. l < ht nodes a) xs"
      unfolding filter_remove1 using False by (simp add: remove1_idem)
    ultimately show ?thesis using keep [of nodes] ch by (intro exI [of _ nodes]) (simp add: same_data_def)
  qed
qed

lemma unlink_loop_ok:
  assumes "unlinking nodes xs a n" "key = key_of nodes a" "start_ok nodes xs (\<lambda>k. k < key) n c"
  shows "\<exists>nodes'. unlink_loop nodes key n c = Inr nodes' \<and> unlinking nodes' xs a 0 \<and> same_data nodes nodes'"
  using assms
proof (induction n arbitrary: nodes c)
  case (Suc l)
  let ?m = "last (0 # passed nodes xs l (\<lambda>k. k < key))"
  from unlinking_step [OF Suc.prems] obtain n1
    where n1: "unlink_loop nodes key (Suc l) c = unlink_loop n1 key l ?m" "unlinking n1 xs a l" "same_data nodes n1" by blast
  have "key = key_of n1 a" "start_ok n1 xs (\<lambda>k. k < key) l ?m"
    using n1(3) Suc.prems(2) start_ok_next [of nodes xs "\<lambda>k. k < key" l] by (simp_all add: same_data_def start_ok_def passed_def del: last.simps)
  from Suc.IH [OF n1(2) this] n1 show ?case by (auto simp: same_data_def)
qed (auto simp: same_data_def)

text \<open>\<^verbatim>\<open>root.nexts\<close> is cut at the first empty level.\<close>

definition trim_head :: "('k, 'v) skipNode list \<Rightarrow> ('k, 'v) skipNode list" where
  "trim_head nodes = nodes[0 := (nodes ! 0)\<lparr>snNexts := takeWhile (\<lambda>x. x \<noteq> None) (snNexts (nodes ! 0))\<rparr>]"

lemma trim_head_ok:
  assumes ok: "nodes_ok nodes xs"
  shows "nodes_ok (trim_head nodes) xs" "\<And>b. kv_of (trim_head nodes) b = kv_of nodes b"
    "\<forall>l < ht (trim_head nodes) 0. \<exists>a \<in> set xs. l < ht (trim_head nodes) a"
proof -
  let ?t = "trim_head nodes" and ?h = "length (takeWhile (\<lambda>x. x \<noteq> None) (snNexts (nodes ! 0)))"
  have ne: "0 < length nodes" and sx: "set xs \<subseteq> {1..<length nodes}" and hts: "\<forall>a \<in> set xs. 0 < ht nodes a \<and> ht nodes a \<le> ht nodes 0"
    using ok by (simp_all add: nodes_ok_def)
  have len: "length ?t = length nodes" by (simp add: trim_head_def)
  have other: "?t ! b = nodes ! b" if "0 < b" for b using that by (simp add: trim_head_def)
  have head: "snNexts (?t ! 0) = takeWhile (\<lambda>x. x \<noteq> None) (snNexts (nodes ! 0))" using ne by (simp add: trim_head_def)
  show kv: "kv_of ?t b = kv_of nodes b" for b using ne other [of b] by (cases "b = 0") (simp_all add: trim_head_def)
  have hle: "?h \<le> ht nodes 0" by (rule length_takeWhile_le)
  have cell: "l < ?h \<Longrightarrow> snNexts (?t ! 0) ! l = snNexts (nodes ! 0) ! l \<and> snNexts (nodes ! 0) ! l \<noteq> None" for l
    unfolding head using nth_mem [of l "takeWhile (\<lambda>x. x \<noteq> None) (snNexts (nodes ! 0))"]
    by (auto simp: takeWhile_nth dest: set_takeWhileD)
  have small: "ht nodes a \<le> ?h" if "a \<in> set xs" for a
  proof (rule ccontr)
    assume "\<not> ?thesis"
    then have lt: "?h < ht nodes a" by simp
    then have "?h < ht nodes 0" using hts that by fastforce
    then have "snNexts (nodes ! 0) ! ?h = None" using nth_length_takeWhile [of "\<lambda>x. x \<noteq> None" "snNexts (nodes ! 0)"] by simp
    moreover have "chain nodes ?h 0 (filter (\<lambda>a. ?h < ht nodes a) xs)" by (rule nodes_okD(3) [OF ok]) fact
    moreover have "filter (\<lambda>a. ?h < ht nodes a) xs \<noteq> []" using that lt by (auto simp: filter_empty_conv)
    ultimately show False by (cases "filter (\<lambda>a. ?h < ht nodes a) xs") auto
  qed
  have xb: "?t ! b = nodes ! b" if "b \<in> set xs" for b using other sx that by auto
  have flt: "filter (\<lambda>a. l < ht ?t a) xs = filter (\<lambda>a. l < ht nodes a) xs" for l using xb by (auto intro: filter_cong)
  have ch: "chain ?t l 0 (filter (\<lambda>a. l < ht nodes a) xs)" if "l < ht ?t 0" for l
  proof -
    have l: "l < ?h" "l < ht nodes 0" using that head hle by simp_all
    have "chain ?t l 0 (filter (\<lambda>a. l < ht nodes a) xs) \<longleftrightarrow> chain nodes l 0 (filter (\<lambda>a. l < ht nodes a) xs)"
    proof (rule chain_cong)
      fix b assume "b \<in> set (0 # filter (\<lambda>a. l < ht nodes a) xs)"
      then show "(l < ht ?t b \<longleftrightarrow> l < ht nodes b) \<and> (l < ht ?t b \<longrightarrow> snNexts (?t ! b) ! l = snNexts (nodes ! b) ! l)"
        using l xb [of b] head cell [of l] by (cases "b = 0") auto
    qed
    then show ?thesis using nodes_okD(3) [OF ok l(2)] by simp
  qed
  have "\<forall>a \<in> set xs. 0 < ht ?t a \<and> ht ?t a \<le> ht ?t 0" using hts small xb head by simp
  moreover have "key_sorted ?t xs" using nodes_okD(1) [OF ok] kv by simp
  moreover have "?t \<noteq> []" using len ne by auto
  ultimately show "nodes_ok ?t xs" unfolding nodes_ok_def flt using ch sx len by simp
  show "\<forall>l < ht ?t 0. \<exists>a \<in> set xs. l < ht ?t a"
  proof (intro allI impI)
    fix l assume l: "l < ht ?t 0"
    have "snNexts (?t ! 0) ! l \<noteq> None" using cell [of l] l head by simp
    then have "filter (\<lambda>a. l < ht nodes a) xs \<noteq> []" using ch [OF l] by (cases "filter (\<lambda>a. l < ht nodes a) xs") auto
    then obtain a where "a \<in> set xs" "l < ht nodes a" by (auto simp: filter_empty_conv)
    then show "\<exists>a \<in> set xs. l < ht ?t a" using xb by (intro bexI [of _ a]) simp_all
  qed
qed

text \<open>Removing a key.\<close>

lemma remove_node_ok:
  assumes ok: "nodes_ok nodes xs" and a: "a \<in> set xs" "key_of nodes a = key"
  shows "\<exists>nodes'. unlink_loop nodes key (ht nodes 0) 0 = Inr nodes' \<and> nodes_ok (trim_head nodes') (remove1 a xs)
    \<and> map (kv_of (trim_head nodes')) (remove1 a xs) = filter (\<lambda>kv. fst kv \<noteq> key) (map (kv_of nodes) xs)
    \<and> (\<forall>l < ht (trim_head nodes') 0. \<exists>b \<in> set (remove1 a xs). l < ht (trim_head nodes') b)"
proof -
  note dst = nodes_okD(4) [OF ok] and srt = nodes_okD(1) [OF ok]
  have "unlinking nodes xs a (ht nodes 0)" using ok a(1) dst by (simp add: unlinking_def nodes_ok_def)
  from unlink_loop_ok [OF this, of key 0] a(2) obtain n1
    where n1: "unlink_loop nodes key (ht nodes 0) 0 = Inr n1" "unlinking n1 xs a 0" "same_data nodes n1" by auto
  have sd: "length n1 = length nodes" "key_of n1 b = key_of nodes b" "snValue (n1 ! b) = snValue (nodes ! b)" "ht n1 b = ht nodes b" for b
    using n1(3) by (simp_all add: same_data_def)
  have sub: "set (remove1 a xs) \<subseteq> set xs" by (rule set_remove1_subset)
  have "\<forall>b \<in> set (remove1 a xs). 0 < ht nodes b \<and> ht nodes b \<le> ht nodes 0" using ok sub by (auto simp: nodes_ok_def)
  moreover have "key_sorted nodes (remove1 a xs)"
    unfolding distinct_remove1_removeAll [OF dst] removeAll_filter_not_eq by (rule sorted_wrt_filter) (fact srt)
  moreover have "set (remove1 a xs) \<subseteq> {1..<length nodes}" using ok sub by (auto simp: nodes_ok_def)
  ultimately have ok1: "nodes_ok n1 (remove1 a xs)"
    using n1(2) unfolding nodes_ok_def unlinking_def by (simp add: sd)
  note tr = trim_head_ok [OF ok1]
  have k: "key_of nodes b = key \<longleftrightarrow> b = a" if "b \<in> set xs" for b
    using key_inj [OF srt that a(1)] a(2) by auto
  have r: "remove1 a xs = filter (\<lambda>b. key_of nodes b \<noteq> key) xs"
    unfolding distinct_remove1_removeAll [OF dst] removeAll_filter_not_eq by (rule filter_cong) (use k in auto)
  have "map (kv_of (trim_head n1)) (remove1 a xs) = map (kv_of nodes) (remove1 a xs)" using tr(2) sd by simp
  also have "\<dots> = filter (\<lambda>kv. fst kv \<noteq> key) (map (kv_of nodes) xs)" unfolding r by (simp add: filter_map comp_def)
  finally have "map (kv_of (trim_head n1)) (remove1 a xs) = filter (\<lambda>kv. fst kv \<noteq> key) (map (kv_of nodes) xs)" .
  then show ?thesis using n1(1) tr(1,3) by blast
qed

section \<open>Sorted lists of pairs\<close>

lemma map_of_ins_kv: "sorted_wrt (<) (map fst kvs) \<Longrightarrow> map_of (ins_kv k v kvs) = (map_of kvs)(k \<mapsto> v)"
proof (induction k v kvs rule: ins_kv.induct)
  case (2 k v k' v' kvs)
  then show ?case by (auto simp: fun_eq_iff)
qed auto

lemma set_ins_kv: "sorted_wrt (<) (map fst kvs) \<Longrightarrow> fst ` set (ins_kv k v kvs) = insert k (fst ` set kvs)"
  by (induction k v kvs rule: ins_kv.induct) auto

lemma set_ins_kv_subset: "set (ins_kv k v kvs) \<subseteq> insert (k, v) (set kvs)"
  by (induction k v kvs rule: ins_kv.induct) auto

lemma map_of_find: "map_of (map (kv_of nodes) xs) key = map_option (\<lambda>a. snValue (nodes ! a)) (find (\<lambda>b. key_of nodes b = key) xs)"
  by (induction xs) auto

end
