(* ===== verification/LSM_Memtable.thy ===== *)
theory LSM_Memtable
  imports LSM_Codec Skip_Heap
begin

text \<open>
  The memtable of the tree, \<^verbatim>\<open>components/lsm_tree/memtable\<close>.  The interface \<^verbatim>\<open>MemTable\<close> is the record
  \<open>mem_ops\<close>; the locale \<open>mem_table\<close> says that an implementation is a sorted list of pairs.  The
  skiplist of \<^verbatim>\<open>skiplist.go\<close> is modelled with its pointers.  The coin flips of \<^verbatim>\<open>roll\<close> are the argument
  \<open>coins\<close>: \<open>coins n\<close> is how often \<^verbatim>\<open>Intn(2)\<close> returns 1 in a row when entry \<open>n\<close> is added.
\<close>

section \<open>The interface\<close>

record 'm mem_ops =
  mNew :: 'm
  mPut :: "'m \<Rightarrow> bytes \<Rightarrow> bytes \<Rightarrow> go_err + 'm"
  mGet :: "'m \<Rightarrow> bytes \<Rightarrow> go_err + bytes option"
  mAll :: "'m \<Rightarrow> go_err + kv list"
  mSize :: "'m \<Rightarrow> int"
  mEntriesCnt :: "'m \<Rightarrow> nat"

section \<open>The skiplist\<close>

record Skiplist =
  slNodes :: "(bytes, bytes) skipNode list"
  slEntriesCnt :: nat
  slSize :: int

definition NewSkiplist :: Skiplist where
  "NewSkiplist = \<lparr>slNodes = [\<lparr>snNexts = [], snKey = [], snValue = []\<rparr>], slEntriesCnt = 0, slSize = 0\<rparr>"

definition getNode :: "Skiplist \<Rightarrow> bytes \<Rightarrow> go_err + nat option" where
  "getNode s key = getNode_loop (slNodes s) key (length (snNexts (slNodes s ! 0))) 0"

definition roll :: "nat \<Rightarrow> nat" where
  "roll ones = ones + 1"

definition grow_head :: "(bytes, bytes) skipNode list \<Rightarrow> nat \<Rightarrow> (bytes, bytes) skipNode list" where
  "grow_head nodes h = (if length (snNexts (nodes ! 0)) < h then extend_head nodes (h + 1) else nodes)"

definition sl_Put :: "(nat \<Rightarrow> nat) \<Rightarrow> Skiplist \<Rightarrow> bytes \<Rightarrow> bytes \<Rightarrow> go_err + Skiplist" where
  "sl_Put coins s key value =
     rbind (getNode s key) (\<lambda>node.
       case node of
         Some a \<Rightarrow>
           Inr (s\<lparr>slSize := slSize s + (int (length value) - int (length (snValue (slNodes s ! a)))),
                  slNodes := (slNodes s)[a := (slNodes s ! a)\<lparr>snValue := value\<rparr>]\<rparr>)
       | None \<Rightarrow>
           let h = roll (coins (slEntriesCnt s));
               nodes = grow_head (slNodes s) h @ [\<lparr>snNexts = replicate h None, snKey = key, snValue = value\<rparr>]
           in rbind (link_loop nodes key (length (slNodes s)) h 0) (\<lambda>nodes.
                Inr (s\<lparr>slSize := slSize s + (int (length key) + int (length value)),
                       slEntriesCnt := slEntriesCnt s + 1, slNodes := nodes\<rparr>)))"

definition sl_Get :: "Skiplist \<Rightarrow> bytes \<Rightarrow> go_err + bytes option" where
  "sl_Get s key = rbind (getNode s key) (\<lambda>node. Inr (map_option (\<lambda>a. snValue (slNodes s ! a)) node))"

fun all_loop :: "nat \<Rightarrow> (bytes, bytes) skipNode list \<Rightarrow> nat \<Rightarrow> go_err + kv list" where
  "all_loop 0 nodes move = Inl (Panic ''endless loop'')"
| "all_loop (Suc fuel) nodes move =
     rbind (go_nth (snNexts (nodes ! move)) 0) (\<lambda>nx.
       case nx of
         None \<Rightarrow> Inr []
       | Some b \<Rightarrow> rbind (all_loop fuel nodes b) (\<lambda>kvs. Inr ((snKey (nodes ! b), snValue (nodes ! b)) # kvs)))"

definition sl_All :: "Skiplist \<Rightarrow> go_err + kv list" where
  "sl_All s = (if snNexts (slNodes s ! 0) = [] then Inr [] else all_loop (length (slNodes s)) (slNodes s) 0)"

definition skiplistOps :: "(nat \<Rightarrow> nat) \<Rightarrow> Skiplist mem_ops" where
  "skiplistOps coins = \<lparr>mNew = NewSkiplist, mPut = sl_Put coins, mGet = sl_Get, mAll = sl_All,
     mSize = slSize, mEntriesCnt = slEntriesCnt\<rparr>"

section \<open>The contract\<close>

definition kv_size :: "kv list \<Rightarrow> int" where
  "kv_size kvs = (\<Sum>kv \<leftarrow> kvs. int (length (fst kv)) + int (length (snd kv)))"

locale mem_table =
  fixes M :: "'m mem_ops" and minv :: "'m \<Rightarrow> bool" and pairs :: "'m \<Rightarrow> kv list"
  assumes new: "minv (mNew M) \<and> pairs (mNew M) = []"
    and put: "minv m \<Longrightarrow> \<exists>m'. mPut M m k v = Inr m' \<and> minv m' \<and> pairs m' = ins_kv k v (pairs m)"
    and get: "minv m \<Longrightarrow> mGet M m k = Inr (map_of (pairs m) k)"
    and all: "minv m \<Longrightarrow> mAll M m = Inr (pairs m)"
    and size: "minv m \<Longrightarrow> mSize M m = kv_size (pairs m) \<and> mEntriesCnt M m = length (pairs m)"
    and sorted: "minv m \<Longrightarrow> sorted_wrt (<) (map fst (pairs m))"

section \<open>The skiplist's invariant\<close>

definition sl_inv :: "Skiplist \<Rightarrow> bool" where
  "sl_inv s \<longleftrightarrow> (\<exists>xs. nodes_ok (slNodes s) xs \<and> slEntriesCnt s = length xs
     \<and> slSize s = kv_size (map (kv_of (slNodes s)) xs))"

definition sl_pairs :: "Skiplist \<Rightarrow> kv list" where
  "sl_pairs s = (case sl_All s of Inr kvs \<Rightarrow> kvs | Inl _ \<Rightarrow> [])"

section \<open>The skiplist is a sorted list of pairs\<close>

lemma getNode_ok: "nodes_ok (slNodes s) xs \<Longrightarrow> getNode s key = Inr (find (\<lambda>b. key_of (slNodes s) b = key) xs)"
  by (simp add: getNode_def getNode_head)

lemma all_loop_chain:
  "chain nodes 0 a bs \<Longrightarrow> length bs < fuel \<Longrightarrow> all_loop fuel nodes a = Inr (map (kv_of nodes) bs)"
proof (induction bs arbitrary: a fuel)
  case Nil
  then show ?case by (cases fuel) auto
next
  case (Cons b bs)
  then show ?case by (cases fuel) auto
qed

lemma sl_All_ok:
  assumes "nodes_ok (slNodes s) xs"
  shows "sl_All s = Inr (map (kv_of (slNodes s)) xs)"
proof (cases "snNexts (slNodes s ! 0) = []")
  case True
  then have "xs = []" using assms by (auto simp: nodes_ok_def intro: ccontr)
  then show ?thesis using True by (simp add: sl_All_def)
next
  case False
  have "filter (\<lambda>a. 0 < ht (slNodes s) a) xs = xs" using assms by (simp add: nodes_ok_def filter_id_conv)
  then have "chain (slNodes s) 0 0 xs" using nodes_okD(3) [OF assms, of 0] False by simp
  then show ?thesis using all_loop_chain [of "slNodes s" 0 xs] nodes_okD(2) [OF assms] False by (simp add: sl_All_def)
qed

lemma sl_pairs_ok: "nodes_ok (slNodes s) xs \<Longrightarrow> sl_pairs s = map (kv_of (slNodes s)) xs"
  by (simp add: sl_pairs_def sl_All_ok)

lemma kv_size_simps [simp]: "kv_size [] = 0" "kv_size (xs @ ys) = kv_size xs + kv_size ys"
  "kv_size ((k, v) # ys) = int (length k) + int (length v) + kv_size ys"
  by (simp_all add: kv_size_def)

lemma kv_size_ins_new:
  "k \<notin> fst ` set kvs \<Longrightarrow> kv_size (ins_kv k v kvs) = kv_size kvs + (int (length k) + int (length v))"
  by (induction k v kvs rule: ins_kv.induct) auto

lemma length_ins_new: "k \<notin> fst ` set kvs \<Longrightarrow> length (ins_kv k v kvs) = Suc (length kvs)"
  by (induction k v kvs rule: ins_kv.induct) auto

lemma kv_size_ins_old:
  "sorted_wrt (<) (map fst kvs) \<Longrightarrow> (k, w) \<in> set kvs \<Longrightarrow>
   kv_size (ins_kv k v kvs) = kv_size kvs + (int (length v) - int (length w))"
  by (induction k v kvs rule: ins_kv.induct) (force split: if_splits)+

lemma grow_head_ok:
  assumes "nodes_ok nodes xs"
  shows "nodes_ok (grow_head nodes h) xs" "length (grow_head nodes h) = length nodes" "h \<le> ht (grow_head nodes h) 0"
    "kv_of (grow_head nodes h) b = kv_of nodes b"
  using assms extend_head_ok [OF assms, of "h + 1"] by (auto simp: grow_head_def)

lemma sl_Put_ok:
  assumes "sl_inv s"
  shows "\<exists>s'. sl_Put coins s k v = Inr s' \<and> sl_inv s' \<and> sl_pairs s' = ins_kv k v (sl_pairs s)"
proof -
  obtain xs where ok: "nodes_ok (slNodes s) xs" and cnt: "slEntriesCnt s = length xs"
    and size: "slSize s = kv_size (map (kv_of (slNodes s)) xs)" using assms by (auto simp: sl_inv_def)
  have srt: "sorted_wrt (<) (map fst (map (kv_of (slNodes s)) xs))"
    using nodes_okD(1) [OF ok] by (simp add: sorted_wrt_map)
  show ?thesis
  proof (cases "find (\<lambda>b. key_of (slNodes s) b = k) xs")
    case (Some a)
    then have a: "a \<in> set xs" "key_of (slNodes s) a = k" by (auto simp: find_Some_iff)
    let ?n = "(slNodes s)[a := (slNodes s ! a)\<lparr>snValue := v\<rparr>]"
    let ?s = "s\<lparr>slSize := slSize s + (int (length v) - int (length (snValue (slNodes s ! a)))), slNodes := ?n\<rparr>"
    note old = set_value_ok [OF ok a(1), where val = v, unfolded a(2)]
    have "sl_Put coins s k v = Inr ?s" using getNode_ok [OF ok, of k] Some by (simp add: sl_Put_def)
    moreover have "(k, snValue (slNodes s ! a)) \<in> set (map (kv_of (slNodes s)) xs)" using a by auto
    then have "sl_inv ?s"
      unfolding sl_inv_def using old(1,2) cnt size kv_size_ins_old [OF srt, of k _ v] by (intro exI [of _ xs]) simp
    moreover have "sl_pairs ?s = ins_kv k v (sl_pairs s)"
      using sl_pairs_ok [OF ok] sl_pairs_ok [of ?s xs] old(1,2) by simp
    ultimately show ?thesis by blast
  next
    case None
    then have fresh: "\<forall>a \<in> set xs. key_of (slNodes s) a \<noteq> k" by (simp add: find_None_iff)
    define h where "h = roll (coins (slEntriesCnt s))"
    define g where "g = grow_head (slNodes s) h"
    have h: "0 < h" by (simp add: h_def roll_def)
    note gr = grow_head_ok [OF ok, of h, folded g_def]
    have "\<forall>a \<in> set xs. key_of g a \<noteq> k" using fresh gr(4) by simp
    from insert_node_ok [OF gr(1) h gr(3) this, of v] gr(2,4) obtain nodes' xs'
      where l: "link_loop (g @ [\<lparr>snNexts = replicate h None, snKey = k, snValue = v\<rparr>]) k (length (slNodes s)) h 0 = Inr nodes'"
        "nodes_ok nodes' xs'" "map (kv_of nodes') xs' = ins_kv k v (map (kv_of (slNodes s)) xs)" by auto
    let ?s = "s\<lparr>slSize := slSize s + (int (length k) + int (length v)), slEntriesCnt := slEntriesCnt s + 1, slNodes := nodes'\<rparr>"
    have put: "sl_Put coins s k v = Inr ?s"
      using getNode_ok [OF ok, of k] None l(1) by (simp add: sl_Put_def Let_def h_def g_def)
    have new: "k \<notin> fst ` set (map (kv_of (slNodes s)) xs)" using fresh by auto
    have "length xs' = Suc (length xs)"
      using length_ins_new [OF new, of v] arg_cong [OF l(3), of length] by simp
    then have "sl_inv ?s"
      unfolding sl_inv_def using l(2,3) kv_size_ins_new [OF new, of v] cnt size by (intro exI [of _ xs']) simp
    moreover have "sl_pairs ?s = ins_kv k v (sl_pairs s)"
      using sl_pairs_ok [OF ok] sl_pairs_ok [of ?s xs'] l(2,3) by simp
    ultimately show ?thesis using put by blast
  qed
qed

interpretation skip: mem_table "skiplistOps coins" sl_inv sl_pairs for coins
proof unfold_locales
  show "sl_inv (mNew (skiplistOps coins)) \<and> sl_pairs (mNew (skiplistOps coins)) = []"
    by (auto simp: skiplistOps_def sl_inv_def NewSkiplist_def nodes_ok_def sl_pairs_def sl_All_def)
next
  fix m k v assume "sl_inv m"
  then show "\<exists>m'. mPut (skiplistOps coins) m k v = Inr m' \<and> sl_inv m' \<and> sl_pairs m' = ins_kv k v (sl_pairs m)"
    using sl_Put_ok by (simp add: skiplistOps_def)
next
  fix m k assume "sl_inv m"
  then obtain xs where "nodes_ok (slNodes m) xs" by (auto simp: sl_inv_def)
  then show "mGet (skiplistOps coins) m k = Inr (map_of (sl_pairs m) k)"
    by (simp add: skiplistOps_def sl_Get_def getNode_ok sl_pairs_ok map_of_find)
next
  fix m assume "sl_inv m"
  then obtain xs where ok: "nodes_ok (slNodes m) xs" "slEntriesCnt m = length xs"
    "slSize m = kv_size (map (kv_of (slNodes m)) xs)" by (auto simp: sl_inv_def)
  show "mAll (skiplistOps coins) m = Inr (sl_pairs m)"
    using ok(1) by (simp add: skiplistOps_def sl_pairs_ok sl_All_ok)
  show "mSize (skiplistOps coins) m = kv_size (sl_pairs m) \<and> mEntriesCnt (skiplistOps coins) m = length (sl_pairs m)"
    using ok by (simp add: skiplistOps_def sl_pairs_ok)
  show "sorted_wrt (<) (map fst (sl_pairs m))"
    using nodes_okD(1) [OF ok(1)] by (simp add: sl_pairs_ok [OF ok(1)] sorted_wrt_map)
qed

context mem_table
begin

text \<open>A sequence of \<^verbatim>\<open>Put\<close>s.\<close>

lemma put_all:
  assumes "minv m"
  shows "\<exists>m'. rfold (\<lambda>(k, v) m. mPut M m k v) kvs m = Inr m' \<and> minv m'
    \<and> map_of (pairs m') = map_of (pairs m) ++ map_of (rev kvs)
    \<and> fst ` set (pairs m') = fst ` set (pairs m) \<union> fst ` set kvs"
  using assms
proof (induction kvs arbitrary: m)
  case (Cons kv kvs)
  obtain k v where kv: "kv = (k, v)" by fastforce
  obtain m1 where m1: "mPut M m k v = Inr m1" "minv m1" "pairs m1 = ins_kv k v (pairs m)" using put [OF Cons.prems] by blast
  from Cons.IH [OF m1(2)] obtain m' where m': "rfold (\<lambda>(k, v) m. mPut M m k v) kvs m1 = Inr m'" "minv m'"
    "map_of (pairs m') = map_of (pairs m1) ++ map_of (rev kvs)" "fst ` set (pairs m') = fst ` set (pairs m1) \<union> fst ` set kvs" by blast
  have "map_of (pairs m1) = (map_of (pairs m))(k \<mapsto> v)" "fst ` set (pairs m1) = insert k (fst ` set (pairs m))"
    using m1(3) map_of_ins_kv set_ins_kv sorted [OF Cons.prems] by simp_all
  then show ?case using m1(1) m' by (auto simp: kv map_add_def fun_eq_iff split: option.splits)
qed (auto simp: map_add_def)

end

section \<open>Properties\<close>

text \<open>C19: Whatever the coin flips, a skiplist filled by any sequence of \<^verbatim>\<open>Put\<close>s never panics and never
  loops: \<^verbatim>\<open>Get\<close> returns the value last put under a key, \<^verbatim>\<open>All\<close> returns every key once and in
  ascending order with that value, and the counters are the number and the size of the entries.\<close>

theorem skiplist_correct:
  "\<exists>s all. rfold (\<lambda>(k, v) s. sl_Put coins s k v) kvs NewSkiplist = Inr s
    \<and> (\<forall>k. sl_Get s k = Inr (map_of (rev kvs) k))
    \<and> sl_All s = Inr all \<and> sorted_wrt (<) (map fst all) \<and> map_of all = map_of (rev kvs)
    \<and> slEntriesCnt s = length all \<and> slSize s = kv_size all"
proof -
  have sel: "mNew (skiplistOps coins) = NewSkiplist" "mPut (skiplistOps coins) = sl_Put coins" "mGet (skiplistOps coins) = sl_Get"
    "mAll (skiplistOps coins) = sl_All" "mSize (skiplistOps coins) = slSize" "mEntriesCnt (skiplistOps coins) = slEntriesCnt"
    by (simp_all add: skiplistOps_def)
  have new: "sl_inv NewSkiplist" "sl_pairs NewSkiplist = []" using skip.new [of coins] by (simp_all add: sel)
  from skip.put_all [OF new(1), of coins kvs] obtain s
    where s: "rfold (\<lambda>(k, v) s. sl_Put coins s k v) kvs NewSkiplist = Inr s" "sl_inv s" "map_of (sl_pairs s) = map_of (rev kvs)"
    by (auto simp: sel new(2))
  show ?thesis
    using s skip.get [OF s(2), of coins] skip.all [OF s(2), of coins] skip.size [OF s(2), of coins] skip.sorted [OF s(2)]
    by (auto simp: sel)
qed

end
