(* ===== verification/LSM_Tree.thy ===== *)
theory LSM_Tree
  imports LSM_Lookup LSM_Memtable
begin

text \<open>
  The tree itself: \<^verbatim>\<open>tree.go\<close>, \<^verbatim>\<open>tree_compact.go\<close>, \<^verbatim>\<open>tree_restore.go\<close>.  The state has the fields of
  \<^verbatim>\<open>Tree\<close> and the directory: the write-ahead logs by memtable index and the tables by level and
  sequence number.  A goroutine that waits to send on \<^verbatim>\<open>memCompactC\<close> or \<^verbatim>\<open>levelCompactC\<close> is an entry of
  a pending list; the compactor may receive any of them.  The two pointer comparisons of the code
  are comparisons of what identifies the object: the log index of a memtable, level and sequence
  number of a node.
\<close>

section \<open>State\<close>

record ('f, 'm) tree =
  trFilter :: 'f
  trMemTable :: 'm
  trROnly :: "(nat \<times> 'm) list"
  trNodes :: "sst_node list list"
  trMemTableIndex :: nat
  trLevelToSeq :: "int list"
  trWals :: "(nat \<times> bytes) list"
  trSSTs :: "((nat \<times> int) \<times> bytes) list"
  trMemPending :: "(nat \<times> 'm) list"
  trLevelPending :: "nat list"

definition file_content :: "('k \<times> bytes) list \<Rightarrow> 'k \<Rightarrow> bytes" where
  "file_content fs k = (case map_of fs k of None \<Rightarrow> [] | Some b \<Rightarrow> b)"

section \<open>Put\<close>

definition newMemTable :: "'m mem_ops \<Rightarrow> ('f, 'm) tree \<Rightarrow> ('f, 'm) tree" where
  "newMemTable M t =
     t\<lparr>trWals := upd_al (trMemTableIndex t) (file_content (trWals t) (trMemTableIndex t)) (trWals t),
       trMemTable := mNew M\<rparr>"

definition refreshMemTableLocked :: "'m mem_ops \<Rightarrow> ('f, 'm) tree \<Rightarrow> ('f, 'm) tree" where
  "refreshMemTableLocked M t =
     (let oldItem = (trMemTableIndex t, trMemTable t)
      in newMemTable M (t\<lparr>trROnly := trROnly t @ [oldItem], trMemPending := trMemPending t @ [oldItem],
                          trMemTableIndex := trMemTableIndex t + 1\<rparr>))"

definition tree_Put :: "lsm_config \<Rightarrow> 'm mem_ops \<Rightarrow> ('f, 'm) tree \<Rightarrow> bytes \<Rightarrow> bytes \<Rightarrow> go_err + ('f, 'm) tree" where
  "tree_Put conf M t key value =
     (let t1 = t\<lparr>trWals := upd_al (trMemTableIndex t)
                   (wal_Write (file_content (trWals t) (trMemTableIndex t)) key value) (trWals t)\<rparr>
      in rbind (mPut M (trMemTable t1) key value) (\<lambda>m.
           let t2 = t1\<lparr>trMemTable := m\<rparr>
           in if mSize M m * 5 div 4 \<le> int (cfSSTSize conf) then Inr t2 else Inr (refreshMemTableLocked M t2)))"

section \<open>Get\<close>

fun first_hit :: "('a \<Rightarrow> go_err + bytes option) \<Rightarrow> 'a list \<Rightarrow> go_err + bytes option" where
  "first_hit f [] = Inr None"
| "first_hit f (x # xs) = rbind (f x) (\<lambda>r. case r of Some v \<Rightarrow> Inr (Some v) | None \<Rightarrow> first_hit f xs)"

function levelBinarySearch :: "sst_node list \<Rightarrow> bytes \<Rightarrow> int \<Rightarrow> int \<Rightarrow> sst_node option" where
  "levelBinarySearch nodes key start end =
     (if start > end then None
      else let mid = start + (end - start) div 2
           in if ndEndKey (nodes ! nat mid) < key then levelBinarySearch nodes key (mid + 1) end
              else if ndStartKey (nodes ! nat mid) \<ge> key then levelBinarySearch nodes key start (mid - 1)
              else Some (nodes ! nat mid))"
  by pat_completeness auto
termination
  by (relation "measure (\<lambda>(_, _, start, end). nat (end - start + 1))") auto

declare levelBinarySearch.simps [simp del]

definition level_Get :: "'f filter_ops \<Rightarrow> 'f \<Rightarrow> bytes \<Rightarrow> sst_node list \<Rightarrow> go_err + bytes option" where
  "level_Get F f key nodes =
     (case levelBinarySearch nodes key 0 (int (length nodes) - 1) of
        None \<Rightarrow> Inr None
      | Some n \<Rightarrow> node_Get F f n key)"

definition tree_Get :: "'f filter_ops \<Rightarrow> 'm mem_ops \<Rightarrow> ('f, 'm) tree \<Rightarrow> bytes \<Rightarrow> go_err + bytes option" where
  "tree_Get F M t key =
     rbind (mGet M (trMemTable t) key) (\<lambda>r. case r of Some v \<Rightarrow> Inr (Some v) | None \<Rightarrow>
     rbind (first_hit (\<lambda>(_, m). mGet M m key) (rev (trROnly t))) (\<lambda>r. case r of Some v \<Rightarrow> Inr (Some v) | None \<Rightarrow>
     rbind (go_nth (trNodes t) 0) (\<lambda>level0.
     rbind (first_hit (\<lambda>n. node_Get F (trFilter t) n key) (rev level0)) (\<lambda>r. case r of Some v \<Rightarrow> Inr (Some v) | None \<Rightarrow>
       first_hit (level_Get F (trFilter t) key) (drop 1 (trNodes t))))))"

section \<open>Nodes of a level\<close>

definition insert_at :: "'a list \<Rightarrow> nat \<Rightarrow> 'a \<Rightarrow> 'a list" where
  "insert_at xs i x = (take (i + 1) xs @ drop i xs)[i + 1 := x]"

text \<open>The loop of \<^verbatim>\<open>insertNodeWithReader\<close> from position \<open>i\<close> on, \<open>n\<close> positions left.\<close>

fun insert_loop :: "sst_node list \<Rightarrow> sst_node \<Rightarrow> nat \<Rightarrow> nat \<Rightarrow> sst_node list" where
  "insert_loop nodes new i 0 = nodes @ [new]"
| "insert_loop nodes new i (Suc n) =
     (if ndEndKey new < ndStartKey (nodes ! (i + 1)) then insert_at nodes i new else insert_loop nodes new (i + 1) n)"

definition insertNodeWithReader :: "('f, 'm) tree \<Rightarrow> sst_reader \<Rightarrow> nat \<Rightarrow> int \<Rightarrow> nat \<Rightarrow> (nat \<rightharpoonup> bytes) \<Rightarrow> index list
    \<Rightarrow> go_err + ('f, 'm) tree" where
  "insertNodeWithReader t rd level seq sz b2f ix =
     (if level \<ge> length (trLevelToSeq t) then Inl (Panic ''index out of range'')
      else rbind (NewNode rd level seq sz b2f ix) (\<lambda>newNode.
        let nodes = trNodes t ! level;
            nodes' = (if level = 0 then nodes @ [newNode] else insert_loop nodes newNode 0 (length nodes - 1))
        in Inr (t\<lparr>trLevelToSeq := (trLevelToSeq t)[level := seq], trNodes := (trNodes t)[level := nodes']\<rparr>)))"

definition insertNode :: "('f, 'm) tree \<Rightarrow> nat \<Rightarrow> int \<Rightarrow> nat \<Rightarrow> (nat \<rightharpoonup> bytes) \<Rightarrow> index list \<Rightarrow> go_err + ('f, 'm) tree" where
  "insertNode t level seq sz b2f ix =
     insertNodeWithReader t (NewSSTReader (file_content (trSSTs t) (level, seq))) level seq sz b2f ix"

section \<open>Compaction\<close>

definition level_size :: "sst_node list \<Rightarrow> nat" where
  "level_size nodes = fold (\<lambda>n s. add64 s (ndSize n)) nodes 0"

definition tryTriggerCompact :: "lsm_config \<Rightarrow> ('f, 'm) tree \<Rightarrow> nat \<Rightarrow> ('f, 'm) tree" where
  "tryTriggerCompact conf t level =
     (if level = length (trNodes t) - 1 then t
      else if level_size (trNodes t ! level) \<le> (cfSSTSize conf * 10 ^ level * cfSSTNumPerLevel conf) mod U64 then t
      else t\<lparr>trLevelPending := trLevelPending t @ [level]\<rparr>)"

text \<open>\<^verbatim>\<open>NewSSTWriter\<close> on the file of a level and sequence number, which it creates.\<close>

definition open_writer :: "('f, 'm) tree \<Rightarrow> nat \<Rightarrow> int \<Rightarrow> 'f sst_writer \<times> ('f, 'm) tree" where
  "open_writer t level seq =
     (let dest = file_content (trSSTs t) (level, seq)
      in (NewSSTWriter (trFilter t) dest, t\<lparr>trSSTs := upd_al (level, seq) dest (trSSTs t)\<rparr>))"

text \<open>\<^verbatim>\<open>Finish\<close> and \<^verbatim>\<open>insertNode\<close>.  The filter is the one object of the configuration.\<close>

definition finish_node :: "lsm_config \<Rightarrow> 'f filter_ops \<Rightarrow> ('f, 'm) tree \<Rightarrow> nat \<Rightarrow> int \<Rightarrow> 'f sst_writer \<Rightarrow> go_err + ('f, 'm) tree" where
  "finish_node conf F t level seq w =
     rbind (sw_Finish conf F w) (\<lambda>(w, sz, b2f, ix).
       insertNode (t\<lparr>trSSTs := upd_al (level, seq) (swDest w) (trSSTs t), trFilter := swFilter w\<rparr>) level seq sz b2f ix)"

definition flushMemTable :: "lsm_config \<Rightarrow> 'f filter_ops \<Rightarrow> 'm mem_ops \<Rightarrow> ('f, 'm) tree \<Rightarrow> 'm \<Rightarrow> go_err + ('f, 'm) tree" where
  "flushMemTable conf F M t m =
     rbind (go_nth (trLevelToSeq t) 0) (\<lambda>s0.
       let seq = s32 (s0 + 1) in
       case open_writer t 0 seq of (w, t) \<Rightarrow>
         rbind (mAll M m) (\<lambda>kvs.
         rbind (rfold (\<lambda>(k, v) s. sw_Append conf F s k v) kvs w) (\<lambda>w.
         rbind (finish_node conf F t 0 seq w) (\<lambda>t.
           Inr (tryTriggerCompact conf t 0)))))"

fun drop_flushed :: "nat \<Rightarrow> (nat \<times> 'm) list \<Rightarrow> (nat \<times> 'm) list \<Rightarrow> (nat \<times> 'm) list" where
  "drop_flushed i all [] = all"
| "drop_flushed i all (x # xs) = (if fst x = i then xs else drop_flushed i all xs)"

definition compactMemTable :: "lsm_config \<Rightarrow> 'f filter_ops \<Rightarrow> 'm mem_ops \<Rightarrow> ('f, 'm) tree \<Rightarrow> nat \<times> 'm \<Rightarrow> go_err + ('f, 'm) tree" where
  "compactMemTable conf F M t item =
     rbind (flushMemTable conf F M t (snd item)) (\<lambda>t.
       Inr (t\<lparr>trROnly := drop_flushed (fst item) (trROnly t) (trROnly t), trWals := del_al (fst item) (trWals t)\<rparr>))"

definition overlaps :: "bytes \<Rightarrow> bytes \<Rightarrow> sst_node \<Rightarrow> bool" where
  "overlaps startKey endKey n \<longleftrightarrow> \<not> (endKey < ndStartKey n \<or> startKey > ndEndKey n)"

definition pickCompactNodes :: "('f, 'm) tree \<Rightarrow> nat \<Rightarrow> sst_node list" where
  "pickCompactNodes t level =
     (let nodes = trNodes t ! level; n0 = nodes ! 0; mid = nodes ! (length nodes div 2);
          startKey = (if ndStartKey mid < ndStartKey n0 then ndStartKey mid else ndStartKey n0);
          endKey = (if ndEndKey mid > ndEndKey n0 then ndEndKey mid else ndEndKey n0)
      in filter (overlaps startKey endKey) (trNodes t ! (level + 1)) @ filter (overlaps startKey endKey) nodes)"

definition pickedNodesToKVs :: "lsm_config \<Rightarrow> 'm mem_ops \<Rightarrow> sst_node list \<Rightarrow> go_err + kv list" where
  "pickedNodesToKVs conf M picked =
     rbind (rfold (\<lambda>n m. rbind (ignore_err [] (node_GetAll conf n)) (\<lambda>kvs. rfold (\<lambda>(k, v) m. mPut M m k v) kvs m)) picked (mNew M))
       (mAll M)"

definition same_node :: "sst_node \<Rightarrow> sst_node \<Rightarrow> bool" where
  "same_node a b \<longleftrightarrow> ndLevel a = ndLevel b \<and> ndSeq a = ndSeq b"

text \<open>A node is removed where it first occurs in level \<open>level + 1\<close>, or else in \<open>level\<close>; its file is
  deleted.\<close>

fun remove_node :: "sst_node \<Rightarrow> sst_node list \<Rightarrow> sst_node list option" where
  "remove_node n [] = None"
| "remove_node n (x # xs) = (if same_node n x then Some xs else map_option ((#) x) (remove_node n xs))"

definition remove_from_levels :: "nat \<Rightarrow> sst_node \<Rightarrow> sst_node list list \<Rightarrow> sst_node list list" where
  "remove_from_levels level n nodes =
     (case remove_node n (nodes ! (level + 1)) of
        Some xs \<Rightarrow> nodes[level + 1 := xs]
      | None \<Rightarrow> (case remove_node n (nodes ! level) of Some xs \<Rightarrow> nodes[level := xs] | None \<Rightarrow> nodes))"

definition removeNodes :: "('f, 'm) tree \<Rightarrow> nat \<Rightarrow> sst_node list \<Rightarrow> ('f, 'm) tree" where
  "removeNodes t level picked =
     t\<lparr>trNodes := fold (remove_from_levels level) picked (trNodes t),
       trSSTs := fold (\<lambda>n. del_al (ndLevel n, ndSeq n)) picked (trSSTs t)\<rparr>"

text \<open>The loop of \<^verbatim>\<open>compactLevel\<close> over the merged pairs.\<close>

fun compact_loop :: "lsm_config \<Rightarrow> 'f filter_ops \<Rightarrow> nat \<Rightarrow> kv list \<Rightarrow> int \<Rightarrow> 'f sst_writer \<Rightarrow> ('f, 'm) tree \<Rightarrow> go_err + ('f, 'm) tree" where
  "compact_loop conf F level [] seq w t = Inr t"
| "compact_loop conf F level (kv # kvs) seq w t =
     rbind (if sw_Size w > (cfSSTSize conf * 10 ^ level) mod U64
            then rbind (finish_node conf F t level seq w) (\<lambda>t.
                   let seq = s32 (trLevelToSeq t ! level + 1) in case open_writer t level seq of (w, t) \<Rightarrow> Inr (seq, w, t))
            else Inr (seq, w, t)) (\<lambda>(seq, w, t).
     rbind (sw_Append conf F w (fst kv) (snd kv)) (\<lambda>w.
       if kvs = [] then finish_node conf F t level seq w else compact_loop conf F level kvs seq w t))"

definition compactLevel :: "lsm_config \<Rightarrow> 'f filter_ops \<Rightarrow> 'm mem_ops \<Rightarrow> ('f, 'm) tree \<Rightarrow> nat \<Rightarrow> go_err + ('f, 'm) tree" where
  "compactLevel conf F M t level =
     (if trNodes t ! level = [] then Inr t
      else let picked = pickCompactNodes t level; seq = s32 (trLevelToSeq t ! (level + 1) + 1) in
        case open_writer t (level + 1) seq of (w, t) \<Rightarrow>
        rbind (pickedNodesToKVs conf M picked) (\<lambda>kvs.
        rbind (compact_loop conf F (level + 1) kvs seq w t) (\<lambda>t.
          Inr (tryTriggerCompact conf (removeNodes t level picked) (level + 1)))))"

section \<open>Opening a tree\<close>

definition loadNode :: "lsm_config \<Rightarrow> ('f, 'm) tree \<Rightarrow> nat \<times> int \<Rightarrow> go_err + ('f, 'm) tree" where
  "loadNode conf t ls =
     (let rd = NewSSTReader (file_content (trSSTs t) ls) in
      rbind (sr_ReadFilter conf rd) (\<lambda>(rd, b2f).
      rbind (sr_ReadIndex conf rd) (\<lambda>(rd, ix).
      rbind (sr_Size conf rd) (\<lambda>(rd, sz).
        insertNodeWithReader t rd (fst ls) (snd ls) sz b2f ix))))"

definition getSortedSSTEntries :: "('f, 'm) tree \<Rightarrow> (nat \<times> int) list" where
  "getSortedSSTEntries t = sort_key fst (sort_key snd (map fst (trSSTs t)))"

definition constructTree :: "lsm_config \<Rightarrow> ('f, 'm) tree \<Rightarrow> go_err + ('f, 'm) tree" where
  "constructTree conf t = rfold (\<lambda>ls t. loadNode conf t ls) (getSortedSSTEntries t) t"

text \<open>\<^verbatim>\<open>restoreMemTable\<close> on the logs in order of their index; the last one becomes the memtable.\<close>

fun restoreMemTable :: "'m mem_ops \<Rightarrow> nat list \<Rightarrow> ('f, 'm) tree \<Rightarrow> go_err + ('f, 'm) tree" where
  "restoreMemTable M [] t = Inr t"
| "restoreMemTable M (i # is) t =
     (case RestoreToMemtable (mPut M) (file_content (trWals t) i) (mNew M) of
        (Inl e, m) \<Rightarrow> Inl e
      | (Inr _, m) \<Rightarrow>
          if is = [] then Inr (t\<lparr>trMemTable := m, trMemTableIndex := i\<rparr>)
          else restoreMemTable M is (t\<lparr>trROnly := trROnly t @ [(i, m)], trMemPending := trMemPending t @ [(i, m)]\<rparr>))"

definition constructMemtable :: "'m mem_ops \<Rightarrow> ('f, 'm) tree \<Rightarrow> go_err + ('f, 'm) tree" where
  "constructMemtable M t =
     (let wals = sort (map fst (trWals t))
      in if wals = [] then Inr (newMemTable M t) else restoreMemTable M wals t)"

definition NewTree :: "lsm_config \<Rightarrow> 'm mem_ops \<Rightarrow> 'f \<Rightarrow> (nat \<times> bytes) list \<Rightarrow> ((nat \<times> int) \<times> bytes) list \<Rightarrow> go_err + ('f, 'm) tree" where
  "NewTree conf M f wals ssts =
     rbind (constructTree conf
       \<lparr>trFilter = f, trMemTable = mNew M, trROnly = [], trNodes = replicate (cfMaxLevel conf) [], trMemTableIndex = 0,
        trLevelToSeq = replicate (cfMaxLevel conf) 0, trWals = wals, trSSTs = ssts, trMemPending = [], trLevelPending = []\<rparr>)
       (constructMemtable M)"

text \<open>A log that ends inside a record, as a crash in the middle of a write leaves it, keeps the tree from being
  opened: the complete records before it, which were acknowledged, cannot be read either.\<close>

lemma torn_log_not_opened:
  assumes "list_all kv_fits kvs" "kv_fits kv" "0 < n" "n < length (wal_bytes kv)"
  shows "\<exists>e. e \<in> {EOF, ErrUnexpectedEOF} \<and> NewTree conf M f [(i, concat (map wal_bytes kvs) @ take n (wal_bytes kv))] [] = Inl e"
  using wal_readAll_torn [OF assms]
  by (auto simp: cut_error_def NewTree_def constructTree_def getSortedSSTEntries_def constructMemtable_def file_content_def RestoreToMemtable_def)

section \<open>Steps\<close>

text \<open>What can happen to an open tree: a \<^verbatim>\<open>Put\<close>, and the compactor receiving a waiting memtable or
  level.\<close>

inductive tree_step :: "lsm_config \<Rightarrow> 'f filter_ops \<Rightarrow> 'm mem_ops \<Rightarrow> ('f, 'm) tree \<Rightarrow> ('f, 'm) tree \<Rightarrow> bool"
  for conf F M where
  step_put: "tree_Put conf M t k v = Inr t' \<Longrightarrow> tree_step conf F M t t'"
| step_mem: "trMemPending t = xs @ item # ys \<Longrightarrow>
    compactMemTable conf F M (t\<lparr>trMemPending := xs @ ys\<rparr>) item = Inr t' \<Longrightarrow> tree_step conf F M t t'"
| step_level: "trLevelPending t = xs @ level # ys \<Longrightarrow>
    compactLevel conf F M (t\<lparr>trLevelPending := xs @ ys\<rparr>) level = Inr t' \<Longrightarrow> tree_step conf F M t t'"

end
