(* ===== verification/LSM_Store.thy ===== *)
theory LSM_Store
  imports LSM_Tree
begin

text \<open>
  The tree as a store.  Runs of puts, flushes in the order the memtables were filled, and restarts
  from the files on disk are shown to implement a map: every read returns the last value written,
  no operation fails, and a restart at any point loses nothing.  The proofs use the filter and the
  memtable only through their contracts.
\<close>

section \<open>Runs\<close>

text \<open>Sizes for which files stay addressable, with pairs of at most \<open>B\<close> bytes and a filter of \<open>sz\<close> bits.\<close>

definition store_ok :: "lsm_config \<Rightarrow> nat \<Rightarrow> nat \<Rightarrow> bool" where
  "store_ok conf sz B \<longleftrightarrow> 2 \<le> cfMaxLevel conf \<and> 28 \<le> cfSSTFooterSize conf \<and> (143 + sz) * (cfSSTSize conf + B) \<le> maxAlloc"

text \<open>Keys are not empty and do not end in a zero byte.  \<^verbatim>\<open>Put\<close> checks neither; a memtable whose first key
  ends in a zero byte is flushed to a table that does not find it.\<close>

definition pair_ok :: "nat \<Rightarrow> bytes \<Rightarrow> bytes \<Rightarrow> bool" where
  "pair_ok B k v \<longleftrightarrow> k \<noteq> [] \<and> last k \<noteq> 0 \<and> length k + length v \<le> B"

inductive lsm_run :: "lsm_config \<Rightarrow> 'f filter_ops \<Rightarrow> 'm mem_ops \<Rightarrow> 'f \<Rightarrow> nat \<Rightarrow> ('f, 'm) tree \<Rightarrow> (bytes \<rightharpoonup> bytes) \<Rightarrow> bool"
  for conf F M f0 B where
  run_open: "NewTree conf M f0 [] [] = Inr t \<Longrightarrow> lsm_run conf F M f0 B t Map.empty"
| run_put: "lsm_run conf F M f0 B t m \<Longrightarrow> pair_ok B k v \<Longrightarrow> tree_Put conf M t k v = Inr t' \<Longrightarrow>
    lsm_run conf F M f0 B t' (m(k \<mapsto> v))"
| run_flush: "lsm_run conf F M f0 B t m \<Longrightarrow> trMemPending t = item # rest \<Longrightarrow> length (trNodes t ! 0) < 2147483647 \<Longrightarrow>
    compactMemTable conf F M (t\<lparr>trMemPending := rest\<rparr>) item = Inr t' \<Longrightarrow> lsm_run conf F M f0 B t' m"
| run_restart: "lsm_run conf F M f0 B t m \<Longrightarrow> NewTree conf M f0 (trWals t) (trSSTs t) = Inr t' \<Longrightarrow>
    lsm_run conf F M f0 B t' m"

section \<open>Sizes\<close>

definition small_pairs :: "nat \<Rightarrow> kv list \<Rightarrow> bool" where
  "small_pairs n kvs \<longleftrightarrow> (\<forall>kv \<in> set kvs. fst kv \<noteq> [] \<and> last (fst kv) \<noteq> 0) \<and> kv_size kvs \<le> int n"

lemma table_bound_size: "\<forall>kv \<in> set kvs. fst kv \<noteq> [] \<Longrightarrow> int (table_bound sz kvs) \<le> int (143 + sz) * kv_size kvs"
proof (induction kvs)
  case (Cons kv kvs)
  obtain k v where kv: "kv = (k, v)" by fastforce
  have "1 \<le> length k" using Cons.prems kv by (cases k) auto
  then have "140 + sz \<le> (140 + sz) * length k" by (metis mult.right_neutral mult_le_mono2)
  then have "140 + sz + 3 * length k + length v \<le> (143 + sz) * (length k + length v)"
    by (simp add: algebra_simps)
  then have "int (140 + sz + 3 * length k + length v) \<le> int ((143 + sz) * (length k + length v))" by (rule zle_int [THEN iffD2])
  then show ?case using Cons by (simp add: kv table_bound_def algebra_simps)
qed (simp add: table_bound_def)

lemma kv_size_pos: "kv \<in> set kvs \<Longrightarrow> int (length (fst kv)) + int (length (snd kv)) \<le> kv_size kvs"
proof (induction kvs)
  case (Cons x kvs)
  have "0 \<le> kv_size kvs" by (auto simp: kv_size_def intro!: sum_list_nonneg)
  then show ?case using Cons by (cases x) auto
qed simp

lemma small_pairs_fit:
  assumes "small_pairs (cfSSTSize conf + B) kvs" "store_ok conf sz B" "kvs \<noteq> []" "sorted_wrt (<) (map fst kvs)"
  shows "table_fits conf sz kvs"
proof -
  have ks: "\<forall>kv \<in> set kvs. fst kv \<noteq> []" "last (fst (hd kvs)) \<noteq> 0" "kv_size kvs \<le> int (cfSSTSize conf + B)"
    using assms(1,3) by (auto simp: small_pairs_def)
  have m: "int ((143 + sz) * (cfSSTSize conf + B)) \<le> int maxAlloc" "28 \<le> cfSSTFooterSize conf"
    using assms(2) unfolding store_ok_def by (simp_all only: of_nat_le_iff)
  have "int (table_bound sz kvs) \<le> int (143 + sz) * kv_size kvs" by (rule table_bound_size) (fact ks(1))
  also have "\<dots> \<le> int (143 + sz) * int (cfSSTSize conf + B)" using ks(3) by (intro mult_left_mono) simp_all
  also have "\<dots> \<le> int maxAlloc" using m(1) by simp
  finally have tb: "table_bound sz kvs \<le> maxAlloc" by simp
  have "int (cfSSTSize conf + B) \<le> int (143 + sz) * int (cfSSTSize conf + B)" by (simp add: mult_le_cancel_right1)
  then have sz: "kv_size kvs \<le> int maxAlloc" using ks(3) m(1) by simp
  have "kv_fits kv" if "kv \<in> set kvs" for kv
    using kv_size_pos [OF that] sz by (simp add: kv_fits_def)
  then show ?thesis using assms(3,4) ks(1,2) tb m(2) by (simp add: table_fits_def keys_ok_def)
qed

lemma kv_size_ins: "kv_size (ins_kv k v kvs) \<le> kv_size kvs + (int (length k) + int (length v))"
  by (induction k v kvs rule: ins_kv.induct) auto

lemma ins_kv_mem: "kv \<in> set (ins_kv k v kvs) \<Longrightarrow> kv = (k, v) \<or> kv \<in> set kvs"
  by (induction k v kvs rule: ins_kv.induct) (auto split: if_splits)

lemma ins_kv_nonempty [simp]: "ins_kv k v kvs \<noteq> []"
  by (induction k v kvs rule: ins_kv.induct) auto

lemma small_pairs_ins:
  "small_pairs n kvs \<Longrightarrow> pair_ok B k v \<Longrightarrow> small_pairs (n + B) (ins_kv k v kvs)"
  using kv_size_ins [of k v kvs] by (auto simp: small_pairs_def pair_ok_def dest!: ins_kv_mem)

lemma ins_kv_has: "(k, v) \<in> set (ins_kv k v kvs)"
  by (induction k v kvs rule: ins_kv.induct) auto

lemma rfold_append: "rfold f (xs @ ys) s = rbind (rfold f xs s) (rfold f ys)"
proof (induction xs arbitrary: s)
  case (Cons x xs)
  then show ?case by (cases "f x s") simp_all
qed simp

lemma map_of_last: "i \<notin> fst ` set ws \<Longrightarrow> map_of (ws @ [(i, w)]) i = Some w"
  by (induction ws) auto

lemma map_of_absent: "i \<notin> fst ` set ws \<Longrightarrow> map_of ws i = None"
  by (simp add: map_of_eq_None_iff)

section \<open>Reads as a stack of maps\<close>

definition stack :: "(bytes \<rightharpoonup> bytes) list \<Rightarrow> bytes \<rightharpoonup> bytes" where
  "stack ms = foldl (++) Map.empty ms"

lemma stack_snoc [simp]: "stack (ms @ [m]) = stack ms ++ m" "stack [] = Map.empty" "stack [m] = m"
  by (simp_all add: stack_def)

lemma stack_append: "stack (xs @ ys) = stack xs ++ stack ys"
  by (induction ys rule: rev_induct) (simp_all flip: append_assoc)

lemma first_hit_stack:
  assumes "\<And>x. x \<in> set xs \<Longrightarrow> f x = Inr (g x k)"
  shows "first_hit f (rev xs) = Inr (stack (map g xs) k)"
  using assms
proof (induction xs rule: rev_induct)
  case (snoc x xs)
  then show ?case by (simp add: map_add_def split: option.splits)
qed simp

lemma level_Get_nil [simp]: "level_Get F f key [] = Inr None"
  by (simp add: level_Get_def levelBinarySearch.simps)

lemma first_hit_empty_levels: "\<forall>x \<in> set xs. x = [] \<Longrightarrow> first_hit (level_Get F f key) xs = Inr None"
  by (induction xs) auto

section \<open>The invariant\<close>

locale lsm_store = fl: key_filter F finv member sz + mt: mem_table M minv pairs
  for F :: "'f filter_ops" and finv member sz and M :: "'m mem_ops" and minv pairs
begin

definition node_holds :: "lsm_config \<Rightarrow> nat \<Rightarrow> sst_node \<Rightarrow> kv list \<Rightarrow> bool" where
  "node_holds conf n nd kvs \<longleftrightarrow> table_fits conf n kvs \<and> (\<exists>s blocks flt.
     fl.finished conf n blocks flt (s, ndSize nd, ndBlockToFilter nd, ndIndex nd)
     \<and> srSrc (ndReader nd) = swDest s \<and> concat blocks = kvs)"

definition wal_ok :: "bytes \<Rightarrow> 'm \<Rightarrow> bool" where
  "wal_ok w m \<longleftrightarrow> (\<exists>kvs. w = concat (map wal_bytes kvs) \<and> list_all kv_fits kvs
     \<and> rfold (\<lambda>(k, v) m. mPut M m k v) kvs (mNew M) = Inr m)"

definition mems :: "('f, 'm) tree \<Rightarrow> (nat \<times> 'm) list" where
  "mems t = trROnly t @ [(trMemTableIndex t, trMemTable t)]"

definition mem_inv :: "lsm_config \<Rightarrow> nat \<Rightarrow> ('f, 'm) tree \<Rightarrow> bool" where
  "mem_inv conf n t \<longleftrightarrow>
     (\<forall>x \<in> set (mems t). minv (snd x)) \<and> sorted_wrt (<) (map fst (mems t))
     \<and> list_all2 (\<lambda>w x. fst w = fst x \<and> wal_ok (snd w) (snd x)) (trWals t) (mems t)
     \<and> (\<forall>x \<in> set (trROnly t). table_fits conf n (pairs (snd x)))
     \<and> small_pairs (cfSSTSize conf) (pairs (trMemTable t)) \<and> trMemPending t = trROnly t"

definition disk_inv :: "lsm_config \<Rightarrow> nat \<Rightarrow> ('f, 'm) tree \<Rightarrow> kv list list \<Rightarrow> bool" where
  "disk_inv conf n t kvss \<longleftrightarrow>
     length (trNodes t) = cfMaxLevel conf \<and> length (trLevelToSeq t) = cfMaxLevel conf
     \<and> (\<forall>x \<in> set (drop 1 (trNodes t)). x = []) \<and> fl.cur_ok n (trFilter t) []
     \<and> list_all2 (node_holds conf n) (trNodes t ! 0) kvss
     \<and> map ndSeq (trNodes t ! 0) = map int [1..<Suc (length (trNodes t ! 0))]
     \<and> trLevelToSeq t ! 0 = int (length (trNodes t ! 0))
     \<and> trSSTs t = map (\<lambda>nd. ((0, ndSeq nd), srSrc (ndReader nd))) (trNodes t ! 0)"

definition tree_map :: "('f, 'm) tree \<Rightarrow> kv list list \<Rightarrow> bytes \<rightharpoonup> bytes" where
  "tree_map t kvss = stack (map map_of kvss @ map (\<lambda>x. map_of (pairs (snd x))) (mems t))"

definition tree_inv :: "lsm_config \<Rightarrow> nat \<Rightarrow> ('f, 'm) tree \<Rightarrow> (bytes \<rightharpoonup> bytes) \<Rightarrow> bool" where
  "tree_inv conf n t m \<longleftrightarrow> mem_inv conf n t \<and> (\<exists>kvss. disk_inv conf n t kvss \<and> m = tree_map t kvss)"

section \<open>Reading\<close>

lemma node_holds_get:
  assumes "node_holds conf n nd kvs" "finv f" "sz f = n"
  shows "node_Get F f nd k = Inr (map_of kvs k)"
proof -
  obtain s blocks flt where fin: "fl.finished conf n blocks flt (s, ndSize nd, ndBlockToFilter nd, ndIndex nd)"
    and src: "srSrc (ndReader nd) = swDest s" and c: "concat blocks = kvs"
    using assms(1) by (auto simp: node_holds_def)
  have t: "kvs \<noteq> []" "keys_ok kvs" "sorted_wrt (<) (map fst kvs)" "last (fst (hd kvs)) \<noteq> 0"
    using assms(1) by (auto simp: node_holds_def table_fits_def)
  have "blocks \<noteq> []" using t(1) c by auto
  from fl.node_Get_ok [OF fin this _ _ _ assms(2,3) refl refl src, of k] show ?thesis
    using t c by simp
qed

lemma first_hit_nodes:
  assumes "list_all2 (node_holds conf n) nds kvss" "finv f" "sz f = n"
  shows "first_hit (\<lambda>nd. node_Get F f nd k) (rev nds) = Inr (stack (map map_of kvss) k)"
  using assms(1)
proof (induction nds arbitrary: kvss rule: rev_induct)
  case (snoc nd nds)
  then obtain kvss' kvs where "kvss = kvss' @ [kvs]" "list_all2 (node_holds conf n) nds kvss'" "node_holds conf n nd kvs"
    by (auto simp: list_all2_append1 list_all2_Cons1)
  then show ?case using snoc.IH node_holds_get [OF _ assms(2,3), of conf nd kvs k]
    by (simp add: map_add_def split: option.splits)
qed simp

lemma tree_Get_ok:
  assumes "mem_inv conf n t" "disk_inv conf n t kvss" "2 \<le> cfMaxLevel conf"
  shows "tree_Get F M t k = Inr (tree_map t kvss k)"
proof -
  have f: "finv (trFilter t)" "sz (trFilter t) = n" and len: "0 < length (trNodes t)"
    and l0: "list_all2 (node_holds conf n) (trNodes t ! 0) kvss" and hi: "\<forall>x \<in> set (drop 1 (trNodes t)). x = []"
    using assms(2,3) by (auto simp: disk_inv_def fl.cur_ok_def)
  have mi: "minv (trMemTable t)" "\<And>x. x \<in> set (trROnly t) \<Longrightarrow> minv (snd x)" using assms(1) by (auto simp: mem_inv_def mems_def)
  have ro: "first_hit (\<lambda>(_, m). mGet M m k) (rev (trROnly t)) = Inr (stack (map (\<lambda>x. map_of (pairs (snd x))) (trROnly t)) k)"
    by (rule first_hit_stack) (use mi mt.get in auto)
  have "first_hit (\<lambda>nd. node_Get F (trFilter t) nd k) (rev (trNodes t ! 0)) = Inr (stack (map map_of kvss) k)"
    using first_hit_nodes [OF l0 f] .
  then show ?thesis
    using ro mi(1) mt.get [OF mi(1), of k] len first_hit_empty_levels [OF hi]
    by (auto simp: tree_Get_def tree_map_def mems_def stack_append map_add_def split: option.splits)
qed


section \<open>Writing\<close>

lemma map_of_last_upd:
  "i \<notin> fst ` set xs \<Longrightarrow> upd_al i v (xs @ [(i, w)]) = xs @ [(i, v)]"
  "i \<notin> fst ` set xs \<Longrightarrow> upd_al i v xs = xs @ [(i, v)]"
  by (induction xs) auto

lemma wal_ok_write:
  assumes "wal_ok w m" "kv_fits (k, v)" "mPut M m k v = Inr m'"
  shows "wal_ok (wal_Write w k v) m'"
proof -
  obtain kvs where "w = concat (map wal_bytes kvs)" "list_all kv_fits kvs"
    "rfold (\<lambda>(k, v) m. mPut M m k v) kvs (mNew M) = Inr m" using assms(1) by (auto simp: wal_ok_def)
  then show ?thesis
    using assms(2,3) unfolding wal_ok_def
    by (intro exI [of _ "kvs @ [(k, v)]"]) (simp add: wal_Write_def wal_bytes_def rfold_append)
qed

lemma wal_ok_new: "wal_ok [] (mNew M)"
  unfolding wal_ok_def by (intro exI [of _ "[]"]) simp

text \<open>The logs are those of the memtables, in order.\<close>

lemma wals_split:
  assumes "mem_inv conf n t"
  obtains ws w where "trWals t = ws @ [(trMemTableIndex t, w)]" "wal_ok w (trMemTable t)"
    "list_all2 (\<lambda>w x. fst w = fst x \<and> wal_ok (snd w) (snd x)) ws (trROnly t)" "trMemTableIndex t \<notin> fst ` set ws"
    "map fst ws = map fst (trROnly t)"
proof -
  have l: "list_all2 (\<lambda>w x. fst w = fst x \<and> wal_ok (snd w) (snd x)) (trWals t) (trROnly t @ [(trMemTableIndex t, trMemTable t)])"
    and srt: "sorted_wrt (<) (map fst (trROnly t) @ [trMemTableIndex t])"
    using assms by (simp_all add: mem_inv_def mems_def)
  from l obtain ws w where w: "trWals t = ws @ [(trMemTableIndex t, w)]" "wal_ok w (trMemTable t)"
    "list_all2 (\<lambda>w x. fst w = fst x \<and> wal_ok (snd w) (snd x)) ws (trROnly t)"
    by (auto simp: list_all2_append2 list_all2_Cons2)
  have m: "map fst ws = map fst (trROnly t)" using w(3) by (induction rule: list_all2_induct) auto
  have "trMemTableIndex t \<notin> fst ` set ws"
  proof
    assume "trMemTableIndex t \<in> fst ` set ws"
    then have "trMemTableIndex t \<in> set (map fst (trROnly t))" using m by (metis set_map)
    then show False using srt by (auto simp: sorted_wrt_append)
  qed
  with w m that show ?thesis by blast
qed

lemma tree_Put_ok:
  assumes inv: "mem_inv conf n t" "disk_inv conf n t kvss" and st: "store_ok conf n B" and pk: "pair_ok B k v"
  shows "\<exists>t'. tree_Put conf M t k v = Inr t' \<and> mem_inv conf n t' \<and> disk_inv conf n t' kvss
    \<and> tree_map t' kvss = (tree_map t kvss)(k \<mapsto> v)"
proof -
  let ?i = "trMemTableIndex t" and ?m = "trMemTable t"
  have mi: "minv ?m" "\<forall>x \<in> set (trROnly t). minv (snd x)" and srt: "sorted_wrt (<) (map fst (trROnly t) @ [?i])"
    and small: "small_pairs (cfSSTSize conf) (pairs ?m)" and fits: "\<forall>x \<in> set (trROnly t). table_fits conf n (pairs (snd x))"
    and pend: "trMemPending t = trROnly t"
    using inv(1) by (auto simp: mem_inv_def mems_def)
  obtain ws w where w: "trWals t = ws @ [(?i, w)]" "wal_ok w ?m"
    "list_all2 (\<lambda>w x. fst w = fst x \<and> wal_ok (snd w) (snd x)) ws (trROnly t)" "?i \<notin> fst ` set ws"
    "map fst ws = map fst (trROnly t)" by (rule wals_split [OF inv(1)])
  obtain m' where m': "mPut M ?m k v = Inr m'" "minv m'" "pairs m' = ins_kv k v (pairs ?m)" using mt.put [OF mi(1)] by blast
  have sp: "small_pairs (cfSSTSize conf + B) (pairs m')" using small_pairs_ins [OF small pk] m'(3) by simp
  have tf: "table_fits conf n (pairs m')"
    by (rule small_pairs_fit [OF sp st]) (use m'(3) mt.sorted [OF m'(2)] in simp_all)
  have "(k, v) \<in> set (pairs m')" using m'(3) by (simp add: ins_kv_has)
  then have fk: "kv_fits (k, v)" using tf by (auto simp: table_fits_def keys_ok_def)
  define w' where "w' = wal_Write w k v"
  have "file_content (trWals t) ?i = w" using w(1,4) by (simp add: file_content_def map_of_last del: map_of_append)
  then have wals: "upd_al ?i (wal_Write (file_content (trWals t) ?i) k v) (trWals t) = ws @ [(?i, w')]"
    using w(1,4) by (simp add: map_of_last_upd w'_def)
  have w'ok: "wal_ok w' m'" unfolding w'_def by (rule wal_ok_write [OF w(2) fk m'(1)])
  have mo: "map_of (pairs m') = (map_of (pairs ?m))(k \<mapsto> v)"
    using m'(3) map_of_ins_kv [OF mt.sorted [OF mi(1)]] by simp
  let ?t2 = "t\<lparr>trWals := ws @ [(?i, w')], trMemTable := m'\<rparr>"
  have tm: "tree_map ?t2 kvss = (tree_map t kvss)(k \<mapsto> v)"
    by (simp add: tree_map_def mems_def stack_append mo flip: append_assoc)
  have d2: "disk_inv conf n ?t2 kvss" using inv(2) by (simp add: disk_inv_def)
  have size: "mSize M m' = kv_size (pairs m')" using mt.size [OF m'(2)] by simp
  show ?thesis
  proof (cases "mSize M m' * 5 div 4 \<le> int (cfSSTSize conf)")
    case True
    have "0 \<le> kv_size (pairs m')" by (auto simp: kv_size_def intro!: sum_list_nonneg)
    then have "kv_size (pairs m') \<le> int (cfSSTSize conf)" using True size by simp
    then have "small_pairs (cfSSTSize conf) (pairs m')" using sp by (simp add: small_pairs_def)
    then have "mem_inv conf n ?t2"
      using mi m'(2) srt w(3) w'ok fits pend by (simp add: mem_inv_def mems_def list_all2_appendI)
    moreover have "tree_Put conf M t k v = Inr ?t2" using True m'(1) wals by (simp add: tree_Put_def Let_def)
    ultimately show ?thesis using tm d2 by blast
  next
    case False
    let ?t3 = "?t2\<lparr>trROnly := trROnly t @ [(?i, m')], trMemPending := trMemPending t @ [(?i, m')],
      trMemTableIndex := Suc ?i, trWals := ws @ [(?i, w'), (Suc ?i, [])], trMemTable := mNew M\<rparr>"
    have new: "minv (mNew M)" "pairs (mNew M) = []" using mt.new by simp_all
    have "Suc ?i \<notin> fst ` set (ws @ [(?i, w')])"
    proof
      assume "Suc ?i \<in> fst ` set (ws @ [(?i, w')])"
      then have "Suc ?i \<in> set (map fst ws)" by auto
      then show False using srt w(5) by (auto simp: sorted_wrt_append)
    qed
    then have "file_content (ws @ [(?i, w')]) (Suc ?i) = []"
        "upd_al (Suc ?i) [] (ws @ [(?i, w')]) = ws @ [(?i, w'), (Suc ?i, [])]"
      using map_of_last_upd(2) [of "Suc ?i" "ws @ [(?i, w')]" "[]"] map_of_absent [of "Suc ?i" "ws @ [(?i, w')]"]
      by (simp_all add: file_content_def del: map_of_append)
    then have put: "tree_Put conf M t k v = Inr ?t3"
      using False m'(1) wals by (simp add: tree_Put_def refreshMemTableLocked_def newMemTable_def Let_def)
    have "sorted_wrt (<) (map fst (trROnly t) @ [?i, Suc ?i])" using srt by (fastforce simp: sorted_wrt_append)
    moreover have "list_all2 (\<lambda>w x. fst w = fst x \<and> wal_ok (snd w) (snd x)) (ws @ [(?i, w'), (Suc ?i, [])])
        (trROnly t @ [(?i, m'), (Suc ?i, mNew M)])"
      using w(3) w'ok wal_ok_new by (intro list_all2_appendI) simp_all
    moreover have "small_pairs (cfSSTSize conf) []" by (simp add: small_pairs_def)
    ultimately have "mem_inv conf n ?t3"
      using mi(2) m'(2) fits tf pend new by (auto simp: mem_inv_def mems_def)
    moreover have "disk_inv conf n ?t3 kvss" using inv(2) by (simp add: disk_inv_def)
    moreover have "tree_map ?t3 kvss = (tree_map t kvss)(k \<mapsto> v)"
      using tm new(2) by (simp add: tree_map_def mems_def stack_append flip: append_assoc)
    ultimately show ?thesis using put by blast
  qed
qed


section \<open>Flushing\<close>

lemma disk_invD:
  assumes "disk_inv conf n t kvss" "2 \<le> cfMaxLevel conf"
  shows "0 < length (trNodes t)" "0 < length (trLevelToSeq t)" "length (trNodes t ! 0) = length kvss"
    "trLevelToSeq t ! 0 = int (length (trNodes t ! 0))" "finv (trFilter t)" "sz (trFilter t) = n" "fKeyLen F (trFilter t) = 0"
    "(0, s) \<in> fst ` set (trSSTs t) \<Longrightarrow> s \<le> int (length (trNodes t ! 0))"
proof -
  assume "(0, s) \<in> fst ` set (trSSTs t)"
  moreover have "trSSTs t = map (\<lambda>nd. ((0, ndSeq nd), srSrc (ndReader nd))) (trNodes t ! 0)"
    using assms(1) by (simp add: disk_inv_def)
  ultimately have "s \<in> set (map ndSeq (trNodes t ! 0))" by auto
  also have "map ndSeq (trNodes t ! 0) = map int [1..<Suc (length (trNodes t ! 0))]" using assms(1) by (simp add: disk_inv_def)
  finally show "s \<le> int (length (trNodes t ! 0))" by auto
qed (use assms in \<open>auto simp: disk_inv_def fl.cur_ok_def dest: list_all2_lengthD\<close>)

lemma flushMemTable_ok:
  assumes dinv: "disk_inv conf n t kvss" and st: "store_ok conf n B" and m: "minv m" "table_fits conf n (pairs m)"
    and len: "length (trNodes t ! 0) < 2147483647"
  shows "\<exists>t'. flushMemTable conf F M t m = Inr t' \<and> disk_inv conf n t' (kvss @ [pairs m])
    \<and> trMemTable t' = trMemTable t \<and> trROnly t' = trROnly t \<and> trMemTableIndex t' = trMemTableIndex t
    \<and> trWals t' = trWals t \<and> trMemPending t' = trMemPending t"
proof -
  let ?ns = "trNodes t ! 0" and ?kvs = "pairs m"
  have ml: "2 \<le> cfMaxLevel conf" using st by (simp add: store_ok_def)
  note d = disk_invD [OF dinv ml]
  define seq where "seq = s32 (trLevelToSeq t ! 0 + 1)"
  have seq: "seq = int (Suc (length ?ns))" using len d(4) by (simp add: seq_def s32_def)
  then have fresh: "(0, seq) \<notin> fst ` set (trSSTs t)" using d(8) [of seq] by auto
  let ?t1 = "t\<lparr>trSSTs := trSSTs t @ [((0, seq), [])]\<rparr>"
  have ow: "open_writer t 0 seq = (NewSSTWriter (trFilter t) [], ?t1)"
    using fresh by (simp add: open_writer_def file_content_def map_of_absent map_of_last_upd)
  have tf: "?kvs \<noteq> []" "keys_ok ?kvs" "table_bound n ?kvs \<le> maxAlloc" "28 \<le> cfSSTFooterSize conf"
    using m(2) by (simp_all add: table_fits_def)
  from fl.write_table_ok [OF d(5,7) tf(1,2)] tf(3,4) d(6) obtain s k b2f ix blocks flt
    where w: "write_table conf F (trFilter t) ?kvs = Inr (s, k, b2f, ix)"
      "fl.finished conf n blocks flt (s, k, b2f, ix)" "concat blocks = ?kvs" by (metis prod_cases4)
  then obtain w1 where w1: "rfold (\<lambda>(k, v) s. sw_Append conf F s k v) ?kvs (NewSSTWriter (trFilter t) []) = Inr w1"
      "sw_Finish conf F w1 = Inr (s, k, b2f, ix)" by (auto simp: write_table_def res_simps)
  let ?rd = "NewSSTReader (swDest s)"
  obtain nd where nd: "NewNode ?rd 0 seq k b2f ix = Inr nd" "ndSeq nd = seq" "ndSize nd = k" "ndBlockToFilter nd = b2f"
      "ndIndex nd = ix" "ndReader nd = ?rd" by (simp add: fl.finished_node [OF w(2)])
  let ?t2 = "t\<lparr>trSSTs := trSSTs t @ [((0, seq), swDest s)], trFilter := swFilter s,
      trLevelToSeq := (trLevelToSeq t)[0 := seq], trNodes := (trNodes t)[0 := ?ns @ [nd]]\<rparr>"
  have fn: "finish_node conf F ?t1 0 seq w1 = Inr ?t2"
    using fresh w1(2) nd(1) d(2)
    by (simp add: finish_node_def insertNode_def insertNodeWithReader_def file_content_def map_of_last map_of_last_upd
        del: map_of_append)
  let ?t3 = "tryTriggerCompact conf ?t2 0"
  have fl: "flushMemTable conf F M t m = Inr ?t3"
    using d(2) ow mt.all [OF m(1)] w1(1) fn by (simp add: flushMemTable_def seq_def [symmetric])
  have holds: "node_holds conf n nd ?kvs" unfolding node_holds_def using m(2) w nd by (auto simp: NewSSTReader_def)
  have "fl.cur_ok n (swFilter s) []" using w(2) by (simp add: fl.finished_def Let_def)
  then have "disk_inv conf n ?t2 (kvss @ [?kvs])"
    using dinv d(1,2) holds nd seq
    by (auto simp: disk_inv_def drop_update_swap NewSSTReader_def intro!: list_all2_appendI)
  moreover have "disk_inv conf n ?t3 kk \<longleftrightarrow> disk_inv conf n ?t2 kk" for kk
    by (auto simp: tryTriggerCompact_def disk_inv_def Let_def)
  moreover have "trMemTable ?t3 = trMemTable t" "trROnly ?t3 = trROnly t" "trMemTableIndex ?t3 = trMemTableIndex t"
    "trWals ?t3 = trWals t" "trMemPending ?t3 = trMemPending t" by (simp_all add: tryTriggerCompact_def)
  ultimately show ?thesis using fl by blast
qed

lemma compactMemTable_ok:
  assumes inv: "mem_inv conf n t" "disk_inv conf n t kvss" and st: "store_ok conf n B"
    and ro: "trROnly t = item # rest" and len: "length (trNodes t ! 0) < 2147483647"
  shows "\<exists>t'. compactMemTable conf F M (t\<lparr>trMemPending := rest\<rparr>) item = Inr t' \<and> mem_inv conf n t'
    \<and> disk_inv conf n t' (kvss @ [pairs (snd item)]) \<and> tree_map t' (kvss @ [pairs (snd item)]) = tree_map t kvss"
proof -
  have m: "minv (snd item)" "table_fits conf n (pairs (snd item))" using inv(1) ro by (auto simp: mem_inv_def mems_def)
  have "disk_inv conf n (t\<lparr>trMemPending := rest\<rparr>) kvss" using inv(2) by (simp add: disk_inv_def)
  from flushMemTable_ok [OF this st m] len obtain t1
    where t1: "flushMemTable conf F M (t\<lparr>trMemPending := rest\<rparr>) (snd item) = Inr t1"
      "disk_inv conf n t1 (kvss @ [pairs (snd item)])" "trMemTable t1 = trMemTable t" "trROnly t1 = item # rest"
      "trMemTableIndex t1 = trMemTableIndex t" "trWals t1 = trWals t" "trMemPending t1 = rest" using ro by auto
  obtain ws w where w: "trWals t = ws @ [(trMemTableIndex t, w)]" "wal_ok w (trMemTable t)"
    "list_all2 (\<lambda>w x. fst w = fst x \<and> wal_ok (snd w) (snd x)) ws (trROnly t)" "trMemTableIndex t \<notin> fst ` set ws"
    "map fst ws = map fst (trROnly t)" by (rule wals_split [OF inv(1)])
  obtain w0 ws' where ws: "ws = (fst item, w0) # ws'"
      "list_all2 (\<lambda>w x. fst w = fst x \<and> wal_ok (snd w) (snd x)) ws' rest"
    using w(3) ro by (auto simp: list_all2_Cons2)
  have srt: "sorted_wrt (<) (fst item # map fst rest @ [trMemTableIndex t])" using inv(1) ro by (simp add: mem_inv_def mems_def)
  have "map fst ws' = map fst rest" using w(5) ws(1) ro by simp
  then have "fst item \<notin> set (map fst ws')" "fst item \<noteq> trMemTableIndex t" using srt by auto
  then have del: "del_al (fst item) (trWals t) = ws' @ [(trMemTableIndex t, w)]"
    using w(1) ws(1) by (force simp: del_al_def filter_id_conv)
  let ?t2 = "t1\<lparr>trROnly := rest, trWals := ws' @ [(trMemTableIndex t, w)]\<rparr>"
  have c: "compactMemTable conf F M (t\<lparr>trMemPending := rest\<rparr>) item = Inr ?t2"
    using t1 del by (simp add: compactMemTable_def)
  have "mem_inv conf n ?t2"
    using inv(1) ro t1 ws(2) w(2) srt by (auto simp: mem_inv_def mems_def intro!: list_all2_appendI)
  moreover have "disk_inv conf n ?t2 (kvss @ [pairs (snd item)])" using t1(2) by (simp add: disk_inv_def)
  moreover have "tree_map ?t2 (kvss @ [pairs (snd item)]) = tree_map t kvss"
    using t1 ro by (simp add: tree_map_def mems_def)
  ultimately show ?thesis using c by blast
qed


section \<open>Restart\<close>

lemma restoreMemTable_ok:
  assumes "list_all2 (\<lambda>w x. fst w = fst x \<and> wal_ok (snd w) (snd x)) ws xs" "xs \<noteq> []"
    "\<forall>w \<in> set ws. file_content (trWals t) (fst w) = snd w"
  shows "restoreMemTable M (map fst xs) t = Inr (t\<lparr>trROnly := trROnly t @ butlast xs, trMemPending := trMemPending t @ butlast xs,
     trMemTable := snd (last xs), trMemTableIndex := fst (last xs)\<rparr>)"
  using assms
proof (induction ws xs arbitrary: t rule: list_all2_induct)
  case (Cons w ws x xs)
  obtain kvs where kvs: "snd w = concat (map wal_bytes kvs)" "list_all kv_fits kvs"
    "rfold (\<lambda>(k, v) m. mPut M m k v) kvs (mNew M) = Inr (snd x)" using Cons.hyps(1) by (auto simp: wal_ok_def)
  have "wal_readAll (file_content (trWals t) (fst x)) = Inr kvs"
    using wal_readAll_bytes [OF kvs(2), of "[]"] Cons.prems(2) Cons.hyps(1) kvs(1) by simp
  then have rd: "RestoreToMemtable (mPut M) (file_content (trWals t) (fst x)) (mNew M) = (Inr (), snd x)"
    using put_kvs_rfold [OF kvs(3)] by (simp add: RestoreToMemtable_def)
  show ?case
  proof (cases "xs = []")
    case True
    then show ?thesis using rd by simp
  next
    case False
    let ?t = "t\<lparr>trROnly := trROnly t @ [x], trMemPending := trMemPending t @ [x]\<rparr>"
    have "restoreMemTable M (map fst xs) ?t = Inr (?t\<lparr>trROnly := trROnly ?t @ butlast xs, trMemPending := trMemPending ?t @ butlast xs,
       trMemTable := snd (last xs), trMemTableIndex := fst (last xs)\<rparr>)"
      by (rule Cons.IH) (use False Cons.prems in auto)
    then show ?thesis using False rd by simp
  qed
qed simp

lemma loadNode_ok:
  assumes h: "node_holds conf n nd kvs" and src: "file_content (trSSTs t) (0, ndSeq nd) = srSrc (ndReader nd)"
    and len: "0 < length (trLevelToSeq t)"
  shows "\<exists>nd'. loadNode conf t (0, ndSeq nd) = Inr (t\<lparr>trLevelToSeq := (trLevelToSeq t)[0 := ndSeq nd],
      trNodes := (trNodes t)[0 := trNodes t ! 0 @ [nd']]\<rparr>)
    \<and> node_holds conf n nd' kvs \<and> ndSeq nd' = ndSeq nd \<and> srSrc (ndReader nd') = srSrc (ndReader nd)"
proof -
  obtain s blocks flt where fin: "fl.finished conf n blocks flt (s, ndSize nd, ndBlockToFilter nd, ndIndex nd)"
    and src': "srSrc (ndReader nd) = swDest s" and c: "concat blocks = kvs"
    using h by (auto simp: node_holds_def)
  have k: "keys_ok (concat blocks)" using h c by (simp add: node_holds_def table_fits_def)
  let ?R = "fl.opened blocks flt (s, ndSize nd, ndBlockToFilter nd, ndIndex nd)"
  note r0 = fl.reopen_ok [OF fin k disjI1 [OF refl]] and rR = fl.reopen_ok [OF fin k disjI2 [OF refl]]
  obtain nd' where nd': "NewNode ?R 0 (ndSeq nd) (ndSize nd) (ndBlockToFilter nd) (ndIndex nd) = Inr nd'"
      "ndSeq nd' = ndSeq nd" "ndSize nd' = ndSize nd" "ndBlockToFilter nd' = ndBlockToFilter nd" "ndIndex nd' = ndIndex nd"
      "ndReader nd' = ?R" by (simp add: fl.finished_node [OF fin])
  have sR: "srSrc ?R = swDest s" by (simp add: fl.opened_def)
  have "node_holds conf n nd' kvs"
    unfolding node_holds_def using h fin c nd' sR by (auto simp: node_holds_def)
  moreover have "loadNode conf t (0, ndSeq nd) = Inr (t\<lparr>trLevelToSeq := (trLevelToSeq t)[0 := ndSeq nd],
      trNodes := (trNodes t)[0 := trNodes t ! 0 @ [nd']]\<rparr>)"
    using src src' r0(2) rR(1,3) nd'(1) len by (simp add: loadNode_def insertNodeWithReader_def Let_def)
  ultimately show ?thesis using nd' sR src' by auto
qed

lemma constructTree_ok:
  assumes "list_all2 (node_holds conf n) nds kvss" "\<forall>nd \<in> set nds. file_content (trSSTs t) (0, ndSeq nd) = srSrc (ndReader nd)"
    "0 < length (trLevelToSeq t)" "0 < length (trNodes t)"
  shows "\<exists>nds' q. rfold (\<lambda>ls t. loadNode conf t ls) (map (\<lambda>nd. (0, ndSeq nd)) nds) t
      = Inr (t\<lparr>trLevelToSeq := (trLevelToSeq t)[0 := q], trNodes := (trNodes t)[0 := trNodes t ! 0 @ nds']\<rparr>)
    \<and> q = (if nds = [] then trLevelToSeq t ! 0 else ndSeq (last nds))
    \<and> list_all2 (node_holds conf n) nds' kvss \<and> map ndSeq nds' = map ndSeq nds
    \<and> map (\<lambda>nd. srSrc (ndReader nd)) nds' = map (\<lambda>nd. srSrc (ndReader nd)) nds"
  using assms
proof (induction nds kvss arbitrary: t rule: list_all2_induct)
  case Nil
  have "t\<lparr>trLevelToSeq := trLevelToSeq t, trNodes := trNodes t\<rparr> = t" by simp
  then show ?case by (intro exI [of _ "[]"]) simp
next
  case (Cons nd nds kvs kvss)
  from loadNode_ok [OF Cons.hyps(1), of t] Cons.prems obtain nd'
    where nd': "loadNode conf t (0, ndSeq nd) = Inr (t\<lparr>trLevelToSeq := (trLevelToSeq t)[0 := ndSeq nd],
        trNodes := (trNodes t)[0 := trNodes t ! 0 @ [nd']]\<rparr>)"
      "node_holds conf n nd' kvs" "ndSeq nd' = ndSeq nd" "srSrc (ndReader nd') = srSrc (ndReader nd)" by auto
  let ?t = "t\<lparr>trLevelToSeq := (trLevelToSeq t)[0 := ndSeq nd], trNodes := (trNodes t)[0 := trNodes t ! 0 @ [nd']]\<rparr>"
  from Cons.IH [of ?t] Cons.prems obtain nds' q
    where r: "rfold (\<lambda>ls t. loadNode conf t ls) (map (\<lambda>nd. (0, ndSeq nd)) nds) ?t
        = Inr (?t\<lparr>trLevelToSeq := (trLevelToSeq ?t)[0 := q], trNodes := (trNodes ?t)[0 := trNodes ?t ! 0 @ nds']\<rparr>)"
      "q = (if nds = [] then trLevelToSeq ?t ! 0 else ndSeq (last nds))"
      "list_all2 (node_holds conf n) nds' kvss" "map ndSeq nds' = map ndSeq nds"
      "map (\<lambda>nd. srSrc (ndReader nd)) nds' = map (\<lambda>nd. srSrc (ndReader nd)) nds" by auto
  show ?case
    using nd' r Cons.prems by (intro exI [of _ "nd' # nds'"] exI [of _ q]) simp
qed


definition blank :: "lsm_config \<Rightarrow> 'f \<Rightarrow> (nat \<times> bytes) list \<Rightarrow> ((nat \<times> int) \<times> bytes) list \<Rightarrow> ('f, 'm) tree" where
  "blank conf f wals ssts = \<lparr>trFilter = f, trMemTable = mNew M, trROnly = [], trNodes = replicate (cfMaxLevel conf) [],
     trMemTableIndex = 0, trLevelToSeq = replicate (cfMaxLevel conf) 0, trWals = wals, trSSTs = ssts, trMemPending = [], trLevelPending = []\<rparr>"

lemma NewTree_blank: "NewTree conf M f wals ssts = rbind (constructTree conf (blank conf f wals ssts)) (constructMemtable M)"
  by (simp add: NewTree_def blank_def)

lemma NewTree_empty:
  assumes "fl.cur_ok n f []" "store_ok conf n B"
  shows "\<exists>t. NewTree conf M f [] [] = Inr t \<and> mem_inv conf n t \<and> disk_inv conf n t [] \<and> tree_map t [] = Map.empty"
proof -
  let ?t = "(blank conf f [(0, [])] [])"
  have "NewTree conf M f [] [] = Inr ?t"
    by (simp add: NewTree_blank blank_def constructTree_def getSortedSSTEntries_def constructMemtable_def newMemTable_def
        file_content_def)
  moreover have "mem_inv conf n ?t"
    using mt.new wal_ok_new by (simp add: mem_inv_def mems_def blank_def small_pairs_def)
  moreover have "disk_inv conf n ?t []"
    using assms by (cases "cfMaxLevel conf") (auto simp: disk_inv_def blank_def store_ok_def dest: in_set_dropD)
  moreover have "tree_map ?t [] = Map.empty"
    using mt.new by (simp add: tree_map_def mems_def blank_def)
  ultimately show ?thesis by blast
qed

lemma file_content_in: "distinct (map fst fs) \<Longrightarrow> (k, b) \<in> set fs \<Longrightarrow> file_content fs k = b"
  by (simp add: file_content_def map_of_is_SomeI)

lemma restart_ok:
  assumes inv: "mem_inv conf n t" "disk_inv conf n t kvss" and f: "fl.cur_ok n f []" and st: "store_ok conf n B"
  shows "\<exists>t'. NewTree conf M f (trWals t) (trSSTs t) = Inr t' \<and> mem_inv conf n t' \<and> disk_inv conf n t' kvss
    \<and> tree_map t' kvss = tree_map t kvss"
proof -
  let ?t0 = "blank conf f (trWals t) (trSSTs t)" and ?nds = "trNodes t ! 0"
  have ml: "2 \<le> cfMaxLevel conf" using st by (simp add: store_ok_def)
  have ssts: "trSSTs t = map (\<lambda>nd. ((0, ndSeq nd), srSrc (ndReader nd))) ?nds"
    and seqs: "map ndSeq ?nds = map int [1..<Suc (length ?nds)]" and nh: "list_all2 (node_holds conf n) ?nds kvss"
    using inv(2) by (simp_all add: disk_inv_def)
  have m0: "map fst (trSSTs t) = map (\<lambda>nd. (0, ndSeq nd)) ?nds" by (simp add: ssts)
  have ds: "distinct (map ndSeq ?nds)" unfolding seqs distinct_map by (simp del: upt_Suc)
  then have dist: "distinct (map fst (trSSTs t))" unfolding m0 by (auto simp: distinct_map inj_on_def)
  have "sorted (map ndSeq ?nds)" unfolding seqs by (simp add: sorted_map del: upt_Suc)
  moreover have "sorted (map fst (map (\<lambda>nd. (0 :: nat, ndSeq nd)) ?nds))" by (simp add: comp_def map_replicate_const)
  ultimately have ent: "getSortedSSTEntries ?t0 = map (\<lambda>nd. (0, ndSeq nd)) ?nds"
    by (simp add: getSortedSSTEntries_def blank_def m0 sort_key_id_if_sorted comp_def)
  have fc: "\<forall>nd \<in> set ?nds. file_content (trSSTs ?t0) (0, ndSeq nd) = srSrc (ndReader nd)"
    using file_content_in [OF dist] by (auto simp: blank_def ssts)
  from constructTree_ok [OF nh fc] ml obtain nds' q
    where c: "constructTree conf ?t0 = Inr (?t0\<lparr>trLevelToSeq := (trLevelToSeq ?t0)[0 := q], trNodes := (trNodes ?t0)[0 := trNodes ?t0 ! 0 @ nds']\<rparr>)"
      "q = (if ?nds = [] then trLevelToSeq ?t0 ! 0 else ndSeq (last ?nds))"
      "list_all2 (node_holds conf n) nds' kvss" "map ndSeq nds' = map ndSeq ?nds"
      "map (\<lambda>nd. srSrc (ndReader nd)) nds' = map (\<lambda>nd. srSrc (ndReader nd)) ?nds"
    unfolding constructTree_def ent by (auto simp: blank_def)
  let ?t1 = "?t0\<lparr>trLevelToSeq := (trLevelToSeq ?t0)[0 := q], trNodes := (trNodes ?t0)[0 := trNodes ?t0 ! 0 @ nds']\<rparr>"
  have len: "length nds' = length ?nds" using c(4) by (metis length_map)
  have q: "q = int (length ?nds)"
  proof (cases "?nds = []")
    case False
    then have "ndSeq (last ?nds) = last (map ndSeq ?nds)" by (simp add: last_map)
    also note seqs
    finally show ?thesis using False c(2) by (cases ?nds) auto
  qed (use c(2) ml in \<open>simp add: blank_def\<close>)
  have wl: "list_all2 (\<lambda>w x. fst w = fst x \<and> wal_ok (snd w) (snd x)) (trWals t) (mems t)"
    and srt: "sorted_wrt (<) (map fst (mems t))" using inv(1) by (simp_all add: mem_inv_def)
  have mf: "map fst (trWals t) = map fst (mems t)" using wl by (induction rule: list_all2_induct) auto
  have dw: "distinct (map fst (trWals t))" and sw: "sort (map fst (trWals t)) = map fst (mems t)"
    unfolding mf using srt by (simp_all add: strict_sorted_iff sorted_sort_id)
  have mne: "mems t \<noteq> []" "butlast (mems t) = trROnly t" "last (mems t) = (trMemTableIndex t, trMemTable t)"
    by (simp_all add: mems_def)
  let ?t2 = "?t1\<lparr>trROnly := trROnly t, trMemPending := trROnly t, trMemTable := trMemTable t, trMemTableIndex := trMemTableIndex t\<rparr>"
  have "restoreMemTable M (map fst (mems t)) ?t1 = Inr ?t2"
    using restoreMemTable_ok [OF wl mne(1), of ?t1] file_content_in [OF dw] mne(2,3) by (auto simp: blank_def)
  then have "constructMemtable M ?t1 = Inr ?t2"
    using sw mne(1) by (simp add: constructMemtable_def blank_def)
  then have new: "NewTree conf M f (trWals t) (trSSTs t) = Inr ?t2" by (simp add: NewTree_blank c(1))
  have "mem_inv conf n ?t2" using inv(1) by (simp add: mem_inv_def mems_def blank_def)
  moreover have "disk_inv conf n ?t2 kvss"
  proof -
    have z: "map (\<lambda>nd. ((0 :: nat, ndSeq nd), srSrc (ndReader nd))) xs
        = zip (map (Pair 0) (map ndSeq xs)) (map (\<lambda>nd. srSrc (ndReader nd)) xs)" for xs by (induction xs) auto
    have "trSSTs t = map (\<lambda>nd. ((0, ndSeq nd), srSrc (ndReader nd))) nds'"
      unfolding ssts z c(4,5) ..
    then show ?thesis
      using ml f c(3) q len by (auto simp: disk_inv_def blank_def c(4) seqs drop_update_swap dest: in_set_dropD)
  qed
  moreover have "tree_map ?t2 kvss = tree_map t kvss" by (simp add: tree_map_def mems_def)
  ultimately show ?thesis using new by blast
qed

lemma run_inv:
  assumes "lsm_run conf F M f B t m" "fl.cur_ok n f []" "store_ok conf n B"
  shows "tree_inv conf n t m"
  using assms(1)
proof (induction rule: lsm_run.induct)
  case (run_open t)
  then show ?case using NewTree_empty [OF assms(2,3)] by (auto simp: tree_inv_def)
next
  case (run_put t m k v t')
  then show ?case using tree_Put_ok [OF _ _ assms(3)] by (fastforce simp: tree_inv_def)
next
  case (run_flush t m item rest t')
  then obtain kvss where i: "mem_inv conf n t" "disk_inv conf n t kvss" "m = tree_map t kvss" by (auto simp: tree_inv_def)
  then have "trROnly t = item # rest" using run_flush.hyps(2) by (simp add: mem_inv_def)
  from compactMemTable_ok [OF i(1,2) assms(3) this run_flush.hyps(3)] run_flush.hyps(4) i(3)
  show ?case unfolding tree_inv_def by (metis sum.inject(2))
next
  case (run_restart t m t')
  then obtain kvss where i: "mem_inv conf n t" "disk_inv conf n t kvss" "m = tree_map t kvss" by (auto simp: tree_inv_def)
  from restart_ok [OF i(1,2) assms(2,3)] run_restart.hyps(2) i(3)
  show ?case unfolding tree_inv_def by (metis sum.inject(2))
qed

lemma run_get:
  assumes "lsm_run conf F M f B t m" "fl.cur_ok n f []" "store_ok conf n B"
  shows "tree_Get F M t k = Inr (m k)"
  using run_inv [OF assms] tree_Get_ok assms(3) by (auto simp: tree_inv_def store_ok_def)

lemma run_progress:
  assumes "lsm_run conf F M f B t m" "fl.cur_ok n f []" "store_ok conf n B"
  shows "pair_ok B k v \<Longrightarrow> \<exists>t'. tree_Put conf M t k v = Inr t'"
    "trMemPending t = item # rest \<Longrightarrow> length (trNodes t ! 0) < 2147483647 \<Longrightarrow>
      \<exists>t'. compactMemTable conf F M (t\<lparr>trMemPending := rest\<rparr>) item = Inr t'"
    "\<exists>t'. NewTree conf M f (trWals t) (trSSTs t) = Inr t'"
proof -
  obtain kvss where i: "mem_inv conf n t" "disk_inv conf n t kvss" using run_inv [OF assms] by (auto simp: tree_inv_def)
  show "pair_ok B k v \<Longrightarrow> \<exists>t'. tree_Put conf M t k v = Inr t'" using tree_Put_ok [OF i assms(3)] by blast
  show "trMemPending t = item # rest \<Longrightarrow> length (trNodes t ! 0) < 2147483647 \<Longrightarrow>
      \<exists>t'. compactMemTable conf F M (t\<lparr>trMemPending := rest\<rparr>) item = Inr t'"
    using compactMemTable_ok [OF i assms(3), of item rest] i(1) by (auto simp: mem_inv_def)
  show "\<exists>t'. NewTree conf M f (trWals t) (trSSTs t) = Inr t'" using restart_ok [OF i assms(2,3)] by blast
qed

end

interpretation db: lsm_store bloomFilter bf_inv bf_member bfM "skiplistOps coins" sl_inv sl_pairs for coins
  by unfold_locales

lemma fresh_bloom: "NewBloomFilter m = Inr f \<Longrightarrow> m < 2 ^ 32 \<Longrightarrow> bloom.cur_ok (bfM f) f []"
  by (auto simp: NewBloomFilter_def bloom.cur_ok_def bf_inv_def bf_KeyLen_def nat_less_iff split: if_splits)

section \<open>Properties\<close>

text \<open>C2: The store is a map as long as no level was compacted.  Consider a run (\<open>lsm_run\<close>) from an empty directory
  of puts of admissible pairs (a key that is not empty and does not end in a zero byte, at most \<open>B\<close> bytes
  together), flushes of full memtables in the order they filled, and restarts.  In every state it
  reaches, a read of any key returns the value of the last put under it, or nothing when there was none,
  wherever that value is by now: memtable, waiting memtable or table of level 0.  The restrictions are
  needed: \<open>sst_zero_key_lost\<close> for the keys, \<open>flush_out_of_order\<close> and \<open>pick_not_transitive\<close> in
  \<^verbatim>\<open>LSM_Levels\<close> for the compactor.\<close>

theorem lsm_get:
  assumes "NewBloomFilter m = Inr f" "m < 2 ^ 32" "store_ok conf (bfM f) B"
    "lsm_run conf bloomFilter (skiplistOps coins) f B t s"
  shows "tree_Get bloomFilter (skiplistOps coins) t k = Inr (s k)"
  by (rule db.run_get [OF assms(4) fresh_bloom [OF assms(1,2)] assms(3)])

text \<open>C3: The store is durable as long as no level was compacted.  When the process is stopped between two
  operations of such a run (puts of admissible pairs, flushes in the order the memtables filled, restarts),
  opening the directory again succeeds and every read returns what it returned before: nothing
  written is lost and nothing old comes back.  A stop inside the write of a log record is not such a
  stop, see \<open>torn_log_not_opened\<close> in \<^verbatim>\<open>LSM_Tree\<close>.\<close>

theorem lsm_durable:
  assumes "NewBloomFilter m = Inr f" "m < 2 ^ 32" "store_ok conf (bfM f) B"
    "lsm_run conf bloomFilter (skiplistOps coins) f B t s"
  shows "\<exists>t'. NewTree conf (skiplistOps coins) f (trWals t) (trSSTs t) = Inr t'
    \<and> (\<forall>k. tree_Get bloomFilter (skiplistOps coins) t' k = Inr (s k))"
proof -
  note ok = fresh_bloom [OF assms(1,2)] assms(3)
  obtain t' where t': "NewTree conf (skiplistOps coins) f (trWals t) (trSSTs t) = Inr t'"
    using db.run_progress(3) [OF assms(4) ok] by blast
  have "lsm_run conf bloomFilter (skiplistOps coins) f B t' s" by (rule run_restart [OF assms(4) t'])
  from db.run_get [OF this ok] t' show ?thesis by blast
qed

text \<open>C27: The store does not get stuck: in every such state a put of any admissible pair returns, and
  flushing the oldest waiting memtable returns.\<close>

theorem lsm_progress:
  assumes "NewBloomFilter m = Inr f" "m < 2 ^ 32" "store_ok conf (bfM f) B"
    "lsm_run conf bloomFilter (skiplistOps coins) f B t s"
  shows "(pair_ok B k v \<longrightarrow> (\<exists>t'. tree_Put conf (skiplistOps coins) t k v = Inr t'))
    \<and> (trMemPending t = item # rest \<longrightarrow> length (trNodes t ! 0) < 2147483647 \<longrightarrow>
       (\<exists>t'. compactMemTable conf bloomFilter (skiplistOps coins) (t\<lparr>trMemPending := rest\<rparr>) item = Inr t'))"
  using db.run_progress(1,2) [OF assms(4) fresh_bloom [OF assms(1,2)] assms(3)] by blast

section \<open>A run\<close>

abbreviation demo_filter :: bloom where
  "demo_filter \<equiv> \<lparr>bfM = 64, hashedKeys = []\<rparr>"

abbreviation demo_mem :: "Skiplist mem_ops" where
  "demo_mem \<equiv> skiplistOps (\<lambda>_. 0)"

text \<open>Two puts with a memtable limit of 4 bytes; the second fills the memtable.\<close>

definition small_conf :: lsm_config where
  "small_conf = demo_conf\<lparr>cfSSTSize := 4\<rparr>"

lemma small_conf_ok: "NewBloomFilter 64 = Inr demo_filter" "store_ok small_conf (bfM demo_filter) 4"
  by (simp_all add: NewBloomFilter_def store_ok_def small_conf_def demo_conf_def maxAlloc_def)

lemma demo_run:
  "\<exists>t. lsm_run small_conf bloomFilter demo_mem demo_filter 4 t [[1] \<mapsto> [2, 3], [4] \<mapsto> [5]]"
proof -
  note ok = fresh_bloom [OF small_conf_ok(1)] small_conf_ok(2)
  obtain t0 where "NewTree small_conf demo_mem demo_filter [] [] = Inr t0"
    using db.NewTree_empty [OF ok, of "\<lambda>_. 0"] by auto
  then have r0: "lsm_run small_conf bloomFilter demo_mem demo_filter 4 t0 Map.empty" by (rule run_open)
  have p: "pair_ok 4 [1] [2, 3]" "pair_ok 4 [4] [5]" by (simp_all add: pair_ok_def)
  obtain t1 where "tree_Put small_conf demo_mem t0 [1] [2, 3] = Inr t1" using db.run_progress(1) [OF r0 ok p(1)] by auto
  with r0 p(1) have r1: "lsm_run small_conf bloomFilter demo_mem demo_filter 4 t1 [[1] \<mapsto> [2, 3]]" by (rule run_put)
  obtain t2 where "tree_Put small_conf demo_mem t1 [4] [5] = Inr t2" using db.run_progress(1) [OF r1 ok p(2)] by auto
  with r1 p(2) show ?thesis by (blast intro: run_put)
qed

theorem lsm_get_witness:
  "\<exists>t. lsm_run small_conf bloomFilter demo_mem demo_filter 4 t [[1] \<mapsto> [2, 3], [4] \<mapsto> [5]]
    \<and> tree_Get bloomFilter demo_mem t [1] = Inr (Some [2, 3])"
  using demo_run lsm_get [OF small_conf_ok(1) _ small_conf_ok(2), of "\<lambda>_. 0"] by fastforce

theorem lsm_durable_witness:
  "\<exists>t t'. lsm_run small_conf bloomFilter demo_mem demo_filter 4 t [[1] \<mapsto> [2, 3], [4] \<mapsto> [5]]
    \<and> NewTree small_conf demo_mem demo_filter (trWals t) (trSSTs t) = Inr t'
    \<and> tree_Get bloomFilter demo_mem t' [4] = Inr (Some [5])"
  using demo_run lsm_durable [OF small_conf_ok(1) _ small_conf_ok(2), of "\<lambda>_. 0"] by fastforce

theorem lsm_progress_witness:
  "\<exists>t t'. lsm_run small_conf bloomFilter demo_mem demo_filter 4 t [[1] \<mapsto> [2, 3], [4] \<mapsto> [5]]
    \<and> tree_Put small_conf demo_mem t [9] [9] = Inr t'"
proof -
  have "pair_ok 4 [9] [9]" by (simp add: pair_ok_def)
  then show ?thesis
    using demo_run lsm_progress [OF small_conf_ok(1) _ small_conf_ok(2), of "\<lambda>_. 0"] by fastforce
qed

end
