(* ===== verification/LSM_Levels.thy ===== *)
theory LSM_Levels
  imports LSM_Store
begin

text \<open>
  The levels below level 0: the search of a level, the merge a compaction writes, and three ways in
  which compactions can lose or revive data.  Also the defaults of \<^verbatim>\<open>config.go\<close>.
\<close>

section \<open>Configuration\<close>

text \<open>\<^verbatim>\<open>repair\<close> on the fields an option may have set; the filter and the memtable constructor are
  \<open>None\<close> where the caller gave none.\<close>

record user_config =
  ucMaxLevel :: int
  ucSSTSize :: nat
  ucSSTNumPerLevel :: int
  ucSSTDataBlockSize :: int
  ucFilter :: "bloom option"

definition repair :: "user_config \<Rightarrow> user_config" where
  "repair c = c
     \<lparr>ucMaxLevel := (if ucMaxLevel c \<le> 1 then 7 else ucMaxLevel c),
      ucSSTSize := (if ucSSTSize c \<le> 0 then 1024 * 1024 else ucSSTSize c),
      ucSSTDataBlockSize := (if ucSSTDataBlockSize c \<le> 0 then 16 * 1024 else ucSSTDataBlockSize c),
      ucSSTNumPerLevel := (if ucSSTNumPerLevel c \<le> 0 then 10 else ucSSTNumPerLevel c),
      ucFilter := (case ucFilter c of Some f \<Rightarrow> Some f
        | None \<Rightarrow> (case NewBloomFilter 1024 of Inr f \<Rightarrow> Some f | Inl _ \<Rightarrow> None))\<rparr>"

definition NewConfig :: "(user_config \<Rightarrow> user_config) list \<Rightarrow> user_config" where
  "NewConfig opts = repair (fold (\<lambda>opt c. opt c) opts
     \<lparr>ucMaxLevel = 0, ucSSTSize = 0, ucSSTNumPerLevel = 0, ucSSTDataBlockSize = 0, ucFilter = None\<rparr>)"

definition lsm_conf :: "user_config \<Rightarrow> lsm_config" where
  "lsm_conf c = \<lparr>cfMaxLevel = nat (ucMaxLevel c), cfSSTSize = ucSSTSize c, cfSSTNumPerLevel = nat (ucSSTNumPerLevel c),
     cfSSTDataBlockSize = nat (ucSSTDataBlockSize c), cfSSTFooterSize = 32\<rparr>"

section \<open>Searching a level\<close>

text \<open>Nodes in key order whose ranges do not overlap.\<close>

definition separated :: "sst_node list \<Rightarrow> bool" where
  "separated nodes \<longleftrightarrow> (\<forall>n \<in> set nodes. ndStartKey n \<le> ndEndKey n) \<and> sorted_wrt (\<lambda>a b. ndEndKey a \<le> ndStartKey b) nodes"

definition covers :: "bytes \<Rightarrow> sst_node \<Rightarrow> bool" where
  "covers key n \<longleftrightarrow> ndStartKey n < key \<and> key \<le> ndEndKey n"

lemma separated_nth:
  assumes "separated nodes" "i < j" "j < length nodes"
  shows "ndEndKey (nodes ! i) \<le> ndStartKey (nodes ! j)" "ndStartKey (nodes ! i) \<le> ndEndKey (nodes ! i)"
    "ndStartKey (nodes ! j) \<le> ndEndKey (nodes ! j)"
  using assms by (auto simp: separated_def sorted_wrt_iff_nth_less)

lemma levelBinarySearch_range:
  assumes "separated nodes" "0 \<le> start" "end < int (length nodes)"
  shows "(\<forall>i. start \<le> int i \<longrightarrow> int i \<le> end \<longrightarrow> covers key (nodes ! i) \<longrightarrow>
      levelBinarySearch nodes key start end = Some (nodes ! i))
    \<and> ((\<forall>i. start \<le> int i \<longrightarrow> int i \<le> end \<longrightarrow> \<not> covers key (nodes ! i)) \<longrightarrow> levelBinarySearch nodes key start end = None)"
  using assms
proof (induction nodes key start "end" rule: levelBinarySearch.induct)
  case (1 nodes key start "end")
  show ?case
  proof (cases "start > end")
    case True
    then show ?thesis by (simp add: levelBinarySearch.simps [of nodes key start])
  next
    case False
    define mid where "mid = start + (end - start) div 2"
    have mid: "start \<le> mid" "mid \<le> end" using False by (auto simp: mid_def)
    let ?m = "nodes ! nat mid"
    have eq: "levelBinarySearch nodes key start end =
        (if ndEndKey ?m < key then levelBinarySearch nodes key (mid + 1) end
         else if ndStartKey ?m \<ge> key then levelBinarySearch nodes key start (mid - 1) else Some ?m)"
      using False by (subst levelBinarySearch.simps) (simp add: Let_def mid_def)
    have sep: "ndEndKey (nodes ! i) \<le> ndStartKey ?m" "ndStartKey ?m \<le> ndEndKey ?m" if "int i < mid" "start \<le> int i" for i
      using separated_nth [OF 1(3), of i "nat mid"] that mid 1(4,5) by auto
    have sep': "ndEndKey ?m \<le> ndStartKey (nodes ! i)" "ndStartKey ?m \<le> ndEndKey ?m" if "mid < int i" "int i \<le> end" for i
      using separated_nth [OF 1(3), of "nat mid" i] that mid 1(4,5) by auto
    show ?thesis
    proof (cases "ndEndKey ?m < key")
      case True
      have no: "\<not> covers key (nodes ! i)" if "start \<le> int i" "int i \<le> mid" for i
      proof (cases "int i = mid")
        case True
        then have "i = nat mid" by simp
        then show ?thesis using \<open>ndEndKey ?m < key\<close> by (auto simp: covers_def)
      next
        case False
        then show ?thesis using sep [of i] that True by (auto simp: covers_def)
      qed
      have IH: "(\<forall>i. mid + 1 \<le> int i \<longrightarrow> int i \<le> end \<longrightarrow> covers key (nodes ! i) \<longrightarrow>
          levelBinarySearch nodes key (mid + 1) end = Some (nodes ! i))
        \<and> ((\<forall>i. mid + 1 \<le> int i \<longrightarrow> int i \<le> end \<longrightarrow> \<not> covers key (nodes ! i)) \<longrightarrow> levelBinarySearch nodes key (mid + 1) end = None)"
        by (rule 1(1) [OF False mid_def]) (use True 1(3-5) mid in auto)
      have up: "mid + 1 \<le> int i" if "start \<le> int i" "covers key (nodes ! i)" for i using no [of i] that by force
      have sub: "start \<le> int i" if "mid + 1 \<le> int i" for i using that mid by simp
      show ?thesis unfolding eq using IH up sub True by simp
    next
      case ge: False
      show ?thesis
      proof (cases "ndStartKey ?m \<ge> key")
        case True
        have no: "\<not> covers key (nodes ! i)" if "mid \<le> int i" "int i \<le> end" for i
        proof (cases "int i = mid")
          case eqm: True
          then have "i = nat mid" by simp
          then show ?thesis using True by (auto simp: covers_def)
        next
          case False
          then have "ndStartKey ?m \<le> ndStartKey (nodes ! i)" using sep' [of i] that by auto
          then show ?thesis using True by (auto simp: covers_def)
        qed
        have IH: "(\<forall>i. start \<le> int i \<longrightarrow> int i \<le> mid - 1 \<longrightarrow> covers key (nodes ! i) \<longrightarrow>
            levelBinarySearch nodes key start (mid - 1) = Some (nodes ! i))
          \<and> ((\<forall>i. start \<le> int i \<longrightarrow> int i \<le> mid - 1 \<longrightarrow> \<not> covers key (nodes ! i)) \<longrightarrow> levelBinarySearch nodes key start (mid - 1) = None)"
          by (rule 1(2) [OF False mid_def]) (use ge True 1(3-5) mid in auto)
        have down: "int i \<le> mid - 1" if "int i \<le> end" "covers key (nodes ! i)" for i using no [of i] that by force
        have sub: "int i \<le> end" if "int i \<le> mid - 1" for i using that mid by simp
        show ?thesis unfolding eq using IH down sub True ge by simp
      next
        case False
        have cm: "covers key ?m" using ge False by (auto simp: covers_def)
        have uniq: "i = nat mid" if "start \<le> int i" "int i \<le> end" "covers key (nodes ! i)" for i
        proof (rule ccontr)
          assume "i \<noteq> nat mid"
          then consider "int i < mid" | "mid < int i" using mid 1(4) by fastforce
          then show False
            using sep [of i] sep' [of i] that cm by cases (auto simp: covers_def)
        qed
        moreover have "\<exists>i. start \<le> int i \<and> int i \<le> end \<and> covers key (nodes ! i)"
          using cm mid 1(4) by (intro exI [of _ "nat mid"]) simp
        ultimately show ?thesis unfolding eq using ge False by auto
      qed
    qed
  qed
qed

section \<open>The merge of a compaction\<close>

text \<open>What a picked node contributes: its pairs, or nothing when reading it fails.\<close>

definition node_kvs :: "lsm_config \<Rightarrow> sst_node \<Rightarrow> kv list" where
  "node_kvs conf n = (case node_GetAll conf n of Inr kvs \<Rightarrow> kvs | Inl _ \<Rightarrow> [])"

text \<open>Reading a node does not panic; it may fail.\<close>

definition node_no_panic :: "lsm_config \<Rightarrow> sst_node \<Rightarrow> bool" where
  "node_no_panic conf n = (case node_GetAll conf n of Inl (Panic _) \<Rightarrow> False | _ \<Rightarrow> True)"

text \<open>A stack of maps answers from the last one that has the key.\<close>

lemma stack_find:
  "stack (map f xs) k = (case find (\<lambda>x. f x k \<noteq> None) (rev xs) of None \<Rightarrow> None | Some x \<Rightarrow> f x k)"
  by (induction xs rule: rev_induct) (auto simp: map_add_def split: option.splits)

context mem_table
begin

lemma merge_fold:
  assumes "minv m" "\<forall>n \<in> set picked. node_no_panic conf n"
  shows "\<exists>m'. rfold (\<lambda>n m. rbind (ignore_err [] (node_GetAll conf n)) (\<lambda>kvs. rfold (\<lambda>(k, v) m. mPut M m k v) kvs m)) picked m = Inr m'
    \<and> minv m' \<and> map_of (pairs m') = map_of (pairs m) ++ stack (map (\<lambda>n. map_of (rev (node_kvs conf n))) picked)"
  using assms
proof (induction picked arbitrary: m)
  case (Cons n picked)
  have i: "ignore_err [] (node_GetAll conf n) = Inr (node_kvs conf n)"
    using Cons.prems(2) by (auto simp: node_no_panic_def node_kvs_def ignore_err_def split: sum.splits go_err.splits)
  obtain m1 where m1: "rfold (\<lambda>(k, v) m. mPut M m k v) (node_kvs conf n) m = Inr m1" "minv m1"
    "map_of (pairs m1) = map_of (pairs m) ++ map_of (rev (node_kvs conf n))" using put_all [OF Cons.prems(1)] by blast
  from Cons.IH [OF m1(2)] Cons.prems(2) m1(3) show ?case
    using stack_append [of "[map_of (rev (node_kvs conf n))]" "map (\<lambda>n. map_of (rev (node_kvs conf n))) picked"]
    by (auto simp: i m1(1))
qed auto

end

section \<open>Properties\<close>

text \<open>C29: On a level whose tables are in order and do not overlap, \<^verbatim>\<open>levelBinarySearch\<close> returns the one
  table whose range holds the key, and nothing when there is none.\<close>

theorem levelBinarySearch_finds:
  assumes "separated nodes"
  shows "levelBinarySearch nodes key 0 (int (length nodes) - 1) = List.find (covers key) nodes"
proof -
  have r: "i < length nodes \<Longrightarrow> covers key (nodes ! i) \<Longrightarrow>
      levelBinarySearch nodes key 0 (int (length nodes) - 1) = Some (nodes ! i)" for i
    using levelBinarySearch_range [OF assms, of 0 "int (length nodes) - 1" key] by auto
  show ?thesis
  proof (cases "List.find (covers key) nodes")
    case None
    then have "\<not> covers key (nodes ! i)" if "i < length nodes" for i using that by (auto simp: find_None_iff)
    then show ?thesis using None levelBinarySearch_range [OF assms, of 0 "int (length nodes) - 1" key] by auto
  next
    case (Some n)
    then obtain i where "i < length nodes" "covers key (nodes ! i)" "n = nodes ! i" by (auto simp: find_Some_iff)
    then show ?thesis using r [of i] Some by simp
  qed
qed

definition span :: "bytes \<Rightarrow> bytes \<Rightarrow> sst_node" where
  "span a b = \<lparr>ndLevel = 1, ndSeq = 0, ndSize = 0, ndBlockToFilter = Map.empty, ndIndex = [], ndStartKey = a, ndEndKey = b,
     ndReader = NewSSTReader []\<rparr>"

theorem levelBinarySearch_finds_witness:
  "levelBinarySearch [span [1] [3], span [3] [5], span [6] [9]] [4] 0 2 = Some (span [3] [5])"
  using levelBinarySearch_finds [of "[span [1] [3], span [3] [5], span [6] [9]]" "[4]"]
  by (simp add: separated_def span_def covers_def list_less_def)

text \<open>C30: A compaction merges newest last.  When reading a picked node does not panic, the merge returns;
  the pairs are sorted, and under each key they hold the value read from the last picked node whose read
  returned a pair under it, and nothing when there is no such node.  A node whose read fails contributes
  nothing, although it may hold the key: \<^verbatim>\<open>pickedNodesToKVs\<close> drops the error.\<close>

theorem merge_newest_wins:
  assumes "\<forall>n \<in> set picked. node_no_panic conf n"
  shows "\<exists>all. pickedNodesToKVs conf (skiplistOps coins) picked = Inr all \<and> sorted_wrt (<) (map fst all)
    \<and> (\<forall>k. map_of all k = (case find (\<lambda>n. k \<in> fst ` set (node_kvs conf n)) (rev picked) of
          None \<Rightarrow> None | Some n \<Rightarrow> map_of (rev (node_kvs conf n)) k))"
proof -
  have new: "sl_inv (mNew (skiplistOps coins))" "sl_pairs (mNew (skiplistOps coins)) = []" using skip.new [of coins] by simp_all
  from skip.merge_fold [OF new(1) assms] obtain m'
    where m': "rfold (\<lambda>n m. rbind (ignore_err [] (node_GetAll conf n)) (\<lambda>kvs. rfold (\<lambda>(k, v) m. mPut (skiplistOps coins) m k v) kvs m))
        picked (mNew (skiplistOps coins)) = Inr m'" "sl_inv m'"
      "map_of (sl_pairs m') = stack (map (\<lambda>n. map_of (rev (node_kvs conf n))) picked)"
    by (auto simp: new(2))
  have "map_of (rev (node_kvs conf n)) k \<noteq> None \<longleftrightarrow> k \<in> fst ` set (node_kvs conf n)" for n k
    by (simp add: map_of_eq_None_iff)
  then show ?thesis
    using m' skip.all [of m' coins] skip.sorted [of m'] by (auto simp: pickedNodesToKVs_def stack_find)
qed

text \<open>The node over the table written from some pairs.\<close>

definition table_node :: "kv list \<Rightarrow> sst_node" where
  "table_node kvs = projr (rbind (write_table demo_conf bloomFilter demo_filter kvs) (\<lambda>(s, n, b2f, ix).
     NewNode (NewSSTReader (swDest s)) 0 1 n b2f ix))"

lemma table_node_kvs:
  assumes "table_fits demo_conf 64 kvs"
  shows "node_GetAll demo_conf (table_node kvs) = Inr kvs"
proof -
  have k: "kvs \<noteq> []" "keys_ok kvs" "table_bound (bfM demo_filter) kvs \<le> maxAlloc" "28 \<le> cfSSTFooterSize demo_conf"
    using assms by (simp_all add: table_fits_def)
  have f: "bf_inv demo_filter" "fKeyLen bloomFilter demo_filter = 0" by (simp_all add: bf_inv_def bf_KeyLen_def)
  from bloom.write_table_ok [OF f k] obtain s n b2f ix blocks fl
    where w: "write_table demo_conf bloomFilter demo_filter kvs = Inr (s, n, b2f, ix)"
      "bloom.finished demo_conf (bfM demo_filter) blocks fl (s, n, b2f, ix)" "concat blocks = kvs" by (metis prod_cases4)
  have "keys_ok (concat blocks)" using k(2) w(3) by simp
  note rd = bloom.reopen_ok(4) [OF w(2) this disjI1 [OF refl]]
  have "table_node kvs = \<lparr>ndLevel = 0, ndSeq = 1, ndSize = n, ndBlockToFilter = b2f, ndIndex = ix,
     ndStartKey = ixKey (hd ix), ndEndKey = ixKey (last ix), ndReader = NewSSTReader (swDest s)\<rparr>"
    by (simp add: table_node_def w(1) bloom.finished_node [OF w(2)])
  then show ?thesis using rd w(3) by (simp add: node_GetAll_def)
qed

text \<open>Two tables that both have the key 2, and between them a node whose file cannot be read.\<close>

theorem merge_newest_wins_witness:
  "\<exists>all. pickedNodesToKVs demo_conf (skiplistOps (\<lambda>_. 0))
      [table_node [([1], [10]), ([2], [20])], span [1] [3], table_node [([2], [21]), ([3], [30])]] = Inr all
    \<and> map_of all [1] = Some [10] \<and> map_of all [2] = Some [21] \<and> map_of all [3] = Some [30] \<and> map_of all [4] = None"
proof -
  let ?a = "table_node [([1], [10]), ([2], [20])]" and ?b = "table_node [([2], [21]), ([3], [30])]"
  have fits: "table_fits demo_conf 64 [([1], [10]), ([2], [20])]" "table_fits demo_conf 64 [([2], [21]), ([3], [30])]"
    by (simp_all add: table_fits_def demo_conf_def keys_ok_def kv_fits_def maxAlloc_def table_bound_def list_less_def)
  have e: "node_GetAll demo_conf (span [1] [3]) = Inl (Err ''invalid argument'')"
    by (simp add: node_GetAll_def span_def sr_ReadData_def NewSSTReader_def sr_readFooter_def demo_conf_def)
  have kvs: "node_kvs demo_conf ?a = [([1], [10]), ([2], [20])]" "node_kvs demo_conf ?b = [([2], [21]), ([3], [30])]"
    "node_kvs demo_conf (span [1] [3]) = []"
    by (simp_all add: node_kvs_def e table_node_kvs [OF fits(1)] table_node_kvs [OF fits(2)])
  have "\<forall>n \<in> set [?a, span [1] [3], ?b]. node_no_panic demo_conf n"
    by (simp add: node_no_panic_def e table_node_kvs [OF fits(1)] table_node_kvs [OF fits(2)])
  from merge_newest_wins [OF this, of "\<lambda>_. 0"] show ?thesis by (auto simp: kvs)
qed

text \<open>Repaired defaults keep a store within its limits: whatever the options, a configuration has
  at least two levels, a positive table size, block size and node count per level, and a filter.\<close>

theorem NewConfig_repaired:
  "2 \<le> ucMaxLevel (NewConfig opts) \<and> 0 < ucSSTSize (NewConfig opts) \<and> 0 < ucSSTDataBlockSize (NewConfig opts)
   \<and> 0 < ucSSTNumPerLevel (NewConfig opts) \<and> ucFilter (NewConfig opts) \<noteq> None \<and> 28 \<le> cfSSTFooterSize (lsm_conf (NewConfig opts))"
  by (auto simp: NewConfig_def repair_def NewBloomFilter_def lsm_conf_def split: option.splits)

section \<open>Where compactions go wrong\<close>

text \<open>\<^verbatim>\<open>insertNodeWithReader\<close> compares the new node with the nodes from position 1 on only, so that a node
  before the first one is put behind it, and the first node is no longer found.\<close>

lemma insert_before_first_misplaced:
  "insert_loop [span [5] [6], span [8] [9]] (span [1] [2]) 0 1 = [span [5] [6], span [1] [2], span [8] [9]]"
  "levelBinarySearch [span [5] [6], span [8] [9]] [6] 0 1 = Some (span [5] [6])"
  "levelBinarySearch [span [5] [6], span [1] [2], span [8] [9]] [6] 0 2 = None"
  by (simp_all add: insert_at_def span_def list_less_def levelBinarySearch.simps)

text \<open>Two waiting memtables may be received in either order.  Flushing the younger one first drops the
  older one from the read path before it is on disk, and its later flush puts its older values on
  top.\<close>

lemma flush_out_of_order:
  assumes "trROnly t = [(i, a), (j, b)]" "i \<noteq> j" "compactMemTable conf F M t (j, b) = Inr t'"
  shows "trROnly t' = []"
proof -
  have "trROnly t1 = trROnly t" if "flushMemTable conf F M t b = Inr t1" for t1
    using that by (auto simp: flushMemTable_def open_writer_def finish_node_def insertNode_def insertNodeWithReader_def
        tryTriggerCompact_def res_simps Let_def split: if_splits)
  then show ?thesis using assms by (auto simp: compactMemTable_def res_simps)
qed

text \<open>\<^verbatim>\<open>pickCompactNodes\<close> takes the nodes that overlap the first and the middle node, but not those that
  overlap a picked node.  On level 0 a picked node may hide an older node that stays behind, and
  becomes hidden by it.\<close>

definition pick_demo :: "(bloom, Skiplist) tree" where
  "pick_demo = \<lparr>trFilter = demo_filter, trMemTable = NewSkiplist, trROnly = [],
     trNodes = [[span [3] [4], span [20] [26], span [3] [4], span [4] [26]], []], trMemTableIndex = 0,
     trLevelToSeq = [4, 0], trWals = [], trSSTs = [], trMemPending = [], trLevelPending = []\<rparr>"

lemma pick_not_transitive: "pickCompactNodes pick_demo 0 = [span [3] [4], span [3] [4], span [4] [26]]"
  by (simp add: pickCompactNodes_def pick_demo_def overlaps_def span_def list_less_def Let_def)

end
