(* ===== verification/CH_Ring.thy ===== *)
theory CH_Ring
  imports Skip_Heap Go_Binary
begin

text \<open>
  The ring of the consistent hash, \<^verbatim>\<open>components/consistent_hash\<close>: the interface \<^verbatim>\<open>HashRing\<close> of
  \<^verbatim>\<open>hash_ring.go\<close> as the record \<open>ring_ops\<close>, its contract as the locale \<open>hash_ring\<close>, and the
  skiplist ring of \<^verbatim>\<open>local/hash_ring.go\<close> as an implementation.  Scores are \<^verbatim>\<open>int32\<close> values from 0 to
  \<^verbatim>\<open>MaxInt32 - 1\<close>, kept as integers; the set of data keys of a node is a list.  The lock of the ring
  is its mutex and its owner; the timer that frees it after \<^verbatim>\<open>expireSeconds\<close> is not modelled, so an operation
  of the hash holds it from begin to end.  Error texts are given without their arguments.
\<close>

section \<open>The interface\<close>

record 'r ring_ops =
  rLock :: "'r \<Rightarrow> string \<Rightarrow> int \<Rightarrow> go_err + 'r"
  rUnlock :: "'r \<Rightarrow> string \<Rightarrow> go_err + 'r"
  rAdd :: "'r \<Rightarrow> int \<Rightarrow> string \<Rightarrow> go_err + 'r"
  rCeiling :: "'r \<Rightarrow> int \<Rightarrow> go_err + int"
  rFloor :: "'r \<Rightarrow> int \<Rightarrow> go_err + int"
  rRem :: "'r \<Rightarrow> int \<Rightarrow> string \<Rightarrow> go_err + 'r"
  rNodes :: "'r \<Rightarrow> go_err + (string \<times> nat) list"
  rAddNodeToReplica :: "'r \<Rightarrow> string \<Rightarrow> nat \<Rightarrow> go_err + 'r"
  rDeleteNodeToReplica :: "'r \<Rightarrow> string \<Rightarrow> go_err + 'r"
  rNode :: "'r \<Rightarrow> int \<Rightarrow> go_err + string list"
  rDataKeys :: "'r \<Rightarrow> string \<Rightarrow> go_err + string list"
  rAddNodeToDataKeys :: "'r \<Rightarrow> string \<Rightarrow> string list \<Rightarrow> go_err + 'r"
  rDeleteNodeToDataKeys :: "'r \<Rightarrow> string \<Rightarrow> string list \<Rightarrow> go_err + 'r"

section \<open>The skiplist ring\<close>

record SkiplistHashRing =
  rgLocked :: bool
  rgOwner :: string
  rgNodes :: "(int, string list) skipNode list"
  nodeToReplicas :: "(string \<times> nat) list"
  nodeToDataKey :: "string \<rightharpoonup> string list"

definition NewSkiplistHashRing :: SkiplistHashRing where
  "NewSkiplistHashRing =
     \<lparr>rgLocked = False, rgOwner = [], rgNodes = [\<lparr>snNexts = [], snKey = 0, snValue = []\<rparr>], nodeToReplicas = [], nodeToDataKey = Map.empty\<rparr>"

text \<open>The lock: \<^verbatim>\<open>Lock\<close> waits while the mutex is taken, which a run of one operation after the other
  never does; it takes the caller's process and goroutine as the owner.\<close>

definition rg_Lock :: "SkiplistHashRing \<Rightarrow> string \<Rightarrow> int \<Rightarrow> go_err + SkiplistHashRing" where
  "rg_Lock s token expireSeconds =
     (if rgLocked s then Inl (Panic ''waits for the lock'') else Inr (s\<lparr>rgLocked := True, rgOwner := token\<rparr>))"

definition rg_Unlock :: "SkiplistHashRing \<Rightarrow> string \<Rightarrow> go_err + SkiplistHashRing" where
  "rg_Unlock s token =
     (if rgOwner s \<noteq> token then Inl (Err ''not your lock'')
      else if \<not> rgLocked s then Inl (Panic ''unlock of unlocked mutex'')
      else Inr (s\<lparr>rgOwner := [], rgLocked := False\<rparr>))"

abbreviation root_height :: "SkiplistHashRing \<Rightarrow> nat" where
  "root_height s \<equiv> length (snNexts (rgNodes s ! 0))"

definition rg_get :: "SkiplistHashRing \<Rightarrow> int \<Rightarrow> go_err + nat option" where
  "rg_get s score = getNode_loop (rgNodes s) score (root_height s) 0"

text \<open>\<open>coins n\<close>: how often \<^verbatim>\<open>Intn(2)\<close> returns 1 in a row when there are \<open>n\<close> allocated nodes.\<close>

definition rg_Add :: "(nat \<Rightarrow> nat) \<Rightarrow> SkiplistHashRing \<Rightarrow> int \<Rightarrow> string \<Rightarrow> go_err + SkiplistHashRing" where
  "rg_Add coins s score nodeID =
     rbind (rg_get s score) (\<lambda>target.
       case target of
         Some a \<Rightarrow>
           let ids = snValue (rgNodes s ! a)
           in if nodeID \<in> set ids then Inr s
              else Inr (s\<lparr>rgNodes := (rgNodes s)[a := (rgNodes s ! a)\<lparr>snValue := ids @ [nodeID]\<rparr>]\<rparr>)
       | None \<Rightarrow>
           let rLevel = coins (length (rgNodes s)); h = rLevel + 1;
               nodes = (if root_height s < h then extend_head (rgNodes s) h else rgNodes s)
           in rbind (link_loop (nodes @ [\<lparr>snNexts = replicate h None, snKey = score, snValue = [nodeID]\<rparr>]) score (length nodes) h 0)
                (\<lambda>nodes. Inr (s\<lparr>rgNodes := nodes\<rparr>)))"

definition rg_ceiling :: "SkiplistHashRing \<Rightarrow> int \<Rightarrow> go_err + int option" where
  "rg_ceiling s score =
     (if root_height s = 0 then Inr None
      else rbind (walk_down (rgNodes s) (\<lambda>k. k < score) (root_height s) 0) (\<lambda>move.
           rbind (go_nth (snNexts (rgNodes s ! move)) 0) (\<lambda>nx.
             Inr (map_option (\<lambda>b. snKey (rgNodes s ! b)) nx))))"

text \<open>\<^verbatim>\<open>root.nexts[0]\<close> may not be \<^verbatim>\<open>nil\<close> here.\<close>

definition rg_first :: "SkiplistHashRing \<Rightarrow> go_err + int" where
  "rg_first s =
     (case snNexts (rgNodes s ! 0) of
        [] \<Rightarrow> Inr (- 1)
      | Some b # _ \<Rightarrow> Inr (snKey (rgNodes s ! b))
      | None # _ \<Rightarrow> Inl (Panic ''nil pointer dereference''))"

definition rg_Ceiling :: "SkiplistHashRing \<Rightarrow> int \<Rightarrow> go_err + int" where
  "rg_Ceiling s score = rbind (rg_ceiling s score) (\<lambda>t. case t of Some x \<Rightarrow> Inr x | None \<Rightarrow> rg_first s)"

definition rg_floor :: "SkiplistHashRing \<Rightarrow> int \<Rightarrow> go_err + int option" where
  "rg_floor s score =
     (if root_height s = 0 then Inr None
      else rbind (walk_down (rgNodes s) (\<lambda>k. k < score) (root_height s) 0) (\<lambda>move.
           rbind (go_nth (snNexts (rgNodes s ! move)) 0) (\<lambda>nx.
             if (case nx of Some b \<Rightarrow> snKey (rgNodes s ! b) = score | None \<Rightarrow> False) then Inr (Some score)
             else if move = 0 then Inr None
             else Inr (Some (snKey (rgNodes s ! move))))))"

definition rg_last :: "SkiplistHashRing \<Rightarrow> go_err + int" where
  "rg_last s =
     rbind (walk_down (rgNodes s) (\<lambda>_. True) (root_height s) 0) (\<lambda>move.
       Inr (if move = 0 then - 1 else snKey (rgNodes s ! move)))"

definition rg_Floor :: "SkiplistHashRing \<Rightarrow> int \<Rightarrow> go_err + int" where
  "rg_Floor s score = rbind (rg_floor s score) (\<lambda>t. case t of Some x \<Rightarrow> Inr x | None \<Rightarrow> rg_last s)"

definition rg_Rem :: "SkiplistHashRing \<Rightarrow> int \<Rightarrow> string \<Rightarrow> go_err + SkiplistHashRing" where
  "rg_Rem s score nodeID =
     rbind (rg_get s score) (\<lambda>target.
       case target of
         None \<Rightarrow> Inl (Err ''score not exist'')
       | Some a \<Rightarrow>
           let ids = snValue (rgNodes s ! a) in
           if nodeID \<notin> set ids then Inl (Err ''node not exist in score'')
           else let s = s\<lparr>nodeToDataKey := (nodeToDataKey s)(nodeID := None)\<rparr> in
             if length ids > 1
             then Inr (s\<lparr>rgNodes := (rgNodes s)[a := (rgNodes s ! a)\<lparr>snValue := remove1 nodeID ids\<rparr>]\<rparr>)
             else rbind (unlink_loop (rgNodes s) score (root_height s) 0) (\<lambda>nodes. Inr (s\<lparr>rgNodes := trim_head nodes\<rparr>)))"

definition rg_Nodes :: "SkiplistHashRing \<Rightarrow> go_err + (string \<times> nat) list" where
  "rg_Nodes s = Inr (nodeToReplicas s)"

definition rg_AddNodeToReplica :: "SkiplistHashRing \<Rightarrow> string \<Rightarrow> nat \<Rightarrow> go_err + SkiplistHashRing" where
  "rg_AddNodeToReplica s nodeID replicas = Inr (s\<lparr>nodeToReplicas := upd_al nodeID replicas (nodeToReplicas s)\<rparr>)"

definition rg_DeleteNodeToReplica :: "SkiplistHashRing \<Rightarrow> string \<Rightarrow> go_err + SkiplistHashRing" where
  "rg_DeleteNodeToReplica s nodeID = Inr (s\<lparr>nodeToReplicas := del_al nodeID (nodeToReplicas s)\<rparr>)"

definition rg_Node :: "SkiplistHashRing \<Rightarrow> int \<Rightarrow> go_err + string list" where
  "rg_Node s score =
     rbind (rg_get s score) (\<lambda>target.
       case target of None \<Rightarrow> Inl (Err ''score not exist'') | Some a \<Rightarrow> Inr (snValue (rgNodes s ! a)))"

definition rg_DataKeys :: "SkiplistHashRing \<Rightarrow> string \<Rightarrow> go_err + string list" where
  "rg_DataKeys s nodeID = Inr (case nodeToDataKey s nodeID of None \<Rightarrow> [] | Some ks \<Rightarrow> ks)"

definition rg_AddNodeToDataKeys :: "SkiplistHashRing \<Rightarrow> string \<Rightarrow> string list \<Rightarrow> go_err + SkiplistHashRing" where
  "rg_AddNodeToDataKeys s nodeID dataKeys =
     (let old = (case nodeToDataKey s nodeID of None \<Rightarrow> [] | Some ks \<Rightarrow> ks)
      in Inr (s\<lparr>nodeToDataKey := (nodeToDataKey s)(nodeID \<mapsto> fold List.insert dataKeys old)\<rparr>))"

definition rg_DeleteNodeToDataKeys :: "SkiplistHashRing \<Rightarrow> string \<Rightarrow> string list \<Rightarrow> go_err + SkiplistHashRing" where
  "rg_DeleteNodeToDataKeys s nodeID dataKeys =
     (case nodeToDataKey s nodeID of
        None \<Rightarrow> Inr s
      | Some old \<Rightarrow>
          let new = filter (\<lambda>k. k \<notin> set dataKeys) old
          in Inr (s\<lparr>nodeToDataKey := (nodeToDataKey s)(nodeID := (if new = [] then None else Some new))\<rparr>))"

definition skiplistRing :: "(nat \<Rightarrow> nat) \<Rightarrow> SkiplistHashRing ring_ops" where
  "skiplistRing coins = \<lparr>rLock = rg_Lock, rUnlock = rg_Unlock, rAdd = rg_Add coins, rCeiling = rg_Ceiling, rFloor = rg_Floor, rRem = rg_Rem, rNodes = rg_Nodes,
     rAddNodeToReplica = rg_AddNodeToReplica, rDeleteNodeToReplica = rg_DeleteNodeToReplica, rNode = rg_Node,
     rDataKeys = rg_DataKeys, rAddNodeToDataKeys = rg_AddNodeToDataKeys, rDeleteNodeToDataKeys = rg_DeleteNodeToDataKeys\<rparr>"

section \<open>The contract\<close>

text \<open>A ring is a sorted table of scores, each with the virtual nodes at it in order of arrival.\<close>

type_synonym ring_tab = "(int \<times> string list) list"

definition tab_ok :: "ring_tab \<Rightarrow> bool" where
  "tab_ok t \<longleftrightarrow> sorted_wrt (<) (map fst t) \<and> (\<forall>e \<in> set t. snd e \<noteq> [] \<and> distinct (snd e))"

definition tab_ids :: "ring_tab \<Rightarrow> int \<Rightarrow> string list" where
  "tab_ids t s = (case map_of t s of None \<Rightarrow> [] | Some ks \<Rightarrow> ks)"

definition tab_add :: "int \<Rightarrow> string \<Rightarrow> ring_tab \<Rightarrow> ring_tab" where
  "tab_add s k t = (if k \<in> set (tab_ids t s) then t else ins_kv s (tab_ids t s @ [k]) t)"

definition tab_rem :: "int \<Rightarrow> string \<Rightarrow> ring_tab \<Rightarrow> ring_tab" where
  "tab_rem s k t =
     (if length (tab_ids t s) > 1 then ins_kv s (remove1 k (tab_ids t s)) t else filter (\<lambda>e. fst e \<noteq> s) t)"

text \<open>The next score on the circle, and the previous one; -1 on an empty ring.\<close>

definition tab_ceiling :: "ring_tab \<Rightarrow> int \<Rightarrow> int" where
  "tab_ceiling t s = (case filter (\<lambda>e. s \<le> fst e) t of e # _ \<Rightarrow> fst e | [] \<Rightarrow> (case t of e # _ \<Rightarrow> fst e | [] \<Rightarrow> - 1))"

definition tab_floor :: "ring_tab \<Rightarrow> int \<Rightarrow> int" where
  "tab_floor t s =
     (if filter (\<lambda>e. fst e \<le> s) t \<noteq> [] then fst (last (filter (\<lambda>e. fst e \<le> s) t))
      else if t \<noteq> [] then fst (last t) else - 1)"

record ring_view =
  vTab :: ring_tab
  vReps :: "string \<rightharpoonup> nat"
  vData :: "string \<Rightarrow> string set"
  vHeld :: "string option"

locale hash_ring =
  fixes R :: "'r ring_ops" and rinv :: "'r \<Rightarrow> bool" and view :: "'r \<Rightarrow> ring_view"
  assumes tab_ok: "rinv r \<Longrightarrow> tab_ok (vTab (view r))"
    and lock: "rinv r \<Longrightarrow> vHeld (view r) = None \<Longrightarrow>
      \<exists>r'. rLock R r tok e = Inr r' \<and> rinv r' \<and> view r' = (view r)\<lparr>vHeld := Some tok\<rparr>"
    and unlock: "rinv r \<Longrightarrow> vHeld (view r) = Some tok \<Longrightarrow>
      \<exists>r'. rUnlock R r tok = Inr r' \<and> rinv r' \<and> view r' = (view r)\<lparr>vHeld := None\<rparr>"
    and add: "rinv r \<Longrightarrow> \<exists>r'. rAdd R r s k = Inr r' \<and> rinv r' \<and> view r' = (view r)\<lparr>vTab := tab_add s k (vTab (view r))\<rparr>"
    and ceiling: "rinv r \<Longrightarrow> rCeiling R r s = Inr (tab_ceiling (vTab (view r)) s)"
    and floor: "rinv r \<Longrightarrow> rFloor R r s = Inr (tab_floor (vTab (view r)) s)"
    and rem: "rinv r \<Longrightarrow> k \<in> set (tab_ids (vTab (view r)) s) \<Longrightarrow>
      \<exists>r' D. rRem R r s k = Inr r' \<and> rinv r' \<and> view r' = (view r)\<lparr>vTab := tab_rem s k (vTab (view r)), vData := D\<rparr>
        \<and> (\<forall>m. m \<noteq> k \<longrightarrow> D m = vData (view r) m) \<and> D k \<subseteq> vData (view r) k"
    and nodes: "rinv r \<Longrightarrow> \<exists>ns. rNodes R r = Inr ns \<and> map_of ns = vReps (view r)"
    and add_replica: "rinv r \<Longrightarrow>
      \<exists>r'. rAddNodeToReplica R r n c = Inr r' \<and> rinv r' \<and> view r' = (view r)\<lparr>vReps := (vReps (view r))(n \<mapsto> c)\<rparr>"
    and delete_replica: "rinv r \<Longrightarrow>
      \<exists>r'. rDeleteNodeToReplica R r n = Inr r' \<and> rinv r' \<and> view r' = (view r)\<lparr>vReps := (vReps (view r))(n := None)\<rparr>"
    and node: "rinv r \<Longrightarrow> tab_ids (vTab (view r)) s \<noteq> [] \<Longrightarrow> rNode R r s = Inr (tab_ids (vTab (view r)) s)"
    and data_keys: "rinv r \<Longrightarrow> \<exists>ks. rDataKeys R r n = Inr ks \<and> set ks = vData (view r) n"
    and add_data: "rinv r \<Longrightarrow> \<exists>r'. rAddNodeToDataKeys R r n ks = Inr r' \<and> rinv r'
        \<and> view r' = (view r)\<lparr>vData := (vData (view r))(n := vData (view r) n \<union> set ks)\<rparr>"
    and delete_data: "rinv r \<Longrightarrow> \<exists>r'. rDeleteNodeToDataKeys R r n ks = Inr r' \<and> rinv r'
        \<and> view r' = (view r)\<lparr>vData := (vData (view r))(n := vData (view r) n - set ks)\<rparr>"

section \<open>The skiplist ring keeps it\<close>

definition rg_xs :: "SkiplistHashRing \<Rightarrow> nat list \<Rightarrow> bool" where
  "rg_xs s xs \<longleftrightarrow> nodes_ok (rgNodes s) xs \<and> (\<forall>l < root_height s. \<exists>a \<in> set xs. l < ht (rgNodes s) a)
     \<and> (\<forall>a \<in> set xs. snValue (rgNodes s ! a) \<noteq> [] \<and> distinct (snValue (rgNodes s ! a)))"

definition rg_inv :: "SkiplistHashRing \<Rightarrow> bool" where
  "rg_inv s \<longleftrightarrow> (\<exists>xs. rg_xs s xs)"

text \<open>The table, read along level 0.\<close>

fun level0 :: "nat \<Rightarrow> (int, string list) skipNode list \<Rightarrow> nat \<Rightarrow> ring_tab" where
  "level0 0 nodes a = []"
| "level0 (Suc n) nodes a =
     (case snNexts (nodes ! a) of Some b # _ \<Rightarrow> (snKey (nodes ! b), snValue (nodes ! b)) # level0 n nodes b | _ \<Rightarrow> [])"

definition rg_tab :: "SkiplistHashRing \<Rightarrow> ring_tab" where
  "rg_tab s = level0 (length (rgNodes s)) (rgNodes s) 0"

definition rg_view :: "SkiplistHashRing \<Rightarrow> ring_view" where
  "rg_view s = \<lparr>vTab = rg_tab s, vReps = map_of (nodeToReplicas s),
     vData = (\<lambda>n. case nodeToDataKey s n of None \<Rightarrow> {} | Some ks \<Rightarrow> set ks),
     vHeld = (if rgLocked s then Some (rgOwner s) else None)\<rparr>"

lemma level0_chain: "chain nodes 0 a bs \<Longrightarrow> length bs < n \<Longrightarrow> level0 n nodes a = map (kv_of nodes) bs"
proof (induction bs arbitrary: a n)
  case Nil
  then show ?case by (cases n; cases "snNexts (nodes ! a)") auto
next
  case (Cons b bs)
  then show ?case by (cases n; cases "snNexts (nodes ! a)") auto
qed

lemma rg_tab_xs:
  assumes "rg_xs s xs"
  shows "rg_tab s = map (kv_of (rgNodes s)) xs"
proof -
  have ok: "nodes_ok (rgNodes s) xs" using assms by (simp add: rg_xs_def)
  show ?thesis
  proof (cases "root_height s = 0")
    case True
    then have "xs = []" using ok by (auto simp: nodes_ok_def intro: ccontr)
    then show ?thesis using True by (cases "length (rgNodes s)") (simp_all add: rg_tab_def)
  next
    case False
    have "filter (\<lambda>a. 0 < ht (rgNodes s) a) xs = xs" using ok by (simp add: nodes_ok_def filter_id_conv)
    then have "chain (rgNodes s) 0 0 xs" using nodes_okD(3) [OF ok, of 0] False by simp
    then show ?thesis using level0_chain nodes_okD(2) [OF ok] by (simp add: rg_tab_def)
  qed
qed


lemma rg_get_ok: "rg_xs s xs \<Longrightarrow> rg_get s score = Inr (find (\<lambda>b. key_of (rgNodes s) b = score) xs)"
  by (simp add: rg_get_def rg_xs_def getNode_head)

lemma rg_ids_found:
  assumes "rg_xs s xs"
  shows "tab_ids (rg_tab s) score = (case find (\<lambda>b. key_of (rgNodes s) b = score) xs of None \<Rightarrow> [] | Some a \<Rightarrow> snValue (rgNodes s ! a))"
  by (simp add: tab_ids_def rg_tab_xs [OF assms] map_of_find split: option.split)

lemma rg_xs_sorted: "rg_xs s xs \<Longrightarrow> sorted_wrt (<) (map fst (map (kv_of (rgNodes s)) xs))"
  by (simp add: rg_xs_def nodes_okD(1) sorted_wrt_map)

lemma rg_tab_ok:
  assumes "rg_inv s"
  shows "tab_ok (rg_tab s)"
proof -
  obtain xs where xs: "rg_xs s xs" using assms by (auto simp: rg_inv_def)
  then have "\<forall>a \<in> set xs. snValue (rgNodes s ! a) \<noteq> [] \<and> distinct (snValue (rgNodes s ! a))" by (simp add: rg_xs_def)
  then show ?thesis using rg_xs_sorted [OF xs] by (simp add: tab_ok_def rg_tab_xs [OF xs])
qed

text \<open>The operations change the table only through the node list.\<close>

lemma rg_set_value:
  assumes xs: "rg_xs s xs" and a: "a \<in> set xs" and v: "v \<noteq> []" "distinct v"
  defines "s' \<equiv> s\<lparr>rgNodes := (rgNodes s)[a := (rgNodes s ! a)\<lparr>snValue := v\<rparr>]\<rparr>"
  shows "rg_xs s' xs" "rg_tab s' = ins_kv (key_of (rgNodes s) a) v (rg_tab s)"
proof -
  have ok: "nodes_ok (rgNodes s) xs" using xs by (simp add: rg_xs_def)
  note sv = set_value_ok [OF ok a, where val = v]
  have lt: "a < length (rgNodes s)" using ok a by (auto simp: nodes_ok_def)
  have vals: "snValue ((rgNodes s)[a := (rgNodes s ! a)\<lparr>snValue := v\<rparr>] ! b) = (if b = a then v else snValue (rgNodes s ! b))" for b
    using lt by (simp add: nth_list_update)
  show x': "rg_xs s' xs" using xs sv(1,3) v by (simp add: rg_xs_def s'_def vals)
  show "rg_tab s' = ins_kv (key_of (rgNodes s) a) v (rg_tab s)"
    using sv(2) rg_tab_xs [OF x'] rg_tab_xs [OF xs] by (simp add: s'_def)
qed

lemma rg_Add_ok:
  assumes "rg_inv s"
  shows "\<exists>s'. rg_Add coins s score k = Inr s' \<and> rg_inv s' \<and> rg_tab s' = tab_add score k (rg_tab s)
    \<and> nodeToReplicas s' = nodeToReplicas s \<and> nodeToDataKey s' = nodeToDataKey s \<and> rgLocked s' = rgLocked s \<and> rgOwner s' = rgOwner s"
proof -
  obtain xs where xs: "rg_xs s xs" using assms by (auto simp: rg_inv_def)
  then have ok: "nodes_ok (rgNodes s) xs" by (simp add: rg_xs_def)
  show ?thesis
  proof (cases "find (\<lambda>b. key_of (rgNodes s) b = score) xs")
    case (Some a)
    then have a: "a \<in> set xs" "key_of (rgNodes s) a = score" by (auto simp: find_Some_iff)
    have ids: "tab_ids (rg_tab s) score = snValue (rgNodes s ! a)" using rg_ids_found [OF xs] Some by simp
    show ?thesis
    proof (cases "k \<in> set (snValue (rgNodes s ! a))")
      case True
      then show ?thesis using assms Some ids by (simp add: rg_Add_def rg_get_ok [OF xs] tab_add_def)
    next
      case False
      have v: "distinct (snValue (rgNodes s ! a) @ [k])" using xs a(1) False by (simp add: rg_xs_def)
      note sv = rg_set_value [OF xs a(1) _ v]
      have "rg_inv (s\<lparr>rgNodes := (rgNodes s)[a := (rgNodes s ! a)\<lparr>snValue := snValue (rgNodes s ! a) @ [k]\<rparr>]\<rparr>)"
        using sv(1) by (auto simp: rg_inv_def)
      then show ?thesis using Some False ids a(2) sv(2) by (simp add: rg_Add_def rg_get_ok [OF xs] tab_add_def)
    qed
  next
    case None
    then have fresh: "\<forall>a \<in> set xs. key_of (rgNodes s) a \<noteq> score" by (simp add: find_None_iff)
    define h where "h = coins (length (rgNodes s)) + 1"
    define g where "g = (if root_height s < h then extend_head (rgNodes s) h else rgNodes s)"
    note ext = extend_head_ok [OF ok, where n = h]
    have g: "nodes_ok g xs" "h \<le> ht g 0" "\<And>b. kv_of g b = kv_of (rgNodes s) b" "\<And>b. b \<in> set xs \<Longrightarrow> g ! b = rgNodes s ! b"
      "ht g 0 = max (root_height s) h"
      using ext ok by (auto simp: g_def)
    have "\<forall>a \<in> set xs. key_of g a \<noteq> score" using fresh g(3) by simp
    from insert_node_ok [OF g(1) _ g(2) this, of "[k]"] obtain nodes' xs'
      where l: "link_loop (g @ [\<lparr>snNexts = replicate h None, snKey = score, snValue = [k]\<rparr>]) score (length g) h 0 = Inr nodes'"
        "nodes_ok nodes' xs'" "map (kv_of nodes') xs' = ins_kv score [k] (map (kv_of (rgNodes s)) xs)" "ht nodes' 0 = ht g 0"
        "\<forall>l < ht g 0. (\<exists>a \<in> set xs. l < ht g a) \<or> l < h \<longrightarrow> (\<exists>a \<in> set xs'. l < ht nodes' a)"
      by (auto simp: h_def g(3))
    let ?s = "s\<lparr>rgNodes := nodes'\<rparr>"
    have set': "set (map (kv_of nodes') xs') \<subseteq> insert (score, [k]) (set (map (kv_of (rgNodes s)) xs))"
      unfolding l(3) by (rule set_ins_kv_subset)
    have vals: "snValue (nodes' ! a) \<noteq> [] \<and> distinct (snValue (nodes' ! a))" if "a \<in> set xs'" for a
    proof -
      have "kv_of nodes' a \<in> insert (score, [k]) (set (map (kv_of (rgNodes s)) xs))" using that set' by auto
      then show ?thesis using xs by (auto simp: rg_xs_def)
    qed
    have lev: "\<exists>a \<in> set xs'. l < ht nodes' a" if "l < ht nodes' 0" for l
    proof (cases "l < root_height s")
      case True
      then obtain a where "a \<in> set xs" "l < ht (rgNodes s) a" using xs by (auto simp: rg_xs_def)
      then show ?thesis using l(4,5) that g(4) by metis
    next
      case False
      then show ?thesis using l(4,5) that g(5) by (metis less_max_iff_disj)
    qed
    have x': "rg_xs ?s xs'" using l(2) vals lev by (simp add: rg_xs_def)
    have "rg_tab ?s = tab_add score k (rg_tab s)"
      using rg_tab_xs [OF x'] l(3) rg_tab_xs [OF xs] rg_ids_found [OF xs, of score] None by (simp add: tab_add_def)
    moreover have "rg_Add coins s score k = Inr ?s"
      unfolding rg_Add_def rg_get_ok [OF xs] None rbind_Inr option.case Let_def h_def [symmetric] g_def [symmetric] l(1) ..
    ultimately show ?thesis using x' by (auto simp: rg_inv_def)
  qed
qed

lemma rg_Rem_ok:
  assumes "rg_inv s" "k \<in> set (tab_ids (rg_tab s) score)"
  shows "\<exists>s'. rg_Rem s score k = Inr s' \<and> rg_inv s' \<and> rg_tab s' = tab_rem score k (rg_tab s)
    \<and> nodeToReplicas s' = nodeToReplicas s \<and> nodeToDataKey s' = (nodeToDataKey s)(k := None) \<and> rgLocked s' = rgLocked s
    \<and> rgOwner s' = rgOwner s"
proof -
  obtain xs where xs: "rg_xs s xs" using assms by (auto simp: rg_inv_def)
  then have ok: "nodes_ok (rgNodes s) xs" by (simp add: rg_xs_def)
  obtain a where a: "find (\<lambda>b. key_of (rgNodes s) b = score) xs = Some a" "k \<in> set (snValue (rgNodes s ! a))"
    "tab_ids (rg_tab s) score = snValue (rgNodes s ! a)"
    using assms(2) rg_ids_found [OF xs, of score] by (auto split: option.splits)
  then have ax: "a \<in> set xs" "key_of (rgNodes s) a = score" by (auto simp: find_Some_iff)
  let ?d = "s\<lparr>nodeToDataKey := (nodeToDataKey s)(k := None)\<rparr>"
  have xd: "rg_xs ?d xs" using xs by (simp add: rg_xs_def)
  have td: "rg_tab ?d = rg_tab s" by (simp add: rg_tab_def)
  show ?thesis
  proof (cases "length (snValue (rgNodes s ! a)) > 1")
    case True
    define v where "v = remove1 k (snValue (rgNodes s ! a))"
    have "length v = length (snValue (rgNodes s ! a)) - 1" using a(2) by (simp add: v_def length_remove1)
    then have v: "v \<noteq> []" "distinct v" using True xs ax(1) by (auto simp: v_def rg_xs_def)
    note sv = rg_set_value [OF xd ax(1) v]
    have "rg_Rem s score k = Inr (?d\<lparr>rgNodes := (rgNodes s)[a := (rgNodes s ! a)\<lparr>snValue := v\<rparr>]\<rparr>)"
      using a(1,2) True by (simp add: rg_Rem_def rg_get_ok [OF xs] v_def Let_def)
    then show ?thesis using sv True a(3) ax(2) td by (auto simp: rg_inv_def tab_rem_def v_def)
  next
    case False
    from remove_node_ok [OF ok ax] obtain n where n: "unlink_loop (rgNodes s) score (root_height s) 0 = Inr n"
      "nodes_ok (trim_head n) (remove1 a xs)"
      "map (kv_of (trim_head n)) (remove1 a xs) = filter (\<lambda>kv. fst kv \<noteq> score) (map (kv_of (rgNodes s)) xs)"
      "\<forall>l < ht (trim_head n) 0. \<exists>b \<in> set (remove1 a xs). l < ht (trim_head n) b" by blast
    let ?s = "?d\<lparr>rgNodes := trim_head n\<rparr>"
    have "snValue (trim_head n ! b) \<noteq> [] \<and> distinct (snValue (trim_head n ! b))" if "b \<in> set (remove1 a xs)" for b
    proof -
      have "kv_of (trim_head n) b \<in> set (filter (\<lambda>kv. fst kv \<noteq> score) (map (kv_of (rgNodes s)) xs))"
        unfolding n(3) [symmetric] using that unfolding set_map by (rule imageI)
      then show ?thesis using xs by (auto simp: rg_xs_def)
    qed
    then have x': "rg_xs ?s (remove1 a xs)" using n(2,4) by (simp add: rg_xs_def)
    have "rg_tab ?s = tab_rem score k (rg_tab s)"
      using rg_tab_xs [OF x'] n(3) rg_tab_xs [OF xs] False a(3) by (simp add: tab_rem_def)
    moreover have "rg_Rem s score k = Inr ?s" using a(1,2) False n(1) by (simp add: rg_Rem_def rg_get_ok [OF xs] Let_def)
    ultimately show ?thesis using x' by (auto simp: rg_inv_def)
  qed
qed


lemma walk_less:
  assumes "nodes_ok nodes xs" "0 < ht nodes 0" "downward p"
  shows "walk_down nodes p (ht nodes 0) 0 = Inr (last (0 # filter (\<lambda>b. p (key_of nodes b)) xs))"
    "chain nodes 0 (last (0 # filter (\<lambda>b. p (key_of nodes b)) xs)) (filter (\<lambda>b. \<not> p (key_of nodes b)) xs)"
proof -
  note l0 = ahead_level0 [OF assms(1), where p = p]
  show "walk_down nodes p (ht nodes 0) 0 = Inr (last (0 # filter (\<lambda>b. p (key_of nodes b)) xs))"
    using walk_down_ok [OF assms(1,3) order_refl _ assms(2), of 0] by (simp add: l0 del: last.simps)
  show "chain nodes 0 (last (0 # filter (\<lambda>b. p (key_of nodes b)) xs)) (filter (\<lambda>b. \<not> p (key_of nodes b)) xs)"
    using level_step(2) [OF nodes_okD(1) [OF assms(1)] assms(3) nodes_okD(3) [OF assms(1,2)], of 0 "length nodes"] nodes_okD(2) [OF assms(1)]
    by (simp add: l0 del: last.simps)
qed

lemma rg_empty: "rg_xs s xs \<Longrightarrow> root_height s = 0 \<longleftrightarrow> xs = []"
  by (auto simp: rg_xs_def nodes_ok_def intro: ccontr)

lemma rg_Ceiling_ok:
  assumes "rg_inv s"
  shows "rg_Ceiling s score = Inr (tab_ceiling (rg_tab s) score)"
proof -
  obtain xs where xs: "rg_xs s xs" using assms by (auto simp: rg_inv_def)
  then have ok: "nodes_ok (rgNodes s) xs" by (simp add: rg_xs_def)
  note tab = rg_tab_xs [OF xs]
  show ?thesis
  proof (cases "xs = []")
    case True
    then have "snNexts (rgNodes s ! 0) = []" using rg_empty [OF xs] by simp
    then show ?thesis using tab True by (simp add: rg_Ceiling_def rg_ceiling_def rg_first_def tab_ceiling_def)
  next
    case False
    then have pos: "0 < root_height s" using rg_empty [OF xs] by simp
    let ?ge = "filter (\<lambda>b. \<not> key_of (rgNodes s) b < score) xs"
    note w = walk_less [OF ok pos downward_less(1), of score]
    have "rg_ceiling s score = Inr (case ?ge of [] \<Rightarrow> None | b # _ \<Rightarrow> Some (key_of (rgNodes s) b))"
      using pos w(1) chain_next [OF w(2)] by (simp add: rg_ceiling_def del: last.simps split: list.split)
    moreover have "rg_first s = Inr (key_of (rgNodes s) (hd xs))"
      using walk_less(2) [OF ok pos, of "\<lambda>_. False"] False
      by (cases xs; cases "snNexts (rgNodes s ! 0)") (simp_all add: rg_first_def downward_def)
    moreover have "filter (\<lambda>e. score \<le> fst e) (rg_tab s) = map (kv_of (rgNodes s)) ?ge"
      by (simp add: tab filter_map o_def not_less)
    moreover obtain y ys where y: "xs = y # ys" using False by (cases xs) auto
    then have "rg_tab s = kv_of (rgNodes s) y # map (kv_of (rgNodes s)) ys" by (simp add: tab)
    ultimately show ?thesis using y by (cases ?ge) (simp_all add: rg_Ceiling_def tab_ceiling_def)
  qed
qed

lemma hit_first:
  assumes "sorted_wrt (\<lambda>a b. f a < (f b :: int)) xs"
  shows "(case filter (\<lambda>b. \<not> f b < k) xs of b # _ \<Rightarrow> f b = k | [] \<Rightarrow> False) \<longleftrightarrow> (\<exists>b \<in> set xs. f b = k)"
  using assms by (induction xs) auto

lemma rg_Floor_ok:
  assumes "rg_inv s"
  shows "rg_Floor s score = Inr (tab_floor (rg_tab s) score)"
proof -
  obtain xs where xs: "rg_xs s xs" using assms by (auto simp: rg_inv_def)
  then have ok: "nodes_ok (rgNodes s) xs" by (simp add: rg_xs_def)
  note tab = rg_tab_xs [OF xs] and srt = nodes_okD(1) [OF ok]
  have pos_mem: "0 < b" if "b \<in> set xs" for b using ok that by (auto simp: nodes_ok_def)
  show ?thesis
  proof (cases "xs = []")
    case True
    then have "snNexts (rgNodes s ! 0) = []" using rg_empty [OF xs] by simp
    then show ?thesis using tab True by (simp add: rg_Floor_def rg_floor_def rg_last_def tab_floor_def)
  next
    case False
    then have pos: "0 < root_height s" using rg_empty [OF xs] by simp
    let ?lt = "filter (\<lambda>b. key_of (rgNodes s) b < score) xs" and ?ge = "filter (\<lambda>b. \<not> key_of (rgNodes s) b < score) xs"
    let ?le = "filter (\<lambda>b. key_of (rgNodes s) b \<le> score) xs"
    note w = walk_less [OF ok pos downward_less(1), of score]
    have le: "?le = ?lt @ filter (\<lambda>b. key_of (rgNodes s) b = score) xs"
    proof -
      have "xs = ?lt @ ?ge" by (rule sorted_split_key [OF srt]) simp
      then have "?le = filter (\<lambda>b. key_of (rgNodes s) b \<le> score) (?lt @ ?ge)" by simp
      also have "\<dots> = ?lt @ filter (\<lambda>b. key_of (rgNodes s) b = score) xs"
        by (auto simp: filter_append intro!: arg_cong2 [where f = append] filter_cong filter_True)
      finally show ?thesis .
    qed
    have hit: "(case ?ge of b # _ \<Rightarrow> key_of (rgNodes s) b = score | [] \<Rightarrow> False) \<longleftrightarrow> (\<exists>b \<in> set xs. key_of (rgNodes s) b = score)"
      using hit_first [OF srt, of score] by simp
    have floor: "rg_floor s score = Inr (if \<exists>b \<in> set xs. key_of (rgNodes s) b = score then Some score
        else if ?lt = [] then None else Some (key_of (rgNodes s) (last ?lt)))"
    proof -
      define m ge where "m = last (0 # ?lt)" and "ge = ?ge"
      have "m = 0 \<longleftrightarrow> ?lt = []" "?lt \<noteq> [] \<Longrightarrow> m = last ?lt"
        using pos_mem last_in_set [of ?lt] unfolding m_def by (auto simp del: filter_empty_conv)
      then show ?thesis
        using pos w(1) [folded m_def] chain_next [OF w(2), folded m_def ge_def] hit [folded ge_def]
        by (cases ge) (simp_all add: rg_floor_def del: filter_empty_conv)
    qed
    have last: "rg_last s = Inr (key_of (rgNodes s) (last xs))"
      using walk_less(1) [OF ok pos downward_less(2)] pos_mem [OF last_in_set [OF False]] False by (simp add: rg_last_def)
    have tle: "filter (\<lambda>e. fst e \<le> score) (rg_tab s) = map (kv_of (rgNodes s)) ?le" by (simp add: tab filter_map o_def)
    show ?thesis
    proof (cases "\<exists>b \<in> set xs. key_of (rgNodes s) b = score")
      case True
      then have ne: "filter (\<lambda>b. key_of (rgNodes s) b = score) xs \<noteq> []" by (auto simp: filter_empty_conv)
      then have "?le \<noteq> []" "key_of (rgNodes s) (last ?le) = score"
        using last_in_set [OF ne] by (simp_all add: le)
      then show ?thesis using floor True by (simp add: rg_Floor_def tab_floor_def tle last_map)
    next
      case none: False
      then have "filter (\<lambda>b. key_of (rgNodes s) b = score) xs = []" by (simp add: filter_empty_conv)
      then have "?le = ?lt" using le by simp
      then show ?thesis using floor last none False
        by (simp add: rg_Floor_def tab_floor_def tle last_map) (simp add: tab last_map)
    qed
  qed
qed


lemma rg_data_insert: "set (fold List.insert ks old) = set old \<union> set ks"
  by (induction ks arbitrary: old) auto

lemma rg_inv_updates [simp]:
  "rg_inv (s\<lparr>nodeToDataKey := m\<rparr>) = rg_inv s" "rg_tab (s\<lparr>nodeToDataKey := m\<rparr>) = rg_tab s"
  "rg_inv (s\<lparr>nodeToReplicas := c\<rparr>) = rg_inv s" "rg_tab (s\<lparr>nodeToReplicas := c\<rparr>) = rg_tab s"
  "rg_inv (s\<lparr>rgLocked := b\<rparr>) = rg_inv s" "rg_tab (s\<lparr>rgLocked := b\<rparr>) = rg_tab s"
  "rg_inv (s\<lparr>rgOwner := tok\<rparr>) = rg_inv s" "rg_tab (s\<lparr>rgOwner := tok\<rparr>) = rg_tab s"
  by (simp_all add: rg_inv_def rg_xs_def rg_tab_def)

lemma skiplistRing_sel [simp]:
  "rLock (skiplistRing coins) = rg_Lock" "rUnlock (skiplistRing coins) = rg_Unlock"
  "rAdd (skiplistRing coins) = rg_Add coins" "rCeiling (skiplistRing coins) = rg_Ceiling" "rFloor (skiplistRing coins) = rg_Floor"
  "rRem (skiplistRing coins) = rg_Rem" "rNodes (skiplistRing coins) = rg_Nodes"
  "rAddNodeToReplica (skiplistRing coins) = rg_AddNodeToReplica" "rDeleteNodeToReplica (skiplistRing coins) = rg_DeleteNodeToReplica"
  "rNode (skiplistRing coins) = rg_Node" "rDataKeys (skiplistRing coins) = rg_DataKeys"
  "rAddNodeToDataKeys (skiplistRing coins) = rg_AddNodeToDataKeys" "rDeleteNodeToDataKeys (skiplistRing coins) = rg_DeleteNodeToDataKeys"
  by (simp_all add: skiplistRing_def)

interpretation sring: hash_ring "skiplistRing coins" rg_inv rg_view for coins
proof unfold_locales
  fix r s k assume r: "rg_inv r"
  show "\<exists>r'. rAdd (skiplistRing coins) r s k = Inr r' \<and> rg_inv r' \<and> rg_view r' = (rg_view r)\<lparr>vTab := tab_add s k (vTab (rg_view r))\<rparr>"
  proof -
    from rg_Add_ok [OF r, of coins s k] obtain r' where "rg_Add coins r s k = Inr r'" "rg_inv r'" "rg_tab r' = tab_add s k (rg_tab r)"
      "nodeToReplicas r' = nodeToReplicas r" "nodeToDataKey r' = nodeToDataKey r" "rgLocked r' = rgLocked r" "rgOwner r' = rgOwner r"
      by blast
    then show ?thesis by (intro exI [of _ r']) (simp add: rg_view_def)
  qed
  show "\<exists>r' D. rRem (skiplistRing coins) r s k = Inr r' \<and> rg_inv r'
      \<and> rg_view r' = (rg_view r)\<lparr>vTab := tab_rem s k (vTab (rg_view r)), vData := D\<rparr>
      \<and> (\<forall>m. m \<noteq> k \<longrightarrow> D m = vData (rg_view r) m) \<and> D k \<subseteq> vData (rg_view r) k"
    if "k \<in> set (tab_ids (vTab (rg_view r)) s)"
  proof -
    have "k \<in> set (tab_ids (rg_tab r) s)" using that by (simp add: rg_view_def)
    from rg_Rem_ok [OF r this] obtain r' where "rg_Rem r s k = Inr r'" "rg_inv r'" "rg_tab r' = tab_rem s k (rg_tab r)"
      "nodeToReplicas r' = nodeToReplicas r" "nodeToDataKey r' = (nodeToDataKey r)(k := None)" "rgLocked r' = rgLocked r" "rgOwner r' = rgOwner r"
      by blast
    then show ?thesis by (intro exI [of _ r'] exI [of _ "vData (rg_view r')"]) (simp add: rg_view_def)
  qed
next
  fix r s assume "rg_inv r" "tab_ids (vTab (rg_view r)) s \<noteq> []"
  then show "rNode (skiplistRing coins) r s = Inr (tab_ids (vTab (rg_view r)) s)"
    by (auto simp: rg_view_def rg_Node_def rg_inv_def rg_get_ok rg_ids_found split: option.splits)
next
  fix r n assume "rg_inv r"
  show "\<exists>ks. rDataKeys (skiplistRing coins) r n = Inr ks \<and> set ks = vData (rg_view r) n"
    by (simp add: rg_DataKeys_def rg_view_def split: option.split)
next
  fix r n ks assume r: "rg_inv r"
  show "\<exists>r'. rAddNodeToDataKeys (skiplistRing coins) r n ks = Inr r' \<and> rg_inv r'
      \<and> rg_view r' = (rg_view r)\<lparr>vData := (vData (rg_view r))(n := vData (rg_view r) n \<union> set ks)\<rparr>"
    using r by (auto simp: rg_AddNodeToDataKeys_def Let_def rg_view_def fun_eq_iff rg_data_insert split: option.split)
  show "\<exists>r'. rDeleteNodeToDataKeys (skiplistRing coins) r n ks = Inr r' \<and> rg_inv r'
      \<and> rg_view r' = (rg_view r)\<lparr>vData := (vData (rg_view r))(n := vData (rg_view r) n - set ks)\<rparr>"
  proof (cases "nodeToDataKey r n")
    case None
    then have "vData (rg_view r) n = {}" by (simp add: rg_view_def)
    then have "(vData (rg_view r))(n := vData (rg_view r) n - set ks) = vData (rg_view r)" by (simp add: fun_upd_idem)
    then show ?thesis using None r by (simp add: rg_DeleteNodeToDataKeys_def)
  next
    case (Some old)
    let ?new = "filter (\<lambda>k. k \<notin> set ks) old"
    let ?r = "r\<lparr>nodeToDataKey := (nodeToDataKey r)(n := (if ?new = [] then None else Some ?new))\<rparr>"
    have "vData (rg_view ?r) = (vData (rg_view r))(n := set ?new)" 
      by (simp add: rg_view_def fun_eq_iff del: set_filter)
    moreover have "set ?new = vData (rg_view r) n - set ks" using Some by (auto simp: rg_view_def)
    ultimately have "rg_view ?r = (rg_view r)\<lparr>vData := (vData (rg_view r))(n := vData (rg_view r) n - set ks)\<rparr>"
      by (simp add: rg_view_def)
    moreover have "rDeleteNodeToDataKeys (skiplistRing coins) r n ks = Inr ?r"
      using Some by (simp add: rg_DeleteNodeToDataKeys_def Let_def)
    ultimately show ?thesis using r by (intro exI [of _ ?r]) simp
  qed
qed (simp_all add: rg_tab_ok rg_Ceiling_ok rg_Floor_ok rg_Nodes_def rg_AddNodeToReplica_def rg_DeleteNodeToReplica_def rg_Lock_def
  rg_Unlock_def rg_view_def split: if_splits)

lemma rg_new: "rg_inv NewSkiplistHashRing"
  "rg_view NewSkiplistHashRing = \<lparr>vTab = [], vReps = Map.empty, vData = (\<lambda>_. {}), vHeld = None\<rparr>"
proof -
  have "rg_xs NewSkiplistHashRing []" by (simp add: rg_xs_def NewSkiplistHashRing_def nodes_ok_def)
  then show "rg_inv NewSkiplistHashRing" by (auto simp: rg_inv_def)
  show "rg_view NewSkiplistHashRing = \<lparr>vTab = [], vReps = Map.empty, vData = (\<lambda>_. {}), vHeld = None\<rparr>"
    by (simp add: rg_view_def NewSkiplistHashRing_def rg_tab_def)
qed


section \<open>Properties\<close>

text \<open>Calls of \<^verbatim>\<open>Add\<close> and \<^verbatim>\<open>Rem\<close>; a failing call leaves the ring as it is.\<close>

datatype ring_call = CallAdd int string | CallRem int string

fun rg_call :: "(nat \<Rightarrow> nat) \<Rightarrow> ring_call \<Rightarrow> SkiplistHashRing \<Rightarrow> SkiplistHashRing" where
  "rg_call coins (CallAdd s k) r = (case rg_Add coins r s k of Inr r' \<Rightarrow> r' | Inl _ \<Rightarrow> r)"
| "rg_call coins (CallRem s k) r = (case rg_Rem r s k of Inr r' \<Rightarrow> r' | Inl _ \<Rightarrow> r)"

fun tab_call :: "ring_call \<Rightarrow> ring_tab \<Rightarrow> ring_tab" where
  "tab_call (CallAdd s k) t = tab_add s k t"
| "tab_call (CallRem s k) t = (if k \<in> set (tab_ids t s) then tab_rem s k t else t)"

lemma rg_missing:
  assumes "rg_inv r"
  shows "k \<notin> set (tab_ids (rg_tab r) s) \<Longrightarrow> \<exists>e. rg_Rem r s k = Inl (Err e)"
    "tab_ids (rg_tab r) s = [] \<Longrightarrow> \<exists>e. rg_Node r s = Inl (Err e)"
proof -
  obtain xs where xs: "rg_xs r xs" using assms by (auto simp: rg_inv_def)
  note ids = rg_ids_found [OF xs, of s] and get = rg_get_ok [OF xs, of s]
  show "\<exists>e. rg_Rem r s k = Inl (Err e)" if "k \<notin> set (tab_ids (rg_tab r) s)"
    using that ids get by (auto simp: rg_Rem_def Let_def split: option.splits)
  show "\<exists>e. rg_Node r s = Inl (Err e)" if "tab_ids (rg_tab r) s = []"
  proof (cases "find (\<lambda>b. key_of (rgNodes r) b = s) xs")
    case (Some a)
    then have "a \<in> set xs" by (auto simp: find_Some_iff)
    moreover have "snValue (rgNodes r ! a) = []" using Some that ids by simp
    ultimately show ?thesis using xs by (auto simp: rg_xs_def)
  qed (simp add: rg_Node_def get)
qed

lemma rg_call_ok:
  assumes "rg_inv r"
  shows "rg_inv (rg_call coins a r) \<and> rg_tab (rg_call coins a r) = tab_call a (rg_tab r)"
proof (cases a)
  case (CallAdd s k)
  then show ?thesis using rg_Add_ok [OF assms, of coins s k] by auto
next
  case (CallRem s k)
  then show ?thesis using rg_Rem_ok [OF assms, of k s] rg_missing(1) [OF assms, of k s] assms by (cases "k \<in> set (tab_ids (rg_tab r) s)") auto
qed

lemma rg_calls_ok:
  "rg_inv r \<Longrightarrow> rg_inv (fold (rg_call coins) as r) \<and> rg_tab (fold (rg_call coins) as r) = fold tab_call as (rg_tab r)"
  using rg_call_ok by (induction as arbitrary: r) auto

text \<open>C18: Whatever the coin flips, a skiplist ring after any sequence of \<^verbatim>\<open>Add\<close> and \<^verbatim>\<open>Rem\<close> answers like a sorted
  table of scores: \<^verbatim>\<open>Ceiling\<close> and \<^verbatim>\<open>Floor\<close> return the next and the previous score on the circle, or -1 when the
  ring is empty, and never dereference nil; \<^verbatim>\<open>Node\<close> returns the virtual nodes at a score in the order of
  their arrival, and an error where there are none.\<close>

theorem ring_is_table:
  "let r = fold (rg_call coins) as NewSkiplistHashRing; t = fold tab_call as []
   in rg_Ceiling r s = Inr (tab_ceiling t s) \<and> rg_Floor r s = Inr (tab_floor t s)
      \<and> (if tab_ids t s = [] then \<exists>e. rg_Node r s = Inl (Err e) else rg_Node r s = Inr (tab_ids t s))"
proof -
  let ?r = "fold (rg_call coins) as NewSkiplistHashRing"
  have "rg_tab NewSkiplistHashRing = []" using rg_new(2) by (simp add: rg_view_def)
  then have r: "rg_inv ?r" "rg_tab ?r = fold tab_call as []" using rg_calls_ok [OF rg_new(1), of coins as] by simp_all
  have "tab_ids (fold tab_call as []) s \<noteq> [] \<Longrightarrow> rg_Node ?r s = Inr (tab_ids (fold tab_call as []) s)"
    using sring.node [OF r(1), of s coins] r(2) by (simp add: rg_view_def)
  then show ?thesis
    using rg_Ceiling_ok [OF r(1), of s] rg_Floor_ok [OF r(1), of s] rg_missing(2) [OF r(1), of s] r(2) by (simp add: Let_def)
qed

end
