(* ===== verification/Go_State.thy ===== *)
theory Go_State
  imports Go_Prelude
begin

text \<open>
  Operations that change a state and may return early with an error: the state that a failing
  operation leaves behind is part of its result.  A step is a function from a state to a result and
  a state; \<open>sbind\<close> is the sequence with Go's \<^verbatim>\<open>if err != nil { return err }\<close>, \<open>ask\<close> runs a reading
  operation, \<open>upd\<close> one that changes the state only when it succeeds, \<open>sfold\<close> is a loop with an
  accumulator and \<open>deferred\<close> a \<^verbatim>\<open>defer\<close> whose own result is dropped.
\<close>

type_synonym ('s, 'a) go_m = "'s \<Rightarrow> (go_err + 'a) \<times> 's"

definition sret :: "'a \<Rightarrow> ('s, 'a) go_m" where
  "sret a s = (Inr a, s)"

definition sfail :: "go_err \<Rightarrow> ('s, 'a) go_m" where
  "sfail e s = (Inl e, s)"

definition sbind :: "('s, 'a) go_m \<Rightarrow> ('a \<Rightarrow> ('s, 'b) go_m) \<Rightarrow> ('s, 'b) go_m" where
  "sbind m f s = (case m s of (Inl e, s') \<Rightarrow> (Inl e, s') | (Inr a, s') \<Rightarrow> f a s')"

definition ask :: "('s \<Rightarrow> go_err + 'a) \<Rightarrow> ('s, 'a) go_m" where
  "ask f s = (f s, s)"

definition upd :: "('s \<Rightarrow> go_err + 's) \<Rightarrow> ('s, unit) go_m" where
  "upd f s = (case f s of Inl e \<Rightarrow> (Inl e, s) | Inr s' \<Rightarrow> (Inr (), s'))"

definition modify :: "('s \<Rightarrow> 's) \<Rightarrow> ('s, unit) go_m" where
  "modify f s = (Inr (), f s)"

definition deferred :: "('s, 'a) go_m \<Rightarrow> ('s, 'b) go_m \<Rightarrow> ('s, 'a) go_m" where
  "deferred m d s = (case m s of (x, s') \<Rightarrow> (x, snd (d s')))"

fun sfold :: "('x \<Rightarrow> 'a \<Rightarrow> ('s, 'a) go_m) \<Rightarrow> 'x list \<Rightarrow> 'a \<Rightarrow> ('s, 'a) go_m" where
  "sfold f [] a = sret a"
| "sfold f (x # xs) a = sbind (f x a) (sfold f xs)"

section \<open>Lemmas\<close>

named_theorems step_simps \<open>how the steps compute\<close>

lemma sret_step [simp, step_simps]: "sret a s = (Inr a, s)"
  by (simp add: sret_def)

lemma sfail_step [simp, step_simps]: "sfail e s = (Inl e, s)"
  by (simp add: sfail_def)

lemma modify_step [simp, step_simps]: "modify f s = (Inr (), f s)"
  by (simp add: modify_def)

lemma ask_step [step_simps]: "f s = x \<Longrightarrow> ask f s = (x, s)"
  by (simp add: ask_def)

lemma upd_step [step_simps]: "f s = Inr s' \<Longrightarrow> upd f s = (Inr (), s')" "f s = Inl e \<Longrightarrow> upd f s = (Inl e, s)"
  by (simp_all add: upd_def)

lemma sbind_step [step_simps]: "m s = (Inr a, s') \<Longrightarrow> sbind m f s = f a s'" "m s = (Inl e, s') \<Longrightarrow> sbind m f s = (Inl e, s')"
  by (simp_all add: sbind_def)

lemma deferred_step: "m s = (x, s') \<Longrightarrow> deferred m d s = (x, snd (d s'))"
  by (simp add: deferred_def)

lemmas run_defs = sbind_def ask_def upd_def deferred_def

lemma sbind_sret [simp]: "sbind (sret a) f = f a"
  by (simp add: sbind_def fun_eq_iff)

text \<open>A loop whose body never fails under an invariant on the accumulator, the state and the elements
  still to come.\<close>

lemma sfold_total:
  assumes "I xs a s"
    and "\<And>x xs a s. I (x # xs) a s \<Longrightarrow> \<exists>a' s'. f x a s = (Inr a', s') \<and> I xs a' s'"
  shows "\<exists>a' s'. sfold f xs a s = (Inr a', s') \<and> I [] a' s'"
  using assms(1)
proof (induction xs arbitrary: a s)
  case (Cons x xs)
  from assms(2) [OF Cons.prems] obtain a1 s1 where s1: "f x a s = (Inr a1, s1)" "I xs a1 s1" by blast
  from Cons.IH [OF s1(2)] show ?case using s1(1) by (simp add: sbind_step)
qed simp

end
