(* ===== verification/CH_Hash.thy ===== *)
theory CH_Hash
  imports CH_Ring Go_State
begin

text \<open>
  The consistent hash of \<^verbatim>\<open>components/consistent_hash\<close> over any ring: \<^verbatim>\<open>consistent_hash.go\<close>,
  \<^verbatim>\<open>migration.go\<close>, \<^verbatim>\<open>encryptor.go\<close> and \<^verbatim>\<open>option.go\<close>.  An operation takes the state of the ring and returns
  a result and the state it leaves, also when it fails.  \<^verbatim>\<open>tok\<close> is the process and goroutine of the caller.
  The calls of the migrator run in goroutines of their own, their errors and panics are dropped; they
  are returned as a list of keys, source and destination, and \<open>hasMigrator\<close> says whether one is set.
\<close>

section \<open>Numbers and names\<close>

definition MaxInt32 :: int where
  "MaxInt32 = 2147483647"

definition is_int32 :: "int \<Rightarrow> bool" where
  "is_int32 x \<longleftrightarrow> - 2147483648 \<le> x \<and> x < 2147483648"

definition LastIndex :: "string \<Rightarrow> char \<Rightarrow> int" where
  "LastIndex s c = (if c \<in> set s then int (length s) - 1 - int (length (takeWhile (\<lambda>x. x \<noteq> c) (rev s))) else - 1)"

definition getRawNodeKey :: "string \<Rightarrow> nat \<Rightarrow> string" where
  "getRawNodeKey nodeID i = nodeID @ ''_'' @ itoa i"

definition getNodeID :: "string \<Rightarrow> string" where
  "getNodeID rawNodeKey =
     (let i = LastIndex rawNodeKey CHR ''_'' in if i < 0 then rawNodeKey else take (nat i) rawNodeKey)"

definition getValidWeight :: "int \<Rightarrow> int" where
  "getValidWeight weight = (if weight \<le> 0 then 1 else if weight \<ge> 10 then 10 else weight)"

definition incrScore :: "int \<Rightarrow> int" where
  "incrScore score = (if score = MaxInt32 - 1 then 0 else s32 (score + 1))"

definition decreaseScore :: "int \<Rightarrow> int" where
  "decreaseScore score = (if score = 0 then MaxInt32 - 1 else s32 (score - 1))"

text \<open>\<^verbatim>\<open>FnvHasher\<close>.\<close>

definition fnv_Encrypt :: "string \<Rightarrow> int" where
  "fnv_Encrypt origin = s32 (uint (fnv32a (map of_char origin)) mod MaxInt32)"

section \<open>The hash and its options\<close>

record ConsistentHashOptions =
  lockExpireSeconds :: int
  optReplicas :: int

definition ch_repair :: "ConsistentHashOptions \<Rightarrow> ConsistentHashOptions" where
  "ch_repair opts =
     (let opts = (if lockExpireSeconds opts \<le> 0 then opts\<lparr>lockExpireSeconds := 15\<rparr> else opts)
      in if optReplicas opts \<le> 0 then opts\<lparr>optReplicas := 5\<rparr> else opts)"

record ConsistentHash =
  hasMigrator :: bool
  encryptor :: "string \<Rightarrow> int"
  chOpts :: ConsistentHashOptions

definition NewConsistentHash ::
  "(string \<Rightarrow> int) \<Rightarrow> bool \<Rightarrow> (ConsistentHashOptions \<Rightarrow> ConsistentHashOptions) list \<Rightarrow> ConsistentHash" where
  "NewConsistentHash enc migrator opts =
     \<lparr>hasMigrator = migrator, encryptor = enc,
      chOpts = ch_repair (fold (\<lambda>opt o'. opt o') opts \<lparr>lockExpireSeconds = 0, optReplicas = 0\<rparr>)\<rparr>"

definition WithLockExpireSeconds :: "int \<Rightarrow> ConsistentHashOptions \<Rightarrow> ConsistentHashOptions" where
  "WithLockExpireSeconds seconds opts = opts\<lparr>lockExpireSeconds := seconds\<rparr>"

definition WithReplicas :: "int \<Rightarrow> ConsistentHashOptions \<Rightarrow> ConsistentHashOptions" where
  "WithReplicas replicas opts = opts\<lparr>optReplicas := replicas\<rparr>"

section \<open>Migration\<close>

type_synonym migration = "string list \<times> string \<times> string"

text \<open>\<^verbatim>\<open>migrateIn\<close>: which of the next node's keys belong to the new virtual node.  Scores behind the origin
  of the circle are moved by \<^verbatim>\<open>MaxInt32\<close> before they are compared.\<close>

definition in_keys :: "(string \<Rightarrow> int) \<Rightarrow> int \<Rightarrow> int \<Rightarrow> int \<Rightarrow> string list \<Rightarrow> string list" where
  "in_keys enc lastScore virtualScore nextScore dataKeys =
     (let patternOne = lastScore > virtualScore; patternTwo = nextScore < virtualScore;
          lastScore = (if patternOne then s32 (lastScore - MaxInt32) else lastScore);
          virtualScore = (if patternTwo then s32 (virtualScore - MaxInt32) else virtualScore);
          lastScore = (if patternTwo then s32 (lastScore - MaxInt32) else lastScore)
      in filter (\<lambda>dataKey.
           let score = enc dataKey;
               score = (if patternOne \<and> score > s32 (lastScore + MaxInt32) then s32 (score - MaxInt32) else score);
               score = (if patternTwo then s32 (score - MaxInt32) else score)
           in \<not> (score \<le> lastScore \<or> score > virtualScore)) dataKeys)"

definition migrateIn :: "'r ring_ops \<Rightarrow> ConsistentHash \<Rightarrow> int \<Rightarrow> string \<Rightarrow> ('r, migration) go_m" where
  "migrateIn R c virtualScore nodeID =
     (if \<not> hasMigrator c then sret ([], [], [])
      else sbind (ask (\<lambda>r. rNode R r virtualScore)) (\<lambda>nodes.
        if length nodes > 1 then sret ([], [], [])
        else sbind (ask (\<lambda>r. rFloor R r (decreaseScore virtualScore))) (\<lambda>lastScore.
        if lastScore = - 1 \<or> lastScore = virtualScore then sret ([], [], [])
        else sbind (ask (\<lambda>r. rCeiling R r (incrScore virtualScore))) (\<lambda>nextScore.
        if nextScore = - 1 \<or> nextScore = virtualScore then sret ([], [], [])
        else sbind (ask (\<lambda>r. rNode R r nextScore)) (\<lambda>nextNodes.
        if nextNodes = [] then sret ([], [], [])
        else sbind (ask (\<lambda>r. rDataKeys R r (getNodeID (hd nextNodes)))) (\<lambda>dataKeys.
          let dataSet = in_keys (encryptor c) lastScore virtualScore nextScore dataKeys
          in sbind (upd (\<lambda>r. rDeleteNodeToDataKeys R r (getNodeID (hd nextNodes)) dataSet)) (\<lambda>_.
             sbind (upd (\<lambda>r. rAddNodeToDataKeys R r nodeID dataSet)) (\<lambda>_.
               sret (dataSet, getNodeID (hd nextNodes), nodeID)))))))))"

text \<open>\<^verbatim>\<open>getValidNextNode\<close>: the scores already visited bound the recursion.\<close>

definition int32_left :: "int set \<Rightarrow> nat" where
  "int32_left ranged = card (Collect is_int32 - ranged)"

lemma int32_left_insert:
  assumes "is_int32 score" "score \<notin> ranged"
  shows "int32_left (insert score ranged) < int32_left ranged"
proof -
  have "Collect is_int32 = {- 2147483648..<2147483648}" by (auto simp: is_int32_def)
  then have "finite (Collect is_int32)" by (simp only: finite_atLeastLessThan_int)
  then have "finite (Collect is_int32 - ranged)" by (rule finite_Diff)
  moreover have "Collect is_int32 - insert score ranged \<subset> Collect is_int32 - ranged" using assms by auto
  ultimately show ?thesis unfolding int32_left_def by (rule psubset_card_mono)
qed

function getValidNextNode :: "'r ring_ops \<Rightarrow> 'r \<Rightarrow> int \<Rightarrow> string \<Rightarrow> int set \<Rightarrow> go_err + string" where
  "getValidNextNode R r score nodeID ranged =
     (if \<not> is_int32 score then Inl (Panic ''not an int32'')
      else rbind (rCeiling R r (incrScore score)) (\<lambda>nextScore.
        if nextScore = - 1 then Inr []
        else if nextScore \<in> ranged then Inr []
        else rbind (rNode R r nextScore) (\<lambda>nextNodes.
          if nextNodes = [] then Inl (Err ''next node empty'')
          else if getNodeID (hd nextNodes) \<noteq> nodeID then Inr (getNodeID (hd nextNodes))
          else if length nextNodes > 1 then Inr (getNodeID (nextNodes ! 1))
          else getValidNextNode R r nextScore nodeID (insert score ranged))))"
  by pat_completeness auto

termination
proof (relation "(\<lambda>(R, r, score, nodeID, ranged). int32_left ranged) <*mlex*>
    measure (\<lambda>(R, r, score, nodeID, ranged). if score \<in> ranged then 1 else 0)", goal_cases)
  case 1
  show ?case by (intro wf_mlex) simp
next
  case (2 R r score nodeID ranged nextScore nextNodes)
  show ?case
  proof (cases "score \<in> ranged")
    case True
    then show ?thesis using 2(4) by (intro mlex_leq) (simp_all add: insert_absorb)
  next
    case False
    then show ?thesis using 2(1) by (intro mlex_less) (simp add: int32_left_insert)
  qed
qed

declare getValidNextNode.simps [simp del]

definition out_keys :: "(string \<Rightarrow> int) \<Rightarrow> int \<Rightarrow> int \<Rightarrow> bool \<Rightarrow> string list \<Rightarrow> string list" where
  "out_keys enc lastScore virtualScore onlyScore allDataSet =
     (let pattern = lastScore > virtualScore;
          lastScore = (if pattern then s32 (lastScore - MaxInt32) else lastScore)
      in filter (\<lambda>data.
           onlyScore \<or>
           (let score = enc data;
                score = (if pattern \<and> score > s32 (lastScore + MaxInt32) then s32 (score - MaxInt32) else score)
            in \<not> (score \<le> lastScore \<or> score > virtualScore))) allDataSet)"

text \<open>The body of \<^verbatim>\<open>migrateOut\<close>, which only reads; then what its \<^verbatim>\<open>defer\<close> writes.\<close>

definition migrateOut_plan :: "'r ring_ops \<Rightarrow> ConsistentHash \<Rightarrow> int \<Rightarrow> string \<Rightarrow> 'r \<Rightarrow> go_err + migration" where
  "migrateOut_plan R c virtualScore nodeID r =
     rbind (rNode R r virtualScore) (\<lambda>nodes.
       if nodes = [] then Inr ([], nodeID, [])
       else if getNodeID (hd nodes) \<noteq> nodeID then Inr ([], nodeID, [])
       else rbind (rDataKeys R r nodeID) (\<lambda>allDataSet.
       if allDataSet = [] then Inr ([], nodeID, [])
       else rbind (rFloor R r (decreaseScore virtualScore)) (\<lambda>lastScore.
         let noOther = lastScore = - 1 \<or> lastScore = virtualScore
         in if noOther \<and> length nodes = 1 then Inl (Err ''no other no'')
            else let dataSet = out_keys (encryptor c) lastScore virtualScore noOther allDataSet
              in if length nodes > 1 then Inr (dataSet, nodeID, getNodeID (nodes ! 1))
                 else rbind (getValidNextNode R r virtualScore nodeID {}) (\<lambda>to.
                   if to = [] then Inl (Err ''no other node'') else Inr (dataSet, nodeID, to)))))"

definition migrateOut :: "'r ring_ops \<Rightarrow> ConsistentHash \<Rightarrow> int \<Rightarrow> string \<Rightarrow> ('r, migration) go_m" where
  "migrateOut R c virtualScore nodeID =
     (if \<not> hasMigrator c then sret ([], [], [])
      else sbind (ask (migrateOut_plan R c virtualScore nodeID)) (\<lambda>(dataSet, from, to).
        if to = [] \<or> dataSet = [] then sret (dataSet, from, to)
        else sbind (upd (\<lambda>r. rDeleteNodeToDataKeys R r nodeID dataSet)) (\<lambda>_.
             sbind (upd (\<lambda>r. rAddNodeToDataKeys R r to dataSet)) (\<lambda>_. sret (dataSet, from, to)))))"

section \<open>Nodes come and go\<close>

definition with_ring_lock :: "'r ring_ops \<Rightarrow> ConsistentHash \<Rightarrow> string \<Rightarrow> ('r, 'a) go_m \<Rightarrow> ('r, 'a) go_m" where
  "with_ring_lock R c tok body =
     sbind (upd (\<lambda>r. rLock R r tok (lockExpireSeconds (chOpts c)))) (\<lambda>_. deferred body (upd (\<lambda>r. rUnlock R r tok)))"

definition add_virtual :: "'r ring_ops \<Rightarrow> ConsistentHash \<Rightarrow> string \<Rightarrow> nat \<Rightarrow> migration list \<Rightarrow> ('r, migration list) go_m" where
  "add_virtual R c nodeID i migrateTasks =
     (let nodeKey = getRawNodeKey nodeID i; virtualScore = encryptor c nodeKey
      in sbind (upd (\<lambda>r. rAdd R r virtualScore nodeKey)) (\<lambda>_.
         sbind (migrateIn R c virtualScore nodeID) (\<lambda>(dataSet, from, to).
           sret (if dataSet = [] then migrateTasks else migrateTasks @ [(dataSet, from, to)]))))"

definition add_locked :: "'r ring_ops \<Rightarrow> ConsistentHash \<Rightarrow> string \<Rightarrow> int \<Rightarrow> ('r, migration list) go_m" where
  "add_locked R c nodeID weight =
     sbind (ask (rNodes R)) (\<lambda>nodes.
        if nodeID \<in> fst ` set nodes then sfail (Err ''repeat node'')
        else let replicas = nat (getValidWeight weight * optReplicas (chOpts c))
          in sbind (upd (\<lambda>r. rAddNodeToReplica R r nodeID replicas)) (\<lambda>_.
               sfold (add_virtual R c nodeID) [0..<replicas] []))"

definition AddNode :: "'r ring_ops \<Rightarrow> ConsistentHash \<Rightarrow> string \<Rightarrow> string \<Rightarrow> int \<Rightarrow> ('r, migration list) go_m" where
  "AddNode R c tok nodeID weight = with_ring_lock R c tok (add_locked R c nodeID weight)"

definition remove_virtual :: "'r ring_ops \<Rightarrow> ConsistentHash \<Rightarrow> string \<Rightarrow> nat \<Rightarrow> migration list \<Rightarrow> ('r, migration list) go_m" where
  "remove_virtual R c nodeID i migrateTasks =
     (let nodeKey = getRawNodeKey nodeID i; virtualScore = encryptor c nodeKey
      in sbind (migrateOut R c virtualScore nodeID) (\<lambda>(dataSet, from, to).
         sbind (upd (\<lambda>r. rRem R r virtualScore nodeKey)) (\<lambda>_.
           sret (if dataSet = [] then migrateTasks else migrateTasks @ [(dataSet, from, to)]))))"

definition remove_locked :: "'r ring_ops \<Rightarrow> ConsistentHash \<Rightarrow> string \<Rightarrow> ('r, migration list) go_m" where
  "remove_locked R c nodeID =
     sbind (ask (rNodes R)) (\<lambda>nodes.
        case map_of nodes nodeID of
          None \<Rightarrow> sfail (Err ''invalid node id'')
        | Some replicas \<Rightarrow>
            sbind (upd (\<lambda>r. rDeleteNodeToReplica R r nodeID)) (\<lambda>_.
              sfold (remove_virtual R c nodeID) [0..<replicas] []))"

definition RemoveNode :: "'r ring_ops \<Rightarrow> ConsistentHash \<Rightarrow> string \<Rightarrow> string \<Rightarrow> ('r, migration list) go_m" where
  "RemoveNode R c tok nodeID = with_ring_lock R c tok (remove_locked R c nodeID)"

definition get_locked :: "'r ring_ops \<Rightarrow> ConsistentHash \<Rightarrow> string \<Rightarrow> ('r, string) go_m" where
  "get_locked R c dataKey =
     sbind (ask (\<lambda>r. rCeiling R r (encryptor c dataKey))) (\<lambda>ceilingScore.
        if ceilingScore = - 1 then sfail (Err ''no node available'')
        else sbind (ask (\<lambda>r. rNode R r ceilingScore)) (\<lambda>nodes.
        if nodes = [] then sfail (Err ''no node available with empty score'')
        else sbind (upd (\<lambda>r. rAddNodeToDataKeys R r (getNodeID (hd nodes)) [dataKey])) (\<lambda>_.
          sret (getNodeID (hd nodes)))))"

definition GetNode :: "'r ring_ops \<Rightarrow> ConsistentHash \<Rightarrow> string \<Rightarrow> string \<Rightarrow> ('r, string) go_m" where
  "GetNode R c tok dataKey = with_ring_lock R c tok (get_locked R c dataKey)"

section \<open>Names\<close>

lemma itoa_no_underscore: "CHR ''_'' \<notin> set (itoa n)"
proof (induction n rule: itoa.induct)
  case (1 n)
  have d: "''0123456789'' ! k \<noteq> CHR ''_''" if "k < 10" for k :: nat
  proof -
    have "k \<in> {0,1,2,3,4,5,6,7,8,9}" using that by auto
    then show ?thesis by auto
  qed
  show ?case
  proof (cases "n < 10")
    case True
    then show ?thesis using d [of n] by (subst itoa.simps) simp
  next
    case False
    then show ?thesis using 1 d [of "n mod 10"] by (subst itoa.simps) simp
  qed
qed

lemma LastIndex_append: "c \<notin> set ys \<Longrightarrow> LastIndex (xs @ c # ys) c = int (length xs)"
  by (simp add: LastIndex_def takeWhile_append)

lemma getNodeID_raw: "getNodeID (getRawNodeKey n i) = n"
  using LastIndex_append [OF itoa_no_underscore, of n i] by (simp add: getNodeID_def getRawNodeKey_def Let_def)

lemma itoa_value: "foldl (\<lambda>a c. 10 * a + (of_char c - 48)) 0 (itoa n) = n"
proof (induction n rule: itoa.induct)
  case (1 n)
  have d: "of_char (''0123456789'' ! k) = 48 + k" if "k < 10" for k :: nat
  proof -
    have "k \<in> {0,1,2,3,4,5,6,7,8,9}" using that by auto
    then show ?thesis by auto
  qed
  show ?case
  proof (cases "n < 10")
    case True
    then show ?thesis using d [of n] by (subst itoa.simps) simp
  next
    case False
    then show ?thesis using 1 d [of "n mod 10"] by (subst itoa.simps) simp
  qed
qed

lemma getRawNodeKey_inj: "getRawNodeKey n i = getRawNodeKey m j \<longleftrightarrow> n = m \<and> i = j"
proof
  assume eq: "getRawNodeKey n i = getRawNodeKey m j"
  then have nm: "n = m" by (metis getNodeID_raw)
  then have "itoa i = itoa j" using eq by (simp add: getRawNodeKey_def)
  then show "n = m \<and> i = j" using nm by (metis itoa_value)
qed simp

lemma fnv_range: "0 \<le> fnv_Encrypt s \<and> fnv_Encrypt s < MaxInt32"
proof -
  let ?x = "uint (fnv32a (map of_char s)) mod MaxInt32"
  have x: "0 \<le> ?x" "?x < MaxInt32" by (simp_all add: MaxInt32_def)
  then have "s32 ?x = ?x" by (simp add: s32_def MaxInt32_def)
  then show ?thesis using x by (simp add: fnv_Encrypt_def)
qed

end
