(* ===== verification/CH_Circle.thy ===== *)
theory CH_Circle
  imports CH_Hash
begin

text \<open>
  The circle of scores without its representation: which score a key belongs to, and how the arcs
  change when a score is added or removed.  A ring is a function from scores to the virtual nodes there.
\<close>

section \<open>Neighbours\<close>

text \<open>\<open>next_of S s c\<close>: going up from \<open>s\<close>, and on from 0 after the last score, \<open>c\<close> is the first score of \<open>S\<close>.\<close>

definition next_of :: "int set \<Rightarrow> int \<Rightarrow> int \<Rightarrow> bool" where
  "next_of S s c \<longleftrightarrow> c \<in> S \<and> (\<forall>x \<in> S. s \<le> c \<and> (x < s \<or> c \<le> x) \<or> c < s \<and> x < s \<and> c \<le> x)"

definition prev_of :: "int set \<Rightarrow> int \<Rightarrow> int \<Rightarrow> bool" where
  "prev_of S s p \<longleftrightarrow> p \<in> S \<and> (\<forall>x \<in> S. p \<le> s \<and> (s < x \<or> x \<le> p) \<or> s < p \<and> s < x \<and> x \<le> p)"

definition in_arc :: "int \<Rightarrow> int \<Rightarrow> int \<Rightarrow> bool" where
  "in_arc l v d \<longleftrightarrow> (if v < l then l < d \<or> d \<le> v else l < d \<and> d \<le> v)"

definition score_range :: "int set" where
  "score_range = {0..<MaxInt32}"

lemma next_of_unique: "next_of S s c \<Longrightarrow> next_of S s c' \<Longrightarrow> c = c'"
  by (force simp: next_of_def)

lemma next_of_subset: "next_of S s c \<Longrightarrow> S' \<subseteq> S \<Longrightarrow> c \<in> S' \<Longrightarrow> next_of S' s c"
  by (auto simp: next_of_def)

lemma score_steps:
  assumes "s \<in> score_range"
  shows "incrScore s = (if s = MaxInt32 - 1 then 0 else s + 1)" "decreaseScore s = (if s = 0 then MaxInt32 - 1 else s - 1)"
    "incrScore s \<in> score_range" "decreaseScore s \<in> score_range"
  using assms by (auto simp: score_range_def incrScore_def decreaseScore_def s32_def MaxInt32_def)

lemma prev_neighbour:
  assumes "prev_of (insert v S) (decreaseScore v) l" "insert v S \<subseteq> score_range" "y \<in> S" "y \<noteq> v"
  shows "l \<in> S" "l < v \<and> (y \<le> l \<or> v < y) \<or> v < l \<and> v < y \<and> y \<le> l"
proof -
  have r: "v \<in> score_range" "0 \<le> l" "l < MaxInt32" "0 \<le> y" "y < MaxInt32" "l \<in> insert v S"
    using assms by (auto simp: prev_of_def score_range_def)
  define p where "p = decreaseScore v"
  have p: "p = (if v = 0 then MaxInt32 - 1 else v - 1)" using score_steps(2) [OF r(1)] by (simp add: p_def)
  have "l \<le> p \<and> (p < y \<or> y \<le> l) \<or> p < l \<and> p < y \<and> y \<le> l"
    using assms(1,3) unfolding prev_of_def p_def by blast
  then show *: "l < v \<and> (y \<le> l \<or> v < y) \<or> v < l \<and> v < y \<and> y \<le> l"
    using p r(1-5) assms(4) unfolding score_range_def by (cases "v = 0") (simp; linarith)+
  then show "l \<in> S" using r(6) by auto
qed

lemma next_neighbour:
  assumes "next_of T (incrScore v) x" "T \<subseteq> score_range" "v \<in> score_range" "y \<in> T" "y \<noteq> v"
  shows "v < x \<and> (y < v \<or> x \<le> y) \<or> x < v \<and> y < v \<and> x \<le> y"
proof -
  have r: "0 \<le> x" "x < MaxInt32" "0 \<le> y" "y < MaxInt32" "0 \<le> v" "v < MaxInt32"
    using assms by (auto simp: next_of_def score_range_def)
  define n where "n = incrScore v"
  have n: "n = (if v = MaxInt32 - 1 then 0 else v + 1)" using score_steps(1) [OF assms(3)] by (simp add: n_def)
  have "n \<le> x \<and> (y < n \<or> x \<le> y) \<or> x < n \<and> y < n \<and> x \<le> y"
    using assms(1,4) unfolding next_of_def n_def by blast
  then show ?thesis
    using n r assms(5) by (cases "v = MaxInt32 - 1") (simp; linarith)+
qed

text \<open>A new score \<open>v\<close> takes the arc behind it from the next score.\<close>

lemma arc_insert:
  assumes S: "insert v S \<subseteq> score_range" "v \<notin> S"
    and l: "prev_of (insert v S) (decreaseScore v) l" and x: "next_of (insert v S) (incrScore v) x" and c: "next_of S d c"
  shows "l \<in> S" "x \<in> S" "next_of (insert v S) d (if in_arc l v d then v else c)" "in_arc l v d \<Longrightarrow> c = x"
proof -
  have cS: "c \<in> S" "c \<noteq> v" using c S(2) by (auto simp: next_of_def)
  have vr: "v \<in> score_range" using S(1) by simp
  note L = prev_neighbour [OF l S(1)] and X = next_neighbour [OF x S(1) vr, OF insertI2]
  show lS: "l \<in> S" using L(1) cS by blast
  have "x \<noteq> v" using X [OF cS] by auto
  then show xS: "x \<in> S" using x by (auto simp: next_of_def)
  have "next_of S d x" if arc: "in_arc l v d"
    unfolding next_of_def
  proof (intro conjI ballI xS)
    fix y assume y: "y \<in> S"
    then have "y \<noteq> v" "x \<noteq> v" using S(2) xS by auto
    then show "d \<le> x \<and> (y < d \<or> x \<le> y) \<or> x < d \<and> y < d \<and> x \<le> y"
      using L(2) [OF y] L(2) [OF xS] X [OF y] arc unfolding in_arc_def by (cases "v < l") (simp; linarith)+
  qed
  then show "in_arc l v d \<Longrightarrow> c = x" using next_of_unique [OF c] by blast
  have "d \<le> v \<and> (y < d \<or> v \<le> y) \<or> v < d \<and> y < d \<and> v \<le> y" if "y \<in> S" "in_arc l v d" for y
  proof -
    have "y \<noteq> v" using that S(2) by auto
    then show ?thesis using L(2) [OF that(1)] that(2) unfolding in_arc_def by (cases "v < l") (simp; linarith)+
  qed
  moreover have "d \<le> c \<and> (v < d \<or> c \<le> v) \<or> c < d \<and> v < d \<and> c \<le> v" if "\<not> in_arc l v d"
  proof -
    have "d \<le> c \<and> (l < d \<or> c \<le> l) \<or> c < d \<and> l < d \<and> c \<le> l" using c lS unfolding next_of_def by blast
    then show ?thesis using that L(2) [OF cS] cS(2) unfolding in_arc_def by (cases "v < l") (simp; linarith)+
  qed
  ultimately show "next_of (insert v S) d (if in_arc l v d then v else c)"
    using c by (auto simp: next_of_def)
qed


section \<open>The comparisons of the migration\<close>

lemma s32_id: "- 2147483648 \<le> x \<Longrightarrow> x < 2147483648 \<Longrightarrow> s32 x = x"
  by (simp add: s32_def)

lemma in_keys_arc:
  assumes enc: "\<And>d. enc d \<in> score_range" and r: "l \<in> score_range" "v \<in> score_range" "x \<in> score_range" and "l \<noteq> v" "x \<noteq> v"
    and lx: "v < l \<longrightarrow> v < x"
  shows "in_keys enc l v x ks = filter (\<lambda>d. in_arc l v (enc d)) ks"
proof -
  have b: "0 \<le> y \<and> y < 2147483647" if "y \<in> score_range" for y using that by (auto simp: score_range_def MaxInt32_def)
  note bs = b [OF r(1)] b [OF r(2)] b [OF r(3)] b [OF enc]
  show ?thesis
    unfolding in_keys_def Let_def
  proof (rule filter_cong [OF refl], goal_cases)
    case (1 d)
    then show ?case using bs(1-3) bs(4) [of d] assms(5,6) lx
      by (cases "v < l"; cases "x < v") (auto simp: in_arc_def s32_id MaxInt32_def)
  qed
qed

lemma out_keys_arc:
  assumes enc: "\<And>d. enc d \<in> score_range" and r: "l \<in> score_range" "v \<in> score_range" and "only \<or> l \<noteq> v"
  shows "out_keys enc l v only ks = filter (\<lambda>d. only \<or> in_arc l v (enc d)) ks"
proof -
  have b: "0 \<le> y \<and> y < 2147483647" if "y \<in> score_range" for y using that by (auto simp: score_range_def MaxInt32_def)
  note bs = b [OF r(1)] b [OF r(2)] b [OF enc]
  show ?thesis
    unfolding out_keys_def Let_def
  proof (rule filter_cong [OF refl], goal_cases)
    case (1 d)
    then show ?case using bs(1,2) bs(3) [of d] assms(4)
      by (cases "v < l") (auto simp: in_arc_def s32_id MaxInt32_def)
  qed
qed

section \<open>Tables\<close>

lemma tab_ids_ne:
  assumes "tab_ok t"
  shows "tab_ids t s \<noteq> [] \<longleftrightarrow> s \<in> fst ` set t"
proof (cases "map_of t s")
  case None
  then have "s \<notin> fst ` set t" by (simp add: map_of_eq_None_iff)
  then show ?thesis unfolding tab_ids_def None by simp
next
  case (Some ks)
  from map_of_SomeD [OF this] show ?thesis using assms Some by (force simp: tab_ids_def tab_ok_def)
qed

lemma tab_ids_distinct: "tab_ok t \<Longrightarrow> distinct (tab_ids t s)"
  by (force simp: tab_ids_def tab_ok_def split: option.split dest: map_of_SomeD)

lemma tab_ceiling_next:
  assumes "tab_ok t" "t \<noteq> []"
  shows "next_of (fst ` set t) s (tab_ceiling t s)"
proof -
  have srt: "sorted_wrt (<) (map fst t)" using assms(1) by (simp add: tab_ok_def)
  show ?thesis
  proof (cases "filter (\<lambda>e. s \<le> fst e) t")
    case Nil
    then obtain e t' where t: "t = e # t'" and lt: "\<forall>e \<in> set t. fst e < s"
      using assms(2) by (cases t) (auto simp: filter_empty_conv not_le split: if_splits)
    have "tab_ceiling t s = fst e" using Nil by (simp add: tab_ceiling_def t)
    then show ?thesis using srt lt by (auto simp: next_of_def t)
  next
    case (Cons e es)
    then have e: "tab_ceiling t s = fst e" by (simp add: tab_ceiling_def)
    have "sorted_wrt (\<lambda>a b. fst a < fst b) (filter (\<lambda>e. s \<le> fst e) t)" using srt by (simp add: sorted_wrt_map sorted_wrt_filter)
    then have "\<forall>e' \<in> set (filter (\<lambda>e. s \<le> fst e) t). fst e \<le> fst e'" by (simp add: Cons) force
    moreover have "e \<in> set (filter (\<lambda>e. s \<le> fst e) t)" by (simp add: Cons)
    ultimately show ?thesis by (force simp: next_of_def e)
  qed
qed

lemma last_greatest: "sorted_wrt (\<lambda>a b. fst a < (fst b :: int)) xs \<Longrightarrow> e \<in> set xs \<Longrightarrow> fst e \<le> fst (last xs)"
proof (induction xs)
  case (Cons a xs)
  then show ?case by (cases "xs = []") (auto dest!: last_in_set intro: less_imp_le)
qed simp

lemma tab_floor_prev:
  assumes "tab_ok t" "t \<noteq> []"
  shows "prev_of (fst ` set t) s (tab_floor t s)"
proof -
  have srt: "sorted_wrt (\<lambda>a b. fst a < fst b) t" using assms(1) by (simp add: tab_ok_def sorted_wrt_map)
  let ?le = "filter (\<lambda>e. fst e \<le> s) t"
  show ?thesis
  proof (cases "?le = []")
    case True
    then have "\<forall>e \<in> set t. s < fst e" by (auto simp: filter_empty_conv not_le)
    moreover have "tab_floor t s = fst (last t)" using True assms(2) by (simp add: tab_floor_def)
    ultimately show ?thesis using last_in_set [OF assms(2)] last_greatest [OF srt] by (auto simp: prev_of_def)
  next
    case False
    have "sorted_wrt (\<lambda>a b. fst a < fst b) ?le" using srt by (simp add: sorted_wrt_filter)
    note g = last_greatest [OF this]
    have "last ?le \<in> set ?le" using False by (rule last_in_set)
    then show ?thesis using False g by (force simp: prev_of_def tab_floor_def)
  qed
qed

lemma tab_add_ids:
  assumes "tab_ok t"
  shows "tab_ids (tab_add s k t) = (tab_ids t)(s := (if k \<in> set (tab_ids t s) then tab_ids t s else tab_ids t s @ [k]))"
  using assms by (auto simp: tab_add_def fun_eq_iff tab_ids_def tab_ok_def map_of_ins_kv)

lemma tab_rem_ids:
  assumes "tab_ok t" "k \<in> set (tab_ids t s)"
  shows "tab_ids (tab_rem s k t) = (tab_ids t)(s := remove1 k (tab_ids t s))"
proof (cases "length (tab_ids t s) > 1")
  case True
  then have "map_of (tab_rem s k t) = (map_of t)(s \<mapsto> remove1 k (tab_ids t s))"
    using assms(1) by (simp add: tab_rem_def map_of_ins_kv tab_ok_def)
  then show ?thesis by (simp add: fun_eq_iff tab_ids_def)
next
  case False
  then have "tab_ids t s = [k]" using assms(2) by (cases "tab_ids t s") auto
  moreover have "map_of (filter (\<lambda>e. fst e \<noteq> s) t) s' = (if s' = s then None else map_of t s')" for s'
    by (induction t) auto
  ultimately show ?thesis using False by (simp add: tab_rem_def fun_eq_iff tab_ids_def)
qed


section \<open>Owners\<close>

type_synonym ring_ids = "int \<Rightarrow> string list"

definition scores :: "ring_ids \<Rightarrow> int set" where
  "scores ids = {s. ids s \<noteq> []}"

definition owned :: "(string \<Rightarrow> int) \<Rightarrow> ring_ids \<Rightarrow> string \<Rightarrow> string \<Rightarrow> bool" where
  "owned enc ids d m \<longleftrightarrow> (\<exists>s. next_of (scores ids) (enc d) s \<and> getNodeID (hd (ids s)) = m)"

text \<open>The ring without the virtual nodes of a node.\<close>

definition without :: "string \<Rightarrow> ring_ids \<Rightarrow> ring_ids" where
  "without n ids s = filter (\<lambda>k. getNodeID k \<noteq> n) (ids s)"

lemma owned_unique: "owned enc ids d m \<Longrightarrow> owned enc ids d m' \<Longrightarrow> m = m'"
  using next_of_unique by (auto simp: owned_def)

lemma owned_at: "owned enc ids d m \<Longrightarrow> next_of (scores ids) (enc d) s \<Longrightarrow> m = getNodeID (hd (ids s))"
  using next_of_unique by (auto simp: owned_def)

lemma owned_append: "ids v \<noteq> [] \<Longrightarrow> owned enc (ids(v := ids v @ [k])) d m \<longleftrightarrow> owned enc ids d m"
proof -
  assume v: "ids v \<noteq> []"
  then have "scores (ids(v := ids v @ [k])) = scores ids" by (auto simp: scores_def)
  moreover have "hd ((ids(v := ids v @ [k])) s) = hd (ids s)" for s using v by simp
  ultimately show ?thesis by (simp add: owned_def)
qed

lemma owned_new:
  assumes "insert v (scores ids) \<subseteq> score_range" "ids v = []"
    and l: "prev_of (insert v (scores ids)) (decreaseScore v) l" and x: "next_of (insert v (scores ids)) (incrScore v) x"
    and o: "owned enc ids d m"
  shows "owned enc (ids(v := [k])) d (if in_arc l v (enc d) then getNodeID k else m)"
    "in_arc l v (enc d) \<Longrightarrow> m = getNodeID (hd (ids x))"
proof -
  obtain s where s: "next_of (scores ids) (enc d) s" "getNodeID (hd (ids s)) = m" using o by (auto simp: owned_def)
  have v: "v \<notin> scores ids" using assms(2) by (simp add: scores_def)
  note arc = arc_insert [OF assms(1) v l x s(1)]
  have sc: "scores (ids(v := [k])) = insert v (scores ids)" by (auto simp: scores_def)
  have "s \<noteq> v" using s(1) v by (auto simp: next_of_def)
  then show "owned enc (ids(v := [k])) d (if in_arc l v (enc d) then getNodeID k else m)"
    using arc(3) s(2) by (auto simp: owned_def sc intro!: exI [of _ "if in_arc l v (enc d) then v else s"])
  show "m = getNodeID (hd (ids x))" if "in_arc l v (enc d)" using arc(4) [OF that] s(2) by simp
qed

lemma scores_without: "scores (without n ids) \<subseteq> scores ids"
  by (auto simp: scores_def without_def)

lemma owned_without:
  assumes "owned enc ids d m" "m \<noteq> n"
  shows "owned enc (without n ids) d m"
proof -
  obtain s where s: "next_of (scores ids) (enc d) s" "getNodeID (hd (ids s)) = m" using assms by (auto simp: owned_def)
  then have "ids s \<noteq> []" by (auto simp: next_of_def scores_def)
  then obtain k ks where k: "ids s = k # ks" by (cases "ids s") auto
  then have w: "without n ids s = k # filter (\<lambda>k. getNodeID k \<noteq> n) ks" using s(2) assms(2) by (simp add: without_def)
  have "next_of (scores (without n ids)) (enc d) s"
    using next_of_subset [OF s(1) scores_without] w by (simp add: scores_def)
  then show ?thesis using w s(2) k by (auto simp: owned_def intro!: exI [of _ s])
qed

lemma without_remove: "getNodeID k = n \<Longrightarrow> without n (ids(v := remove1 k (ids v))) = without n ids"
  by (simp add: without_def fun_eq_iff filter_remove1)

section \<open>Moving keys away from a node\<close>

text \<open>While the virtual nodes of \<open>n\<close> are removed one by one: the keys of \<open>n\<close> are still placed by the
  ring as it is, all others already by the ring without \<open>n\<close>.\<close>

definition leaving :: "(string \<Rightarrow> int) \<Rightarrow> string \<Rightarrow> ring_ids \<Rightarrow> (string \<Rightarrow> string set) \<Rightarrow> bool" where
  "leaving enc n ids D \<longleftrightarrow> (\<forall>d \<in> D n. owned enc ids d n) \<and> (\<forall>m d. m \<noteq> n \<longrightarrow> d \<in> D m \<longrightarrow> owned enc (without n ids) d m)"

definition move :: "string \<Rightarrow> string \<Rightarrow> string set \<Rightarrow> (string \<Rightarrow> string set) \<Rightarrow> string \<Rightarrow> string set" where
  "move n to ds D = (let D' = D(n := D n - ds) in D'(to := D' to \<union> ds))"

lemma move_simps: "m \<noteq> n \<Longrightarrow> move n m ds D m = D m \<union> ds" "m \<noteq> n \<Longrightarrow> move n m ds D n = D n - ds"
  "ds \<subseteq> D n \<Longrightarrow> move n n ds D = D" "m \<noteq> n \<Longrightarrow> m \<noteq> to \<Longrightarrow> move n to ds D m = D m"
  by (auto simp: move_def fun_eq_iff)

text \<open>What is left at \<open>n\<close> when one of its virtual nodes goes.\<close>

lemma owned_elsewhere:
  assumes "owned enc ids d n" "\<not> next_of (scores ids) (enc d) v"
  shows "owned enc (ids(v := remove1 k (ids v))) d n"
proof -
  obtain s where s: "next_of (scores ids) (enc d) s" "getNodeID (hd (ids s)) = n" using assms by (auto simp: owned_def)
  let ?i = "ids(v := remove1 k (ids v))"
  have sv: "s \<noteq> v" using s assms(2) by auto
  have "scores ?i \<subseteq> scores ids" by (auto simp: scores_def)
  moreover have "s \<in> scores ?i" using s(1) sv by (auto simp: scores_def next_of_def)
  ultimately have "next_of (scores ?i) (enc d) s" by (rule next_of_subset [OF s(1)])
  then show ?thesis using s(2) sv by (auto simp: owned_def intro!: exI [of _ s])
qed

lemma owned_same_score:
  assumes "next_of (scores ids) (enc d) v" "remove1 k (ids v) \<noteq> []"
  shows "owned enc (ids(v := remove1 k (ids v))) d (getNodeID (hd (remove1 k (ids v))))"
proof -
  have "scores (ids(v := remove1 k (ids v))) \<subseteq> scores ids" by (auto simp: scores_def)
  moreover have "v \<in> scores (ids(v := remove1 k (ids v)))" using assms(2) by (simp add: scores_def)
  ultimately have "next_of (scores (ids(v := remove1 k (ids v)))) (enc d) v" by (rule next_of_subset [OF assms(1)])
  then show ?thesis by (auto simp: owned_def intro!: exI [of _ v])
qed

lemma owned_second:
  assumes "next_of (scores ids) (enc d) v" "ids v = k1 # k2 # ks" "getNodeID k1 = n" "getNodeID k2 \<noteq> n"
  shows "owned enc (without n ids) d (getNodeID k2)"
proof -
  have w: "without n ids v = k2 # filter (\<lambda>k. getNodeID k \<noteq> n) ks" using assms by (simp add: without_def)
  have "next_of (scores (without n ids)) (enc d) v"
    using next_of_subset [OF assms(1) scores_without] w by (simp add: scores_def)
  then show ?thesis using w by (auto simp: owned_def intro!: exI [of _ v])
qed


section \<open>A virtual node alone at its score\<close>

lemma next_of_exists:
  assumes "S \<subseteq> score_range" "S \<noteq> {}"
  shows "\<exists>c. next_of S s c"
proof -
  have fin: "finite T" if "T \<subseteq> S" for T
    by (rule finite_subset [OF subset_trans [OF that assms(1)]]) (simp only: score_range_def finite_atLeastLessThan_int)
  show ?thesis
  proof (cases "{x \<in> S. s \<le> x} = {}")
    case True
    then have lt: "\<forall>x \<in> S. x < s" by auto
    have "Min S \<in> S" by (rule Min_in [OF fin [OF subset_refl] assms(2)])
    moreover have "\<forall>x \<in> S. Min S \<le> x" using Min_le [OF fin [OF subset_refl]] by blast
    ultimately show ?thesis using lt unfolding next_of_def by blast
  next
    case False
    let ?T = "{x \<in> S. s \<le> x}"
    have f: "finite ?T" by (rule fin) auto
    have "Min ?T \<in> ?T" by (rule Min_in [OF f False])
    moreover have "\<forall>x \<in> ?T. Min ?T \<le> x" using Min_le [OF f] by blast
    ultimately show ?thesis unfolding next_of_def by (intro exI [of _ "Min ?T"]) auto
  qed
qed

lemma next_of_self_arc:
  assumes S: "S \<subseteq> score_range" "v \<in> S" "l \<noteq> v" and l: "prev_of S (decreaseScore v) l"
  shows "next_of S d v \<longleftrightarrow> in_arc l v d"
proof -
  have i: "insert v (S - {v}) = S" using S(2) by auto
  have "S - {v} \<noteq> {}" using l S(3) by (auto simp: prev_of_def)
  then obtain c where c: "next_of (S - {v}) d c" using next_of_exists [of "S - {v}" d] S(1) by blast
  obtain x where x: "next_of S (incrScore v) x" using next_of_exists [of S] S by blast
  have "next_of S d (if in_arc l v d then v else c)"
    using arc_insert(3) [of v "S - {v}" l x d c] S(1) l x c unfolding i by blast
  then have at: "next_of S d v \<longleftrightarrow> (if in_arc l v d then v else c) = v"
    using next_of_unique [of S d v "if in_arc l v d then v else c"] by metis
  have "c \<noteq> v" using c by (auto simp: next_of_def)
  then show ?thesis unfolding at by (cases "in_arc l v d") simp_all
qed

lemma next_of_beyond:
  assumes S: "S \<subseteq> score_range" and d: "next_of S d v" and T: "T \<subseteq> S" "v \<notin> T" and c: "next_of T (incrScore v) c"
  shows "next_of T d c"
  unfolding next_of_def
proof (intro conjI ballI)
  show cT: "c \<in> T" using c by (simp add: next_of_def)
  have v: "v \<in> score_range" "T \<subseteq> score_range" using d S T by (auto simp: next_of_def)
  fix y assume y: "y \<in> T"
  have ne: "y \<noteq> v" "c \<noteq> v" using y cT T(2) by auto
  have "d \<le> v \<and> (z < d \<or> v \<le> z) \<or> v < d \<and> z < d \<and> v \<le> z" if "z \<in> T" for z
    using d T(1) that unfolding next_of_def by blast
  from this [OF y] this [OF cT] show "d \<le> c \<and> (y < d \<or> c \<le> y) \<or> c < d \<and> y < d \<and> c \<le> y"
    using next_neighbour [OF c v(2,1) y ne(1)] ne by linarith
qed

lemma owned_next:
  assumes S: "scores ids \<subseteq> score_range" and v: "ids v = [k]" "next_of (scores ids) (enc d) v"
    and x: "next_of (scores ids) (incrScore v) x" "x \<noteq> v"
  shows "owned enc (ids(v := remove1 k (ids v))) d (getNodeID (hd (ids x)))"
proof -
  have sc: "scores (ids(v := remove1 k (ids v))) = scores ids - {v}" using v(1) by (auto simp: scores_def)
  have "next_of (scores ids - {v}) (incrScore v) x"
    by (rule next_of_subset [OF x(1)]) (use x in \<open>auto simp: next_of_def\<close>)
  then have "next_of (scores ids - {v}) (enc d) x"
    by (intro next_of_beyond [OF S v(2)]) auto
  then show ?thesis using x(2) by (auto simp: owned_def sc intro!: exI [of _ x])
qed

text \<open>How far it is from a score up to \<open>c\<close>: less from the next score than from this one.\<close>

definition way :: "int \<Rightarrow> int \<Rightarrow> int" where
  "way c s = (if s \<le> c then c - s else c - s + MaxInt32)"

lemma way_next:
  assumes "next_of S (incrScore s) x" "S \<subseteq> score_range" "s \<in> score_range" "c \<in> S" "c \<noteq> s"
  shows "way c x < way c s"
proof -
  have r: "0 \<le> x" "x < MaxInt32" "0 \<le> s" "s < MaxInt32" using assms by (auto simp: next_of_def score_range_def)
  show ?thesis using next_neighbour [OF assms] r unfolding way_def by (cases "s \<le> c"; cases "x \<le> c") (simp; linarith)+
qed

end
