(* ===== verification/CH_Place.thy ===== *)
theory CH_Place
  imports CH_Circle
begin

text \<open>
  What the operations of the consistent hash do to a ring that keeps the contract \<open>hash_ring\<close>: the
  keys recorded for a node are always the keys that a lookup sends there, a new node takes over only
  keys of its own, and a node that leaves hands its keys to the nodes that a lookup finds afterwards.
\<close>

section \<open>Placement\<close>

definition rep_keys :: "(string \<rightharpoonup> nat) \<Rightarrow> string set" where
  "rep_keys reps = {getRawNodeKey m i | m i. \<exists>c. reps m = Some c \<and> i < c}"

abbreviation ids_of :: "ring_view \<Rightarrow> ring_ids" where
  "ids_of V \<equiv> tab_ids (vTab V)"

definition keys_ok :: "(string \<Rightarrow> int) \<Rightarrow> string set \<Rightarrow> ring_ids \<Rightarrow> bool" where
  "keys_ok enc K ids \<longleftrightarrow> (\<forall>s k. k \<in> set (ids s) \<longleftrightarrow> k \<in> K \<and> enc k = s)"

definition placed :: "(string \<Rightarrow> int) \<Rightarrow> ring_ids \<Rightarrow> (string \<Rightarrow> string set) \<Rightarrow> bool" where
  "placed enc ids D \<longleftrightarrow> (\<forall>m. \<forall>d \<in> D m. owned enc ids d m)"

text \<open>The state between two operations: nobody holds the lock, the virtual nodes in the ring are those of
  the registered nodes, and the recorded keys are at their owners.\<close>

definition hash_ok :: "(string \<Rightarrow> int) \<Rightarrow> ring_view \<Rightarrow> bool" where
  "hash_ok enc V \<longleftrightarrow> vHeld V = None \<and> keys_ok enc (rep_keys (vReps V)) (ids_of V) \<and> placed enc (ids_of V) (vData V)
     \<and> (\<forall>m c. vReps V m = Some c \<longrightarrow> m \<noteq> [] \<and> 0 < c)"

text \<open>What of it does not speak of the recorded keys: it holds without a migrator too.\<close>

definition ring_ok :: "(string \<Rightarrow> int) \<Rightarrow> ring_view \<Rightarrow> bool" where
  "ring_ok enc V \<longleftrightarrow> vHeld V = None \<and> keys_ok enc (rep_keys (vReps V)) (ids_of V) \<and> (\<forall>m c. vReps V m = Some c \<longrightarrow> 0 < c)"

lemma hash_ok_ring: "hash_ok enc V \<Longrightarrow> ring_ok enc V"
  by (simp add: hash_ok_def ring_ok_def)

text \<open>What \<^verbatim>\<open>AddNode\<close> of \<open>n\<close> may change, with the migrations it asks for.\<close>

definition grown :: "(string \<Rightarrow> int) \<Rightarrow> string \<Rightarrow> ring_view \<Rightarrow> ring_view \<Rightarrow> migration list \<Rightarrow> bool" where
  "grown enc n V V' ts \<longleftrightarrow> placed enc (ids_of V') (vData V') \<and> \<Union> (range (vData V')) = \<Union> (range (vData V))
     \<and> (\<forall>d m. owned enc (ids_of V) d m \<longrightarrow> owned enc (ids_of V') d m \<or> owned enc (ids_of V') d n)
     \<and> (\<forall>(ks, f, t) \<in> set ts. t = n)
     \<and> (\<forall>m d. m \<noteq> n \<longrightarrow> d \<in> vData V m \<longrightarrow> d \<notin> vData V' m \<longrightarrow> (\<exists>ks. (ks, m, n) \<in> set ts \<and> d \<in> set ks))"

lemma rep_keysI: "reps m = Some c \<Longrightarrow> i < c \<Longrightarrow> getRawNodeKey m i \<in> rep_keys reps"
  by (auto simp: rep_keys_def)

lemma rep_keysE:
  assumes "k \<in> rep_keys reps"
  obtains m i c where "k = getRawNodeKey m i" "reps m = Some c" "i < c"
  using assms by (auto simp: rep_keys_def)

lemma rep_keys_new:
  assumes "reps n = None"
  shows "rep_keys (reps(n \<mapsto> c)) = rep_keys reps \<union> getRawNodeKey n ` {..<c}"
proof (intro equalityI subsetI)
  fix k assume "k \<in> rep_keys (reps(n \<mapsto> c))"
  then show "k \<in> rep_keys reps \<union> getRawNodeKey n ` {..<c}" by (auto elim!: rep_keysE intro: rep_keysI split: if_splits)
next
  fix k assume "k \<in> rep_keys reps \<union> getRawNodeKey n ` {..<c}"
  then show "k \<in> rep_keys (reps(n \<mapsto> c))"
  proof
    assume "k \<in> rep_keys reps"
    then obtain m i b where k: "k = getRawNodeKey m i" "reps m = Some b" "i < b" by (rule rep_keysE)
    then have "(reps(n \<mapsto> c)) m = Some b" using assms by auto
    then show ?thesis unfolding k(1) using k(3) by (rule rep_keysI)
  qed (auto intro: rep_keysI)
qed

lemma keys_range:
  assumes "keys_ok enc K ids" "\<And>d. enc d \<in> score_range"
  shows "scores ids \<subseteq> score_range"
proof
  fix s assume "s \<in> scores ids"
  then have "hd (ids s) \<in> set (ids s)" by (simp add: scores_def)
  then have "enc (hd (ids s)) = s" using assms(1) unfolding keys_ok_def by blast
  then show "s \<in> score_range" using assms(2) [of "hd (ids s)"] by simp
qed

lemma grown_refl: "placed enc (ids_of V) (vData V) \<Longrightarrow> grown enc n V V []"
  by (simp add: grown_def)

lemma grown_trans:
  assumes "grown enc n V V1 ts1" "grown enc n V1 V2 ts2"
  shows "grown enc n V V2 (ts1 @ ts2)"
  unfolding grown_def
proof (intro conjI allI impI)
  show "placed enc (ids_of V2) (vData V2)" "\<Union> (range (vData V2)) = \<Union> (range (vData V))"
    "\<forall>(ks, f, t) \<in> set (ts1 @ ts2). t = n"
    using assms by (auto simp: grown_def)
  have o1: "owned enc (ids_of V) d m \<Longrightarrow> owned enc (ids_of V1) d m \<or> owned enc (ids_of V1) d n"
    and o2: "owned enc (ids_of V1) d m \<Longrightarrow> owned enc (ids_of V2) d m \<or> owned enc (ids_of V2) d n" for d m
    using assms by (simp_all add: grown_def)
  fix d m
  show "owned enc (ids_of V2) d m \<or> owned enc (ids_of V2) d n" if "owned enc (ids_of V) d m"
    using o1 [OF that] o2 by blast
  assume mv: "m \<noteq> n" "d \<in> vData V m" "d \<notin> vData V2 m"
  show "\<exists>ks. (ks, m, n) \<in> set (ts1 @ ts2) \<and> d \<in> set ks"
  proof (cases "d \<in> vData V1 m")
    case True
    then have "\<exists>ks. (ks, m, n) \<in> set ts2 \<and> d \<in> set ks" using assms(2) mv by (simp add: grown_def)
    then show ?thesis by auto
  next
    case False
    then have "\<exists>ks. (ks, m, n) \<in> set ts1 \<and> d \<in> set ks" using assms(1) mv by (simp add: grown_def)
    then show ?thesis by auto
  qed
qed

lemma move_union: "ds \<subseteq> D n \<Longrightarrow> \<Union> (range (move n to ds D)) = \<Union> (range D)"
  by (auto simp: move_def Let_def split: if_splits)

context hash_ring
begin

lemma scores_tab: "rinv r \<Longrightarrow> scores (ids_of (view r)) = fst ` set (vTab (view r))"
  using tab_ids_ne [OF tab_ok] by (auto simp: scores_def)

lemma ceiling_next:
  assumes "rinv r" "scores (ids_of (view r)) \<noteq> {}"
  shows "\<exists>c. rCeiling R r s = Inr c \<and> next_of (scores (ids_of (view r))) s c"
  using tab_ceiling_next [OF tab_ok [OF assms(1)]] assms ceiling scores_tab by fastforce

lemma floor_prev:
  assumes "rinv r" "scores (ids_of (view r)) \<noteq> {}"
  shows "\<exists>c. rFloor R r s = Inr c \<and> prev_of (scores (ids_of (view r))) s c"
  using tab_floor_prev [OF tab_ok [OF assms(1)]] assms floor scores_tab by fastforce

lemma node_at: "rinv r \<Longrightarrow> s \<in> scores (ids_of (view r)) \<Longrightarrow> rNode R r s = Inr (ids_of (view r) s)"
  using node by (simp add: scores_def)


lemma migrateIn_new:
  assumes r: "rinv r" and c: "hasMigrator c" and enc: "\<And>d. encryptor c d \<in> score_range"
    and S: "scores (ids_of (view r)) \<subseteq> score_range" and v: "ids_of (view r) v = [k]" "getNodeID k = n"
    and p: "placed (encryptor c) ((ids_of (view r))(v := [])) (vData (view r))"
  shows "\<exists>ds f t r'. migrateIn R c v n r = (Inr (ds, f, t), r') \<and> rinv r' \<and> vTab (view r') = vTab (view r)
    \<and> vReps (view r') = vReps (view r) \<and> vHeld (view r') = vHeld (view r)
    \<and> placed (encryptor c) (ids_of (view r)) (vData (view r')) \<and> \<Union> (range (vData (view r'))) = \<Union> (range (vData (view r)))
    \<and> (ds \<noteq> [] \<longrightarrow> t = n)
    \<and> (\<forall>m d. m \<noteq> n \<longrightarrow> d \<in> vData (view r) m \<longrightarrow> d \<notin> vData (view r') m \<longrightarrow> m = f \<and> d \<in> set ds)"
proof -
  let ?ids = "ids_of (view r)" and ?D = "vData (view r)" and ?e = "encryptor c"
  define old where "old = ?ids(v := [])"
  have ins: "scores ?ids = insert v (scores old)" "?ids = old(v := [k])" using v(1) by (auto simp: scores_def old_def fun_eq_iff)
  have vS: "v \<in> scores ?ids" "v \<in> score_range" using ins S by auto
  obtain l where l: "rFloor R r (decreaseScore v) = Inr l" "prev_of (scores ?ids) (decreaseScore v) l" using floor_prev [OF r] vS(1) by blast
  obtain x where x: "rCeiling R r (incrScore v) = Inr x" "next_of (scores ?ids) (incrScore v) x" using ceiling_next [OF r] vS(1) by blast
  have lx: "l \<in> scores ?ids" "x \<in> scores ?ids" using l(2) x(2) by (auto simp: prev_of_def next_of_def)
  then have pos: "l \<noteq> - 1" "x \<noteq> - 1" "l \<in> score_range" "x \<in> score_range" using S by (auto simp: score_range_def)
  note nodes = node_at [OF r vS(1)] node_at [OF r lx(2)]
  show ?thesis
  proof (cases "scores old = {}")
    case True
    then have "\<not> owned ?e old d m" for d m by (simp add: owned_def next_of_def)
    then have none: "?D m = {}" for m using p by (auto simp: placed_def old_def [symmetric])
    have "l = v" using True ins(1) lx(1) by simp
    then have "migrateIn R c v n r = (Inr ([], [], []), r)"
      using c nodes(1) v(1) l(1) by (simp add: migrateIn_def step_simps)
    then show ?thesis using r none by (auto simp: placed_def)
  next
    case False
    have new: "insert v (scores old) \<subseteq> score_range" "old v = []" using S ins(1) by (simp_all add: old_def)
    have vo: "v \<notin> scores old" by (simp add: scores_def old_def)
    have l': "prev_of (insert v (scores old)) (decreaseScore v) l" and x': "next_of (insert v (scores old)) (incrScore v) x"
      using l(2) x(2) by (simp_all add: ins(1))
    obtain y where "next_of (scores old) 0 y" using next_of_exists [OF _ False] new(1) by blast
    note arc = arc_insert [OF new(1) vo l' x' this]
    have ne: "l \<noteq> v" "x \<noteq> v" using arc(1,2) vo by auto
    have wrap: "v < l \<longrightarrow> v < x" using prev_neighbour(2) [OF l' new(1) arc(2) ne(2)] by auto
    let ?f = "getNodeID (hd (?ids x))"
    obtain ks where ks: "rDataKeys R r ?f = Inr ks" "set ks = ?D ?f" using data_keys [OF r] by blast
    define ds where "ds = filter (\<lambda>d. in_arc l v (?e d)) ks"
    have keys: "in_keys ?e l v x ks = ds" unfolding ds_def by (rule in_keys_arc [OF enc pos(3) vS(2) pos(4) ne wrap])
    obtain r1 where r1: "rDeleteNodeToDataKeys R r ?f ds = Inr r1" "rinv r1" "view r1 = (view r)\<lparr>vData := ?D(?f := ?D ?f - set ds)\<rparr>"
      using delete_data [OF r] by blast
    obtain r2 where r2: "rAddNodeToDataKeys R r1 n ds = Inr r2" "rinv r2"
      "view r2 = (view r1)\<lparr>vData := (vData (view r1))(n := vData (view r1) n \<union> set ds)\<rparr>"
      using add_data [OF r1(2)] by blast
    have "?ids x \<noteq> []" using lx(2) by (simp add: scores_def)
    then have run: "migrateIn R c v n r = (Inr (ds, ?f, n), r2)"
      using c nodes v(1) l(1) x(1) ne pos(1,2) ks(1) keys r1(1) r2(1) by (simp add: migrateIn_def step_simps)
    have dsD: "set ds \<subseteq> ?D ?f" using ks(2) by (auto simp: ds_def)
    have D2: "vData (view r2) = move ?f n (set ds) ?D" by (simp add: r1(3) r2(3) move_def Let_def)
    have xo: "?ids x = old x" using ne by (simp add: old_def)
    have "owned ?e ?ids d m" if dm: "d \<in> move ?f n (set ds) ?D m" for d m
    proof -
      have o: "owned ?e old d m'" if "d \<in> ?D m'" for m' using p that by (simp add: placed_def old_def)
      note on1 = owned_new(1) [where k = k, OF new l' x', folded ins(2)] and on2 = owned_new(2) [OF new l' x']
      consider "d \<in> set ds" "m = n" | "d \<in> ?D m" "d \<notin> set ds \<or> m \<noteq> ?f" using dm by (auto simp: move_def Let_def split: if_splits)
      then show ?thesis
      proof cases
        case 1
        then show ?thesis using on1 [OF o, of ?f] dsD v(2) by (auto simp: ds_def split: if_splits)
      next
        case 2
        then have "\<not> in_arc l v (?e d)" using on2 [OF o [OF 2(1)]] ks(2) by (auto simp: ds_def xo)
        then show ?thesis using on1 [OF o [OF 2(1)]] by simp
      qed
    qed
    then have "placed ?e ?ids (vData (view r2))" by (simp add: placed_def D2)
    moreover have "\<Union> (range (vData (view r2))) = \<Union> (range ?D)" unfolding D2 using dsD by (rule move_union)
    moreover have "m = ?f \<and> d \<in> set ds" if "m \<noteq> n" "d \<in> ?D m" "d \<notin> vData (view r2) m" for m d
      using that by (auto simp: D2 move_def Let_def split: if_splits)
    moreover have "vTab (view r2) = vTab (view r)" "vReps (view r2) = vReps (view r)" "vHeld (view r2) = vHeld (view r)"
      by (simp_all add: r1(3) r2(3))
    ultimately show ?thesis using run r2(2) by blast
  qed
qed


lemma add_virtual_ok:
  fixes n i
  assumes r: "rinv r" and c: "hasMigrator c" and enc: "\<And>d. encryptor c d \<in> score_range"
    and S: "scores (ids_of (view r)) \<subseteq> score_range" and p: "placed (encryptor c) (ids_of (view r)) (vData (view r))"
  defines "k \<equiv> getRawNodeKey n i"
  defines "v \<equiv> encryptor c k"
  assumes k: "k \<notin> set (ids_of (view r) v)"
  shows "\<exists>ts r'. add_virtual R c n i tasks r = (Inr (tasks @ ts), r') \<and> rinv r'
    \<and> ids_of (view r') = (ids_of (view r))(v := ids_of (view r) v @ [k])
    \<and> vReps (view r') = vReps (view r) \<and> vHeld (view r') = vHeld (view r) \<and> grown (encryptor c) n (view r) (view r') ts"
proof -
  let ?e = "encryptor c" and ?ids = "ids_of (view r)"
  obtain r1 where r1: "rAdd R r v k = Inr r1" "rinv r1" "view r1 = (view r)\<lparr>vTab := tab_add v k (vTab (view r))\<rparr>" using add [OF r] by blast
  have ids1: "ids_of (view r1) = ?ids(v := ?ids v @ [k])" using tab_add_ids [OF tab_ok [OF r], of v k] k by (simp add: r1(3))
  have kn: "getNodeID k = n" by (simp add: k_def getNodeID_raw)
  have vr: "v \<in> score_range" by (simp add: v_def enc)
  have S1: "scores (ids_of (view r1)) \<subseteq> score_range" using S vr by (auto simp: ids1 scores_def)
  have run: "add_virtual R c n i tasks r = sbind (migrateIn R c v n) (\<lambda>(dataSet, from, to).
      sret (if dataSet = [] then tasks else tasks @ [(dataSet, from, to)])) r1"
    using r1(1) by (simp add: add_virtual_def Let_def step_simps k_def [symmetric] v_def [symmetric])
  show ?thesis
  proof (cases "?ids v = []")
    case True
    have p1: "placed ?e ((ids_of (view r1))(v := [])) (vData (view r1))" 
      unfolding ids1 using p True by (simp add: fun_upd_idem r1(3))
    have v1: "ids_of (view r1) v = [k]" unfolding ids1 by (simp add: True)
    obtain ds f t r' where m: "migrateIn R c v n r1 = (Inr (ds, f, t), r')" "rinv r'" "vTab (view r') = vTab (view r1)"
      "vReps (view r') = vReps (view r1)" "vHeld (view r') = vHeld (view r1)" "placed ?e (ids_of (view r1)) (vData (view r'))"
      "\<Union> (range (vData (view r'))) = \<Union> (range (vData (view r1)))" "ds \<noteq> [] \<longrightarrow> t = n"
      "\<forall>m d. m \<noteq> n \<longrightarrow> d \<in> vData (view r1) m \<longrightarrow> d \<notin> vData (view r') m \<longrightarrow> m = f \<and> d \<in> set ds"
      using migrateIn_new [OF r1(2) c enc S1 v1 kn p1] by (elim exE conjE) (rule that)
    let ?ts = "if ds = [] then [] else [(ds, f, t)]"
    have "owned ?e (ids_of (view r')) d m \<or> owned ?e (ids_of (view r')) d n" if o: "owned ?e ?ids d m" for d m
    proof -
      have ins: "insert v (scores ?ids) = scores (ids_of (view r1))" by (auto simp: ids1 scores_def)
      have vS: "v \<in> scores (ids_of (view r1))" using v1 by (simp add: scores_def)
      obtain l where l: "prev_of (scores (ids_of (view r1))) (decreaseScore v) l" using floor_prev [OF r1(2)] vS by blast
      obtain x where x: "next_of (scores (ids_of (view r1))) (incrScore v) x" using ceiling_next [OF r1(2)] vS by blast
      show ?thesis using owned_new(1) [of v ?ids l x ?e d m k] S1 True l x o kn unfolding ins m(3) ids1 by (auto split: if_splits)
    qed
    then have "grown ?e n (view r) (view r') ?ts"
      using m r1(3) by (auto simp: grown_def)
    moreover have "add_virtual R c n i tasks r = (Inr (tasks @ ?ts), r')" unfolding run using m(1) by (simp add: sbind_def)
    moreover have "ids_of (view r') = ?ids(v := ?ids v @ [k])" unfolding m(3) by (rule ids1)
    moreover have "vReps (view r') = vReps (view r)" "vHeld (view r') = vHeld (view r)" using m(4,5) by (simp_all add: r1(3))
    ultimately show ?thesis using m(2) by blast
  next
    case False
    then have "length (ids_of (view r1) v) > 1" "v \<in> scores (ids_of (view r1))" by (auto simp: ids1 scores_def neq_Nil_conv)
    then have "migrateIn R c v n r1 = (Inr ([], [], []), r1)" using c node_at [OF r1(2)] by (simp add: migrateIn_def step_simps)
    then have "add_virtual R c n i tasks r = (Inr (tasks @ []), r1)" unfolding run by (simp add: sbind_def)
    moreover have "owned ?e (ids_of (view r1)) d m \<longleftrightarrow> owned ?e ?ids d m" for d m unfolding ids1 using False by (rule owned_append)
    then have "grown ?e n (view r) (view r1) []" using p r1(3) by (auto simp: grown_def placed_def)
    moreover have "vReps (view r1) = vReps (view r)" "vHeld (view r1) = vHeld (view r)" by (simp_all add: r1(3))
    ultimately show ?thesis using r1(2) ids1 by blast
  qed
qed


lemma locked_run:
  assumes "rinv r" "vHeld (view r) = None"
    and body: "\<And>r1. rinv r1 \<Longrightarrow> view r1 = (view r)\<lparr>vHeld := Some tok\<rparr> \<Longrightarrow>
      \<exists>x r2. body r1 = (x, r2) \<and> rinv r2 \<and> vHeld (view r2) = Some tok \<and> Q x ((view r2)\<lparr>vHeld := None\<rparr>)"
  shows "\<exists>x r'. with_ring_lock R c tok body r = (x, r') \<and> rinv r' \<and> vHeld (view r') = None \<and> Q x (view r')"
proof -
  obtain r1 where r1: "rLock R r tok (lockExpireSeconds (chOpts c)) = Inr r1" "rinv r1" "view r1 = (view r)\<lparr>vHeld := Some tok\<rparr>"
    using lock [OF assms(1,2)] by blast
  obtain x r2 where r2: "body r1 = (x, r2)" "rinv r2" "vHeld (view r2) = Some tok" "Q x ((view r2)\<lparr>vHeld := None\<rparr>)"
    using body [OF r1(2,3)] by blast
  obtain r3 where r3: "rUnlock R r2 tok = Inr r3" "rinv r3" "view r3 = (view r2)\<lparr>vHeld := None\<rparr>"
    using unlock [OF r2(2,3)] by blast
  have "with_ring_lock R c tok body r = (x, r3)"
    using r1(1) r2(1) r3(1) by (simp add: with_ring_lock_def sbind_def upd_def deferred_def)
  then show ?thesis using r3 r2(4) by auto
qed

lemma add_all:
  assumes r: "rinv r" and c: "hasMigrator c" and enc: "\<And>d. encryptor c d \<in> score_range"
    and K: "keys_ok (encryptor c) K (ids_of (view r))" "\<And>i. getRawNodeKey n i \<notin> K"
    and p: "placed (encryptor c) (ids_of (view r)) (vData (view r))"
  shows "\<exists>ts r'. sfold (add_virtual R c n) [0..<reps] [] r = (Inr ts, r') \<and> rinv r'
    \<and> keys_ok (encryptor c) (K \<union> getRawNodeKey n ` {..<reps}) (ids_of (view r'))
    \<and> vReps (view r') = vReps (view r) \<and> vHeld (view r') = vHeld (view r) \<and> grown (encryptor c) n (view r) (view r') ts"
proof -
  let ?e = "encryptor c"
  define I where "I is ts s \<longleftrightarrow> (\<exists>i. is = [i..<reps] \<and> i \<le> reps \<and> rinv s \<and> keys_ok ?e (K \<union> getRawNodeKey n ` {..<i}) (ids_of (view s))
    \<and> vReps (view s) = vReps (view r) \<and> vHeld (view s) = vHeld (view r) \<and> grown ?e n (view r) (view s) ts)" for "is" ts s
  have "\<exists>ts r'. sfold (add_virtual R c n) [0..<reps] [] r = (Inr ts, r') \<and> I [] ts r'"
  proof (rule sfold_total)
    show "I [0..<reps] [] r" using r K(1) grown_refl [OF p] by (auto simp: I_def intro!: exI [of _ 0])
  next
    fix i "is" ts s
    assume "I (i # is) ts s"
    then obtain j where j: "i # is = [j..<reps]" "j \<le> reps" "rinv s" "keys_ok ?e (K \<union> getRawNodeKey n ` {..<j}) (ids_of (view s))"
      "vReps (view s) = vReps (view r)" "vHeld (view s) = vHeld (view r)" "grown ?e n (view r) (view s) ts" by (auto simp: I_def)
    have i: "i = j" "is = [Suc j..<reps]" "j < reps" using j(1) [symmetric] by (auto simp: upt_eq_Cons_conv)
    have S: "scores (ids_of (view s)) \<subseteq> score_range" by (rule keys_range [OF j(4) enc])
    have "getRawNodeKey n j \<notin> getRawNodeKey n ` {..<j}" by (auto simp: getRawNodeKey_inj)
    then have new: "getRawNodeKey n j \<notin> set (ids_of (view s) (?e (getRawNodeKey n j)))" using j(4) K(2) by (simp add: keys_ok_def)
    have p: "placed ?e (ids_of (view s)) (vData (view s))" using j(7) by (simp add: grown_def)
    obtain ts' s' where s': "add_virtual R c n j ts s = (Inr (ts @ ts'), s')" "rinv s'"
      "ids_of (view s') = (ids_of (view s))(?e (getRawNodeKey n j) := ids_of (view s) (?e (getRawNodeKey n j)) @ [getRawNodeKey n j])"
      "vReps (view s') = vReps (view s)" "vHeld (view s') = vHeld (view s)" "grown ?e n (view s) (view s') ts'"
      using add_virtual_ok [OF j(3) c enc S p new, of ts] by (elim exE conjE) (rule that)
    have "keys_ok ?e (K \<union> getRawNodeKey n ` {..<Suc j}) (ids_of (view s'))"
      using j(4) unfolding s'(3) keys_ok_def by (auto simp: lessThan_Suc)
    then have "I is (ts @ ts') s'"
      unfolding I_def using i s' j(5,6) grown_trans [OF j(7) s'(6)] by (intro exI [of _ "Suc j"]) simp
    then show "\<exists>ts' s'. add_virtual R c n i ts s = (Inr ts', s') \<and> I is ts' s'" using s'(1) i(1) by blast
  qed
  then obtain ts r' i where "sfold (add_virtual R c n) [0..<reps] [] r = (Inr ts, r')" "[] = [i..<reps]" "i \<le> reps" "rinv r'"
    "keys_ok ?e (K \<union> getRawNodeKey n ` {..<i}) (ids_of (view r'))" "vReps (view r') = vReps (view r)" "vHeld (view r') = vHeld (view r)"
    "grown ?e n (view r) (view r') ts" by (auto simp: I_def)
  moreover from this(2,3) have "i = reps" using upt_eq_Nil_conv [of i reps] by auto
  ultimately show ?thesis by blast
qed

lemma nodes_fst:
  assumes "rinv r"
  shows "\<exists>ns. rNodes R r = Inr ns \<and> map_of ns = vReps (view r) \<and> fst ` set ns = dom (vReps (view r))"
  using nodes [OF assms] by (metis dom_map_of_conv_image_fst)

lemma AddNode_ok:
  assumes r: "rinv r" "hash_ok (encryptor c) (view r)" and c: "hasMigrator c" "1 \<le> optReplicas (chOpts c)"
    and enc: "\<And>d. encryptor c d \<in> score_range" and n: "n \<noteq> []" "vReps (view r) n = None"
  shows "\<exists>ts r'. AddNode R c tok n w r = (Inr ts, r') \<and> rinv r' \<and> hash_ok (encryptor c) (view r')
    \<and> vReps (view r') = (vReps (view r))(n \<mapsto> nat (getValidWeight w * optReplicas (chOpts c)))
    \<and> grown (encryptor c) n (view r) (view r') ts"
proof -
  let ?e = "encryptor c" and ?m = "nat (getValidWeight w * optReplicas (chOpts c))"
  have "1 \<le> getValidWeight w" by (simp add: getValidWeight_def)
  then have m: "0 < ?m" using c(2) by (simp add: zero_less_mult_iff)
  let ?body = "add_locked R c n w"
  define Q where "Q x V \<longleftrightarrow> (\<exists>ts. x = Inr ts \<and> hash_ok ?e V \<and> vReps V = (vReps (view r))(n \<mapsto> ?m) \<and> grown ?e n (view r) V ts)"
    for x :: "go_err + migration list" and V
  have held: "vHeld (view r) = None" using r(2) by (simp add: hash_ok_def)
  have "\<exists>x r'. with_ring_lock R c tok ?body r = (x, r') \<and> rinv r' \<and> vHeld (view r') = None \<and> Q x (view r')"
  proof (rule locked_run [OF r(1) held])
    fix r1 assume r1: "rinv r1" "view r1 = (view r)\<lparr>vHeld := Some tok\<rparr>"
    obtain ns where ns: "rNodes R r1 = Inr ns" "fst ` set ns = dom (vReps (view r))" using nodes_fst [OF r1(1)] by (auto simp: r1(2))
    obtain r2 where r2: "rAddNodeToReplica R r1 n ?m = Inr r2" "rinv r2" "view r2 = (view r1)\<lparr>vReps := (vReps (view r1))(n \<mapsto> ?m)\<rparr>"
      using add_replica [OF r1(1)] by blast
    have K: "keys_ok ?e (rep_keys (vReps (view r))) (ids_of (view r2))" "\<And>i. getRawNodeKey n i \<notin> rep_keys (vReps (view r))"
      "placed ?e (ids_of (view r2)) (vData (view r2))"
      using r(2) n(2) by (auto simp: r1(2) r2(3) hash_ok_def rep_keys_def getRawNodeKey_inj)
    obtain ts r3 where r3: "sfold (add_virtual R c n) [0..<?m] [] r2 = (Inr ts, r3)" "rinv r3"
      "keys_ok ?e (rep_keys (vReps (view r)) \<union> getRawNodeKey n ` {..<?m}) (ids_of (view r3))"
      "vReps (view r3) = vReps (view r2)" "vHeld (view r3) = vHeld (view r2)" "grown ?e n (view r2) (view r3) ts"
      using add_all [OF r2(2) c(1) enc K, of ?m] by (elim exE conjE) (rule that)
    have reps: "vReps (view r3) = (vReps (view r))(n \<mapsto> ?m)" by (simp add: r3(4) r2(3) r1(2))
    have "rep_keys (vReps (view r3)) = rep_keys (vReps (view r)) \<union> getRawNodeKey n ` {..<?m}"
      unfolding reps using n(2) by (rule rep_keys_new)
    then have "hash_ok ?e ((view r3)\<lparr>vHeld := None\<rparr>)"
      using r(2) r3(3,6) reps n(1) m by (auto simp: hash_ok_def grown_def)
    moreover have "grown ?e n (view r) ((view r3)\<lparr>vHeld := None\<rparr>) ts" using r3(6) by (simp add: grown_def r2(3) r1(2))
    ultimately have "Q (Inr ts) ((view r3)\<lparr>vHeld := None\<rparr>)" using reps by (simp add: Q_def)
    moreover have "?body r1 = (Inr ts, r3)"
      using ns n(2) r2(1) r3(1) by (simp add: add_locked_def run_defs domIff Let_def)
    moreover have "vHeld (view r3) = Some tok" by (simp add: r3(5) r2(3) r1(2))
    ultimately show "\<exists>x r2. ?body r1 = (x, r2) \<and> rinv r2 \<and> vHeld (view r2) = Some tok \<and> Q x ((view r2)\<lparr>vHeld := None\<rparr>)"
      using r3(2) by blast
  qed
  then show ?thesis by (auto simp: Q_def AddNode_def)
qed


lemma AddNode_repeat:
  assumes r: "rinv r" "vHeld (view r) = None" and n: "vReps (view r) n \<noteq> None"
  shows "\<exists>r'. AddNode R c tok n w r = (Inl (Err ''repeat node''), r') \<and> rinv r' \<and> view r' = view r"
proof -
  let ?body = "add_locked R c n w"
  have "\<exists>x r'. with_ring_lock R c tok ?body r = (x, r') \<and> rinv r' \<and> vHeld (view r') = None
    \<and> (x = Inl (Err ''repeat node'') \<and> view r' = view r)"
  proof (rule locked_run [OF r])
    fix r1 assume r1: "rinv r1" "view r1 = (view r)\<lparr>vHeld := Some tok\<rparr>"
    obtain ns where ns: "rNodes R r1 = Inr ns" "fst ` set ns = dom (vReps (view r))" using nodes_fst [OF r1(1)] by (auto simp: r1(2))
    have "?body r1 = (Inl (Err ''repeat node''), r1)" using ns n by (simp add: add_locked_def run_defs domIff)
    then show "\<exists>x r2. ?body r1 = (x, r2) \<and> rinv r2 \<and> vHeld (view r2) = Some tok
        \<and> (x = Inl (Err ''repeat node'') \<and> (view r2)\<lparr>vHeld := None\<rparr> = view r)"
      using r1 r(2) by simp
  qed
  then show ?thesis by (auto simp: AddNode_def)
qed

lemma GetNode_ok:
  assumes r: "rinv r" "ring_ok (encryptor c) (view r)" and o: "owned (encryptor c) (ids_of (view r)) d m"
    and enc: "\<And>d. encryptor c d \<in> score_range"
  shows "\<exists>r'. GetNode R c tok d r = (Inr m, r') \<and> rinv r'
    \<and> view r' = (view r)\<lparr>vData := (vData (view r))(m := insert d (vData (view r) m))\<rparr>"
proof -
  let ?e = "encryptor c" and ?V = "(view r)\<lparr>vData := (vData (view r))(m := insert d (vData (view r) m))\<rparr>"
  have held: "vHeld (view r) = None" and keys: "keys_ok ?e (rep_keys (vReps (view r))) (ids_of (view r))"
    using r(2) by (simp_all add: ring_ok_def)
  let ?body = "get_locked R c d"
  have "\<exists>x r'. with_ring_lock R c tok ?body r = (x, r') \<and> rinv r' \<and> vHeld (view r') = None \<and> (x = Inr m \<and> view r' = ?V)"
  proof (rule locked_run [OF r(1) held])
    fix r1 assume r1: "rinv r1" "view r1 = (view r)\<lparr>vHeld := Some tok\<rparr>"
    let ?ids = "ids_of (view r)"
    have ids: "ids_of (view r1) = ?ids" by (simp add: r1(2))
    have "scores ?ids \<noteq> {}" using o by (auto simp: owned_def next_of_def)
    then obtain s where s: "rCeiling R r1 (?e d) = Inr s" "next_of (scores ?ids) (?e d) s" using ceiling_next [OF r1(1)] ids by metis
    then have sc: "s \<in> scores ?ids" by (simp add: next_of_def)
    then have "s \<in> score_range" using keys_range [OF keys enc] by blast
    then have s1: "s \<noteq> - 1" by (auto simp: score_range_def)
    have nd: "rNode R r1 s = Inr (?ids s)" "?ids s \<noteq> []" using node_at [OF r1(1)] sc ids by (simp_all add: scores_def)
    have m: "getNodeID (hd (?ids s)) = m" using owned_at [OF o s(2)] by simp
    obtain r2 where r2: "rAddNodeToDataKeys R r1 m [d] = Inr r2" "rinv r2" "view r2 = (view r1)\<lparr>vData := (vData (view r1))(m := vData (view r1) m \<union> set [d])\<rparr>"
      using add_data [OF r1(1)] by blast
    have "?body r1 = (Inr m, r2)" using s(1) s1 nd m r2(1) by (simp add: get_locked_def run_defs)
    then show "\<exists>x r2. ?body r1 = (x, r2) \<and> rinv r2 \<and> vHeld (view r2) = Some tok \<and> (x = Inr m \<and> (view r2)\<lparr>vHeld := None\<rparr> = ?V)"
      using r2(2,3) held by (simp add: r1(2))
  qed
  then show ?thesis by (auto simp: GetNode_def)
qed

lemma GetNode_none:
  assumes r: "rinv r" "vHeld (view r) = None" and o: "vTab (view r) = []"
  shows "\<exists>r'. GetNode R c tok d r = (Inl (Err ''no node available''), r') \<and> rinv r' \<and> view r' = view r"
proof -
  let ?body = "get_locked R c d"
  have "\<exists>x r'. with_ring_lock R c tok ?body r = (x, r') \<and> rinv r' \<and> vHeld (view r') = None
    \<and> (x = Inl (Err ''no node available'') \<and> view r' = view r)"
  proof (rule locked_run [OF r])
    fix r1 assume r1: "rinv r1" "view r1 = (view r)\<lparr>vHeld := Some tok\<rparr>"
    have "rCeiling R r1 (encryptor c d) = Inr (- 1)" using ceiling [OF r1(1)] o by (simp add: r1(2) tab_ceiling_def)
    then have "?body r1 = (Inl (Err ''no node available''), r1)" by (simp add: get_locked_def run_defs)
    then show "\<exists>x r2. ?body r1 = (x, r2) \<and> rinv r2 \<and> vHeld (view r2) = Some tok
        \<and> (x = Inl (Err ''no node available'') \<and> (view r2)\<lparr>vHeld := None\<rparr> = view r)"
      using r1 r(2) by simp
  qed
  then show ?thesis by (auto simp: GetNode_def)
qed

end

end
