(* ===== verification/CH_Leave.thy ===== *)
theory CH_Leave
  imports CH_Place
begin

text \<open>
  \<^verbatim>\<open>RemoveNode\<close> of the consistent hash on a ring that has another node: every virtual node of the leaving
  node goes, and its keys go to the nodes that own them in the ring without it.
\<close>

section \<open>The next node of another name\<close>

lemma next_of_skip:
  assumes "S \<subseteq> score_range" "next_of S d x" "T \<subseteq> S" "x \<notin> T" "next_of T d c"
  shows "next_of T (incrScore x) c"
proof -
  have "T \<subseteq> score_range" "T \<noteq> {}" using assms by (auto simp: next_of_def)
  then obtain c' where c': "next_of T (incrScore x) c'" using next_of_exists by blast
  have "next_of T d c'" by (rule next_of_beyond [OF assms(1,2,3,4) c'])
  then show ?thesis using next_of_unique [OF assms(5)] c' by simp
qed

lemma hd_without:
  assumes "ids s = k # ks"
  shows "getNodeID k \<noteq> n \<Longrightarrow> s \<in> scores (without n ids) \<and> hd (without n ids s) = k"
    "getNodeID k = n \<Longrightarrow> ks = k2 # ks' \<Longrightarrow> getNodeID k2 \<noteq> n \<Longrightarrow> s \<in> scores (without n ids) \<and> hd (without n ids s) = k2"
    "getNodeID k = n \<Longrightarrow> ks = [] \<Longrightarrow> s \<notin> scores (without n ids)"
  using assms by (auto simp: without_def scores_def)

section \<open>One virtual node goes\<close>

text \<open>Every key that left \<open>n\<close> is in a migration to its owner in the ring \<open>F\<close>.\<close>

definition handed :: "(string \<Rightarrow> int) \<Rightarrow> string \<Rightarrow> ring_ids \<Rightarrow> ring_view \<Rightarrow> ring_view \<Rightarrow> migration list \<Rightarrow> bool" where
  "handed enc n F V V' ts \<longleftrightarrow> (\<forall>(ks, f, t) \<in> set ts. f = n)
     \<and> (\<forall>d \<in> vData V n. d \<notin> vData V' n \<longrightarrow> (\<exists>ks t. (ks, n, t) \<in> set ts \<and> d \<in> set ks \<and> owned enc F d t))"

lemma handed_trans:
  assumes "handed enc n F V V1 ts1" "handed enc n F V1 V2 ts2"
  shows "handed enc n F V V2 (ts1 @ ts2)"
  unfolding handed_def
proof (intro conjI ballI impI)
  show "case x of (ks, f, t) \<Rightarrow> f = n" if "x \<in> set (ts1 @ ts2)" for x using that assms by (auto simp: handed_def)
  fix d assume d: "d \<in> vData V n" "d \<notin> vData V2 n"
  show "\<exists>ks t. (ks, n, t) \<in> set (ts1 @ ts2) \<and> d \<in> set ks \<and> owned enc F d t"
  proof (cases "d \<in> vData V1 n")
    case True
    then have "\<exists>ks t. (ks, n, t) \<in> set ts2 \<and> d \<in> set ks \<and> owned enc F d t" using assms(2) d by (simp add: handed_def)
    then show ?thesis by auto
  next
    case False
    then have "\<exists>ks t. (ks, n, t) \<in> set ts1 \<and> d \<in> set ks \<and> owned enc F d t" using assms(1) d by (simp add: handed_def)
    then show ?thesis by auto
  qed
qed

lemma leaving_step:
  assumes lv: "leaving enc n ids D" and k: "getNodeID k = n" and ds: "ds \<subseteq> D n"
    and go: "to \<noteq> n \<longrightarrow> (\<forall>d \<in> ds. owned enc (without n ids) d to)"
    and keep: "\<forall>d \<in> (if to = n then D n else D n - ds). owned enc (ids(v := remove1 k (ids v))) d n"
  shows "leaving enc n (ids(v := remove1 k (ids v))) (move n to ds D)"
proof (cases "to = n")
  case True
  have "move n to ds D = D" using move_simps(3) [of ds D n] ds True by simp
  then show ?thesis using lv keep True by (simp add: leaving_def without_remove [OF k])
next
  case False
  have mv: "move n to ds D n = D n - ds" "move n to ds D to = D to \<union> ds" "m \<noteq> n \<Longrightarrow> m \<noteq> to \<Longrightarrow> move n to ds D m = D m" for m
    using False move_simps by simp_all
  have "owned enc (without n ids) d m" if "m \<noteq> n" "d \<in> move n to ds D m" for m d
    using that lv go False mv(2) mv(3) [of m] by (cases "m = to") (auto simp: leaving_def)
  then show ?thesis using keep False mv(1) by (simp add: leaving_def without_remove [OF k])
qed

lemma rep_keys_del:
  assumes "reps n = Some c"
  shows "rep_keys (reps(n := None)) = rep_keys reps - getRawNodeKey n ` {..<c}"
proof (intro equalityI subsetI)
  fix k assume "k \<in> rep_keys (reps(n := None))"
  then obtain m i b where k: "k = getRawNodeKey m i" "(reps(n := None)) m = Some b" "i < b" by (rule rep_keysE)
  then have "m \<noteq> n" "reps m = Some b" by (auto split: if_splits)
  then show "k \<in> rep_keys reps - getRawNodeKey n ` {..<c}" using k(1,3) by (auto simp: getRawNodeKey_inj intro: rep_keysI)
next
  fix k assume "k \<in> rep_keys reps - getRawNodeKey n ` {..<c}"
  then obtain m i b where k: "k = getRawNodeKey m i" "reps m = Some b" "i < b" "k \<notin> getRawNodeKey n ` {..<c}" by (auto elim: rep_keysE)
  then have "m \<noteq> n" using assms by auto
  then have "(reps(n := None)) m = Some b" using k(2) by simp
  then show "k \<in> rep_keys (reps(n := None))" unfolding k(1) using k(3) by (rule rep_keysI)
qed

lemma raw_not_name: "getRawNodeKey n i \<noteq> n"
  by (simp add: getRawNodeKey_def)

context hash_ring
begin

lemma getValidNextNode_ok:
  assumes r: "rinv r" and S: "scores (ids_of (view r)) \<subseteq> score_range"
    and s: "s \<in> scores (ids_of (view r))" "s \<notin> scores (without n (ids_of (view r)))"
    and c: "next_of (scores (without n (ids_of (view r)))) (incrScore s) cs"
    and ranged: "\<forall>y \<in> ranged. way cs s \<le> way cs y"
  shows "\<exists>to x. getValidNextNode R r s n ranged = Inr to \<and> next_of (scores (ids_of (view r))) (incrScore s) x
    \<and> (to = n \<longrightarrow> getNodeID (hd (ids_of (view r) x)) = n)
    \<and> (to \<noteq> n \<longrightarrow> to = getNodeID (hd (without n (ids_of (view r)) cs)))"
  using s c ranged
proof (induction "nat (way cs s)" arbitrary: s ranged rule: less_induct)
  case less
  let ?ids = "ids_of (view r)"
  let ?S = "scores ?ids" and ?T = "scores (without n ?ids)"
  have sr: "s \<in> score_range" "is_int32 s" using less.prems(1) S by (auto simp: score_range_def is_int32_def MaxInt32_def)
  obtain x where x: "rCeiling R r (incrScore s) = Inr x" "next_of ?S (incrScore s) x" using ceiling_next [OF r] less.prems(1) by blast
  have xS: "x \<in> ?S" using x(2) by (simp add: next_of_def)
  then have x1: "x \<noteq> - 1" "x \<in> score_range" using S by (auto simp: score_range_def)
  have cT: "cs \<in> ?T" using less.prems(3) by (simp add: next_of_def)
  then have cS: "cs \<in> ?S" "cs \<noteq> s" using scores_without less.prems(2) by blast+
  have w: "way cs x < way cs s" by (rule way_next [OF x(2) S sr(1) cS])
  have xr: "x \<notin> ranged" using less.prems(4) w by force
  note nd = node_at [OF r xS]
  obtain k ks where k: "?ids x = k # ks" using xS by (cases "?ids x") (auto simp: scores_def)
  have next_T: "x = cs" if "x \<in> ?T"
    using next_of_unique [OF less.prems(3) next_of_subset [OF x(2) scores_without that]] by simp
  have run: "getValidNextNode R r s n ranged =
      (if getNodeID k \<noteq> n then Inr (getNodeID k) else if length (k # ks) > 1 then Inr (getNodeID ((k # ks) ! 1))
       else getValidNextNode R r x n (insert s ranged))"
    by (subst getValidNextNode.simps) (simp add: sr(2) x(1) x1(1) xr nd k)
  consider "getNodeID k \<noteq> n" | k2 ks' where "getNodeID k = n" "ks = k2 # ks'" | "getNodeID k = n" "ks = []" by (cases ks) auto
  then show ?case
  proof cases
    case 1
    then show ?thesis using hd_without(1) [of ?ids x k ks n] k 1 next_T x(2) run by auto
  next
    case 2
    then show ?thesis using hd_without(2) [of ?ids x k ks n k2 ks'] 2 next_T x(2) run k by (cases "getNodeID k2 = n") auto
  next
    case 3
    have xT: "x \<notin> ?T" using hd_without(3) [of ?ids x k ks n] k 3 by simp
    have "0 \<le> way cs x" using x1(2) cS(1) S by (auto simp: way_def score_range_def)
    then have lt: "nat (way cs x) < nat (way cs s)" using w by simp
    have "next_of ?T (incrScore x) cs" by (rule next_of_skip [OF S x(2) scores_without xT less.prems(3)])
    from less.hyps [OF lt xS xT this, of "insert s ranged"] w less.prems(4)
    obtain to where "getValidNextNode R r x n (insert s ranged) = Inr to" "to \<noteq> n \<longrightarrow> to = getNodeID (hd (without n ?ids cs))"
      by force
    then show ?thesis using run 3 x(2) k by auto
  qed
qed


text \<open>Which keys \<^verbatim>\<open>migrateOut\<close> moves, and that those it leaves still belong to the node.\<close>

lemma plan_ok:
  assumes r: "rinv r" and enc: "\<And>d. encryptor c d \<in> score_range" and S: "scores (ids_of (view r)) \<subseteq> score_range"
    and k: "k \<in> set (ids_of (view r) v)" "getNodeID k = n" and Dn: "\<forall>d \<in> vData (view r) n. owned (encryptor c) (ids_of (view r)) d n"
    and T: "scores (without n (ids_of (view r))) \<noteq> {}" and names: "\<forall>s. \<forall>k \<in> set (ids_of (view r) s). getNodeID k \<noteq> []"
  shows "\<exists>ds to. migrateOut_plan R c v n r = Inr (ds, n, to) \<and> set ds \<subseteq> vData (view r) n \<and> (ds \<noteq> [] \<longrightarrow> to \<noteq> [])
    \<and> (to \<noteq> n \<longrightarrow> (\<forall>d \<in> set ds. owned (encryptor c) (without n (ids_of (view r))) d to))
    \<and> (\<forall>d \<in> (if to = n then vData (view r) n else vData (view r) n - set ds).
         owned (encryptor c) ((ids_of (view r))(v := remove1 k (ids_of (view r) v))) d n)"
proof -
  let ?ids = "ids_of (view r)" and ?D = "vData (view r)" and ?e = "encryptor c"
  let ?S = "scores ?ids" and ?T = "scores (without n ?ids)" and ?ids' = "?ids(v := remove1 k (?ids v))"
  note D = Dn [rule_format]
  have n: "n \<noteq> []" using names k by blast
  have vS: "v \<in> ?S" "v \<in> score_range" using k(1) S by (auto simp: scores_def)
  note nd = node_at [OF r vS(1)]
  have ne: "?ids v \<noteq> []" using k(1) by auto
  have stay: "owned ?e ?ids' d n" if "d \<in> ?D n" "\<not> next_of ?S (?e d) v" for d by (rule owned_elsewhere [OF D [OF that(1)] that(2)])
  show ?thesis
  proof (cases "getNodeID (hd (?ids v)) = n")
    case False
    then have "\<not> next_of ?S (?e d) v" if "d \<in> ?D n" for d using owned_at [OF D [OF that]] by auto
    then show ?thesis using False stay nd n ne by (intro exI [of _ "[]"]) (simp add: migrateOut_plan_def)
  next
    case hd: True
    obtain all where all: "rDataKeys R r n = Inr all" "set all = ?D n" using data_keys [OF r] by blast
    obtain l where l: "rFloor R r (decreaseScore v) = Inr l" "prev_of ?S (decreaseScore v) l" using floor_prev [OF r] vS(1) by blast
    have lS: "l \<in> ?S" using l(2) by (simp add: prev_of_def)
    then have lr: "l \<in> score_range" "l \<noteq> - 1" using S by (auto simp: score_range_def)
    define only where "only = (l = v)"
    define ds where "ds = filter (\<lambda>d. only \<or> in_arc l v (?e d)) all"
    have keys: "out_keys ?e l v only all = ds" unfolding ds_def by (rule out_keys_arc [OF enc lr(1) vS(2)]) (simp add: only_def)
    have at: "d \<in> set ds \<longleftrightarrow> d \<in> ?D n \<and> next_of ?S (?e d) v" for d
    proof (cases only)
      case True
      then have "y = v" if "y \<in> ?S" for y
        using prev_neighbour(2) [of v ?S l y] l(2) S vS that by (auto simp: only_def insert_absorb)
      then have "?S = {v}" using vS(1) by blast
      then have "next_of ?S (?e d) v" by (auto simp: next_of_def)
      then show ?thesis using True all(2) by (simp add: ds_def)
    next
      case False
      then have "next_of ?S (?e d) v \<longleftrightarrow> in_arc l v (?e d)" by (intro next_of_self_arc [OF S vS(1) _ l(2)]) (simp add: only_def)
      then show ?thesis using False all(2) by (auto simp: ds_def)
    qed
    obtain k1 ks where k1: "?ids v = k1 # ks" "getNodeID k1 = n" using ne hd by (cases "?ids v") auto
    consider "all = []" | k2 ks' where "all \<noteq> []" "ks = k2 # ks'" | "all \<noteq> []" "ks = []" by (cases ks) auto
    then show ?thesis
    proof cases
      case 1
      then show ?thesis using all hd ne nd n by (intro exI [of _ "[]"]) (simp add: migrateOut_plan_def)
    next
      case 2
      let ?to = "getNodeID k2"
      have "migrateOut_plan R c v n r = Inr (ds, n, ?to)"
        using 2 all(1) hd ne nd l(1) lr(2) keys k1 by (simp add: migrateOut_plan_def only_def [symmetric] Let_def)
      moreover have "?to \<noteq> []" using names k1(1) 2(2) by (metis list.set_intros)
      moreover have "owned ?e (without n ?ids) d ?to" if "d \<in> set ds" "?to \<noteq> n" for d
        using owned_second [of ?ids ?e d v k1 k2 ks' n] that at k1 2 by simp
      moreover have "owned ?e ?ids' d n" if d: "d \<in> (if ?to = n then ?D n else ?D n - set ds)" for d
      proof (cases "next_of ?S (?e d) v")
        case True
        then have to: "?to = n" "d \<in> ?D n" using d at by (auto split: if_splits)
        have "remove1 k (?ids v) \<noteq> []" "getNodeID (hd (remove1 k (?ids v))) = n" using k1 2 to(1) by (auto split: if_splits)
        then show ?thesis using owned_same_score [of ?ids ?e d v k] True by simp
      next
        case False
        then show ?thesis using stay d by (auto split: if_splits)
      qed
      ultimately show ?thesis using at by (intro exI [of _ ds] exI [of _ ?to]) auto
    next
      case 3
      then have kv: "?ids v = [k]" using k k1 by auto
      have vT: "v \<notin> ?T" using kv k(2) by (simp add: scores_def without_def)
      obtain cs where cs: "next_of ?T (incrScore v) cs" using next_of_exists [OF _ T] S scores_without by blast
      have csS: "cs \<in> ?S" "cs \<noteq> v" using cs vT scores_without by (auto simp: next_of_def)
      then have "l \<noteq> v" using prev_neighbour(2) [of v ?S l cs] l(2) S vS(1) by (auto simp: insert_absorb)
      then have lv: "l \<noteq> v" "\<not> only" by (simp_all add: only_def)
      obtain to x where to: "getValidNextNode R r v n {} = Inr to" "next_of ?S (incrScore v) x"
        "to = n \<longrightarrow> getNodeID (hd (?ids x)) = n" "to \<noteq> n \<longrightarrow> to = getNodeID (hd (without n ?ids cs))"
        using getValidNextNode_ok [OF r S vS(1) vT cs, of "{}"] by auto
      have "next_of ?T (?e d) cs" if "next_of ?S (?e d) v" for d by (rule next_of_beyond [OF S that scores_without vT cs])
      then have own: "owned ?e (without n ?ids) d to" if "d \<in> set ds" "to \<noteq> n" for d
        using at that to(4) by (auto simp: owned_def intro!: exI [of _ cs])
      have "x \<noteq> v"
        using next_neighbour [OF to(2) S vS(2) csS] by auto
      then have keep: "owned ?e ?ids' d n" if "next_of ?S (?e d) v" "to = n" for d
        using owned_next [of ?ids v k ?e d x] S kv that to(2,3) by simp
      have "to \<noteq> []"
      proof (cases "to = n")
        case False
        have "hd (without n ?ids cs) \<in> set (without n ?ids cs)" using cs by (simp add: next_of_def scores_def)
        then have "hd (without n ?ids cs) \<in> set (?ids cs)" by (simp add: without_def)
        then show ?thesis using to(4) False names by auto
      qed (simp add: n)
      moreover have "migrateOut_plan R c v n r = Inr (ds, n, to)"
        using 3 all(1) hd ne nd l(1) lr(2) keys kv to(1) lv \<open>to \<noteq> []\<close> by (simp add: migrateOut_plan_def only_def [symmetric] Let_def)
      moreover have "owned ?e ?ids' d n" if "d \<in> (if to = n then ?D n else ?D n - set ds)" for d
        using that stay keep at by (cases "next_of ?S (?e d) v") (auto split: if_splits)
      ultimately show ?thesis using at own by (intro exI [of _ ds] exI [of _ to]) auto
    qed
  qed
qed


lemma migrateOut_ok:
  assumes r: "rinv r" and c: "hasMigrator c" and enc: "\<And>d. encryptor c d \<in> score_range" and S: "scores (ids_of (view r)) \<subseteq> score_range"
    and k: "k \<in> set (ids_of (view r) v)" "getNodeID k = n" and lv: "leaving (encryptor c) n (ids_of (view r)) (vData (view r))"
    and T: "scores (without n (ids_of (view r))) \<noteq> {}" and names: "\<forall>s. \<forall>k \<in> set (ids_of (view r) s). getNodeID k \<noteq> []"
  shows "\<exists>ds to r'. migrateOut R c v n r = (Inr (ds, n, to), r') \<and> rinv r'
    \<and> view r' = (view r)\<lparr>vData := move n to (set ds) (vData (view r))\<rparr> \<and> set ds \<subseteq> vData (view r) n
    \<and> leaving (encryptor c) n ((ids_of (view r))(v := remove1 k (ids_of (view r) v))) (vData (view r'))
    \<and> (to \<noteq> n \<longrightarrow> (\<forall>d \<in> set ds. owned (encryptor c) (without n (ids_of (view r))) d to))"
proof -
  have D: "\<forall>d \<in> vData (view r) n. owned (encryptor c) (ids_of (view r)) d n" using lv by (simp add: leaving_def)
  obtain ds to where pl: "migrateOut_plan R c v n r = Inr (ds, n, to)" "set ds \<subseteq> vData (view r) n" "ds \<noteq> [] \<longrightarrow> to \<noteq> []"
    "to \<noteq> n \<longrightarrow> (\<forall>d \<in> set ds. owned (encryptor c) (without n (ids_of (view r))) d to)"
    "\<forall>d \<in> (if to = n then vData (view r) n else vData (view r) n - set ds).
         owned (encryptor c) ((ids_of (view r))(v := remove1 k (ids_of (view r) v))) d n"
    using plan_ok [OF r enc S k D T names] by (elim exE conjE) (rule that)
  note ls = leaving_step [OF lv k(2) pl(2,4,5)]
  show ?thesis
  proof (cases "ds = []")
    case True
    then have "move n to (set ds) (vData (view r)) = vData (view r)" by (simp add: move_def fun_upd_idem)
    then show ?thesis using True c pl ls r by (intro exI [of _ ds] exI [of _ to] exI [of _ r]) (simp add: migrateOut_def run_defs)
  next
    case False
    obtain r1 where r1: "rDeleteNodeToDataKeys R r n ds = Inr r1" "rinv r1"
      "view r1 = (view r)\<lparr>vData := (vData (view r))(n := vData (view r) n - set ds)\<rparr>" using delete_data [OF r] by blast
    obtain r2 where r2: "rAddNodeToDataKeys R r1 to ds = Inr r2" "rinv r2"
      "view r2 = (view r1)\<lparr>vData := (vData (view r1))(to := vData (view r1) to \<union> set ds)\<rparr>" using add_data [OF r1(2)] by blast
    have v2: "view r2 = (view r)\<lparr>vData := move n to (set ds) (vData (view r))\<rparr>" by (simp add: r1(3) r2(3) move_def Let_def)
    have "migrateOut R c v n r = (Inr (ds, n, to), r2)"
      using c pl(1,3) False r1(1) r2(1) by (simp add: migrateOut_def run_defs)
    then show ?thesis using r2(2) v2 ls pl(2,4) by (intro exI [of _ ds] exI [of _ to] exI [of _ r2]) simp
  qed
qed

lemma remove_virtual_ok:
  fixes n i
  assumes r: "rinv r" and c: "hasMigrator c" and enc: "\<And>d. encryptor c d \<in> score_range"
    and S: "scores (ids_of (view r)) \<subseteq> score_range" and lv: "leaving (encryptor c) n (ids_of (view r)) (vData (view r))"
    and T: "scores (without n (ids_of (view r))) \<noteq> {}" and names: "\<forall>s. \<forall>k \<in> set (ids_of (view r) s). getNodeID k \<noteq> []"
  defines "k \<equiv> getRawNodeKey n i"
  defines "v \<equiv> encryptor c k"
  assumes k: "k \<in> set (ids_of (view r) v)"
  shows "\<exists>ts r'. remove_virtual R c n i tasks r = (Inr (tasks @ ts), r') \<and> rinv r'
    \<and> ids_of (view r') = (ids_of (view r))(v := remove1 k (ids_of (view r) v)) \<and> vReps (view r') = vReps (view r)
    \<and> vHeld (view r') = vHeld (view r) \<and> leaving (encryptor c) n (ids_of (view r')) (vData (view r'))
    \<and> handed (encryptor c) n (without n (ids_of (view r))) (view r) (view r') ts
    \<and> ((\<forall>d. \<not> owned (encryptor c) (without n (ids_of (view r))) d k) \<longrightarrow> \<Union> (range (vData (view r'))) = \<Union> (range (vData (view r))))"
proof -
  let ?e = "encryptor c" and ?ids = "ids_of (view r)" and ?D = "vData (view r)"
  let ?F = "without n ?ids" and ?ids' = "?ids(v := remove1 k (?ids v))"
  have kn: "getNodeID k = n" "k \<noteq> n" by (simp_all add: k_def getNodeID_raw raw_not_name)
  obtain ds to r1 where m: "migrateOut R c v n r = (Inr (ds, n, to), r1)" "rinv r1" "view r1 = (view r)\<lparr>vData := move n to (set ds) ?D\<rparr>"
    "set ds \<subseteq> ?D n" "leaving ?e n ?ids' (vData (view r1))" "to \<noteq> n \<longrightarrow> (\<forall>d \<in> set ds. owned ?e ?F d to)"
    using migrateOut_ok [OF r c enc S k kn(1) lv T names] by (elim exE conjE) (rule that)
  have tab1: "vTab (view r1) = vTab (view r)" by (simp add: m(3))
  then have k1: "k \<in> set (ids_of (view r1) v)" using k by simp
  obtain r2 D where r2: "rRem R r1 v k = Inr r2" "rinv r2" "view r2 = (view r1)\<lparr>vTab := tab_rem v k (vTab (view r1)), vData := D\<rparr>"
    "\<forall>m. m \<noteq> k \<longrightarrow> D m = vData (view r1) m" "D k \<subseteq> vData (view r1) k" using rem [OF m(2) k1] by blast
  have ids2: "ids_of (view r2) = ?ids'" using tab_rem_ids [OF tab_ok [OF r] k] by (simp add: r2(3) tab1)
  have D2: "vData (view r2) = D" by (simp add: r2(3))
  have sub: "D m \<subseteq> vData (view r1) m" for m using r2(4,5) by (cases "m = k") auto
  have lv2: "leaving ?e n ?ids' D" using m(5) sub unfolding leaving_def by blast
  have F: "without n ?ids' = ?F" by (rule without_remove [OF kn(1)])
  let ?ts = "if ds = [] then [] else [(ds, n, to)]"
  have "remove_virtual R c n i tasks r = (Inr (tasks @ ?ts), r2)"
    using m(1) r2(1) by (simp add: remove_virtual_def Let_def run_defs k_def [symmetric] v_def [symmetric])
  moreover have "handed ?e n ?F (view r) (view r2) ?ts"
  proof -
    have "d \<in> set ds \<and> to \<noteq> n" if "d \<in> ?D n" "d \<notin> D n" for d
    proof -
      have "d \<notin> move n to (set ds) ?D n" using that(2) r2(4) kn(2) m(3) by auto
      then show ?thesis using that(1) m(4) by (auto simp: move_def Let_def split: if_splits)
    qed
    then have "(ds, n, to) \<in> set ?ts \<and> d \<in> set ds \<and> owned ?e ?F d to" if "d \<in> ?D n" "d \<notin> D n" for d using that m(6) by auto
    then show ?thesis unfolding handed_def D2 by (intro conjI ballI impI) (auto split: if_splits)
  qed
  moreover have "\<Union> (range D) = \<Union> (range ?D)" if none: "\<forall>d. \<not> owned ?e ?F d k"
  proof -
    have "vData (view r1) k = {}" using m(5) none kn(2) unfolding leaving_def F by blast
    then have "D = vData (view r1)" using r2(4,5) by (metis ext subset_empty)
    then show ?thesis using move_union [of "set ds" ?D n to] m(3,4) by simp
  qed
  moreover have "vReps (view r2) = vReps (view r)" "vHeld (view r2) = vHeld (view r)" by (simp_all add: r2(3) m(3))
  ultimately show ?thesis using r2(2) ids2 lv2 D2 by metis
qed


lemma remove_all:
  assumes r: "rinv r" and c: "hasMigrator c" and enc: "\<And>d. encryptor c d \<in> score_range"
    and K: "keys_ok (encryptor c) K (ids_of (view r))" "\<forall>i < reps. getRawNodeKey n i \<in> K" "\<forall>k \<in> K. getNodeID k \<noteq> []"
    and lv: "leaving (encryptor c) n (ids_of (view r)) (vData (view r))" and F: "F = without n (ids_of (view r))" "scores F \<noteq> {}"
  shows "\<exists>ts r'. sfold (remove_virtual R c n) [0..<reps] [] r = (Inr ts, r') \<and> rinv r'
    \<and> keys_ok (encryptor c) (K - getRawNodeKey n ` {..<reps}) (ids_of (view r')) \<and> without n (ids_of (view r')) = F
    \<and> vReps (view r') = vReps (view r) \<and> vHeld (view r') = vHeld (view r) \<and> leaving (encryptor c) n (ids_of (view r')) (vData (view r'))
    \<and> handed (encryptor c) n F (view r) (view r') ts
    \<and> ((\<forall>i d. \<not> owned (encryptor c) F d (getRawNodeKey n i)) \<longrightarrow> \<Union> (range (vData (view r'))) = \<Union> (range (vData (view r))))"
proof -
  let ?e = "encryptor c" and ?free = "\<forall>i d. \<not> owned (encryptor c) F d (getRawNodeKey n i)"
  define J where "J i ts s \<longleftrightarrow> rinv s \<and> keys_ok ?e (K - getRawNodeKey n ` {..<i}) (ids_of (view s)) \<and> without n (ids_of (view s)) = F
    \<and> vReps (view s) = vReps (view r) \<and> vHeld (view s) = vHeld (view r) \<and> leaving ?e n (ids_of (view s)) (vData (view s))
    \<and> handed ?e n F (view r) (view s) ts \<and> (?free \<longrightarrow> \<Union> (range (vData (view s))) = \<Union> (range (vData (view r))))" for i ts s
  have "\<exists>ts r'. sfold (remove_virtual R c n) [0..<reps] [] r = (Inr ts, r') \<and> (\<exists>i. [] = [i..<reps] \<and> i \<le> reps \<and> J i ts r')"
  proof (rule sfold_total)
    show "\<exists>i. [0..<reps] = [i..<reps] \<and> i \<le> reps \<and> J i [] r"
      using r K(1) lv F(1) by (intro exI [of _ 0]) (simp add: J_def handed_def)
  next
    fix i "is" ts s
    assume "\<exists>j. i # is = [j..<reps] \<and> j \<le> reps \<and> J j ts s"
    then obtain j where j: "i # is = [j..<reps]" "J j ts s" by blast
    have i: "i = j" "is = [Suc j..<reps]" "j < reps" using j(1) [symmetric] by (auto simp: upt_eq_Cons_conv)
    let ?k = "getRawNodeKey n j"
    have s: "rinv s" "keys_ok ?e (K - getRawNodeKey n ` {..<j}) (ids_of (view s))" "without n (ids_of (view s)) = F"
      "leaving ?e n (ids_of (view s)) (vData (view s))" "handed ?e n F (view r) (view s) ts"
      using j(2) by (simp_all add: J_def)
    have S: "scores (ids_of (view s)) \<subseteq> score_range" by (rule keys_range [OF s(2) enc])
    have "?k \<notin> getRawNodeKey n ` {..<j}" by (auto simp: getRawNodeKey_inj)
    then have k: "?k \<in> set (ids_of (view s) (?e ?k))" using s(2) K(2) i(3) by (simp add: keys_ok_def)
    have names: "\<forall>x. \<forall>k \<in> set (ids_of (view s) x). getNodeID k \<noteq> []" using s(2) K(3) by (simp add: keys_ok_def)
    have T: "scores (without n (ids_of (view s))) \<noteq> {}" using F(2) s(3) by simp
    obtain ts' s' where s': "remove_virtual R c n j ts s = (Inr (ts @ ts'), s')" "rinv s'"
      "ids_of (view s') = (ids_of (view s))(?e ?k := remove1 ?k (ids_of (view s) (?e ?k)))"
      "vReps (view s') = vReps (view s)" "vHeld (view s') = vHeld (view s)" "leaving ?e n (ids_of (view s')) (vData (view s'))"
      "handed ?e n (without n (ids_of (view s))) (view s) (view s') ts'"
      "(\<forall>d. \<not> owned ?e (without n (ids_of (view s))) d ?k) \<longrightarrow> \<Union> (range (vData (view s'))) = \<Union> (range (vData (view s)))"
      using remove_virtual_ok [OF s(1) c enc S s(4) T names k, of ts] by (elim exE conjE) (rule that)
    have dst: "distinct (ids_of (view s) (?e ?k))" using tab_ids_distinct tab_ok [OF s(1)] by blast
    have "keys_ok ?e (K - getRawNodeKey n ` {..<Suc j}) (ids_of (view s'))"
      using s(2) dst unfolding s'(3) keys_ok_def by (auto simp: lessThan_Suc set_remove1_eq)
    moreover have "without n (ids_of (view s')) = F" unfolding s'(3) using without_remove [OF getNodeID_raw] s(3) by simp
    ultimately have "J (Suc j) (ts @ ts') s'"
      using s' j(2) handed_trans [OF s(5)] s(3) by (simp add: J_def)
    then show "\<exists>ts' s'. remove_virtual R c n i ts s = (Inr ts', s') \<and> (\<exists>i. is = [i..<reps] \<and> i \<le> reps \<and> J i ts' s')"
      using s'(1) i by (intro exI [of _ "ts @ ts'"] exI [of _ s'] conjI exI [of _ "Suc j"]) simp_all
  qed
  then obtain ts r' i where f: "sfold (remove_virtual R c n) [0..<reps] [] r = (Inr ts, r')" "[] = [i..<reps]" "i \<le> reps" "J i ts r'" by blast
  have "i = reps" using f(2,3) upt_eq_Nil_conv [of i reps] by auto
  then show ?thesis using f(1,4) by (intro exI [of _ ts] exI [of _ r']) (simp add: J_def)
qed

lemma RemoveNode_ok:
  assumes r: "rinv r" "hash_ok (encryptor c) (view r)" and c: "hasMigrator c"
    and enc: "\<And>d. encryptor c d \<in> score_range" and n: "vReps (view r) n = Some reps" and other: "vReps (view r) m = Some reps'" "m \<noteq> n"
  shows "\<exists>ts r'. RemoveNode R c tok n r = (Inr ts, r') \<and> rinv r' \<and> hash_ok (encryptor c) (view r')
    \<and> vReps (view r') = (vReps (view r))(n := None) \<and> ids_of (view r') = without n (ids_of (view r)) \<and> vData (view r') n = {}
    \<and> handed (encryptor c) n (ids_of (view r')) (view r) (view r') ts
    \<and> ((\<forall>i. vReps (view r) (getRawNodeKey n i) = None) \<longrightarrow> \<Union> (range (vData (view r'))) = \<Union> (range (vData (view r))))"
proof -
  let ?e = "encryptor c" and ?F = "without n (ids_of (view r))" and ?K = "rep_keys (vReps (view r))"
  let ?reps = "(vReps (view r))(n := None)" and ?body = "remove_locked R c n"
  have held: "vHeld (view r) = None" and keys: "keys_ok ?e ?K (ids_of (view r))" and pl: "placed ?e (ids_of (view r)) (vData (view r))"
    and pos: "\<forall>m c. vReps (view r) m = Some c \<longrightarrow> m \<noteq> [] \<and> 0 < c" using r(2) by (simp_all add: hash_ok_def)
  define Q where "Q x V \<longleftrightarrow> (\<exists>ts. x = Inr ts \<and> hash_ok ?e V \<and> vReps V = ?reps \<and> ids_of V = ?F \<and> vData V n = {} \<and> handed ?e n ?F (view r) V ts
    \<and> ((\<forall>i. vReps (view r) (getRawNodeKey n i) = None) \<longrightarrow> \<Union> (range (vData V)) = \<Union> (range (vData (view r)))))"
    for x :: "go_err + migration list" and V
  have K: "\<forall>i < reps. getRawNodeKey n i \<in> ?K" "\<forall>k \<in> ?K. getNodeID k \<noteq> []"
    using n pos by (auto simp: rep_keysI getNodeID_raw elim!: rep_keysE)
  have del: "rep_keys ?reps = ?K - getRawNodeKey n ` {..<reps}" using n by (rule rep_keys_del)
  have lv: "leaving ?e n (ids_of (view r)) (vData (view r))" using pl owned_without by (auto simp: leaving_def placed_def)
  have F: "scores ?F \<noteq> {}"
  proof -
    have "getRawNodeKey m 0 \<in> set (ids_of (view r) (?e (getRawNodeKey m 0)))" 
      using keys rep_keysI [of "vReps (view r)" m reps' 0] pos other(1) by (simp add: keys_ok_def)
    then have "getRawNodeKey m 0 \<in> set (?F (?e (getRawNodeKey m 0)))" using other(2) by (simp add: without_def getNodeID_raw)
    then have "?e (getRawNodeKey m 0) \<in> scores ?F" by (auto simp: scores_def)
    then show ?thesis by blast
  qed
  have "\<exists>x r'. with_ring_lock R c tok ?body r = (x, r') \<and> rinv r' \<and> vHeld (view r') = None \<and> Q x (view r')"
  proof (rule locked_run [OF r(1) held])
    fix r1 assume r1: "rinv r1" "view r1 = (view r)\<lparr>vHeld := Some tok\<rparr>"
    obtain ns where ns: "rNodes R r1 = Inr ns" "map_of ns = vReps (view r)" using nodes_fst [OF r1(1)] by (auto simp: r1(2))
    obtain r2 where r2: "rDeleteNodeToReplica R r1 n = Inr r2" "rinv r2" "view r2 = (view r1)\<lparr>vReps := (vReps (view r1))(n := None)\<rparr>"
      using delete_replica [OF r1(1)] by blast
    have v2: "vTab (view r2) = vTab (view r)" "vData (view r2) = vData (view r)" "vReps (view r2) = ?reps" "vHeld (view r2) = Some tok"
      by (simp_all add: r2(3) r1(2))
    obtain ts r3 where r3: "sfold (remove_virtual R c n) [0..<reps] [] r2 = (Inr ts, r3)" "rinv r3"
      "keys_ok ?e (?K - getRawNodeKey n ` {..<reps}) (ids_of (view r3))" "without n (ids_of (view r3)) = ?F"
      "vReps (view r3) = ?reps" "vHeld (view r3) = Some tok" "leaving ?e n (ids_of (view r3)) (vData (view r3))"
      "handed ?e n ?F (view r2) (view r3) ts"
      "(\<forall>i d. \<not> owned ?e ?F d (getRawNodeKey n i)) \<longrightarrow> \<Union> (range (vData (view r3))) = \<Union> (range (vData (view r)))"
      using remove_all [OF r2(2) c enc, of ?K reps n ?F, unfolded v2, OF keys K lv refl F] by (elim exE conjE) (rule that)
    have keys3: "keys_ok ?e (rep_keys ?reps) (ids_of (view r3))" using r3(3) by (simp add: del)
    have gone: "getNodeID k \<noteq> n" if "k \<in> set (ids_of (view r3) s)" for k s
      using keys3 that by (auto simp: keys_ok_def getNodeID_raw elim!: rep_keysE)
    have ids3: "ids_of (view r3) = ?F" unfolding r3(4) [symmetric] using gone by (auto simp: without_def fun_eq_iff filter_id_conv)
    have named: "vReps (view r) a \<noteq> None \<and> a \<noteq> n" if own: "owned ?e ?F d a" for d a
    proof -
      obtain s where "?F s \<noteq> []" "getNodeID (hd (?F s)) = a" using own by (auto simp: owned_def next_of_def scores_def)
      then have "hd (?F s) \<in> set (ids_of (view r3) s)" "getNodeID (hd (?F s)) = a" by (simp_all add: ids3)
      then show ?thesis using keys3 gone by (fastforce simp: keys_ok_def getNodeID_raw elim!: rep_keysE split: if_splits)
    qed
    have none: "vData (view r3) n = {}" using r3(7) named unfolding leaving_def ids3 by blast
    have "placed ?e ?F (vData (view r3))" 
      using r3(7) none unfolding leaving_def placed_def r3(4) by (metis empty_iff)
    then have "hash_ok ?e ((view r3)\<lparr>vHeld := None\<rparr>)"
      using keys3 r3(5) pos by (simp add: hash_ok_def ids3)
    moreover have "handed ?e n ?F (view r) (view r3) ts" using r3(8) v2(2) by (simp add: handed_def)
    moreover have "\<Union> (range (vData (view r3))) = \<Union> (range (vData (view r)))" if "\<forall>i. vReps (view r) (getRawNodeKey n i) = None"
      using r3(9) named that by metis
    ultimately have "Q (Inr ts) ((view r3)\<lparr>vHeld := None\<rparr>)"
      using r3(5) ids3 none by (simp add: Q_def handed_def)
    moreover have "?body r1 = (Inr ts, r3)" using ns n r2(1) r3(1) by (simp add: remove_locked_def run_defs)
    ultimately show "\<exists>x r2. ?body r1 = (x, r2) \<and> rinv r2 \<and> vHeld (view r2) = Some tok \<and> Q x ((view r2)\<lparr>vHeld := None\<rparr>)"
      using r3(2,6) by auto
  qed
  then show ?thesis by (auto simp: Q_def RemoveNode_def)
qed

end

end
