(* ===== verification/CH_Plain.thy ===== *)
theory CH_Plain
  imports CH_Leave
begin

text \<open>
  Nodes that come and go without a migration: additions and removals of a consistent hash that has no
  migrator, and the removal of a node for which no key is recorded, also of the last one.
\<close>

context hash_ring
begin

section \<open>Removals\<close>

lemma migrateOut_idle:
  assumes r: "rinv r" and k: "k \<in> set (ids_of (view r) v)" and idle: "hasMigrator c \<longrightarrow> vData (view r) n = {}"
  shows "\<exists>f. migrateOut R c v n r = (Inr ([], f, []), r)"
proof (cases "hasMigrator c")
  case True
  have v: "v \<in> scores (ids_of (view r))" using k by (auto simp: scores_def)
  obtain ks where "rDataKeys R r n = Inr ks" "set ks = vData (view r) n" using data_keys [OF r] by blast
  then have "migrateOut_plan R c v n r = Inr ([], n, [])"
    using node_at [OF r v] True idle by (simp add: migrateOut_plan_def)
  then show ?thesis using True by (simp add: migrateOut_def run_defs)
qed (simp add: migrateOut_def run_defs)

lemma remove_virtual_idle:
  fixes n i
  defines "k \<equiv> getRawNodeKey n i"
  assumes r: "rinv r" and k: "k \<in> set (ids_of (view r) (encryptor c k))" and idle: "hasMigrator c \<longrightarrow> vData (view r) n = {}"
  shows "\<exists>r'. remove_virtual R c n i tasks r = (Inr tasks, r') \<and> rinv r'
    \<and> ids_of (view r') = (ids_of (view r))(encryptor c k := remove1 k (ids_of (view r) (encryptor c k)))
    \<and> vReps (view r') = vReps (view r) \<and> vHeld (view r') = vHeld (view r) \<and> (\<forall>m. vData (view r') m \<subseteq> vData (view r) m)"
proof -
  obtain f where m: "migrateOut R c (encryptor c k) n r = (Inr ([], f, []), r)" using migrateOut_idle [OF r k idle] by blast
  obtain r' D where r': "rRem R r (encryptor c k) k = Inr r'" "rinv r'"
    "view r' = (view r)\<lparr>vTab := tab_rem (encryptor c k) k (vTab (view r)), vData := D\<rparr>"
    "\<forall>m. m \<noteq> k \<longrightarrow> D m = vData (view r) m" "D k \<subseteq> vData (view r) k" using rem [OF r k] by blast
  have "remove_virtual R c n i tasks r = (Inr tasks, r')"
    using m r'(1) by (simp add: remove_virtual_def Let_def run_defs k_def [symmetric])
  moreover have "D m \<subseteq> vData (view r) m" for m using r'(4,5) by (cases "m = k") auto
  ultimately show ?thesis using r'(2,3) tab_rem_ids [OF tab_ok [OF r] k] by simp
qed

lemma remove_all_idle:
  assumes r: "rinv r" and K: "keys_ok (encryptor c) K (ids_of (view r))" "\<forall>i < reps. getRawNodeKey n i \<in> K"
    and idle: "hasMigrator c \<longrightarrow> vData (view r) n = {}"
  shows "\<exists>r'. sfold (remove_virtual R c n) [0..<reps] [] r = (Inr [], r') \<and> rinv r'
    \<and> keys_ok (encryptor c) (K - getRawNodeKey n ` {..<reps}) (ids_of (view r')) \<and> without n (ids_of (view r')) = without n (ids_of (view r))
    \<and> vReps (view r') = vReps (view r) \<and> vHeld (view r') = vHeld (view r) \<and> (\<forall>m. vData (view r') m \<subseteq> vData (view r) m)"
proof -
  let ?e = "encryptor c"
  define J where "J i ts s \<longleftrightarrow> ts = [] \<and> rinv s \<and> keys_ok ?e (K - getRawNodeKey n ` {..<i}) (ids_of (view s))
    \<and> without n (ids_of (view s)) = without n (ids_of (view r))
    \<and> vReps (view s) = vReps (view r) \<and> vHeld (view s) = vHeld (view r) \<and> (\<forall>m. vData (view s) m \<subseteq> vData (view r) m)"
    for i s and ts :: "migration list"
  have "\<exists>ts r'. sfold (remove_virtual R c n) [0..<reps] [] r = (Inr ts, r') \<and> (\<exists>i. [] = [i..<reps] \<and> i \<le> reps \<and> J i ts r')"
  proof (rule sfold_total)
    show "\<exists>i. [0..<reps] = [i..<reps] \<and> i \<le> reps \<and> J i [] r" using r K(1) by (intro exI [of _ 0]) (simp add: J_def)
  next
    fix i "is" ts s
    assume "\<exists>j. i # is = [j..<reps] \<and> j \<le> reps \<and> J j ts s"
    then obtain j where j: "i # is = [j..<reps]" "J j ts s" by blast
    have i: "i = j" "is = [Suc j..<reps]" "j < reps" using j(1) [symmetric] by (auto simp: upt_eq_Cons_conv)
    let ?k = "getRawNodeKey n j"
    have s: "ts = []" "rinv s" "keys_ok ?e (K - getRawNodeKey n ` {..<j}) (ids_of (view s))" "\<forall>m. vData (view s) m \<subseteq> vData (view r) m"
      using j(2) by (simp_all add: J_def)
    have "?k \<notin> getRawNodeKey n ` {..<j}" by (auto simp: getRawNodeKey_inj)
    then have k: "?k \<in> set (ids_of (view s) (?e ?k))" using s(3) K(2) i(3) by (simp add: keys_ok_def)
    have idle': "hasMigrator c \<longrightarrow> vData (view s) n = {}" using idle s(4) by fast
    obtain s' where s': "remove_virtual R c n j [] s = (Inr [], s')" "rinv s'"
      "ids_of (view s') = (ids_of (view s))(?e ?k := remove1 ?k (ids_of (view s) (?e ?k)))"
      "vReps (view s') = vReps (view s)" "vHeld (view s') = vHeld (view s)" "\<forall>m. vData (view s') m \<subseteq> vData (view s) m"
      using remove_virtual_idle [OF s(2) k idle', of "[]"] by (elim exE conjE) (rule that)
    have dst: "distinct (ids_of (view s) (?e ?k))" using tab_ids_distinct tab_ok [OF s(2)] by blast
    have "keys_ok ?e (K - getRawNodeKey n ` {..<Suc j}) (ids_of (view s'))"
      using s(3) dst unfolding s'(3) keys_ok_def by (auto simp: lessThan_Suc set_remove1_eq)
    moreover have "without n (ids_of (view s')) = without n (ids_of (view s))"
      unfolding s'(3) by (rule without_remove [OF getNodeID_raw])
    moreover have "\<forall>m. vData (view s') m \<subseteq> vData (view r) m" using s(4) s'(6) by blast
    ultimately have "J (Suc j) [] s'" using s'(2,4,5) j(2) by (simp add: J_def)
    then show "\<exists>ts' s'. remove_virtual R c n i ts s = (Inr ts', s') \<and> (\<exists>i. is = [i..<reps] \<and> i \<le> reps \<and> J i ts' s')"
      using s'(1) s(1) i by (intro exI [of _ "[]"] exI [of _ s'] conjI exI [of _ "Suc j"]) simp_all
  qed
  then obtain ts r' i where f: "sfold (remove_virtual R c n) [0..<reps] [] r = (Inr ts, r')" "[] = [i..<reps]" "i \<le> reps" "J i ts r'" by blast
  have "i = reps" using f(2,3) upt_eq_Nil_conv [of i reps] by auto
  then show ?thesis using f(1,4) by (intro exI [of _ r']) (simp add: J_def)
qed

lemma RemoveNode_idle:
  assumes r: "rinv r" "ring_ok (encryptor c) (view r)" and n: "vReps (view r) n = Some reps"
    and idle: "hasMigrator c \<longrightarrow> vData (view r) n = {}"
  shows "\<exists>r'. RemoveNode R c tok n r = (Inr [], r') \<and> rinv r' \<and> ring_ok (encryptor c) (view r')
    \<and> vReps (view r') = (vReps (view r))(n := None) \<and> ids_of (view r') = without n (ids_of (view r))
    \<and> (\<forall>m. vData (view r') m \<subseteq> vData (view r) m)"
proof -
  let ?e = "encryptor c" and ?K = "rep_keys (vReps (view r))" and ?reps = "(vReps (view r))(n := None)" and ?body = "remove_locked R c n"
  have held: "vHeld (view r) = None" and keys: "keys_ok ?e ?K (ids_of (view r))" and pos: "\<forall>m c. vReps (view r) m = Some c \<longrightarrow> 0 < c"
    using r(2) by (simp_all add: ring_ok_def)
  define Q where "Q x V \<longleftrightarrow> x = Inr [] \<and> ring_ok ?e V \<and> vReps V = ?reps \<and> ids_of V = without n (ids_of (view r))
    \<and> (\<forall>m. vData V m \<subseteq> vData (view r) m)" for x :: "go_err + migration list" and V
  have K: "\<forall>i < reps. getRawNodeKey n i \<in> ?K" using n by (simp add: rep_keysI)
  have "\<exists>x r'. with_ring_lock R c tok ?body r = (x, r') \<and> rinv r' \<and> vHeld (view r') = None \<and> Q x (view r')"
  proof (rule locked_run [OF r(1) held])
    fix r1 assume r1: "rinv r1" "view r1 = (view r)\<lparr>vHeld := Some tok\<rparr>"
    obtain ns where ns: "rNodes R r1 = Inr ns" "map_of ns = vReps (view r)" using nodes_fst [OF r1(1)] by (auto simp: r1(2))
    obtain r2 where r2: "rDeleteNodeToReplica R r1 n = Inr r2" "rinv r2" "view r2 = (view r1)\<lparr>vReps := (vReps (view r1))(n := None)\<rparr>"
      using delete_replica [OF r1(1)] by blast
    have v2: "vTab (view r2) = vTab (view r)" "vData (view r2) = vData (view r)" "vReps (view r2) = ?reps" "vHeld (view r2) = Some tok"
      by (simp_all add: r2(3) r1(2))
    obtain r3 where r3: "sfold (remove_virtual R c n) [0..<reps] [] r2 = (Inr [], r3)" "rinv r3"
      "keys_ok ?e (?K - getRawNodeKey n ` {..<reps}) (ids_of (view r3))" "without n (ids_of (view r3)) = without n (ids_of (view r))"
      "vReps (view r3) = ?reps" "vHeld (view r3) = Some tok" "\<forall>m. vData (view r3) m \<subseteq> vData (view r) m"
      using remove_all_idle [OF r2(2), of c ?K reps n, unfolded v2, OF keys K idle] by (elim exE conjE) (rule that)
    have keys3: "keys_ok ?e (rep_keys ?reps) (ids_of (view r3))" using r3(3) rep_keys_del [of "vReps (view r)" n reps, OF n] by simp
    have "getNodeID k \<noteq> n" if "k \<in> set (ids_of (view r3) s)" for k s
      using keys3 that by (auto simp: keys_ok_def getNodeID_raw elim!: rep_keysE)
    then have ids3: "ids_of (view r3) = without n (ids_of (view r))"
      unfolding r3(4) [symmetric] by (auto simp: without_def fun_eq_iff filter_id_conv)
    have "Q (Inr []) ((view r3)\<lparr>vHeld := None\<rparr>)"
      using keys3 r3(5,7) ids3 pos by (simp add: Q_def ring_ok_def)
    moreover have "?body r1 = (Inr [], r3)" using ns n r2(1) r3(1) by (simp add: remove_locked_def run_defs)
    ultimately show "\<exists>x r2. ?body r1 = (x, r2) \<and> rinv r2 \<and> vHeld (view r2) = Some tok \<and> Q x ((view r2)\<lparr>vHeld := None\<rparr>)"
      using r3(2,6) by auto
  qed
  then show ?thesis by (auto simp: Q_def RemoveNode_def)
qed

text \<open>With a migrator the recorded keys of the other nodes stay where a lookup finds them.\<close>

lemma RemoveNode_unused:
  assumes r: "rinv r" "hash_ok (encryptor c) (view r)" and n: "vReps (view r) n = Some reps" and idle: "vData (view r) n = {}"
  shows "\<exists>r'. RemoveNode R c tok n r = (Inr [], r') \<and> rinv r' \<and> hash_ok (encryptor c) (view r')"
proof -
  have pl: "owned (encryptor c) (ids_of (view r)) d m" if "d \<in> vData (view r) m" for d m
    using r(2) that by (simp add: hash_ok_def placed_def)
  obtain r' where r': "RemoveNode R c tok n r = (Inr [], r')" "rinv r'" "ring_ok (encryptor c) (view r')"
    "vReps (view r') = (vReps (view r))(n := None)" "ids_of (view r') = without n (ids_of (view r))"
    "\<forall>m. vData (view r') m \<subseteq> vData (view r) m"
    using RemoveNode_idle [OF r(1) hash_ok_ring [OF r(2)] n, of tok] idle by auto
  have "owned (encryptor c) (ids_of (view r')) d m" if "d \<in> vData (view r') m" for d m
  proof -
    have d: "d \<in> vData (view r) m" using r'(6) that by blast
    then have "m \<noteq> n" using idle by auto
    then show ?thesis unfolding r'(5) by (rule owned_without [OF pl [OF d]])
  qed
  then have "hash_ok (encryptor c) (view r')"
    using r'(3,4) r(2) by (simp add: hash_ok_def ring_ok_def placed_def) blast
  then show ?thesis using r'(1,2) by blast
qed

section \<open>Additions without a migrator\<close>

lemma add_all_plain:
  assumes r: "rinv r" and c: "\<not> hasMigrator c"
    and K: "keys_ok (encryptor c) K (ids_of (view r))" "\<And>i. getRawNodeKey n i \<notin> K"
  shows "\<exists>r'. sfold (add_virtual R c n) [0..<reps] [] r = (Inr [], r') \<and> rinv r'
    \<and> keys_ok (encryptor c) (K \<union> getRawNodeKey n ` {..<reps}) (ids_of (view r'))
    \<and> vReps (view r') = vReps (view r) \<and> vHeld (view r') = vHeld (view r)"
proof -
  let ?e = "encryptor c"
  define J where "J i ts s \<longleftrightarrow> ts = [] \<and> rinv s \<and> keys_ok ?e (K \<union> getRawNodeKey n ` {..<i}) (ids_of (view s))
    \<and> vReps (view s) = vReps (view r) \<and> vHeld (view s) = vHeld (view r)" for i s and ts :: "migration list"
  have "\<exists>ts r'. sfold (add_virtual R c n) [0..<reps] [] r = (Inr ts, r') \<and> (\<exists>i. [] = [i..<reps] \<and> i \<le> reps \<and> J i ts r')"
  proof (rule sfold_total)
    show "\<exists>i. [0..<reps] = [i..<reps] \<and> i \<le> reps \<and> J i [] r" using r K(1) by (intro exI [of _ 0]) (simp add: J_def)
  next
    fix i "is" ts s
    assume "\<exists>j. i # is = [j..<reps] \<and> j \<le> reps \<and> J j ts s"
    then obtain j where j: "i # is = [j..<reps]" "J j ts s" by blast
    have i: "i = j" "is = [Suc j..<reps]" "j < reps" using j(1) [symmetric] by (auto simp: upt_eq_Cons_conv)
    let ?k = "getRawNodeKey n j"
    have s: "ts = []" "rinv s" "keys_ok ?e (K \<union> getRawNodeKey n ` {..<j}) (ids_of (view s))" using j(2) by (simp_all add: J_def)
    have "?k \<notin> getRawNodeKey n ` {..<j}" by (auto simp: getRawNodeKey_inj)
    then have k: "?k \<notin> set (ids_of (view s) (?e ?k))" using s(3) K(2) by (simp add: keys_ok_def)
    obtain s' where s': "rAdd R s (?e ?k) ?k = Inr s'" "rinv s'" "view s' = (view s)\<lparr>vTab := tab_add (?e ?k) ?k (vTab (view s))\<rparr>"
      using add [OF s(2)] by blast
    have ids': "ids_of (view s') = (ids_of (view s))(?e ?k := ids_of (view s) (?e ?k) @ [?k])"
      using tab_add_ids [OF tab_ok [OF s(2)], of "?e ?k" ?k] k by (simp add: s'(3))
    have "keys_ok ?e (K \<union> getRawNodeKey n ` {..<Suc j}) (ids_of (view s'))"
      using s(3) unfolding ids' keys_ok_def by (auto simp: lessThan_Suc)
    then have "J (Suc j) [] s'" using s'(2,3) j(2) by (simp add: J_def)
    moreover have "add_virtual R c n j [] s = (Inr [], s')" using c s'(1) by (simp add: add_virtual_def Let_def migrateIn_def run_defs)
    ultimately show "\<exists>ts' s'. add_virtual R c n i ts s = (Inr ts', s') \<and> (\<exists>i. is = [i..<reps] \<and> i \<le> reps \<and> J i ts' s')"
      using s(1) i by (intro exI [of _ "[]"] exI [of _ s'] conjI exI [of _ "Suc j"]) simp_all
  qed
  then obtain ts r' i where f: "sfold (add_virtual R c n) [0..<reps] [] r = (Inr ts, r')" "[] = [i..<reps]" "i \<le> reps" "J i ts r'" by blast
  have "i = reps" using f(2,3) upt_eq_Nil_conv [of i reps] by auto
  then show ?thesis using f(1,4) by (intro exI [of _ r']) (simp add: J_def)
qed

lemma AddNode_plain:
  assumes r: "rinv r" "ring_ok (encryptor c) (view r)" and c: "\<not> hasMigrator c" "1 \<le> optReplicas (chOpts c)"
    and n: "vReps (view r) n = None"
  shows "\<exists>r'. AddNode R c tok n w r = (Inr [], r') \<and> rinv r' \<and> ring_ok (encryptor c) (view r')"
proof -
  let ?e = "encryptor c" and ?m = "nat (getValidWeight w * optReplicas (chOpts c))" and ?body = "add_locked R c n w"
  have "1 \<le> getValidWeight w" by (simp add: getValidWeight_def)
  then have m: "0 < ?m" using c(2) by (simp add: zero_less_mult_iff)
  have held: "vHeld (view r) = None" and keys: "keys_ok ?e (rep_keys (vReps (view r))) (ids_of (view r))"
    and pos: "\<forall>m c. vReps (view r) m = Some c \<longrightarrow> 0 < c" using r(2) by (simp_all add: ring_ok_def)
  have "\<exists>x r'. with_ring_lock R c tok ?body r = (x, r') \<and> rinv r' \<and> vHeld (view r') = None \<and> (x = Inr [] \<and> ring_ok ?e (view r'))"
  proof (rule locked_run [OF r(1) held])
    fix r1 assume r1: "rinv r1" "view r1 = (view r)\<lparr>vHeld := Some tok\<rparr>"
    obtain ns where ns: "rNodes R r1 = Inr ns" "fst ` set ns = dom (vReps (view r))" using nodes_fst [OF r1(1)] by (auto simp: r1(2))
    obtain r2 where r2: "rAddNodeToReplica R r1 n ?m = Inr r2" "rinv r2" "view r2 = (view r1)\<lparr>vReps := (vReps (view r1))(n \<mapsto> ?m)\<rparr>"
      using add_replica [OF r1(1)] by blast
    have K: "keys_ok ?e (rep_keys (vReps (view r))) (ids_of (view r2))" "\<And>i. getRawNodeKey n i \<notin> rep_keys (vReps (view r))"
      using keys n by (auto simp: r1(2) r2(3) rep_keys_def getRawNodeKey_inj)
    obtain r3 where r3: "sfold (add_virtual R c n) [0..<?m] [] r2 = (Inr [], r3)" "rinv r3"
      "keys_ok ?e (rep_keys (vReps (view r)) \<union> getRawNodeKey n ` {..<?m}) (ids_of (view r3))"
      "vReps (view r3) = vReps (view r2)" "vHeld (view r3) = vHeld (view r2)"
      using add_all_plain [OF r2(2) c(1) K, of ?m] by (elim exE conjE) (rule that)
    have reps: "vReps (view r3) = (vReps (view r))(n \<mapsto> ?m)" by (simp add: r3(4) r2(3) r1(2))
    have "rep_keys (vReps (view r3)) = rep_keys (vReps (view r)) \<union> getRawNodeKey n ` {..<?m}"
      unfolding reps using n by (rule rep_keys_new)
    then have "ring_ok ?e ((view r3)\<lparr>vHeld := None\<rparr>)" using r3(3) reps pos m by (simp add: ring_ok_def)
    moreover have "?body r1 = (Inr [], r3)" using ns n r2(1) r3(1) by (simp add: add_locked_def run_defs domIff Let_def)
    moreover have "vHeld (view r3) = Some tok" by (simp add: r3(5) r2(3) r1(2))
    ultimately show "\<exists>x r2. ?body r1 = (x, r2) \<and> rinv r2 \<and> vHeld (view r2) = Some tok \<and> (x = Inr [] \<and> ring_ok ?e ((view r2)\<lparr>vHeld := None\<rparr>))"
      using r3(2) by blast
  qed
  then show ?thesis by (auto simp: AddNode_def)
qed

end

end
