(* ===== verification/CH_Run.thy ===== *)
theory CH_Run
  imports CH_Plain
begin

text \<open>
  Runs of the consistent hash: nodes are added, looked up and removed in any order.  The invariant of a
  reachable ring, the properties of the operations on the skiplist ring, and four runs that show
  defects of the code.
\<close>

section \<open>Runs\<close>

text \<open>Without a migrator every call is a step of a run.  With one, two calls are not: adding a node with the empty
  name, which \<^verbatim>\<open>migrateOut\<close> takes for no node at all, and removing the only node while keys are recorded for it.
  Both leave a ring in which lookups and registrations disagree; they are at the end of the theory.  Adding a
  node twice, removing an unknown node and removing the last node when no key is recorded for it are steps.\<close>

inductive ch_reach :: "'r ring_ops \<Rightarrow> ConsistentHash \<Rightarrow> 'r \<Rightarrow> 'r \<Rightarrow> bool" for R c r0 where
  start: "ch_reach R c r0 r0"
| add: "ch_reach R c r0 r \<Longrightarrow> hasMigrator c \<longrightarrow> n \<noteq> [] \<Longrightarrow> ch_reach R c r0 (snd (AddNode R c tok n w r))"
| get: "ch_reach R c r0 r \<Longrightarrow> ch_reach R c r0 (snd (GetNode R c tok d r))"
| remove: "ch_reach R c r0 r \<Longrightarrow> rNodes R r = Inr ns \<Longrightarrow> rDataKeys R r n = Inr ks \<Longrightarrow>
    hasMigrator c \<longrightarrow> ks = [] \<or> (\<exists>m \<in> fst ` set ns. m \<noteq> n) \<Longrightarrow> ch_reach R c r0 (snd (RemoveNode R c tok n r))"

definition good_enc :: "(string \<Rightarrow> int) \<Rightarrow> bool" where
  "good_enc enc \<longleftrightarrow> (\<forall>s. 0 \<le> enc s \<and> enc s < MaxInt32)"

definition migratingHash :: "(string \<Rightarrow> int) \<Rightarrow> (ConsistentHashOptions \<Rightarrow> ConsistentHashOptions) list \<Rightarrow> ConsistentHash" where
  "migratingHash enc opts = NewConsistentHash enc True opts"

section \<open>The invariant\<close>

lemma migratingHash_sel [simp]: "hasMigrator (migratingHash enc opts)" "encryptor (migratingHash enc opts) = enc"
  "1 \<le> optReplicas (chOpts (migratingHash enc opts))"
  by (auto simp: migratingHash_def NewConsistentHash_def ch_repair_def Let_def)

lemma good_encD: "good_enc enc \<Longrightarrow> enc d \<in> score_range"
  by (simp add: good_enc_def score_range_def)

lemma owned_exists:
  assumes "scores ids \<noteq> {}" "scores ids \<subseteq> score_range"
  shows "\<exists>m. owned enc ids d m"
  using next_of_exists [OF assms(2,1)] by (auto simp: owned_def)

context hash_ring
begin

lemma RemoveNode_invalid:
  assumes r: "rinv r" "vHeld (view r) = None" and n: "vReps (view r) n = None"
  shows "\<exists>r'. RemoveNode R c tok n r = (Inl (Err ''invalid node id''), r') \<and> rinv r' \<and> view r' = view r"
proof -
  let ?body = "remove_locked R c n"
  have "\<exists>x r'. with_ring_lock R c tok ?body r = (x, r') \<and> rinv r' \<and> vHeld (view r') = None
    \<and> (x = Inl (Err ''invalid node id'') \<and> view r' = view r)"
  proof (rule locked_run [OF r])
    fix r1 assume r1: "rinv r1" "view r1 = (view r)\<lparr>vHeld := Some tok\<rparr>"
    obtain ns where ns: "rNodes R r1 = Inr ns" "map_of ns = vReps (view r)" using nodes_fst [OF r1(1)] by (auto simp: r1(2))
    have "?body r1 = (Inl (Err ''invalid node id''), r1)" using ns n by (simp add: remove_locked_def run_defs)
    then show "\<exists>x r2. ?body r1 = (x, r2) \<and> rinv r2 \<and> vHeld (view r2) = Some tok
        \<and> (x = Inl (Err ''invalid node id'') \<and> (view r2)\<lparr>vHeld := None\<rparr> = view r)"
      using r1 r(2) by simp
  qed
  then show ?thesis by (auto simp: RemoveNode_def)
qed

lemma GetNode_result:
  assumes r: "rinv r" "ring_ok (encryptor c) (view r)" and enc: "\<And>d. encryptor c d \<in> score_range"
  shows "fst (GetNode R c tok d r) = Inr m \<longleftrightarrow> owned (encryptor c) (ids_of (view r)) d m"
    "rinv (snd (GetNode R c tok d r)) \<and> ring_ok (encryptor c) (view (snd (GetNode R c tok d r)))
     \<and> (hash_ok (encryptor c) (view r) \<longrightarrow> hash_ok (encryptor c) (view (snd (GetNode R c tok d r))))"
    "vTab (view r) = [] \<longleftrightarrow> fst (GetNode R c tok d r) = Inl (Err ''no node available'')"
proof -
  have held: "vHeld (view r) = None" and keys: "keys_ok (encryptor c) (rep_keys (vReps (view r))) (ids_of (view r))"
    using r(2) by (simp_all add: ring_ok_def)
  let ?ok = "\<lambda>r'. rinv r' \<and> ring_ok (encryptor c) (view r') \<and> (hash_ok (encryptor c) (view r) \<longrightarrow> hash_ok (encryptor c) (view r'))"
  have all: "(fst (GetNode R c tok d r) = Inr m \<longleftrightarrow> owned (encryptor c) (ids_of (view r)) d m)
    \<and> ?ok (snd (GetNode R c tok d r))
    \<and> (vTab (view r) = [] \<longleftrightarrow> fst (GetNode R c tok d r) = Inl (Err ''no node available''))"
  proof (cases "vTab (view r) = []")
    case True
    then have "scores (ids_of (view r)) = {}" using scores_tab [OF r(1)] by simp
    then have "\<not> owned (encryptor c) (ids_of (view r)) d m" by (simp add: owned_def next_of_def)
    then show ?thesis using GetNode_none [OF r(1) held True, of c tok d] r True by auto
  next
    case False
    then have "scores (ids_of (view r)) \<noteq> {}" using scores_tab [OF r(1)] by simp
    then obtain m' where m': "owned (encryptor c) (ids_of (view r)) d m'" using owned_exists keys_range [OF keys enc] by blast
    obtain r' where r': "GetNode R c tok d r = (Inr m', r')" "rinv r'"
      "view r' = (view r)\<lparr>vData := (vData (view r))(m' := insert d (vData (view r) m'))\<rparr>"
      using GetNode_ok [OF r m' enc, of tok] by blast
    have "ring_ok (encryptor c) (view r')" using r(2) by (simp add: r'(3) ring_ok_def)
    moreover have "hash_ok (encryptor c) (view r')" if "hash_ok (encryptor c) (view r)"
      using that m' by (auto simp: r'(3) hash_ok_def placed_def)
    moreover have "owned (encryptor c) (ids_of (view r)) d m \<longleftrightarrow> m' = m" using m' owned_unique by blast
    ultimately show ?thesis using r'(1,2) False by simp
  qed
  show "fst (GetNode R c tok d r) = Inr m \<longleftrightarrow> owned (encryptor c) (ids_of (view r)) d m"
    "?ok (snd (GetNode R c tok d r))" "vTab (view r) = [] \<longleftrightarrow> fst (GetNode R c tok d r) = Inl (Err ''no node available'')"
    using all by blast+
qed

lemma reach_ok:
  assumes "ch_reach R c r0 r" "rinv r0" "hash_ok (encryptor c) (view r0)" "hasMigrator c" "1 \<le> optReplicas (chOpts c)"
    and enc: "\<And>d. encryptor c d \<in> score_range"
  shows "rinv r \<and> hash_ok (encryptor c) (view r)"
  using assms(1)
proof (induction rule: ch_reach.induct)
  case start
  then show ?case using assms by simp
next
  case (add r n tok w)
  then have r: "rinv r" "hash_ok (encryptor c) (view r)" and n: "n \<noteq> []" using assms(4) by simp_all
  show ?case
  proof (cases "vReps (view r) n")
    case None
    from AddNode_ok [OF r assms(4,5) enc n None, of tok w] show ?thesis by auto
  next
    case (Some reps)
    have "vHeld (view r) = None" using r(2) by (simp add: hash_ok_def)
    then show ?thesis using AddNode_repeat [OF r(1), of n c tok w] r Some by auto
  qed
next
  case (get r tok d)
  then show ?case using GetNode_result(2) [OF _ hash_ok_ring enc] by blast
next
  case (remove r ns n ks tok)
  then have r: "rinv r" "hash_ok (encryptor c) (view r)" by simp_all
  have held: "vHeld (view r) = None" using r(2) by (simp add: hash_ok_def)
  obtain ns' where ns: "rNodes R r = Inr ns'" "fst ` set ns' = dom (vReps (view r))" using nodes_fst [OF r(1)] by blast
  obtain ks' where ks: "rDataKeys R r n = Inr ks'" "set ks' = vData (view r) n" using data_keys [OF r(1)] by blast
  have "ks = [] \<or> (\<exists>m \<in> fst ` set ns. m \<noteq> n)" using remove.hyps(4) assms(4) by blast
  then have "vData (view r) n = {} \<or> (\<exists>m \<in> dom (vReps (view r)). m \<noteq> n)"
    using remove.hyps(2,3) ns(1) ks(1) unfolding ns(2) [symmetric] ks(2) [symmetric] by simp
  then consider "vReps (view r) n = None" | reps where "vReps (view r) n = Some reps" "vData (view r) n = {}"
    | reps m reps' where "vReps (view r) n = Some reps" "vReps (view r) m = Some reps'" "m \<noteq> n"
    by (cases "vReps (view r) n") auto
  then show ?case
  proof cases
    case 1
    then show ?thesis using RemoveNode_invalid [OF r(1) held, of n c tok] r by auto
  next
    case 2
    from RemoveNode_unused [OF r 2, of tok] show ?thesis by auto
  next
    case 3
    from RemoveNode_ok [OF r assms(4) enc 3, of tok] show ?thesis by auto
  qed
qed

lemma reach_plain:
  assumes "ch_reach R c r0 r" "rinv r0" "ring_ok (encryptor c) (view r0)" "\<not> hasMigrator c" "1 \<le> optReplicas (chOpts c)"
    and enc: "\<And>d. encryptor c d \<in> score_range"
  shows "rinv r \<and> ring_ok (encryptor c) (view r)"
  using assms(1)
proof (induction rule: ch_reach.induct)
  case start
  then show ?case using assms by simp
next
  case (add r n tok w)
  then have r: "rinv r" "ring_ok (encryptor c) (view r)" by simp_all
  then have "vHeld (view r) = None" by (simp add: ring_ok_def)
  then show ?case using AddNode_plain [OF r assms(4,5), of n tok w] AddNode_repeat [OF r(1), of n c tok w] r
    by (cases "vReps (view r) n") auto
next
  case (get r tok d)
  then show ?case using GetNode_result(2) [OF _ _ enc] by blast
next
  case (remove r ns n ks tok)
  then have r: "rinv r" "ring_ok (encryptor c) (view r)" by simp_all
  then have "vHeld (view r) = None" by (simp add: ring_ok_def)
  then show ?case using RemoveNode_idle [OF r, of n _ tok] RemoveNode_invalid [OF r(1), of n c tok] r assms(4)
    by (cases "vReps (view r) n") auto
qed

end


section \<open>On the skiplist ring\<close>

abbreviation local_reach :: "(nat \<Rightarrow> nat) \<Rightarrow> ConsistentHash \<Rightarrow> SkiplistHashRing \<Rightarrow> bool" where
  "local_reach coins c r \<equiv> ch_reach (skiplistRing coins) c NewSkiplistHashRing r"

lemma local_reach_ok:
  assumes "local_reach coins c r" "c = migratingHash enc opts" "good_enc enc"
  shows "rg_inv r" "hash_ok enc (rg_view r)"
proof -
  have "hash_ok enc (rg_view NewSkiplistHashRing)"
    by (simp add: rg_new(2) hash_ok_def keys_ok_def rep_keys_def placed_def tab_ids_def)
  then have "rg_inv r \<and> hash_ok (encryptor c) (rg_view r)"
    using sring.reach_ok [OF assms(1) rg_new(1)] assms(2) good_encD [OF assms(3)] by simp
  then show "rg_inv r" "hash_ok enc (rg_view r)" using assms(2) by simp_all
qed

lemma local_reach_ring:
  assumes "local_reach coins c r" "c = NewConsistentHash enc mig opts" "good_enc enc"
  shows "rg_inv r" "ring_ok enc (rg_view r)"
proof -
  have new: "ring_ok enc (rg_view NewSkiplistHashRing)"
    by (simp add: rg_new(2) ring_ok_def keys_ok_def rep_keys_def tab_ids_def)
  have c: "hasMigrator c = mig" "encryptor c = enc" "1 \<le> optReplicas (chOpts c)"
    by (auto simp: assms(2) NewConsistentHash_def ch_repair_def Let_def)
  have "rg_inv r \<and> ring_ok enc (rg_view r)"
  proof (cases mig)
    case True
    then have "c = migratingHash enc opts" using assms(2) by (simp add: migratingHash_def)
    then show ?thesis using local_reach_ok [OF assms(1) _ assms(3)] hash_ok_ring by blast
  next
    case False
    then show ?thesis using sring.reach_plain [OF assms(1) rg_new(1)] new c good_encD [OF assms(3)] by simp
  qed
  then show "rg_inv r" "ring_ok enc (rg_view r)" by simp_all
qed

lemma local_get:
  assumes "rg_inv r" "hash_ok enc (rg_view r)" "c = migratingHash enc opts" "good_enc enc"
  shows "fst (GetNode (skiplistRing coins) c tok d r) = Inr m \<longleftrightarrow> owned enc (ids_of (rg_view r)) d m"
  using sring.GetNode_result(1) [of r c coins tok d m] assms(1,3) hash_ok_ring [OF assms(2)] good_encD [OF assms(4)] by simp

lemma local_data: "rg_DataKeys r m = Inr ks \<Longrightarrow> set ks = vData (rg_view r) m"
  by (auto simp: rg_DataKeys_def rg_view_def split: option.splits)

lemma local_nodes: "rg_Nodes r = Inr ns \<Longrightarrow> vReps (rg_view r) = map_of ns"
  by (simp add: rg_Nodes_def rg_view_def)

text \<open>C5: With a migrator, in every ring that lookups, additions of nodes with non-empty names and removals produce,
  save the removal of the only node while keys are recorded for it, the keys recorded for a node are at that
  node: a lookup of a recorded key returns the node it is recorded for.\<close>

theorem ch_placement:
  assumes "c = migratingHash enc opts" "good_enc enc" "local_reach coins c r"
    and "rg_DataKeys r m = Inr ks" "d \<in> set ks"
  shows "fst (GetNode (skiplistRing coins) c tok d r) = Inr m"
proof -
  note ok = local_reach_ok [OF assms(3,1,2)]
  have "owned enc (ids_of (rg_view r)) d m" using ok(2) local_data [OF assms(4)] assms(5) by (simp add: hash_ok_def placed_def)
  then show ?thesis using local_get [OF ok assms(1,2)] by simp
qed

text \<open>C12: \<^verbatim>\<open>AddNode\<close> with a new name succeeds.  Afterwards every lookup returns what it returned before or the
  new node, and each recorded key that changed hands is in a migration from its old node to the new
  one; no migration has another destination.\<close>

theorem ch_add_minimal:
  assumes "c = migratingHash enc opts" "good_enc enc" "local_reach coins c r"
    and "rg_Nodes r = Inr ns" "n \<notin> fst ` set ns" "n \<noteq> []"
  shows "\<exists>ts r'. AddNode (skiplistRing coins) c tok n w r = (Inr ts, r')
    \<and> (\<forall>d m. fst (GetNode (skiplistRing coins) c tok d r) = Inr m \<longrightarrow> fst (GetNode (skiplistRing coins) c tok d r') \<in> {Inr m, Inr n})
    \<and> (\<forall>m ks d. m \<noteq> n \<longrightarrow> rg_DataKeys r m = Inr ks \<longrightarrow> d \<in> set ks \<longrightarrow> fst (GetNode (skiplistRing coins) c tok d r') = Inr n \<longrightarrow>
         (\<exists>ds. (ds, m, n) \<in> set ts \<and> d \<in> set ds))
    \<and> (\<forall>(ds, f, t) \<in> set ts. t = n)"
proof -
  note ok = local_reach_ok [OF assms(3,1,2)]
  have new: "vReps (rg_view r) n = None" using assms(5) local_nodes [OF assms(4)] by (simp add: map_of_eq_None_iff)
  have c: "hasMigrator c" "1 \<le> optReplicas (chOpts c)" "encryptor c = enc" using assms(1) by simp_all
  obtain ts r' where a: "AddNode (skiplistRing coins) c tok n w r = (Inr ts, r')" "rg_inv r'" "hash_ok enc (rg_view r')"
    "grown enc n (rg_view r) (rg_view r') ts"
    using sring.AddNode_ok [OF ok(1) _ c(1,2) _ assms(6) new, of coins tok w] ok(2) good_encD [OF assms(2)] c(3) by auto
  note get = local_get [OF ok assms(1,2)] and get' = local_get [OF a(2,3) assms(1,2)]
  have "\<exists>ds. (ds, m, n) \<in> set ts \<and> d \<in> set ds"
    if "m \<noteq> n" "rg_DataKeys r m = Inr ks" "d \<in> set ks" "owned enc (ids_of (rg_view r')) d n" for m ks d
  proof -
    have "\<not> owned enc (ids_of (rg_view r')) d m" using owned_unique [OF that(4), of m] that(1) by blast
    then have "d \<notin> vData (rg_view r') m" using a(3) by (auto simp: hash_ok_def placed_def)
    then show ?thesis using a(4) that(1,3) local_data [OF that(2)] by (simp add: grown_def)
  qed
  moreover have "\<forall>d m. owned enc (ids_of (rg_view r)) d m \<longrightarrow> owned enc (ids_of (rg_view r')) d m \<or> owned enc (ids_of (rg_view r')) d n"
    "\<forall>(ds, f, t) \<in> set ts. t = n" using a(4) by (simp_all add: grown_def)
  ultimately show ?thesis using a(1) by (intro exI [of _ ts] exI [of _ r']) (simp add: get get')
qed

text \<open>C11: \<^verbatim>\<open>RemoveNode\<close> of a registered node succeeds while another node is registered.  Afterwards no lookup
  returns the node, every lookup that returned another node returns it still, no key is recorded for the
  node, and each key that was is in a migration to the node that a lookup now returns.\<close>

theorem ch_remove_minimal:
  assumes "c = migratingHash enc opts" "good_enc enc" "local_reach coins c r"
    and "rg_Nodes r = Inr ns" "n \<in> fst ` set ns" "m \<in> fst ` set ns" "m \<noteq> n"
  shows "\<exists>ts r'. RemoveNode (skiplistRing coins) c tok n r = (Inr ts, r')
    \<and> (\<forall>d. fst (GetNode (skiplistRing coins) c tok d r') \<noteq> Inr n)
    \<and> (\<forall>d a. fst (GetNode (skiplistRing coins) c tok d r) = Inr a \<longrightarrow> a \<noteq> n \<longrightarrow> fst (GetNode (skiplistRing coins) c tok d r') = Inr a)
    \<and> rg_DataKeys r' n = Inr []
    \<and> (\<forall>ks d. rg_DataKeys r n = Inr ks \<longrightarrow> d \<in> set ks \<longrightarrow>
         (\<exists>ds t. (ds, n, t) \<in> set ts \<and> d \<in> set ds \<and> fst (GetNode (skiplistRing coins) c tok d r') = Inr t))"
proof -
  note ok = local_reach_ok [OF assms(3,1,2)]
  obtain reps reps' where reps: "vReps (rg_view r) n = Some reps" "vReps (rg_view r) m = Some reps'"
    using assms(5,6) local_nodes [OF assms(4)] by (metis map_of_eq_None_iff not_Some_eq)
  have c: "hasMigrator c" "encryptor c = enc" using assms(1) by simp_all
  obtain ts r' where a: "RemoveNode (skiplistRing coins) c tok n r = (Inr ts, r')" "rg_inv r'" "hash_ok enc (rg_view r')"
    "ids_of (rg_view r') = without n (ids_of (rg_view r))" "vData (rg_view r') n = {}"
    "handed enc n (ids_of (rg_view r')) (rg_view r) (rg_view r') ts"
    using sring.RemoveNode_ok [OF ok(1) _ c(1) _ reps assms(7), of coins tok] ok(2) good_encD [OF assms(2)] c(2) by auto
  note get = local_get [OF ok assms(1,2)] and get' = local_get [OF a(2,3) assms(1,2)]
  have "\<not> owned enc (ids_of (rg_view r')) d n" for d
  proof
    assume "owned enc (ids_of (rg_view r')) d n"
    then obtain s where "ids_of (rg_view r') s \<noteq> []" "getNodeID (hd (ids_of (rg_view r') s)) = n"
      by (auto simp: owned_def next_of_def scores_def)
    then show False using list.set_sel(1) [of "ids_of (rg_view r') s"] unfolding a(4) by (auto simp: without_def simp del: filter_empty_conv)
  qed
  moreover have "owned enc (ids_of (rg_view r')) d b" if "owned enc (ids_of (rg_view r)) d b" "b \<noteq> n" for d b
    unfolding a(4) by (rule owned_without [OF that])
  moreover have "rg_DataKeys r' n = Inr []" using a(5) by (auto simp: rg_DataKeys_def rg_view_def split: option.splits)
  moreover have "\<exists>ds t. (ds, n, t) \<in> set ts \<and> d \<in> set ds \<and> owned enc (ids_of (rg_view r')) d t"
    if "rg_DataKeys r n = Inr ks" "d \<in> set ks" for ks d
    using a(5,6) local_data [OF that(1)] that(2) by (auto simp: handed_def)
  ultimately show ?thesis using a(1) by (intro exI [of _ ts] exI [of _ r']) (simp add: get get')
qed


text \<open>C39: With or without a migrator, in every ring that a run of lookups, additions and removals produces, a
  lookup never fails while a node is registered and returns a registered node; with no node it returns
  the error \<^verbatim>\<open>no node available\<close>.  Without a migrator the calls of the run are arbitrary; with one, names are
  not empty and the only node is not removed while keys are recorded for it.\<close>

theorem ch_lookup_total:
  assumes "c = NewConsistentHash enc mig opts" "good_enc enc" "local_reach coins c r" "rg_Nodes r = Inr ns"
  shows "(ns = [] \<longrightarrow> fst (GetNode (skiplistRing coins) c tok d r) = Inl (Err ''no node available''))
    \<and> (ns \<noteq> [] \<longrightarrow> (\<exists>m \<in> fst ` set ns. fst (GetNode (skiplistRing coins) c tok d r) = Inr m))"
proof -
  note ok = local_reach_ring [OF assms(3,1,2)] and reps = local_nodes [OF assms(4)]
  let ?ids = "ids_of (rg_view r)"
  have keys: "keys_ok enc (rep_keys (map_of ns)) ?ids" and pos: "\<forall>m c. map_of ns m = Some c \<longrightarrow> 0 < c"
    using ok(2) by (simp_all add: ring_ok_def reps)
  have c: "encryptor c = enc" using assms(1) by (simp add: NewConsistentHash_def)
  show ?thesis
  proof (intro conjI impI)
    assume "ns = []"
    then have "scores ?ids = {}" using keys by (auto simp: keys_ok_def rep_keys_def scores_def)
    then have "vTab (rg_view r) = []" using sring.scores_tab [OF ok(1)] by simp
    then show "fst (GetNode (skiplistRing coins) c tok d r) = Inl (Err ''no node available'')"
      using sring.GetNode_result(3) [of r c coins tok d] ok good_encD [OF assms(2)] c by simp
  next
    assume "ns \<noteq> []"
    then have "map_of ns (fst (hd ns)) \<noteq> None" by (simp add: map_of_eq_None_iff)
    then obtain a reps_a where a: "map_of ns a = Some reps_a" by blast
    then have "getRawNodeKey a 0 \<in> set (?ids (enc (getRawNodeKey a 0)))" using keys rep_keysI [of "map_of ns" a reps_a 0] pos by (simp add: keys_ok_def)
    then have "enc (getRawNodeKey a 0) \<in> scores ?ids" by (auto simp: scores_def)
    then obtain m where m: "owned enc ?ids d m" using owned_exists [of ?ids enc d] keys_range [OF keys good_encD [OF assms(2)]] by blast
    then obtain s where "?ids s \<noteq> []" "getNodeID (hd (?ids s)) = m" by (auto simp: owned_def next_of_def scores_def)
    then have "hd (?ids s) \<in> rep_keys (map_of ns)" "getNodeID (hd (?ids s)) = m"
      using keys list.set_sel(1) [of "?ids s"] unfolding keys_ok_def by blast+
    then have "m \<in> fst ` set ns" by (auto simp: getNodeID_raw elim!: rep_keysE dest!: map_of_SomeD intro: rev_image_eqI)
    then show "\<exists>m \<in> fst ` set ns. fst (GetNode (skiplistRing coins) c tok d r) = Inr m"
      using m sring.GetNode_result(1) [of r c coins tok d m] ok good_encD [OF assms(2)] c by auto
  qed
qed

section \<open>Example runs\<close>

definition len_enc :: "string \<Rightarrow> int" where
  "len_enc s = int (length s) mod 1000"

abbreviation ex_hash :: ConsistentHash where
  "ex_hash \<equiv> migratingHash len_enc [WithReplicas 1]"

abbreviation ex_ring :: "SkiplistHashRing ring_ops" where
  "ex_ring \<equiv> skiplistRing (\<lambda>_. 0)"

text \<open>Nodes \<open>a\<close> at score 3 and \<open>bbb\<close> at 5; the key \<open>k\<close> at 1 belongs to \<open>a\<close>, the key \<open>kkkk\<close> at 4 to \<open>bbb\<close>.\<close>

definition ex1 :: SkiplistHashRing where
  "ex1 = snd (GetNode ex_ring ex_hash ''t'' ''k'' (snd (AddNode ex_ring ex_hash ''t'' ''a'' 1 NewSkiplistHashRing)))"

definition ex2 :: SkiplistHashRing where
  "ex2 = snd (GetNode ex_ring ex_hash ''t'' ''kkkk'' (snd (AddNode ex_ring ex_hash ''t'' ''bbb'' 1 ex1)))"

lemma len_enc_good: "good_enc len_enc"
proof -
  have "int (length s) mod 1000 < 1000" for s :: string by simp
  then show ?thesis by (force simp: good_enc_def len_enc_def MaxInt32_def intro: order_less_trans)
qed

lemma ex_reach: "local_reach (\<lambda>_. 0) ex_hash ex1" "local_reach (\<lambda>_. 0) ex_hash ex2"
proof -
  show r1: "local_reach (\<lambda>_. 0) ex_hash ex1" unfolding ex1_def by (intro ch_reach.intros) simp
  show "local_reach (\<lambda>_. 0) ex_hash ex2" unfolding ex2_def by (intro ch_reach.get ch_reach.add r1) simp
qed

lemma ex_data: "rg_DataKeys ex1 ''a'' = Inr [''k'']" "rg_Nodes ex1 = Inr [(''a'', 1)]"
  by code_simp+


lemma ex_data2: "rg_DataKeys ex2 ''bbb'' = Inr [''kkkk'']" "rg_Nodes ex2 = Inr [(''a'', 1), (''bbb'', 1)]"
  by code_simp+

theorem ch_placement_witness: "fst (GetNode ex_ring ex_hash ''t'' ''kkkk'' ex2) = Inr ''bbb''"
  by (rule ch_placement [OF refl len_enc_good ex_reach(2) ex_data2(1)]) simp

theorem ch_add_minimal_witness:
  "\<exists>ts r'. AddNode ex_ring ex_hash ''t'' ''bbb'' 1 ex1 = (Inr ts, r') \<and> fst (GetNode ex_ring ex_hash ''t'' ''k'' r') \<in> {Inr ''a'', Inr ''bbb''}"
proof -
  have "fst (GetNode ex_ring ex_hash ''t'' ''k'' ex1) = Inr ''a''" by code_simp
  then show ?thesis
    using ch_add_minimal [OF refl len_enc_good ex_reach(1) ex_data(2), of "''bbb''" "''t''" 1] by auto
qed

theorem ch_remove_minimal_witness:
  "\<exists>ts r'. RemoveNode ex_ring ex_hash ''t'' ''bbb'' ex2 = (Inr ts, r') \<and> rg_DataKeys r' ''bbb'' = Inr []
    \<and> (\<exists>ds t. (ds, ''bbb'', t) \<in> set ts \<and> ''kkkk'' \<in> set ds \<and> fst (GetNode ex_ring ex_hash ''t'' ''kkkk'' r') = Inr t)"
  using ch_remove_minimal [OF refl len_enc_good ex_reach(2) ex_data2(2), of "''bbb''" "''a''" "''t''"] ex_data2(1) by auto

text \<open>Without a migrator the only node may go although a key was recorded for it.\<close>

abbreviation plain_hash :: ConsistentHash where
  "plain_hash \<equiv> NewConsistentHash len_enc False [WithReplicas 1]"

definition plain1 :: SkiplistHashRing where
  "plain1 = snd (GetNode ex_ring plain_hash ''t'' ''k'' (snd (AddNode ex_ring plain_hash ''t'' [] 1 NewSkiplistHashRing)))"

lemma plain_reach: "local_reach (\<lambda>_. 0) plain_hash (snd (RemoveNode ex_ring plain_hash ''t'' [] plain1))"
proof (rule ch_reach.remove)
  show "local_reach (\<lambda>_. 0) plain_hash plain1"
    unfolding plain1_def by (intro ch_reach.intros) (simp add: NewConsistentHash_def)
  show "rNodes ex_ring plain1 = Inr [([], 1)]" "rDataKeys ex_ring plain1 [] = Inr [''k'']" by code_simp+
qed (simp add: NewConsistentHash_def)

theorem ch_lookup_total_witness:
  "(\<exists>m \<in> {''a'', ''bbb''}. fst (GetNode ex_ring ex_hash ''t'' ''q'' ex2) = Inr m)
   \<and> fst (GetNode ex_ring plain_hash ''t'' ''q'' (snd (RemoveNode ex_ring plain_hash ''t'' [] plain1))) = Inl (Err ''no node available'')"
proof
  show "\<exists>m \<in> {''a'', ''bbb''}. fst (GetNode ex_ring ex_hash ''t'' ''q'' ex2) = Inr m"
    using ch_lookup_total [OF migratingHash_def len_enc_good ex_reach(2) ex_data2(2), of "''t''" "''q''"] by simp
  have none: "rg_Nodes (snd (RemoveNode ex_ring plain_hash ''t'' [] plain1)) = Inr []" by code_simp
  show "fst (GetNode ex_ring plain_hash ''t'' ''q'' (snd (RemoveNode ex_ring plain_hash ''t'' [] plain1))) = Inl (Err ''no node available'')"
    using ch_lookup_total [OF refl len_enc_good plain_reach none, of "''t''" "''q''"] by simp
qed

section \<open>Defects\<close>

text \<open>\<^verbatim>\<open>RemoveNode\<close> of the only node, when keys are recorded for it, drops its registration and then fails.  Its
  virtual nodes stay in the ring: lookups still return it, but it can no longer be removed.\<close>

lemma remove_last_node_stuck:
  "fst (RemoveNode ex_ring ex_hash ''t'' ''a'' ex1) = Inl (Err ''no other no'')"
  "rg_Nodes (snd (RemoveNode ex_ring ex_hash ''t'' ''a'' ex1)) = Inr []"
  "fst (GetNode ex_ring ex_hash ''t'' ''k'' (snd (RemoveNode ex_ring ex_hash ''t'' ''a'' ex1))) = Inr ''a''"
  "fst (RemoveNode ex_ring ex_hash ''t'' ''a'' (snd (RemoveNode ex_ring ex_hash ''t'' ''a'' ex1))) = Inl (Err ''invalid node id'')"
  by code_simp+

text \<open>Once a node with the empty name is registered, removing a node whose keys would go to it fails: \<^verbatim>\<open>migrateOut\<close>
  takes the empty name for no node.  The registration is gone, the virtual nodes stay.\<close>

definition ex_empty :: SkiplistHashRing where
  "ex_empty = snd (AddNode ex_ring ex_hash ''t'' [] 1 (snd (GetNode ex_ring ex_hash ''t'' ''kkk'' ex1)))"

lemma remove_before_empty_name:
  "rg_Nodes ex_empty = Inr [(''a'', 1), ([], 1)]" "rg_DataKeys ex_empty ''a'' = Inr [''kkk'']"
  "fst (RemoveNode ex_ring ex_hash ''t'' ''a'' ex_empty) = Inl (Err ''no other node'')"
  "rg_Nodes (snd (RemoveNode ex_ring ex_hash ''t'' ''a'' ex_empty)) = Inr [([], 1)]"
  "fst (GetNode ex_ring ex_hash ''t'' ''kkk'' (snd (RemoveNode ex_ring ex_hash ''t'' ''a'' ex_empty))) = Inr ''a''"
  by code_simp+

text \<open>A new node whose second virtual node splits the arc of its first one migrates keys from itself to itself,
  at the same time as the migration that brings them in.\<close>

definition split_enc :: "string \<Rightarrow> int" where
  "split_enc s = (if s = ''a_0'' then 20 else if s = ''a_1'' then 30 else if s = ''b_0'' then 10 else if s = ''b_1'' then 5 else 3)"

abbreviation split_hash :: ConsistentHash where
  "split_hash \<equiv> migratingHash split_enc [WithReplicas 2]"

lemma add_migrates_to_itself:
  "fst (AddNode ex_ring split_hash ''t'' ''b'' 1
     (snd (GetNode ex_ring split_hash ''t'' ''k'' (snd (AddNode ex_ring split_hash ''t'' ''a'' 1 NewSkiplistHashRing)))))
   = Inr [([''k''], ''a'', ''b''), ([''k''], ''b'', ''b'')]"
  by code_simp

text \<open>\<^verbatim>\<open>Rem\<close> deletes the data keys recorded under the name of the virtual node.  When a node \<open>a_0\<close> is registered,
  removing the node \<open>a\<close> forgets the keys of \<open>a_0\<close>.\<close>

definition ex_names :: SkiplistHashRing where
  "ex_names = snd (GetNode ex_ring ex_hash ''t'' ''kkkk''
     (snd (AddNode ex_ring ex_hash ''t'' ''a_0'' 1 (snd (AddNode ex_ring ex_hash ''t'' ''a'' 1 NewSkiplistHashRing)))))"

lemma remove_forgets_other_node:
  "rg_DataKeys ex_names ''a_0'' = Inr [''kkkk'']"
  "rg_DataKeys (snd (RemoveNode ex_ring ex_hash ''t'' ''a'' ex_names)) ''a_0'' = Inr []"
  "fst (GetNode ex_ring ex_hash ''t'' ''kkkk'' (snd (RemoveNode ex_ring ex_hash ''t'' ''a'' ex_names))) = Inr ''a_0''"
  by code_simp+

end
