(* ===== verification/Cache_Link.thy ===== *)
theory Cache_Link
  imports Go_State
begin

text \<open>
  The recency list of \<^verbatim>\<open>src/libs/yukino_cache/lru.go\<close>: a doubly linked list inside an array of pairs
  of \<^verbatim>\<open>uint16\<close>.  Entry 0 is the sentinel; column \<^verbatim>\<open>n\<close> leads from the most recent slot to the oldest
  one, column \<^verbatim>\<open>p\<close> the other way, and both end at the sentinel.  \<open>adjust\<close> moves a slot to one end.  Its
  two uses in the code differ in the columns only, so one proof covers both.
\<close>

section \<open>The array\<close>

datatype column = Cp | Cn

fun col :: "column \<Rightarrow> nat \<times> nat \<Rightarrow> nat" where
  "col Cp e = fst e"
| "col Cn e = snd e"

fun set_col :: "column \<Rightarrow> nat \<Rightarrow> nat \<times> nat \<Rightarrow> nat \<times> nat" where
  "set_col Cp v e = (v, snd e)"
| "set_col Cn v e = (fst e, v)"

type_synonym links = "(nat \<times> nat) list"

definition dl_get :: "links \<Rightarrow> nat \<Rightarrow> column \<Rightarrow> go_err + nat" where
  "dl_get dl i d = rbind (go_nth dl i) (\<lambda>e. Inr (col d e))"

definition dl_set :: "links \<Rightarrow> nat \<Rightarrow> column \<Rightarrow> nat \<Rightarrow> go_err + links" where
  "dl_set dl i d v = rbind (go_nth dl i) (\<lambda>e. Inr (dl[i := set_col d v e]))"

definition adjust_links :: "links \<Rightarrow> nat \<Rightarrow> column \<Rightarrow> column \<Rightarrow> go_err + links" where
  "adjust_links dl idx f t =
     rbind (dl_get dl idx f) (\<lambda>a. if a = 0 then Inr dl else
     rbind (dl_get dl idx t) (\<lambda>b. rbind (dl_set dl b f a) (\<lambda>dl1.
     rbind (dl_get dl1 idx f) (\<lambda>a1. rbind (dl_get dl1 idx t) (\<lambda>b1. rbind (dl_set dl1 a1 t b1) (\<lambda>dl2.
     rbind (dl_set dl2 idx f 0) (\<lambda>dl3.
     rbind (dl_get dl3 0 t) (\<lambda>h. rbind (dl_set dl3 idx t h) (\<lambda>dl4.
     rbind (dl_get dl4 0 t) (\<lambda>h1. rbind (dl_set dl4 h1 f idx) (\<lambda>dl5.
     dl_set dl5 0 t idx)))))))))))"

section \<open>Columns as functions\<close>

definition nav :: "column \<Rightarrow> links \<Rightarrow> nat \<Rightarrow> nat" where
  "nav d dl i = (if i < length dl then col d (dl ! i) else 0)"

definition relink :: "links \<Rightarrow> nat \<Rightarrow> column \<Rightarrow> nat \<Rightarrow> links" where
  "relink dl i d v = dl[i := set_col d v (dl ! i)]"

lemma dl_get_in [simp]: "i < length dl \<Longrightarrow> dl_get dl i d = Inr (nav d dl i)"
  by (simp add: dl_get_def nav_def)

lemma dl_set_in [simp]: "i < length dl \<Longrightarrow> dl_set dl i d v = Inr (relink dl i d v)"
  by (simp add: dl_set_def relink_def)

lemma length_relink [simp]: "length (relink dl i d v) = length dl"
  by (simp add: relink_def)

lemma nav_relink [simp]: "i < length dl \<Longrightarrow> nav d (relink dl i d v) = (nav d dl)(i := v)"
  by (cases d) (auto simp: nav_def relink_def nth_list_update fun_eq_iff)

lemma nav_relink_other [simp]: "d \<noteq> d' \<Longrightarrow> nav d' (relink dl i d v) = nav d' dl"
  by (cases d; cases d'; cases "i < length dl") (auto simp: nav_def relink_def nth_list_update fun_eq_iff)

section \<open>Paths\<close>

fun path :: "(nat \<Rightarrow> nat) \<Rightarrow> nat \<Rightarrow> nat list \<Rightarrow> nat \<Rightarrow> bool" where
  "path h a [] b \<longleftrightarrow> h a = b"
| "path h a (x # xs) b \<longleftrightarrow> h a = x \<and> path h x xs b"

lemma path_append [simp]: "path h a (xs @ y # ys) b \<longleftrightarrow> path h a xs y \<and> path h y ys b"
  by (induction xs arbitrary: a) auto

lemma path_other [simp]: "c \<noteq> a \<Longrightarrow> c \<notin> set xs \<Longrightarrow> path (h(c := v)) a xs b \<longleftrightarrow> path h a xs b"
  by (induction xs arbitrary: a) auto

lemma path_relink: "path h a xs b \<Longrightarrow> distinct (a # xs) \<Longrightarrow> path (h(last (a # xs) := c)) a xs c"
  by (induction xs arbitrary: a) auto

lemma path_first: "path h a xs b \<Longrightarrow> h a = hd (xs @ [b])"
  by (cases xs) auto

lemma path_last: "path h a xs b \<Longrightarrow> h (last (a # xs)) = b"
  by (induction xs arbitrary: a) auto

text \<open>\<open>F\<close> and \<open>T\<close> describe the same ring through the sentinel in opposite directions.\<close>

definition linked :: "(nat \<Rightarrow> nat) \<Rightarrow> (nat \<Rightarrow> nat) \<Rightarrow> nat list \<Rightarrow> bool" where
  "linked F T xs \<longleftrightarrow> distinct (0 # xs) \<and> path T 0 xs 0 \<and> path F 0 (rev xs) 0"

lemma linked_swap: "linked F T xs \<longleftrightarrow> linked T F (rev xs)"
  by (auto simp: linked_def)

lemma linked_mid:
  assumes "linked F T (ys @ i # zs)"
  shows "F i = last (0 # ys)" and "T i = hd (zs @ [0])"
proof -
  from assms have "path F i (rev ys) 0" "path T i zs 0" by (simp_all add: linked_def)
  then show "F i = last (0 # ys)" "T i = hd (zs @ [0])"
    by (auto dest!: path_first simp: hd_append hd_rev split: if_splits)
qed

lemma path_join: "path h a ys c \<Longrightarrow> c = hd (zs @ [b]) \<Longrightarrow> (zs \<noteq> [] \<Longrightarrow> path h (hd zs) (tl zs) b) \<Longrightarrow> path h a (ys @ zs) b"
  by (cases zs) auto

lemma unlink_path:
  assumes "path T 0 ys i" and "path T i zs 0" and "distinct (0 # ys @ i # zs)"
  shows "path (T(last (0 # ys) := hd (zs @ [0]))) 0 (ys @ zs) 0"
proof (rule path_join)
  show "path (T(last (0 # ys) := hd (zs @ [0]))) 0 ys (hd (zs @ [0]))"
    using assms(1,3) by (intro path_relink) auto
next
  assume "zs \<noteq> []"
  then obtain z zs' where zs: "zs = z # zs'" by (cases zs) auto
  have "last (0 # ys) \<notin> set zs" using assms(3) last_in_set [of "0 # ys"] by (metis Un_iff disjoint_iff distinct.simps(2) distinct_append list.distinct(1) list.set_intros(2) set_ConsD set_append)
  then show "path (T(last (0 # ys) := hd (zs @ [0]))) (hd zs) (tl zs) 0"
    using assms(2) by (simp add: zs)
qed simp

lemma linked_unlink:
  assumes "linked F T (ys @ i # zs)"
  shows "linked (F(hd (zs @ [0]) := last (0 # ys))) (T(last (0 # ys) := hd (zs @ [0]))) (ys @ zs)"
proof -
  have T: "path T 0 ys i" "path T i zs 0" and F: "path F 0 (rev zs) i" "path F i (rev ys) 0"
    and d: "distinct (0 # ys @ i # zs)"
    using assms by (simp_all add: linked_def)
  have e: "last (0 # rev zs) = hd (zs @ [0])" "hd (rev ys @ [0]) = last (0 # ys)"
    by (simp_all add: last_rev hd_append hd_rev)
  have "path (F(last (0 # rev zs) := hd (rev ys @ [0]))) 0 (rev zs @ rev ys) 0"
    using F d by (intro unlink_path) auto
  then have "path (F(hd (zs @ [0]) := last (0 # ys))) 0 (rev (ys @ zs)) 0" unfolding e by simp
  moreover have "distinct (0 # ys @ zs)" using d by auto
  ultimately show ?thesis using unlink_path [OF T d] unfolding linked_def by blast
qed

lemma linked_push:
  assumes "linked F T xs" and "i \<notin> set xs" and "i \<noteq> 0"
  shows "linked (F(i := 0, T 0 := i)) (T(i := T 0, 0 := i)) (i # xs)"
proof -
  have T: "path T 0 xs 0" and F: "path F 0 (rev xs) 0" and d: "distinct (0 # xs)"
    using assms(1) by (simp_all add: linked_def)
  have h: "T 0 = last (0 # rev xs)" using path_first [OF T] by (simp add: last_rev hd_append)
  have "path (T(i := T 0, 0 := i)) 0 (i # xs) 0"
    using T d assms(2,3) by (cases xs) auto
  moreover have "path ((F(i := 0))(last (0 # rev xs) := i)) 0 (rev xs) i"
    using F d assms(2,3) by (intro path_relink) auto
  then have "path (F(i := 0, T 0 := i)) 0 (rev (i # xs)) 0"
    using d assms(2,3) T by (cases xs) (auto simp: h)
  ultimately show ?thesis using assms(2,3) d by (simp add: linked_def)
qed

section \<open>Moving a slot to one end\<close>

definition dl_ok :: "links \<Rightarrow> nat list \<Rightarrow> bool" where
  "dl_ok dl xs \<longleftrightarrow> linked (nav Cp dl) (nav Cn dl) xs \<and> (\<forall>i \<in> set xs. i < length dl) \<and> 0 < length dl"

lemma adjust_moves:
  assumes l: "linked (nav f dl) (nav t dl) (ys @ i # zs)" and ft: "f \<noteq> t"
    and r: "\<forall>j \<in> set (ys @ i # zs). j < length dl" "0 < length dl"
  shows "\<exists>dl'. adjust_links dl i f t = Inr dl' \<and> linked (nav f dl') (nav t dl') (i # ys @ zs)
    \<and> length dl' = length dl"
proof (cases "ys = []")
  case True
  then show ?thesis using l r linked_mid(1) [OF l] by (auto simp: adjust_links_def)
next
  case False
  let ?a = "last (0 # ys)" and ?b = "hd (zs @ [0])"
  have i: "i \<noteq> 0" "i \<notin> set (ys @ zs)" and n0: "?a \<noteq> 0" "?a \<noteq> i" "?b \<noteq> i"
    using l False by (auto simp: linked_def hd_append) (metis last_in_set gr0I)
  have lt: "?a < length dl" "?b < length dl" "i < length dl" "0 < length dl"
    using r False by (auto simp: hd_append)
  note u = linked_unlink [OF l]
  define F1 T1 where "F1 = (nav f dl)(?b := ?a)" and "T1 = (nav t dl)(?a := ?b)"
  have u1: "linked F1 T1 (ys @ zs)" using u by (simp add: F1_def T1_def)
  have "T1 0 = hd ((ys @ zs) @ [0])" using u1 by (auto simp: linked_def dest: path_first)
  then have h: "T1 0 < length dl" using r False by (cases ys) auto
  have nt: "t \<noteq> f" using ft by simp
  show ?thesis
    using linked_push [OF u1 i(2,1)] False ft nt lt n0 i(1) h linked_mid [OF l]
    by (auto simp: adjust_links_def F1_def T1_def fun_upd_twist)
qed

lemma adjust_front:
  assumes "dl_ok dl (ys @ i # zs)"
  shows "\<exists>dl'. adjust_links dl i Cp Cn = Inr dl' \<and> dl_ok dl' (i # ys @ zs) \<and> length dl' = length dl"
  using adjust_moves [of Cp dl Cn ys i zs] assms by (auto simp: dl_ok_def)

lemma adjust_back:
  assumes "dl_ok dl (ys @ i # zs)"
  shows "\<exists>dl'. adjust_links dl i Cn Cp = Inr dl' \<and> dl_ok dl' (ys @ zs @ [i]) \<and> length dl' = length dl"
proof -
  have "linked (nav Cn dl) (nav Cp dl) (rev zs @ i # rev ys)"
    using assms linked_swap [of "nav Cp dl" "nav Cn dl" "ys @ i # zs"] by (simp add: dl_ok_def)
  from adjust_moves [OF this] assms
  obtain dl' where "adjust_links dl i Cn Cp = Inr dl'" "linked (nav Cn dl') (nav Cp dl') (i # rev zs @ rev ys)"
    "length dl' = length dl"
    by (auto simp: dl_ok_def)
  then show ?thesis
    using assms linked_swap [of "nav Cn dl'" "nav Cp dl'" "i # rev zs @ rev ys"] by (auto simp: dl_ok_def)
qed

end
