(* ===== verification/Cache_LRU.thy ===== *)
theory Cache_LRU
  imports Cache_Link
begin

text \<open>
  One bounded cache of \<^verbatim>\<open>src/libs/yukino_cache/lru.go\<close> (\<^verbatim>\<open>type cache\<close>): an array of nodes, a map from keys
  to slots and the recency list of \<^verbatim>\<open>Cache_Link\<close>.  A deleted entry keeps its slot, with expiry time 0,
  at the old end of the list.  The contract is the textbook one: the cache is the list of its live
  entries, most recent first, \<open>put\<close> conses and cuts at the capacity, \<open>del\<close> filters, \<open>evictOldest\<close>
  drops the last element, and the byte counter is the sum of the sizes.
\<close>

section \<open>Model\<close>

record lru_node =
  nd_k :: string
  nd_v :: "bytes option"
  nd_expireAt :: int

record cache =
  doubleLink :: links
  c_m :: "lru_node list"
  c_hashMap :: "(string \<times> nat) list"
  c_bytes :: int
  c_nevict :: int
  c_last :: nat

type_synonym evicted = "(string \<times> bytes option) list"

definition Create :: "nat \<Rightarrow> cache" where
  "Create cap =
     \<lparr>doubleLink = replicate ((cap + 1) mod 65536) (0, 0),
      c_m = replicate cap \<lparr>nd_k = '''', nd_v = None, nd_expireAt = 0\<rparr>,
      c_hashMap = [], c_bytes = 0, c_nevict = 0, c_last = 0\<rparr>"

definition entryBytes :: "string \<Rightarrow> bytes option \<Rightarrow> int" where
  "entryBytes key val = int (length key) + (case val of None \<Rightarrow> 0 | Some b \<Rightarrow> int (length b))"

text \<open>\<^verbatim>\<open>c.m[idx-1]\<close> with the subtraction of \<^verbatim>\<open>uint16\<close>.\<close>

definition pred16 :: "nat \<Rightarrow> nat" where
  "pred16 i = (if i = 0 then 65535 else i - 1)"

definition slot :: "cache \<Rightarrow> nat \<Rightarrow> go_err + lru_node" where
  "slot c idx = go_nth (c_m c) (pred16 idx)"

definition set_slot :: "nat \<Rightarrow> lru_node \<Rightarrow> cache \<Rightarrow> cache" where
  "set_slot idx nd c = c\<lparr>c_m := (c_m c)[pred16 idx := nd]\<rparr>"

definition adjust :: "nat \<Rightarrow> column \<Rightarrow> column \<Rightarrow> cache \<Rightarrow> go_err + cache" where
  "adjust idx f t c = rbind (adjust_links (doubleLink c) idx f t) (\<lambda>dl. Inr (c\<lparr>doubleLink := dl\<rparr>))"

text \<open>The three cases of \<open>put\<close>: the key has a slot, every slot is used, a slot is free.\<close>

definition put_known :: "string \<Rightarrow> bytes option \<Rightarrow> int \<Rightarrow> nat \<Rightarrow> cache \<Rightarrow> go_err + cache" where
  "put_known key val e idx c = rbind (slot c idx) (\<lambda>nd.
     let d = (if nd_expireAt nd > 0 then entryBytes key val - entryBytes (nd_k nd) (nd_v nd)
              else entryBytes key val)
     in adjust idx Cp Cn
          (set_slot idx (nd\<lparr>nd_v := val, nd_expireAt := e\<rparr>) (c\<lparr>c_bytes := c_bytes c + d\<rparr>)))"

definition put_full :: "string \<Rightarrow> bytes option \<Rightarrow> int \<Rightarrow> cache \<Rightarrow> go_err + (cache \<times> evicted)" where
  "put_full key val e c = rbind (dl_get (doubleLink c) 0 Cp) (\<lambda>idx. rbind (slot c idx) (\<lambda>tl.
     let gone = (if nd_expireAt tl > 0 then [(nd_k tl, nd_v tl)] else []);
         c1 = (if nd_expireAt tl > 0
               then c\<lparr>c_bytes := c_bytes c - entryBytes (nd_k tl) (nd_v tl), c_nevict := c_nevict c + 1\<rparr> else c);
         c2 = c1\<lparr>c_hashMap := upd_al key idx (del_al (nd_k tl) (c_hashMap c1)),
                 c_bytes := c_bytes c1 + entryBytes key val\<rparr>
     in rbind (adjust idx Cp Cn (set_slot idx \<lparr>nd_k = key, nd_v = val, nd_expireAt = e\<rparr> c2))
          (\<lambda>c3. Inr (c3, gone))))"

definition put_new :: "string \<Rightarrow> bytes option \<Rightarrow> int \<Rightarrow> cache \<Rightarrow> go_err + cache" where
  "put_new key val e c = (let last = (c_last c + 1) mod 65536 in
     rbind (if c_hashMap c = [] then dl_set (doubleLink c) 0 Cp last
            else rbind (dl_get (doubleLink c) 0 Cn) (\<lambda>h. dl_set (doubleLink c) h Cp last)) (\<lambda>dl.
     rbind (slot c last) (\<lambda>nd.
     rbind (dl_get dl 0 Cn) (\<lambda>h.
     rbind (dl_set dl last Cp 0) (\<lambda>dl1. rbind (dl_set dl1 last Cn h) (\<lambda>dl2.
     rbind (dl_set dl2 0 Cn last) (\<lambda>dl3.
     Inr (set_slot last \<lparr>nd_k = key, nd_v = val, nd_expireAt = e\<rparr>
            (c\<lparr>doubleLink := dl3, c_last := last, c_hashMap := upd_al key last (c_hashMap c),
               c_bytes := c_bytes c + entryBytes key val\<rparr>)))))))))"

definition put :: "string \<Rightarrow> bytes option \<Rightarrow> int \<Rightarrow> cache \<Rightarrow> go_err + (cache \<times> evicted)" where
  "put key val e c = (case map_of (c_hashMap c) key of
     Some idx \<Rightarrow> rbind (put_known key val e idx c) (\<lambda>c. Inr (c, []))
   | None \<Rightarrow> if c_last c = length (c_m c) mod 65536 then put_full key val e c
       else rbind (put_new key val e c) (\<lambda>c. Inr (c, [])))"

definition peek :: "string \<Rightarrow> cache \<Rightarrow> go_err + (lru_node \<times> nat) option" where
  "peek key c = (case map_of (c_hashMap c) key of
     Some idx \<Rightarrow> rbind (slot c idx) (\<lambda>nd. Inr (Some (nd, idx))) | None \<Rightarrow> Inr None)"

text \<open>\<open>del\<close> returns the slot of the node (Go returns a pointer to it) and its expiry time.\<close>

definition del :: "string \<Rightarrow> cache \<Rightarrow> go_err + (cache \<times> (nat \<times> int) option)" where
  "del key c = (case map_of (c_hashMap c) key of None \<Rightarrow> Inr (c, None) | Some idx \<Rightarrow>
     rbind (slot c idx) (\<lambda>nd. if nd_expireAt nd > 0 then
       rbind (adjust idx Cn Cp (set_slot idx (nd\<lparr>nd_expireAt := 0\<rparr>)
          (c\<lparr>c_bytes := c_bytes c - entryBytes (nd_k nd) (nd_v nd)\<rparr>))) (\<lambda>c1.
       Inr (c1, Some (idx, nd_expireAt nd)))
     else Inr (c, None)))"

text \<open>\<^verbatim>\<open>n1.v = nil\<close> through the pointer \<open>del\<close> returned.\<close>

definition clear_value :: "nat \<Rightarrow> cache \<Rightarrow> go_err + cache" where
  "clear_value idx c = rbind (slot c idx) (\<lambda>nd. Inr (set_slot idx (nd\<lparr>nd_v := None\<rparr>) c))"

definition drop_key :: "string \<Rightarrow> cache \<Rightarrow> go_err + cache" where
  "drop_key key c = rbind (del key c) (\<lambda>(c1, r). case r of None \<Rightarrow> Inr c1 | Some (idx, _) \<Rightarrow> clear_value idx c1)"

text \<open>The loops of \<open>evictOldest\<close> and \<open>walk\<close> follow a column until the sentinel.  The fuel is the length
  of the array; a longer run would visit a slot twice and never end.\<close>

fun evict_from :: "nat \<Rightarrow> nat \<Rightarrow> cache \<Rightarrow> go_err + (cache \<times> evicted \<times> bool)" where
  "evict_from 0 idx c = Inl (Panic ''endless loop'')"
| "evict_from (Suc fuel) idx c = (if idx = 0 then Inr (c, [], False) else
     rbind (slot c idx) (\<lambda>nd.
     if nd_expireAt nd \<le> 0 then rbind (dl_get (doubleLink c) idx Cp) (\<lambda>j. evict_from fuel j c)
     else rbind (adjust idx Cn Cp (set_slot idx (nd\<lparr>nd_expireAt := 0, nd_v := None\<rparr>)
         (c\<lparr>c_bytes := c_bytes c - entryBytes (nd_k nd) (nd_v nd), c_nevict := c_nevict c + 1\<rparr>))) (\<lambda>c1.
       Inr (c1, [(nd_k nd, nd_v nd)], True))))"

definition evictOldest :: "cache \<Rightarrow> go_err + (cache \<times> evicted \<times> bool)" where
  "evictOldest c = rbind (dl_get (doubleLink c) 0 Cp) (\<lambda>idx. evict_from (length (doubleLink c) + 1) idx c)"

text \<open>A walker sees an entry and says whether to go on; its captured variables are the state \<open>'s\<close>.\<close>

type_synonym 's walker = "string \<Rightarrow> bytes option \<Rightarrow> int \<Rightarrow> 's \<Rightarrow> go_err + (bool \<times> 's)"

fun walk_from :: "nat \<Rightarrow> cache \<Rightarrow> nat \<Rightarrow> 's walker \<Rightarrow> 's \<Rightarrow> go_err + 's" where
  "walk_from 0 c idx w s = Inl (Panic ''endless loop'')"
| "walk_from (Suc fuel) c idx w s = (if idx = 0 then Inr s else
     rbind (slot c idx) (\<lambda>nd.
     rbind (if nd_expireAt nd > 0 then w (nd_k nd) (nd_v nd) (nd_expireAt nd) s else Inr (True, s)) (\<lambda>(go_on, s1).
     if go_on then rbind (dl_get (doubleLink c) idx Cn) (\<lambda>j. walk_from fuel c j w s1) else Inr s1)))"

definition walk :: "cache \<Rightarrow> 's walker \<Rightarrow> 's \<Rightarrow> go_err + 's" where
  "walk c w s = rbind (dl_get (doubleLink c) 0 Cn) (\<lambda>idx. walk_from (length (doubleLink c) + 1) c idx w s)"

section \<open>The contract\<close>

type_synonym entry = "string \<times> bytes option \<times> int"

fun visit :: "'s walker \<Rightarrow> entry list \<Rightarrow> 's \<Rightarrow> go_err + 's" where
  "visit w [] s = Inr s"
| "visit w ((k, v, e) # es) s = rbind (w k v e s) (\<lambda>(go_on, s1). if go_on then visit w es s1 else Inr s1)"

definition lru_del :: "string \<Rightarrow> entry list \<Rightarrow> entry list" where
  "lru_del k = filter (\<lambda>x. fst x \<noteq> k)"

definition lru_put :: "nat \<Rightarrow> entry \<Rightarrow> entry list \<Rightarrow> entry list" where
  "lru_put cap x es = take cap (x # lru_del (fst x) es)"

definition lru_bytes :: "entry list \<Rightarrow> int" where
  "lru_bytes es = (\<Sum>(k, v, _) \<leftarrow> es. entryBytes k v)"

definition entry_of :: "cache \<Rightarrow> nat \<Rightarrow> entry" where
  "entry_of c i = (let nd = c_m c ! (i - 1) in (nd_k nd, nd_v nd, nd_expireAt nd))"

definition is_live :: "cache \<Rightarrow> nat \<Rightarrow> bool" where
  "is_live c i \<longleftrightarrow> nd_expireAt (c_m c ! (i - 1)) > 0"

text \<open>\<open>slots_ok c xs ys\<close>: the recency list is \<open>xs\<close>, all live, followed by \<open>ys\<close>, all dead.\<close>

definition slots_ok :: "cache \<Rightarrow> nat list \<Rightarrow> nat list \<Rightarrow> bool" where
  "slots_ok c xs ys \<longleftrightarrow>
     dl_ok (doubleLink c) (xs @ ys) \<and> length (doubleLink c) = Suc (length (c_m c)) \<and>
     0 < length (c_m c) \<and> length (c_m c) < 65535 \<and>
     set (xs @ ys) = {1..c_last c} \<and> c_last c \<le> length (c_m c) \<and>
     (\<forall>i \<in> set xs. is_live c i) \<and> (\<forall>i \<in> set ys. \<not> is_live c i) \<and>
     distinct (map fst (c_hashMap c)) \<and> set (c_hashMap c) = (\<lambda>i. (fst (entry_of c i), i)) ` {1..c_last c} \<and>
     inj_on (\<lambda>i. fst (entry_of c i)) {1..c_last c} \<and>
     c_bytes c = lru_bytes (map (entry_of c) xs)"

text \<open>\<open>holds c n es\<close>: the cache \<open>c\<close> of capacity \<open>n\<close> is well formed and its live entries are \<open>es\<close>.\<close>

definition holds :: "cache \<Rightarrow> nat \<Rightarrow> entry list \<Rightarrow> bool" where
  "holds c n es \<longleftrightarrow> length (c_m c) = n \<and> (\<exists>xs ys. slots_ok c xs ys \<and> es = map (entry_of c) xs)"


section \<open>Lemmas\<close>

lemma lru_bytes_simps [simp]:
  "lru_bytes [] = 0" "lru_bytes ((k, v, e) # es) = entryBytes k v + lru_bytes es"
  "lru_bytes (xs @ zs) = lru_bytes xs + lru_bytes zs"
  by (simp_all add: lru_bytes_def)

lemma lru_bytes_nonneg: "0 \<le> lru_bytes es"
  by (auto simp: lru_bytes_def entryBytes_def intro!: sum_list_nonneg split: option.splits)

lemma set_upd_al_fresh: "key \<notin> fst ` set xs \<Longrightarrow> set (upd_al key v xs) = insert (key, v) (set xs)"
  by (induction key v xs rule: upd_al.induct) auto

lemma set_del_al: "set (del_al key xs) = {p \<in> set xs. fst p \<noteq> key}"
  by (auto simp: del_al_def)

lemma split_filter: "distinct (as @ i # bs) \<Longrightarrow> filter (\<lambda>j. j \<noteq> i) (as @ i # bs) = as @ bs"
proof -
  assume "distinct (as @ i # bs)"
  then have "filter (\<lambda>j. j \<noteq> i) as = as" "filter (\<lambda>j. j \<noteq> i) bs = bs" by (auto simp: filter_id_conv)
  then show ?thesis by simp
qed

lemma pred16_pos [simp]: "0 < i \<Longrightarrow> pred16 i = i - 1"
  by (simp add: pred16_def)

lemma slot_in [simp]: "0 < i \<Longrightarrow> i \<le> length (c_m c) \<Longrightarrow> slot c i = Inr (c_m c ! (i - 1))"
  by (simp add: slot_def)

lemma set_slot_sel [simp]:
  "doubleLink (set_slot i nd c) = doubleLink c" "length (c_m (set_slot i nd c)) = length (c_m c)"
  "c_hashMap (set_slot i nd c) = c_hashMap c" "c_bytes (set_slot i nd c) = c_bytes c"
  "c_nevict (set_slot i nd c) = c_nevict c" "c_last (set_slot i nd c) = c_last c"
  by (simp_all add: set_slot_def)

lemma entry_set_slot:
  "0 < i \<Longrightarrow> 0 < j \<Longrightarrow> j \<le> length (c_m c) \<Longrightarrow>
     entry_of (set_slot i nd c) j = (if j = i then (nd_k nd, nd_v nd, nd_expireAt nd) else entry_of c j)"
  by (auto simp: entry_of_def set_slot_def Let_def nth_list_update)

lemma entry_of_frame [simp]:
  "entry_of (c\<lparr>doubleLink := a\<rparr>) = entry_of c" "entry_of (c\<lparr>c_bytes := b\<rparr>) = entry_of c"
  "entry_of (c\<lparr>c_hashMap := h\<rparr>) = entry_of c" "entry_of (c\<lparr>c_nevict := n\<rparr>) = entry_of c"
  "entry_of (c\<lparr>c_last := l\<rparr>) = entry_of c"
  by (simp_all add: entry_of_def fun_eq_iff)

lemma is_live_entry: "is_live c i \<longleftrightarrow> snd (snd (entry_of c i)) > 0"
  by (simp add: is_live_def entry_of_def Let_def)

lemma adjust_set_slot:
  "adjust_links (doubleLink c) i f t = Inr dl \<Longrightarrow>
     adjust i f t (set_slot i nd c) = Inr (set_slot i nd (c\<lparr>doubleLink := dl\<rparr>))"
  by (simp add: adjust_def set_slot_def)

text \<open>What \<open>slots_ok\<close> says about one slot.\<close>

lemma slots_okD:
  assumes "slots_ok c xs ys"
  shows "distinct (xs @ ys)" and "i \<in> set (xs @ ys) \<longleftrightarrow> 0 < i \<and> i \<le> c_last c"
    and "c_last c \<le> length (c_m c)" and "0 < length (c_m c)" "length (c_m c) < 65535"
    and "dl_ok (doubleLink c) (xs @ ys)" and "length (doubleLink c) = Suc (length (c_m c))"
    and "length (xs @ ys) = c_last c"
proof -
  show d: "distinct (xs @ ys)" using assms by (simp add: slots_ok_def dl_ok_def linked_def)
  have s: "set (xs @ ys) = {1..c_last c}" using assms by (simp add: slots_ok_def)
  show "i \<in> set (xs @ ys) \<longleftrightarrow> 0 < i \<and> i \<le> c_last c" unfolding s by auto
  have "length (xs @ ys) = card (set (xs @ ys))" using d by (simp only: distinct_card)
  then show "length (xs @ ys) = c_last c" unfolding s by simp
qed (use assms in \<open>simp_all add: slots_ok_def\<close>)

lemma slots_lookup:
  assumes "slots_ok c xs ys"
  shows "map_of (c_hashMap c) key = Some i \<longleftrightarrow> i \<in> {1..c_last c} \<and> fst (entry_of c i) = key"
proof -
  have "map_of (c_hashMap c) key = Some i \<longleftrightarrow> (key, i) \<in> set (c_hashMap c)"
    using assms by (intro map_of_eq_Some_iff) (simp add: slots_ok_def)
  also have "\<dots> \<longleftrightarrow> i \<in> {1..c_last c} \<and> fst (entry_of c i) = key"
    using assms by (auto simp: slots_ok_def)
  finally show ?thesis .
qed

lemma slots_fresh:
  assumes "slots_ok c xs ys" and "map_of (c_hashMap c) key = None" and "i \<in> {1..c_last c}"
  shows "fst (entry_of c i) \<noteq> key"
  using slots_lookup [OF assms(1), of key i] assms(2,3) by auto

lemma live_del:
  assumes "slots_ok c xs ys" and "i \<in> {1..c_last c}"
  shows "lru_del (fst (entry_of c i)) (map (entry_of c) xs) = map (entry_of c) (filter (\<lambda>j. j \<noteq> i) xs)"
proof -
  have "\<forall>j \<in> set xs. fst (entry_of c j) = fst (entry_of c i) \<longleftrightarrow> j = i"
  proof
    fix j assume "j \<in> set xs"
    then have "j \<in> {1..c_last c}" using assms(1) by (auto simp: slots_ok_def)
    then show "fst (entry_of c j) = fst (entry_of c i) \<longleftrightarrow> j = i"
      using assms by (auto simp: slots_ok_def dest: inj_onD)
  qed
  then show ?thesis by (simp add: lru_del_def filter_map o_def cong: filter_cong)
qed

lemma live_del_fresh:
  assumes "slots_ok c xs ys" and "map_of (c_hashMap c) key = None"
  shows "lru_del key (map (entry_of c) xs) = map (entry_of c) xs"
proof -
  have "set xs \<subseteq> {1..c_last c}" using assms(1) by (auto simp: slots_ok_def)
  then have "\<forall>j \<in> set xs. fst (entry_of c j) \<noteq> key"
    using slots_fresh [OF assms] by blast
  then show ?thesis by (auto simp: lru_del_def filter_map o_def filter_id_conv)
qed

lemma slots_length:
  assumes "slots_ok c xs ys" and "distinct zs" and "set zs \<subseteq> {1..c_last c}"
  shows "length zs \<le> length (c_m c)"
  using card_mono [OF _ assms(3)] distinct_card [OF assms(2)] slots_okD(3) [OF assms(1)] by simp

text \<open>A change of one slot that keeps its key.\<close>

lemma slots_change:
  assumes c: "slots_ok c xs ys" and i: "i \<in> set (xs @ ys)"
    and dl: "dl_ok dl (xs' @ ys')" "length dl = length (doubleLink c)"
    and s: "set (xs' @ ys') = set (xs @ ys)" "set xs' - {i} = set xs - {i}"
    and l: "i \<in> set xs' \<longleftrightarrow> nd_expireAt nd > 0" and k: "nd_k nd = fst (entry_of c i)"
    and b: "b = lru_bytes (map (entry_of (set_slot i nd c)) xs')"
  shows "slots_ok (set_slot i nd (c\<lparr>c_bytes := b, c_nevict := n, doubleLink := dl\<rparr>)) xs' ys'"
proof -
  define c' where "c' = set_slot i nd (c\<lparr>c_bytes := b, c_nevict := n, doubleLink := dl\<rparr>)"
  have sel: "doubleLink c' = dl" "length (c_m c') = length (c_m c)" "c_hashMap c' = c_hashMap c"
    "c_last c' = c_last c" "c_bytes c' = b" by (simp_all add: c'_def)
  have i0: "0 < i" "i \<le> length (c_m c)" using i slots_okD(2,3) [OF c] by (auto intro: le_trans)
  have e: "entry_of c' j = (if j = i then (nd_k nd, nd_v nd, nd_expireAt nd) else entry_of c j)"
    if "j \<in> {1..c_last c}" for j
    using that i0 slots_okD(3) [OF c] by (simp add: c'_def entry_set_slot)
  have keys: "fst (entry_of c' j) = fst (entry_of c j)" if "j \<in> {1..c_last c}" for j
    using e [OF that] k by auto
  have sx: "set (xs' @ ys') = {1..c_last c}" using s(1) c by (simp add: slots_ok_def)
  have d: "distinct (xs' @ ys')" using dl(1) by (simp add: dl_ok_def linked_def)
  have live: "is_live c' j \<longleftrightarrow> j \<in> set xs'" if "j \<in> {1..c_last c}" for j
  proof (cases "j = i")
    case True
    then show ?thesis using e [OF that] l by (simp add: is_live_entry)
  next
    case False
    then have "is_live c' j \<longleftrightarrow> is_live c j" using e [OF that] by (simp add: is_live_entry)
    also have "\<dots> \<longleftrightarrow> j \<in> set xs" using c that by (auto simp: slots_ok_def)
    also have "\<dots> \<longleftrightarrow> j \<in> set xs'" using s(2) False by blast
    finally show ?thesis .
  qed
  have "(\<lambda>j. (fst (entry_of c' j), j)) ` {1..c_last c} = (\<lambda>j. (fst (entry_of c j), j)) ` {1..c_last c}"
    by (intro image_cong) (simp_all add: keys del: atLeastAtMost_iff)
  moreover have "inj_on (\<lambda>j. fst (entry_of c' j)) {1..c_last c}"
    using inj_on_cong [of "{1..c_last c}" "\<lambda>j. fst (entry_of c' j)" "\<lambda>j. fst (entry_of c j)"] keys c
    by (simp add: slots_ok_def)
  moreover have "entry_of c' = entry_of (set_slot i nd c)"
    by (simp add: fun_eq_iff c'_def set_slot_def entry_of_def)
  then have "lru_bytes (map (entry_of c') xs') = b" by (simp only: b)
  moreover have "\<forall>j \<in> set xs'. is_live c' j" "\<forall>j \<in> set ys'. \<not> is_live c' j"
    using live sx d by (auto simp del: atLeastAtMost_iff)
  ultimately have "slots_ok c' xs' ys'"
    using c dl sx by (simp add: slots_ok_def sel)
  then show ?thesis by (simp only: c'_def)
qed


text \<open>A change that gives a slot a new key: the oldest slot is reused or a fresh one is taken.\<close>

lemma slots_rekey:
  assumes c: "slots_ok c xs ys" and i: "i \<in> {1..l}" and key: "map_of (c_hashMap c) key = None"
    and l: "c_last c \<le> l" "l \<le> length (c_m c)" "{1..l} - {i} = {1..c_last c} - {i}"
    and dl: "dl_ok dl ((i # xs') @ ys')" "length dl = length (doubleLink c)"
    and s: "set ((i # xs') @ ys') = {1..l}" "set xs' = set xs - {i}"
    and h: "distinct (map fst h)" "set h = insert (key, i) {p \<in> set (c_hashMap c). snd p \<noteq> i}"
    and e: "e > 0" and b: "b = entryBytes key val + lru_bytes (map (entry_of c) xs')"
  shows "slots_ok (set_slot i \<lparr>nd_k = key, nd_v = val, nd_expireAt = e\<rparr>
    (c\<lparr>c_bytes := b, c_nevict := n, c_hashMap := h, c_last := l, doubleLink := dl\<rparr>)) (i # xs') ys'"
proof -
  define c' where "c' = set_slot i \<lparr>nd_k = key, nd_v = val, nd_expireAt = e\<rparr>
    (c\<lparr>c_bytes := b, c_nevict := n, c_hashMap := h, c_last := l, doubleLink := dl\<rparr>)"
  have sel: "doubleLink c' = dl" "length (c_m c') = length (c_m c)" "c_hashMap c' = h"
    "c_last c' = l" "c_bytes c' = b" by (simp_all add: c'_def)
  have ei: "entry_of c' i = (key, val, e)" using i l(2) by (simp add: c'_def entry_set_slot)
  have ej: "entry_of c' j = entry_of c j" if "j \<in> {1..l}" "j \<noteq> i" for j
    using that i l(2) by (simp add: c'_def entry_set_slot)
  have old: "j \<in> {1..c_last c}" if "j \<in> {1..l}" "j \<noteq> i" for j using that l(3) by blast
  have d: "distinct (i # xs' @ ys')" using dl(1) by (auto simp: dl_ok_def linked_def)
  have x': "j \<in> {1..l} \<and> j \<noteq> i" if "j \<in> set (xs' @ ys')" for j using that s(1) d by auto
  have live: "is_live c' j \<longleftrightarrow> j \<in> set (i # xs')" if j: "j \<in> {1..l}" for j
  proof (cases "j = i")
    case False
    then have "is_live c' j \<longleftrightarrow> is_live c j" using ej [OF j] by (simp add: is_live_entry)
    also have "\<dots> \<longleftrightarrow> j \<in> set xs" using c old [OF j False] by (auto simp: slots_ok_def)
    also have "\<dots> \<longleftrightarrow> j \<in> set (i # xs')" using s(2) False by auto
    finally show ?thesis .
  qed (simp add: is_live_entry ei e)
  have "set h = (\<lambda>j. (fst (entry_of c' j), j)) ` {1..l}"
  proof -
    have "{p \<in> set (c_hashMap c). snd p \<noteq> i} = (\<lambda>j. (fst (entry_of c j), j)) ` ({1..l} - {i})"
      using c unfolding l(3) by (auto simp: slots_ok_def)
    also have "\<dots> = (\<lambda>j. (fst (entry_of c' j), j)) ` ({1..l} - {i})"
      by (intro image_cong) (simp_all add: ej)
    finally have "set h = (\<lambda>j. (fst (entry_of c' j), j)) ` insert i ({1..l} - {i})"
      unfolding h(2) image_insert ei fst_conv by (simp only:)
    moreover have "insert i ({1..l} - {i}) = {1..l}" using i by blast
    ultimately show ?thesis by (simp only:)
  qed
  moreover have "inj_on (\<lambda>j. fst (entry_of c' j)) {1..l}"
  proof (rule inj_onI)
    fix j k assume jk: "j \<in> {1..l}" "k \<in> {1..l}" "fst (entry_of c' j) = fst (entry_of c' k)"
    show "j = k"
    proof (cases "j = i \<or> k = i")
      case True
      then show ?thesis
        using jk ei ej old slots_fresh [OF c key] by (metis fst_conv)
    next
      case False
      then show ?thesis using jk ej old c by (auto simp: slots_ok_def dest: inj_onD)
    qed
  qed
  moreover have m: "map (entry_of c') xs' = map (entry_of c) xs'"
    using ej x' by (intro map_cong) auto
  have "lru_bytes (map (entry_of c') (i # xs')) = b" unfolding list.map m ei b by simp
  moreover have "\<forall>j \<in> set (i # xs'). is_live c' j" "\<forall>j \<in> set ys'. \<not> is_live c' j"
    using live x' d i by auto
  ultimately have "slots_ok c' (i # xs') ys'"
    using dl s(1) l(2) h(1) slots_okD(4,5,7) [OF c] by (simp add: slots_ok_def sel)
  then show ?thesis by (simp only: c'_def)
qed


section \<open>The operations\<close>

lemma bytes_split:
  "distinct xs \<Longrightarrow> lru_bytes (map f xs) =
     (if i \<in> set xs then entryBytes (fst (f i)) (fst (snd (f i))) else 0) + lru_bytes (map f (filter (\<lambda>j. j \<noteq> i) xs))"
  by (induction xs) (auto simp: lru_bytes_def split: prod.splits)

lemma map_entry_set_slot:
  "i \<notin> set zs \<Longrightarrow> 0 < i \<Longrightarrow> \<forall>j \<in> set zs. 0 < j \<and> j \<le> length (c_m c) \<Longrightarrow>
     map (entry_of (set_slot i nd c)) zs = map (entry_of c) zs"
  by (auto simp: entry_set_slot)

lemma slots_split:
  assumes "slots_ok c xs ys" and "i \<in> set (xs @ ys)"
  obtains as bs where "xs @ ys = as @ i # bs" and "as @ bs = filter (\<lambda>j. j \<noteq> i) xs @ filter (\<lambda>j. j \<noteq> i) ys"
proof -
  from assms(2) obtain as bs where a: "xs @ ys = as @ i # bs" by (meson split_list)
  have "filter (\<lambda>j. j \<noteq> i) (xs @ ys) = as @ bs"
    unfolding a using slots_okD(1) [OF assms(1)] a by (intro split_filter) simp
  then have "as @ bs = filter (\<lambda>j. j \<noteq> i) xs @ filter (\<lambda>j. j \<noteq> i) ys" by (simp only: filter_append)
  with a show thesis by (rule that)
qed

lemma slots_range:
  assumes "slots_ok c xs ys" and "i \<in> set (xs @ ys)"
  shows "0 < i" and "i \<le> length (c_m c)" and "i \<in> {1..c_last c}"
  using assms slots_okD(2,3) [OF assms(1)] by (auto intro: le_trans)

lemma holdsI: "slots_ok c xs ys \<Longrightarrow> length (c_m c) = n \<Longrightarrow> map (entry_of c) xs = es \<Longrightarrow> holds c n es"
  by (auto simp: holds_def)

lemma slots_live:
  assumes "slots_ok c xs ys" and "i \<in> set (xs @ ys)"
  shows "i \<in> set xs \<longleftrightarrow> is_live c i"
proof -
  have "\<forall>i \<in> set xs. is_live c i" "\<forall>i \<in> set ys. \<not> is_live c i" using assms(1) by (simp_all add: slots_ok_def)
  then show ?thesis using assms(2) by auto
qed

lemma entry_slot: "c_m c ! (i - 1) = nd \<Longrightarrow> entry_of c i = (nd_k nd, nd_v nd, nd_expireAt nd)"
  by (simp add: entry_of_def Let_def)

lemma put_known_ok:
  assumes c: "slots_ok c xs ys" and i: "i \<in> set (xs @ ys)" and key: "key = fst (entry_of c i)" and e: "e > 0"
  shows "\<exists>c'. put_known key val e i c = Inr c' \<and> c_nevict c' = c_nevict c \<and>
    holds c' (length (c_m c)) ((key, val, e) # lru_del key (map (entry_of c) xs))"
proof -
  note r = slots_range [OF c i]
  define nd where "nd = c_m c ! (i - 1)"
  define nd' where "nd' = nd\<lparr>nd_v := val, nd_expireAt := e\<rparr>"
  define fx where "fx = filter (\<lambda>j. j \<noteq> i) xs"
  have ent: "entry_of c i = (key, nd_v nd, nd_expireAt nd)" and k: "nd_k nd = key"
    using key by (simp_all add: entry_of_def nd_def Let_def)
  obtain as bs where a: "xs @ ys = as @ i # bs" "as @ bs = fx @ filter (\<lambda>j. j \<noteq> i) ys"
    using slots_split [OF c i] unfolding fx_def .
  from adjust_front [of "doubleLink c" as i bs] slots_okD(6) [OF c] a
  obtain dl where dl: "adjust_links (doubleLink c) i Cp Cn = Inr dl"
    "dl_ok dl ((i # fx) @ filter (\<lambda>j. j \<noteq> i) ys)" "length dl = length (doubleLink c)"
    by auto
  have fx: "\<forall>j \<in> set fx. 0 < j \<and> j \<le> length (c_m c)"
    using slots_range(1,2) [OF c] by (auto simp: fx_def)
  have m: "map (entry_of (set_slot i nd' c)) (i # fx) = (key, val, e) # map (entry_of c) fx"
    using map_entry_set_slot [of i fx c nd'] fx r by (simp add: entry_set_slot fx_def nd'_def k)
  define b where "b = c_bytes c + (if nd_expireAt nd > 0 then entryBytes key val - entryBytes (nd_k nd) (nd_v nd)
    else entryBytes key val)"
  have lv: "i \<in> set xs \<longleftrightarrow> nd_expireAt nd > 0"
    using slots_live [OF c i] by (simp add: is_live_entry ent)
  have "c_bytes c = lru_bytes (map (entry_of c) xs)" using c by (simp add: slots_ok_def)
  also have "\<dots> = (if nd_expireAt nd > 0 then entryBytes (nd_k nd) (nd_v nd) else 0) + lru_bytes (map (entry_of c) fx)"
    using slots_okD(1) [OF c] bytes_split [of xs "entry_of c" i] by (simp add: ent lv k fx_def)
  finally have bb: "b = lru_bytes (map (entry_of (set_slot i nd' c)) (i # fx))"
    unfolding m by (auto simp: b_def)
  have "slots_ok (set_slot i nd' (c\<lparr>c_bytes := b, c_nevict := c_nevict c, doubleLink := dl\<rparr>)) (i # fx)
    (filter (\<lambda>j. j \<noteq> i) ys)"
    using c i dl(2,3) e bb by (intro slots_change) (auto simp: fx_def nd'_def k ent)
  then have sl: "slots_ok (set_slot i nd' (c\<lparr>c_bytes := b, doubleLink := dl\<rparr>)) (i # fx) (filter (\<lambda>j. j \<noteq> i) ys)"
    by simp
  have s0: "slot c i = Inr nd" using r by (simp add: nd_def)
  have run: "put_known key val e i c = Inr (set_slot i nd' (c\<lparr>c_bytes := b, doubleLink := dl\<rparr>))"
    unfolding put_known_def s0 rbind_Inr Let_def b_def [symmetric] nd'_def [symmetric]
    using dl(1) by (intro adjust_set_slot) simp
  have "entry_of (set_slot i nd' (c\<lparr>c_bytes := b, doubleLink := dl\<rparr>)) = entry_of (set_slot i nd' c)"
    by (simp add: fun_eq_iff set_slot_def entry_of_def)
  then have mm: "map (entry_of (set_slot i nd' (c\<lparr>c_bytes := b, doubleLink := dl\<rparr>))) (i # fx) =
      (key, val, e) # lru_del key (map (entry_of c) xs)"
    using m live_del [OF c r(3)] by (simp add: fx_def key)
  have "holds (set_slot i nd' (c\<lparr>c_bytes := b, doubleLink := dl\<rparr>)) (length (c_m c))
      ((key, val, e) # lru_del key (map (entry_of c) xs))"
    by (rule holdsI [OF sl _ mm]) simp
  with run show ?thesis by simp
qed


text \<open>Marking a live slot dead and moving it to the old end.\<close>

lemma bury_ok:
  assumes c: "slots_ok c xs ys" and i: "i \<in> set xs" and nd: "entry_of c i = (k, v, e)"
    and nd': "nd_k nd' = k" "nd_expireAt nd' = 0"
  shows "\<exists>c'. adjust i Cn Cp (set_slot i nd' (c\<lparr>c_bytes := c_bytes c - entryBytes k v, c_nevict := n\<rparr>)) = Inr c' \<and>
    holds c' (length (c_m c)) (lru_del k (map (entry_of c) xs)) \<and> slot c' i = Inr nd' \<and>
    c_hashMap c' = c_hashMap c \<and> c_nevict c' = n"
proof -
  have i': "i \<in> set (xs @ ys)" using i by simp
  note r = slots_range [OF c i']
  define fx where "fx = filter (\<lambda>j. j \<noteq> i) xs"
  have d: "distinct (xs @ ys)" by (rule slots_okD(1) [OF c])
  have fy: "filter (\<lambda>j. j \<noteq> i) ys = ys" using d i by (auto simp: filter_id_conv)
  obtain as bs where a: "xs @ ys = as @ i # bs" "as @ bs = fx @ ys"
    using slots_split [OF c i'] unfolding fx_def fy .
  have fxs: "set fx = set xs - {i}" by (auto simp: fx_def)
  from adjust_back [of "doubleLink c" as i bs] slots_okD(6) [OF c] a
  obtain dl where dl: "adjust_links (doubleLink c) i Cn Cp = Inr dl"
    "dl_ok dl (fx @ ys @ [i])" "length dl = length (doubleLink c)"
    by (metis append.assoc)
  define c' where "c' = set_slot i nd' (c\<lparr>c_bytes := c_bytes c - entryBytes k v, c_nevict := n, doubleLink := dl\<rparr>)"
  have m: "map (entry_of (set_slot i nd' c)) fx = map (entry_of c) fx"
    using slots_range(1,2) [OF c] r by (intro map_entry_set_slot) (auto simp: fxs)
  have "c_bytes c = lru_bytes (map (entry_of c) xs)" using c by (simp add: slots_ok_def)
  also have "\<dots> = entryBytes k v + lru_bytes (map (entry_of c) fx)"
    using d bytes_split [of xs "entry_of c" i] i by (simp add: nd fx_def)
  finally have b: "c_bytes c - entryBytes k v = lru_bytes (map (entry_of (set_slot i nd' c)) fx)" unfolding m by simp
  have s1: "slots_ok c' fx (ys @ [i])"
    unfolding c'_def using c i' i dl(2,3) nd nd' fxs by (intro slots_change [OF c i' _ _ _ _ _ _ b]) auto
  have "entry_of c' = entry_of (set_slot i nd' c)"
    by (simp add: fun_eq_iff c'_def set_slot_def entry_of_def)
  with m have m1: "map (entry_of c') fx = lru_del k (map (entry_of c) xs)"
    using live_del [OF c r(3)] by (simp only: nd fst_conv fx_def)
  have "holds c' (length (c_m c)) (lru_del k (map (entry_of c) xs))"
    by (rule holdsI [OF s1 _ m1]) (simp add: c'_def)
  moreover have "adjust i Cn Cp (set_slot i nd' (c\<lparr>c_bytes := c_bytes c - entryBytes k v, c_nevict := n\<rparr>)) = Inr c'"
    unfolding c'_def using dl(1) by (intro adjust_set_slot) simp
  moreover have "slot c' i = Inr nd'" using r by (simp add: slot_def c'_def set_slot_def)
  ultimately show ?thesis by (simp add: c'_def)
qed

lemma holds_distinct:
  assumes "holds c n es"
  shows "distinct (map fst es)"
proof -
  from assms obtain xs ys where c: "slots_ok c xs ys" and es: "es = map (entry_of c) xs" by (auto simp: holds_def)
  have "inj_on (\<lambda>i. fst (entry_of c i)) (set xs)"
    using c by (auto simp: slots_ok_def intro: inj_on_subset)
  then show ?thesis using slots_okD(1) [OF c] by (simp add: es distinct_map o_def)
qed

lemma holds_length:
  assumes "holds c n es"
  shows "length es \<le> n"
proof -
  from assms obtain xs ys where c: "slots_ok c xs ys" "length (c_m c) = n" and es: "es = map (entry_of c) xs"
    by (auto simp: holds_def)
  then show ?thesis using slots_okD(3,8) [OF c(1)] by simp
qed

text \<open>How the map of the code and the list of live entries look up a key.\<close>

lemma holds_lookup:
  assumes "holds c n es"
  obtains (Live) i v e xs ys where "slots_ok c xs ys" "length (c_m c) = n" "es = map (entry_of c) xs"
      "map_of (c_hashMap c) key = Some i" "i \<in> set xs" "entry_of c i = (key, v, e)" "0 < e" "map_of es key = Some (v, e)"
  | (Dead) i xs ys where "slots_ok c xs ys" "length (c_m c) = n" "es = map (entry_of c) xs"
      "map_of (c_hashMap c) key = Some i" "i \<in> set ys" "fst (entry_of c i) = key"
      "\<not> is_live c i" "map_of es key = None"
  | (Absent) xs ys where "slots_ok c xs ys" "length (c_m c) = n" "es = map (entry_of c) xs"
      "map_of (c_hashMap c) key = None" "map_of es key = None"
proof -
  from assms obtain xs ys where c: "slots_ok c xs ys" "length (c_m c) = n" "es = map (entry_of c) xs"
    by (auto simp: holds_def)
  show thesis
  proof (cases "map_of (c_hashMap c) key")
    case None
    have "map_of es key = None"
      using live_del_fresh [OF c(1) None] unfolding c(3) lru_del_def
      by (auto simp: map_of_eq_None_iff filter_id_conv)
    with c None show thesis by (rule Absent)
  next
    case (Some i)
    then have i: "i \<in> {1..c_last c}" "fst (entry_of c i) = key" using slots_lookup [OF c(1)] by auto
    then have i': "i \<in> set (xs @ ys)" using c(1) by (simp add: slots_ok_def)
    show thesis
    proof (cases "i \<in> set xs")
      case True
      obtain v e where e: "entry_of c i = (key, v, e)" using i(2) by (metis prod.collapse)
      have "map_of es key = Some (v, e)"
        using holds_distinct [OF assms] True e by (force simp: c(3) map_of_eq_Some_iff)
      moreover have "0 < e" using slots_live [OF c(1) i'] True by (simp add: is_live_entry e)
      ultimately show thesis using c Some True e by (intro Live) auto
    next
      case False
      have "filter (\<lambda>j. j \<noteq> i) xs = xs" using False by (auto simp: filter_id_conv)
      then have "lru_del key es = es" using live_del [OF c(1) i(1)] i(2) by (simp add: c(3))
      then have "map_of es key = None"
        unfolding lru_del_def by (auto simp: map_of_eq_None_iff filter_id_conv)
      moreover have "\<not> is_live c i" using slots_live [OF c(1) i'] False by simp
      ultimately show thesis using c Some False i i' by (intro Dead) auto
    qed
  qed
qed

lemma lru_del_absent: "map_of es key = None \<Longrightarrow> lru_del key es = es"
  by (auto simp: lru_del_def filter_id_conv map_of_eq_None_iff)

lemma del_ok:
  assumes "holds c n es"
  shows "\<exists>c' r. del key c = Inr (c', r) \<and> holds c' n (lru_del key es) \<and> c_nevict c' = c_nevict c \<and>
    (case map_of es key of None \<Rightarrow> r = None
     | Some (v, e) \<Rightarrow> \<exists>i. r = Some (i, e) \<and> slot c' i = Inr \<lparr>nd_k = key, nd_v = v, nd_expireAt = 0\<rparr>
         \<and> map_of (c_hashMap c') key = Some i)"
  using assms
proof (cases rule: holds_lookup [where key = key])
  case (Live i v e xs ys)
  then have "i \<in> set (xs @ ys)" by simp
  note r = slots_range [OF Live(1) this]
  have nd: "c_m c ! (i - 1) = \<lparr>nd_k = key, nd_v = v, nd_expireAt = e\<rparr>"
    using Live(6) by (cases "c_m c ! (i - 1)") (simp add: entry_of_def Let_def)
  have "c\<lparr>c_bytes := c_bytes c - entryBytes key v, c_nevict := c_nevict c\<rparr> =
      c\<lparr>c_bytes := c_bytes c - entryBytes key v\<rparr>" by simp
  with bury_ok [OF Live(1,5,6), of "\<lparr>nd_k = key, nd_v = v, nd_expireAt = 0\<rparr>" "c_nevict c"]
  show ?thesis using Live nd r by (auto simp: del_def)
next
  case (Dead i xs ys)
  then have "i \<in> set (xs @ ys)" by simp
  from slots_range [OF Dead(1) this] show ?thesis
    using Dead assms by (auto simp: del_def is_live_def lru_del_absent)
next
  case (Absent xs ys)
  then show ?thesis using assms by (simp add: del_def lru_del_absent)
qed


lemma clear_value_ok:
  assumes "holds c n es" and "slot c i = Inr nd" "nd_expireAt nd \<le> 0" and "map_of (c_hashMap c) key = Some i"
  shows "\<exists>c'. clear_value i c = Inr c' \<and> holds c' n es \<and> c_nevict c' = c_nevict c"
proof -
  from assms(1) obtain xs ys where c: "slots_ok c xs ys" "length (c_m c) = n" "es = map (entry_of c) xs"
    by (auto simp: holds_def)
  have i: "i \<in> set (xs @ ys)" using slots_lookup [OF c(1)] assms(4) c(1) by (simp add: slots_ok_def)
  note r = slots_range [OF c(1) i]
  let ?c = "set_slot i (nd\<lparr>nd_v := None\<rparr>) c"
  have nd: "entry_of c i = (nd_k nd, nd_v nd, nd_expireAt nd)"
    using assms(2) r by (simp add: entry_of_def Let_def)
  have x: "i \<notin> set xs" using slots_live [OF c(1) i] assms(3) by (simp add: is_live_entry nd)
  have m: "map (entry_of ?c) xs = es"
    unfolding c(3) using x r slots_range(1,2) [OF c(1)] by (intro map_entry_set_slot) auto
  have "slots_ok (set_slot i (nd\<lparr>nd_v := None\<rparr>)
    (c\<lparr>c_bytes := c_bytes c, c_nevict := c_nevict c, doubleLink := doubleLink c\<rparr>)) xs ys"
    using c(1) i slots_okD(6) [OF c(1)] x assms(3)
    by (intro slots_change) (auto simp: nd m c(3) slots_ok_def)
  then have "holds ?c n es" using c(2) m by (intro holdsI) simp_all
  then show ?thesis by (simp add: clear_value_def assms(2))
qed

lemma drop_key_ok:
  assumes "holds c n es"
  shows "\<exists>c'. drop_key key c = Inr c' \<and> holds c' n (lru_del key es) \<and> c_nevict c' = c_nevict c"
proof -
  from del_ok [OF assms, of key] obtain c1 r where d: "del key c = Inr (c1, r)" "holds c1 n (lru_del key es)"
    "c_nevict c1 = c_nevict c"
    and r: "case map_of es key of None \<Rightarrow> r = None
     | Some (v, e) \<Rightarrow> \<exists>i. r = Some (i, e) \<and> slot c1 i = Inr \<lparr>nd_k = key, nd_v = v, nd_expireAt = 0\<rparr>
         \<and> map_of (c_hashMap c1) key = Some i" by blast
  show ?thesis
  proof (cases "map_of es key")
    case None
    then show ?thesis using d r by (simp add: drop_key_def)
  next
    case (Some ve)
    then obtain i e v where i: "r = Some (i, e)" "slot c1 i = Inr \<lparr>nd_k = key, nd_v = v, nd_expireAt = 0\<rparr>"
      "map_of (c_hashMap c1) key = Some i" using r by (auto split: prod.splits)
    from clear_value_ok [OF d(2) i(2) _ i(3)] show ?thesis using d i(1) by (auto simp: drop_key_def)
  qed
qed

text \<open>A hit: the slot \<open>peek\<close> returns, moved to the recent end.\<close>

lemma peek_ok:
  assumes "holds c n es"
  shows "\<exists>r. peek key c = Inr r \<and> (case map_of es key of
     None \<Rightarrow> r = None \<or> (\<exists>nd i. r = Some (nd, i) \<and> nd_expireAt nd \<le> 0)
   | Some (v, e) \<Rightarrow> 0 < e \<and> (\<exists>i c'. r = Some (\<lparr>nd_k = key, nd_v = v, nd_expireAt = e\<rparr>, i) \<and>
       adjust i Cp Cn c = Inr c' \<and> holds c' n ((key, v, e) # lru_del key es) \<and> c_nevict c' = c_nevict c))"
  using assms
proof (cases rule: holds_lookup [where key = key])
  case (Live i v e xs ys)
  then have i': "i \<in> set (xs @ ys)" by simp
  note r = slots_range [OF Live(1) i']
  define nd where "nd = \<lparr>nd_k = key, nd_v = v, nd_expireAt = e\<rparr>"
  have nd: "c_m c ! (i - 1) = nd"
    using Live(6) by (cases "c_m c ! (i - 1)") (simp add: entry_of_def Let_def nd_def)
  have pk: "put_known key v e i c = adjust i Cp Cn c"
  proof -
    have "slot c i = Inr nd" using nd r by simp
    moreover have "nd\<lparr>nd_v := v, nd_expireAt := e\<rparr> = c_m c ! (i - 1)" unfolding nd by (simp add: nd_def)
    then have "set_slot i (nd\<lparr>nd_v := v, nd_expireAt := e\<rparr>) c = c" using r by (simp add: set_slot_def)
    ultimately show ?thesis using Live(7) by (simp add: put_known_def Let_def nd_def)
  qed
  have "slot c i = Inr nd" using nd r by simp
  then show ?thesis
    using put_known_ok [OF Live(1) i', of key e v] Live nd r by (auto simp: peek_def pk nd_def)
next
  case (Dead i xs ys)
  then have "i \<in> set (xs @ ys)" by simp
  from slots_range [OF Dead(1) this] show ?thesis
    using Dead by (auto simp: peek_def is_live_def)
next
  case (Absent xs ys)
  then show ?thesis by (simp add: peek_def)
qed


lemma oldest_slot:
  assumes c: "slots_ok c xs ys" and ne: "xs @ ys \<noteq> []" and i: "i = last (xs @ ys)" and len: "length (xs @ ys) = n"
  shows "take n (x # map (entry_of c) xs) = x # map (entry_of c) (filter (\<lambda>j. j \<noteq> i) xs)"
    and "drop n (x # map (entry_of c) xs) = (if is_live c i then [entry_of c i] else [])"
proof -
  have d: "distinct (xs @ ys)" by (rule slots_okD(1) [OF c])
  have "i \<in> set (xs @ ys)" unfolding i using ne by (rule last_in_set)
  note live = slots_live [OF c this]
  have "take n (x # map (entry_of c) xs) = x # map (entry_of c) (filter (\<lambda>j. j \<noteq> i) xs) \<and>
    drop n (x # map (entry_of c) xs) = (if is_live c i then [entry_of c i] else [])"
  proof (cases ys rule: rev_cases)
    case Nil
    then obtain as where xs: "xs = as @ [i]" using ne i by (metis append_Nil2 append_butlast_last_id)
    have "filter (\<lambda>j. j \<noteq> i) as = as" using d xs by (auto simp: filter_id_conv)
    then show ?thesis using live len Nil by (auto simp: xs)
  next
    case (snoc bs b)
    then have "i \<notin> set xs" using d by (auto simp: i)
    moreover from this have "filter (\<lambda>j. j \<noteq> i) xs = xs" by (auto simp: filter_id_conv)
    ultimately show ?thesis using live len snoc by simp
  qed
  then show "take n (x # map (entry_of c) xs) = x # map (entry_of c) (filter (\<lambda>j. j \<noteq> i) xs)"
    "drop n (x # map (entry_of c) xs) = (if is_live c i then [entry_of c i] else [])" by auto
qed

lemma slots_head:
  assumes "slots_ok c xs ys"
  shows "nav Cn (doubleLink c) 0 = hd ((xs @ ys) @ [0])" and "nav Cp (doubleLink c) 0 = last (0 # xs @ ys)"
    and "0 < length (doubleLink c)"
proof -
  have l: "linked (nav Cp (doubleLink c)) (nav Cn (doubleLink c)) (xs @ ys)" and "0 < length (doubleLink c)"
    using slots_okD(6) [OF assms] by (simp_all add: dl_ok_def)
  then show "0 < length (doubleLink c)" by simp
  from l have "path (nav Cn (doubleLink c)) 0 (xs @ ys) 0" "path (nav Cp (doubleLink c)) 0 (rev (xs @ ys)) 0"
    by (simp_all add: linked_def)
  from this [THEN path_first] show "nav Cn (doubleLink c) 0 = hd ((xs @ ys) @ [0])"
    "nav Cp (doubleLink c) 0 = last (0 # xs @ ys)"
    by (cases "xs @ ys" rule: rev_cases; simp)+
qed

lemma put_full_ok:
  assumes c: "slots_ok c xs ys" and full: "c_last c = length (c_m c)" and key: "map_of (c_hashMap c) key = None"
    and e: "e > 0" and es: "es = (key, val, e) # map (entry_of c) xs" and nd: "n = length (c_m c)"
  shows "\<exists>c'. put_full key val e c = Inr (c', map (\<lambda>(k, v, _). (k, v)) (drop n es)) \<and>
    c_nevict c' = c_nevict c + int (length (drop n es)) \<and> holds c' n (take n es)"
proof -
  have len: "length (xs @ ys) = n" using slots_okD(8) [OF c] full by (simp add: nd)
  then have ne: "xs @ ys \<noteq> []" using slots_okD(4) [OF c] nd by auto
  define i where "i = last (xs @ ys)"
  have i: "i \<in> set (xs @ ys)" using ne unfolding i_def by (rule last_in_set)
  note r = slots_range [OF c i] and h = slots_head(2,3) [OF c]
  note old = oldest_slot [OF c ne i_def len, of "(key, val, e)"]
  have "last (0 # xs @ ys) = i" unfolding i_def using ne by (rule last_ConsR)
  then have hi: "dl_get (doubleLink c) 0 Cp = Inr i" using h by (simp del: last.simps)
  define tl where "tl = c_m c ! (i - 1)"
  have s0: "slot c i = Inr tl" using r by (simp add: tl_def)
  have ent: "entry_of c i = (nd_k tl, nd_v tl, nd_expireAt tl)" by (simp add: entry_of_def tl_def Let_def)
  have lv: "is_live c i \<longleftrightarrow> nd_expireAt tl > 0" by (simp add: is_live_entry ent)
  define fx fy where "fx = filter (\<lambda>j. j \<noteq> i) xs" and "fy = filter (\<lambda>j. j \<noteq> i) ys"
  obtain as bs where a: "xs @ ys = as @ i # bs" "as @ bs = fx @ fy"
    using slots_split [OF c i] unfolding fx_def fy_def .
  from adjust_front [of "doubleLink c" as i bs] slots_okD(6) [OF c] a
  obtain dl where dl: "adjust_links (doubleLink c) i Cp Cn = Inr dl"
    "dl_ok dl ((i # fx) @ fy)" "length dl = length (doubleLink c)"
    by auto
  define b where "b = (if nd_expireAt tl > 0 then c_bytes c - entryBytes (nd_k tl) (nd_v tl) else c_bytes c) + entryBytes key val"
  define m where "m = (if nd_expireAt tl > 0 then c_nevict c + 1 else c_nevict c)"
  define hm where "hm = upd_al key i (del_al (nd_k tl) (c_hashMap c))"
  have "c_bytes c = lru_bytes (map (entry_of c) xs)" using c by (simp add: slots_ok_def)
  also have "\<dots> = (if nd_expireAt tl > 0 then entryBytes (nd_k tl) (nd_v tl) else 0) + lru_bytes (map (entry_of c) fx)"
    using slots_okD(1) [OF c] bytes_split [of xs "entry_of c" i] slots_live [OF c i] lv by (simp add: ent fx_def)
  finally have bb: "b = entryBytes key val + lru_bytes (map (entry_of c) fx)" by (simp add: b_def)
  have hms: "distinct (map fst hm)" "set hm = insert (key, i) {p \<in> set (c_hashMap c). snd p \<noteq> i}"
  proof -
    have "map_of (del_al (nd_k tl) (c_hashMap c)) key = None" using key by simp
    then have f: "key \<notin> fst ` set (del_al (nd_k tl) (c_hashMap c))" unfolding map_of_eq_None_iff .
    have st: "set (c_hashMap c) = (\<lambda>j. (fst (entry_of c j), j)) ` {1..c_last c}"
      and inj: "inj_on (\<lambda>j. fst (entry_of c j)) {1..c_last c}" using c by (simp_all add: slots_ok_def)
    have "fst (entry_of c j) = nd_k tl \<longleftrightarrow> j = i" if "j \<in> {1..c_last c}" for j
      using inj_on_eq_iff [OF inj that r(3)] by (simp add: ent)
    then have "{p \<in> set (c_hashMap c). fst p \<noteq> nd_k tl} = {p \<in> set (c_hashMap c). snd p \<noteq> i}"
      unfolding st by (auto simp del: atLeastAtMost_iff)
    then show "set hm = insert (key, i) {p \<in> set (c_hashMap c). snd p \<noteq> i}"
      unfolding hm_def set_upd_al_fresh [OF f] set_del_al by simp
    show "distinct (map fst hm)" using c by (simp add: hm_def slots_ok_def)
  qed
  define c' where "c' = set_slot i \<lparr>nd_k = key, nd_v = val, nd_expireAt = e\<rparr>
    (c\<lparr>c_bytes := b, c_nevict := m, c_hashMap := hm, c_last := c_last c, doubleLink := dl\<rparr>)"
  have "set (i # fx @ fy) = set (xs @ ys)" unfolding a(2) [symmetric] a(1) by auto
  then have sx: "set (i # fx @ fy) = {1..c_last c}" using c by (simp add: slots_ok_def)
  have s1: "slots_ok c' (i # fx) fy"
    unfolding c'_def
    by (rule slots_rekey [OF c r(3) key _ _ _ dl(2,3) _ _ hms e bb])
      (use slots_okD(3) [OF c] sx in \<open>auto simp: fx_def\<close>)
  have m1: "map (entry_of c') (i # fx) = take n es"
  proof -
    have "map (entry_of c') fx = map (entry_of c) fx"
      unfolding c'_def using slots_range(1,2) [OF c] r
      by (subst map_entry_set_slot) (auto simp: fx_def)
    then show ?thesis unfolding es old(1) using r by (simp add: c'_def entry_set_slot fx_def)
  qed
  have "holds c' n (take n es)" by (rule holdsI [OF s1 _ m1]) (simp add: c'_def nd)
  moreover have "put_full key val e c = Inr (c', map (\<lambda>(k, v, _). (k, v)) (drop n es))"
    using dl(1)
    by (simp add: put_full_def hi s0 es old(2) lv ent adjust_set_slot Let_def c'_def b_def m_def hm_def; cases c; simp)
  moreover have "c_nevict c' = c_nevict c + int (length (drop n es))" by (simp add: es old lv c'_def m_def)
  ultimately show ?thesis by blast
qed

lemma put_new_ok:
  assumes c: "slots_ok c xs ys" and room: "c_last c \<noteq> length (c_m c)" and key: "map_of (c_hashMap c) key = None"
    and e: "e > 0"
  shows "\<exists>c'. put_new key val e c = Inr c' \<and> c_nevict c' = c_nevict c \<and>
    holds c' (length (c_m c)) ((key, val, e) # map (entry_of c) xs)"
proof -
  define i where "i = c_last c + 1"
  have i: "i \<le> length (c_m c)" "0 < i" "i mod 65536 = i" "i < length (doubleLink c)" "0 < length (doubleLink c)"
    using room slots_okD(3,5,7) [OF c] by (simp_all add: i_def)
  have ni: "i \<notin> set (xs @ ys)" using slots_okD(2) [OF c, of i] by (simp add: i_def)
  define dl0 where "dl0 = doubleLink c"
  have ok: "linked (nav Cp dl0) (nav Cn dl0) (xs @ ys)" "\<forall>j \<in> set (xs @ ys). j < length dl0"
    using slots_okD(6) [OF c] by (simp_all add: dl_ok_def dl0_def)
  define hd0 where "hd0 = nav Cn dl0 0"
  have hd: "hd0 = hd ((xs @ ys) @ [0])" using ok(1) by (auto simp: linked_def hd0_def dest: path_first)
  then have hl: "hd0 < length dl0" "hd0 \<noteq> i"
    using ok(2) i ni by (cases "xs @ ys"; auto simp: dl0_def)+
  define dl where "dl = relink (relink (relink (relink dl0 hd0 Cp i) i Cp 0) i Cn hd0) 0 Cn i"
  have nav: "nav Cp dl = (nav Cp dl0)(i := 0, hd0 := i)" "nav Cn dl = (nav Cn dl0)(i := hd0, 0 := i)"
    using hl i by (simp_all add: dl_def dl0_def fun_upd_twist)
  have dlo: "dl_ok dl ((i # xs) @ ys)"
    using linked_push [OF ok(1) ni] i ok(2) unfolding dl_ok_def nav hd0_def by (auto simp: dl_def dl0_def)
  have he: "c_hashMap c = [] \<longleftrightarrow> c_last c = 0" using c by (auto simp: slots_ok_def)
  have h0: "hd0 = 0" if "c_hashMap c = []" using that slots_okD(8) [OF c] he by (simp add: hd)
  have f: "key \<notin> fst ` set (c_hashMap c)" using key unfolding map_of_eq_None_iff .
  define c' where "c' = set_slot i \<lparr>nd_k = key, nd_v = val, nd_expireAt = e\<rparr>
    (c\<lparr>c_bytes := c_bytes c + entryBytes key val, c_nevict := c_nevict c,
       c_hashMap := upd_al key i (c_hashMap c), c_last := i, doubleLink := dl\<rparr>)"
  have hm: "set (upd_al key i (c_hashMap c)) = insert (key, i) {p \<in> set (c_hashMap c). snd p \<noteq> i}"
    unfolding set_upd_al_fresh [OF f] using c by (auto simp: slots_ok_def i_def)
  have hd': "distinct (map fst (upd_al key i (c_hashMap c)))" using c by (simp add: slots_ok_def)
  have sx: "set (xs @ ys) = {1..c_last c}" using c by (simp add: slots_ok_def)
  have b: "c_bytes c + entryBytes key val = entryBytes key val + lru_bytes (map (entry_of c) xs)"
    using c by (simp add: slots_ok_def)
  have s1: "slots_ok c' (i # xs) ys"
    unfolding c'_def
  proof (rule slots_rekey [OF c _ key _ _ _ dlo _ _ _ hd' hm e b])
    show "set ((i # xs) @ ys) = {1..i}" using sx by (auto simp: i_def)
    show "{1..i} - {i} = {1..c_last c} - {i}" by (auto simp: i_def)
    show "length dl = length (doubleLink c)" by (simp add: dl_def dl0_def)
  qed (use i ni in \<open>auto simp: i_def\<close>)
  have m1: "map (entry_of c') (i # xs) = (key, val, e) # map (entry_of c) xs"
  proof -
    have "map (entry_of c') xs = map (entry_of c) xs"
      unfolding c'_def using slots_range(1,2) [OF c] i ni by (subst map_entry_set_slot) auto
    then show ?thesis using i by (simp add: c'_def entry_set_slot)
  qed
  have "holds c' (length (c_m c)) ((key, val, e) # map (entry_of c) xs)"
    by (rule holdsI [OF s1 _ m1]) (simp add: c'_def)
  moreover have "put_new key val e c = Inr c'"
  proof -
    have 1: "(if c_hashMap c = [] then dl_set dl0 0 Cp i
        else rbind (dl_get dl0 0 Cn) (\<lambda>h. dl_set dl0 h Cp i)) = Inr (relink dl0 hd0 Cp i)"
      using hl h0 i by (simp add: dl0_def hd0_def)
    have 2: "slot c i = Inr (c_m c ! (i - 1))" using i by simp
    have 3: "c' = set_slot i \<lparr>nd_k = key, nd_v = val, nd_expireAt = e\<rparr>
      (c\<lparr>doubleLink := dl, c_last := i, c_hashMap := upd_al key i (c_hashMap c),
         c_bytes := c_bytes c + entryBytes key val\<rparr>)" by (cases c) (simp add: c'_def)
    show ?thesis
      unfolding put_new_def Let_def i_def [symmetric] i(3) dl0_def [symmetric] 1 2 rbind_Inr 3
      using hl i by (simp add: dl0_def [symmetric] dl_def hd0_def)
  qed
  moreover have "c_nevict c' = c_nevict c" by (simp add: c'_def)
  ultimately show ?thesis by blast
qed


text \<open>What \<open>put\<close> does to the list of live entries: cons, drop the old entry of the key, cut at the
  capacity and report what was cut.\<close>

theorem put_ok:
  assumes "holds c n es" and e: "e > 0"
  shows "\<exists>c'. put key val e c =
      Inr (c', map (\<lambda>(k, v, _). (k, v)) (drop n ((key, val, e) # lru_del key es))) \<and>
    holds c' n (lru_put n (key, val, e) es) \<and>
    c_nevict c' = c_nevict c + int (length (drop n ((key, val, e) # lru_del key es)))"
proof -
  have known: ?thesis if c: "slots_ok c xs ys" "length (c_m c) = n" "es = map (entry_of c) xs"
    and i: "map_of (c_hashMap c) key = Some i" "i \<in> set (xs @ ys)" "fst (entry_of c i) = key" for i xs ys
  proof -
    from put_known_ok [OF c(1) i(2) i(3) [symmetric] e, of val] obtain c' where
      c': "put_known key val e i c = Inr c'" "c_nevict c' = c_nevict c"
        "holds c' n ((key, val, e) # lru_del key es)" using c(2,3) by blast
    have "length ((key, val, e) # lru_del key es) \<le> n" by (rule holds_length [OF c'(3)])
    then show ?thesis using c' i(1) by (simp add: put_def lru_put_def)
  qed
  from assms(1) show ?thesis
  proof (cases rule: holds_lookup [where key = key])
    case (Live i v e xs ys)
    then show ?thesis by (intro known [of xs ys i]) auto
  next
    case (Dead i xs ys)
    then show ?thesis by (intro known [of xs ys i]) auto
  next
    case (Absent xs ys)
    have k: "lru_del key es = es" using Absent(5) by (rule lru_del_absent)
    have m: "n mod 65536 = n" using slots_okD(5) [OF Absent(1)] Absent(2) by simp
    show ?thesis
    proof (cases "c_last c = n")
      case True
      with put_full_ok [OF Absent(1) _ Absent(4) e refl refl, of val] Absent show ?thesis
        unfolding k lru_put_def fst_conv by (auto simp: put_def m)
    next
      case False
      with put_new_ok [OF Absent(1) _ Absent(4) e, of val] Absent obtain c' where
        c': "put_new key val e c = Inr c'" "c_nevict c' = c_nevict c" "holds c' n ((key, val, e) # es)" by auto
      have "length ((key, val, e) # es) \<le> n" by (rule holds_length [OF c'(3)])
      then show ?thesis using c' False Absent(2,4) by (simp add: put_def lru_put_def k m)
    qed
  qed
qed

text \<open>\<open>evictOldest\<close> drops the last live entry.\<close>

lemma evict_from_ok:
  assumes c: "slots_ok c xs ys" and ys: "ys = us @ zs" and f: "length (xs @ us) < fuel"
  shows "\<exists>c' out b. evict_from fuel (last (0 # xs @ us)) c = Inr (c', out, b) \<and>
    (b \<longleftrightarrow> xs \<noteq> []) \<and> holds c' (length (c_m c)) (butlast (map (entry_of c) xs)) \<and>
    out = map (\<lambda>(k, v, _). (k, v)) (drop (length xs - 1) (map (entry_of c) xs)) \<and>
    c_nevict c' = c_nevict c + int (length out)"
  using ys f
proof (induction us arbitrary: fuel zs rule: rev_induct)
  case Nil
  from Nil.prems obtain fuel' where fu: "fuel = Suc fuel'" by (cases fuel) auto
  show ?case
  proof (cases xs rule: rev_cases)
    case Nil
    then have "holds c (length (c_m c)) (butlast (map (entry_of c) xs))" using holdsI [OF c refl refl] by simp
    moreover have "evict_from fuel (last (0 # xs @ [])) c = Inr (c, [], False)" using Nil by (simp add: fu)
    ultimately show ?thesis using Nil by (intro exI [of _ c] exI [of _ "[]"] exI [of _ False]) simp
  next
    case (snoc as i)
    then have i: "i \<in> set xs" "i \<in> set (xs @ ys)" by simp_all
    note r = slots_range [OF c i(2)]
    obtain k v e where en: "entry_of c i = (k, v, e)" by (cases "entry_of c i") auto
    have e: "0 < e" using slots_live [OF c i(2)] i(1) by (simp add: is_live_entry en)
    have nd: "c_m c ! (i - 1) = \<lparr>nd_k = k, nd_v = v, nd_expireAt = e\<rparr>"
      using en by (cases "c_m c ! (i - 1)") (simp add: entry_of_def Let_def)
    have "filter (\<lambda>j. j \<noteq> i) xs = as" using slots_okD(1) [OF c] snoc by (auto simp: filter_id_conv)
    then have "lru_del k (map (entry_of c) xs) = butlast (map (entry_of c) xs)"
      using live_del [OF c r(3)] en snoc by simp
    with bury_ok [OF c i(1) en, of "\<lparr>nd_k = k, nd_v = None, nd_expireAt = 0\<rparr>" "c_nevict c + 1"]
    show ?thesis using snoc nd r e en by (auto simp: fu)
  qed
next
  case (snoc u us)
  from snoc.prems obtain fuel' where fu: "fuel = Suc fuel'" by (cases fuel) auto
  have u: "u \<in> set (xs @ ys)" "u \<in> set ys" using snoc.prems by simp_all
  note r = slots_range [OF c u(1)]
  have dead: "\<not> is_live c u" using slots_live [OF c u(1)] slots_okD(1) [OF c] u(2) by auto
  have "linked (nav Cp (doubleLink c)) (nav Cn (doubleLink c)) ((xs @ us) @ u # zs)"
    using slots_okD(6) [OF c] snoc.prems(1) by (simp add: dl_ok_def)
  from linked_mid(1) [OF this] have p: "nav Cp (doubleLink c) u = last (0 # xs @ us)" .
  have "evict_from fuel u c = evict_from fuel' (last (0 # xs @ us)) c"
    using r dead slots_okD(7) [OF c] by (simp add: fu is_live_def p del: last.simps)
  then show ?case
    using snoc.IH [of "u # zs" fuel'] snoc.prems by (simp add: fu del: last.simps add: last_ConsR)
qed


theorem evictOldest_ok:
  assumes "holds c n es"
  shows "\<exists>c' out. evictOldest c = Inr (c', out, es \<noteq> []) \<and> holds c' n (butlast es) \<and>
    out = map (\<lambda>(k, v, _). (k, v)) (drop (length es - 1) es) \<and> c_nevict c' = c_nevict c + int (length out)"
proof -
  from assms obtain xs ys where c: "slots_ok c xs ys" "length (c_m c) = n" "es = map (entry_of c) xs"
    by (auto simp: holds_def)
  have "length (xs @ ys) < length (doubleLink c) + 1"
    using slots_okD(3,7,8) [OF c(1)] by simp
  from evict_from_ok [OF c(1) append_Nil2 [symmetric] this] show ?thesis
    using slots_head(2,3) [OF c(1)] c(2,3) by (auto simp: evictOldest_def)
qed

lemma walk_from_ok:
  assumes c: "slots_ok c xs ys" and "xs @ ys = us @ vs" and "length vs < fuel"
  shows "walk_from fuel c (hd (vs @ [0])) w s = visit w (map (entry_of c) (filter (is_live c) vs)) s"
  using assms(2,3)
proof (induction vs arbitrary: us fuel s)
  case Nil
  then show ?case by (cases fuel) auto
next
  case (Cons v vs)
  from Cons.prems obtain fuel' where fu: "fuel = Suc fuel'" by (cases fuel) auto
  have v: "v \<in> set (xs @ ys)" using Cons.prems by simp
  note r = slots_range [OF c v]
  have "linked (nav Cp (doubleLink c)) (nav Cn (doubleLink c)) (us @ v # vs)"
    using slots_okD(6) [OF c] Cons.prems(1) by (simp add: dl_ok_def)
  from linked_mid(2) [OF this] have nx: "dl_get (doubleLink c) v Cn = Inr (hd (vs @ [0]))"
    using r slots_okD(7) [OF c] by simp
  have IH: "walk_from fuel' c (hd (vs @ [0])) w s' = visit w (map (entry_of c) (filter (is_live c) vs)) s'" for s'
    using Cons.prems by (intro Cons.IH [of "us @ [v]"]) (simp_all add: fu)
  define nd where "nd = c_m c ! (v - 1)"
  have "slot c v = Inr nd" "entry_of c v = (nd_k nd, nd_v nd, nd_expireAt nd)" "is_live c v \<longleftrightarrow> 0 < nd_expireAt nd"
    using r by (simp_all add: nd_def entry_of_def Let_def is_live_def)
  then show ?case using r by (simp add: fu nx IH cong: if_cong)
qed

theorem walk_ok:
  assumes "holds c n es"
  shows "walk c w s = visit w es s"
proof -
  from assms obtain xs ys where c: "slots_ok c xs ys" "length (c_m c) = n" "es = map (entry_of c) xs"
    by (auto simp: holds_def)
  have "\<forall>i \<in> set xs. is_live c i" "\<forall>i \<in> set ys. \<not> is_live c i" using c(1) by (simp_all add: slots_ok_def)
  then have "filter (is_live c) (xs @ ys) = xs" by (simp add: filter_id_conv)
  moreover have "length (xs @ ys) < length (doubleLink c) + 1" using slots_okD(3,7,8) [OF c(1)] by simp
  ultimately show ?thesis
    using walk_from_ok [OF c(1) append_Nil [symmetric], of "length (doubleLink c) + 1" w s] slots_head(1,3) [OF c(1)] c(3)
    by (simp add: walk_def)
qed

lemma Create_ok:
  assumes "0 < n" and "n < 65535"
  shows "holds (Create n) n []"
proof (rule holdsI)
  have "nav d (replicate (Suc n) (0, 0)) 0 = 0" for d by (cases d) (simp_all add: nav_def)
  then have "dl_ok (doubleLink (Create n)) []" using assms by (simp add: Create_def dl_ok_def linked_def)
  then show "slots_ok (Create n) [] []" using assms by (simp add: slots_ok_def) (simp add: Create_def)
qed (simp_all add: Create_def)

lemma holds_facts:
  assumes "holds c n es"
  shows "c_bytes c = lru_bytes es" and "0 < n" and "\<forall>(k, v, e) \<in> set es. 0 < e"
proof -
  from assms obtain xs ys where c: "slots_ok c xs ys" "length (c_m c) = n" "es = map (entry_of c) xs"
    by (auto simp: holds_def)
  then show "c_bytes c = lru_bytes es" "0 < n" by (auto simp: slots_ok_def)
  have "\<forall>i \<in> set xs. is_live c i" using c(1) by (simp add: slots_ok_def)
  then show "\<forall>(k, v, e) \<in> set es. 0 < e" by (auto simp: c(3) is_live_entry)
qed

text \<open>A capacity of 65535 wraps the \<^verbatim>\<open>uint16\<close> length of the link array to 0, and the first insertion
  panics.\<close>

lemma Create_wraps: "put ''k'' (Some []) 1 (Create 65535) = Inl (Panic ''index out of range'')"
proof -
  have "doubleLink (Create 65535) = []" "c_hashMap (Create 65535) = []" "c_last (Create 65535) = 0"
    "length (c_m (Create 65535)) = 65535"
    by (simp_all only: Create_def cache.simps length_replicate) simp
  then show ?thesis by (simp add: put_def put_new_def dl_set_def go_nth_def)
qed

end
