(* ===== verification/Cache_Store.thy ===== *)
theory Cache_Store
  imports Cache_LRU
begin

text \<open>
  The sharded two-level store of \<^verbatim>\<open>src/libs/yukino_cache/lru.go\<close> (\<^verbatim>\<open>type lruStore\<close>).  A key belongs to the
  bucket its hash selects; a bucket has two caches of \<^verbatim>\<open>Cache_LRU\<close>, a \<open>Set\<close> writes the first one and
  a \<open>Get\<close> promotes the entry to the second one.  Every operation holds the lock of its bucket from
  start to end, so operations are atomic steps on a bucket here.  The clock \<^verbatim>\<open>Now()\<close> is an argument,
  and an operation returns the calls it makes to \<^verbatim>\<open>onEvicted\<close>.  The order in which Go ranges over a
  set of collected keys is unspecified: the argument \<open>ord\<close> of the two operations that do so chooses it.
\<close>

unbundle bit_operations_syntax

section \<open>Sharding\<close>

definition HashBKRD :: "string \<Rightarrow> 32 word" where
  "HashBKRD s = fold (\<lambda>ch h. h * 131 + of_char ch) s 0"

definition MaskOfNextPowOf2 :: "16 word \<Rightarrow> 16 word" where
  "MaskOfNextPowOf2 cap =
     (if cap > 0 \<and> cap AND (cap - 1) = 0 then cap - 1 else
      let a = cap OR drop_bit 1 cap; b = a OR drop_bit 2 a; c = b OR drop_bit 4 b in c OR drop_bit 8 c)"

definition s64 :: "int \<Rightarrow> int" where
  "s64 x = (x + 9223372036854775808) mod 18446744073709551616 - 9223372036854775808"

definition maxExpireAt :: int where
  "maxExpireAt = 9223372036854775807"

section \<open>The store\<close>

record StoreOptions =
  so_MaxBytes :: int
  so_BucketCount :: "16 word"
  so_CapPerBucket :: "16 word"
  so_Level2Cap :: "16 word"

record lruStore =
  ls_caches :: "(cache \<times> cache) list"
  ls_maxBucketBytes :: int
  ls_mask :: "32 word"
  ls_closed :: bool

definition NewStore :: "StoreOptions \<Rightarrow> go_err + lruStore" where
  "NewStore opts =
     (let bc = (if so_BucketCount opts = 0 then 16 else so_BucketCount opts);
          c0 = (if so_CapPerBucket opts = 0 then 512 else so_CapPerBucket opts);
          c1 = (if so_Level2Cap opts = 0 then 256 else so_Level2Cap opts);
          mask = MaskOfNextPowOf2 bc; n = unat (mask + 1)
      in rbind (if so_MaxBytes opts > 0
                then if n = 0 then Inl (Panic ''integer divide by zero'')
                     else Inr (let b = so_MaxBytes opts div int n in if b \<le> 0 then 1 else b)
                else Inr 0) (\<lambda>maxb.
         Inr \<lparr>ls_caches = replicate n (Create (unat c0), Create (unat c1)), ls_maxBucketBytes = maxb,
              ls_mask = ucast mask, ls_closed = False\<rparr>))"

definition bucket_of :: "lruStore \<Rightarrow> string \<Rightarrow> int" where
  "bucket_of s key = sint (HashBKRD key AND ls_mask s)"

text \<open>\<^verbatim>\<open>s.caches[idx]\<close> for the length of one locked operation.\<close>

definition with_bucket ::
  "string \<Rightarrow> (cache \<times> cache \<Rightarrow> go_err + ('r \<times> (cache \<times> cache) \<times> evicted)) \<Rightarrow> lruStore \<Rightarrow>
   go_err + ('r \<times> lruStore \<times> evicted)" where
  "with_bucket key f s = (let i = bucket_of s key in
     if i < 0 then Inl (Panic ''index out of range'') else
     rbind (go_nth (ls_caches s) (nat i)) (\<lambda>b. rbind (f b) (\<lambda>(r, b', out).
     Inr (r, s\<lparr>ls_caches := (ls_caches s)[nat i := b']\<rparr>, out))))"

definition bucket_Get :: "int \<Rightarrow> string \<Rightarrow> cache \<times> cache \<Rightarrow> go_err + (bytes option option \<times> (cache \<times> cache) \<times> evicted)" where
  "bucket_Get now key = (\<lambda>(c0, c1). rbind (del key c0) (\<lambda>(c0, r). case r of
     Some (i, expireAt) \<Rightarrow>
       rbind (slot c0 i) (\<lambda>n1. let v = nd_v n1 in rbind (clear_value i c0) (\<lambda>c0.
       if now \<ge> expireAt then rbind (drop_key key c1) (\<lambda>c1. Inr (None, (c0, c1), [(key, v)]))
       else rbind (put key v expireAt c1) (\<lambda>(c1, out). Inr (Some v, (c0, c1), out))))
   | None \<Rightarrow> rbind (peek key c1) (\<lambda>r. case r of
       Some (n2, i) \<Rightarrow> if nd_expireAt n2 > 0 then
           if now \<ge> nd_expireAt n2 then rbind (drop_key key c1) (\<lambda>c1. Inr (None, (c0, c1), [(key, nd_v n2)]))
           else rbind (adjust i Cp Cn c1) (\<lambda>c1. Inr (Some (nd_v n2), (c0, c1), []))
         else Inr (None, (c0, c1), [])
     | None \<Rightarrow> Inr (None, (c0, c1), []))))"

definition lru_Get :: "int \<Rightarrow> string \<Rightarrow> lruStore \<Rightarrow> go_err + (bytes option option \<times> lruStore \<times> evicted)" where
  "lru_Get now key = with_bucket key (bucket_Get now key)"

definition evictFromBucket :: "cache \<times> cache \<Rightarrow> go_err + (bool \<times> (cache \<times> cache) \<times> evicted)" where
  "evictFromBucket = (\<lambda>(c0, c1). rbind (evictOldest c0) (\<lambda>(c0, out, ok).
     if ok then Inr (True, (c0, c1), out)
     else rbind (evictOldest c1) (\<lambda>(c1, out', ok). Inr (ok, (c0, c1), out @ out'))))"

text \<open>The loop of \<open>SetWithExpiration\<close>: every round makes one entry dead, so the number of slots plus one
  is enough fuel.\<close>

fun fit_bytes :: "nat \<Rightarrow> int \<Rightarrow> cache \<times> cache \<Rightarrow> evicted \<Rightarrow> go_err + ((cache \<times> cache) \<times> evicted)" where
  "fit_bytes 0 m b out = Inl (Panic ''endless loop'')"
| "fit_bytes (Suc fuel) m b out =
     (if c_bytes (fst b) + c_bytes (snd b) > m then
        rbind (evictFromBucket b) (\<lambda>(ok, b, out'). if ok then fit_bytes fuel m b (out @ out') else Inr (b, out @ out'))
      else Inr (b, out))"

definition bucket_Set :: "int \<Rightarrow> string \<Rightarrow> bytes option \<Rightarrow> int \<Rightarrow> cache \<times> cache \<Rightarrow> go_err + (unit \<times> (cache \<times> cache) \<times> evicted)" where
  "bucket_Set maxb key value expireAt = (\<lambda>(c0, c1).
     rbind (put key value expireAt c0) (\<lambda>(c0, out). rbind (drop_key key c1) (\<lambda>c1.
     if maxb > 0 then
       rbind (fit_bytes (length (c_m c0) + length (c_m c1) + 1) maxb (c0, c1) out) (\<lambda>(b, out). Inr ((), b, out))
     else Inr ((), (c0, c1), out))))"

definition expire_at :: "int \<Rightarrow> int \<Rightarrow> int" where
  "expire_at now expiration = (if expiration > 0 then s64 (now + expiration) else maxExpireAt)"

definition SetWithExpiration :: "int \<Rightarrow> string \<Rightarrow> bytes option \<Rightarrow> int \<Rightarrow> lruStore \<Rightarrow> go_err + (unit \<times> lruStore \<times> evicted)" where
  "SetWithExpiration now key value expiration s =
     with_bucket key (bucket_Set (ls_maxBucketBytes s) key value (expire_at now expiration)) s"

definition lru_Set :: "int \<Rightarrow> string \<Rightarrow> bytes option \<Rightarrow> lruStore \<Rightarrow> go_err + (unit \<times> lruStore \<times> evicted)" where
  "lru_Set now key value s = SetWithExpiration now key value 0 s"

text \<open>\<^verbatim>\<open>n1.v\<close> through the pointer of \<open>del\<close>, nil when there was no entry.\<close>

definition value_at :: "cache \<Rightarrow> (nat \<times> int) option \<Rightarrow> go_err + bytes option" where
  "value_at c r = (case r of None \<Rightarrow> Inr None | Some (i, _) \<Rightarrow> rbind (slot c i) (\<lambda>nd. Inr (nd_v nd)))"

definition clear_at :: "(nat \<times> int) option \<Rightarrow> cache \<Rightarrow> go_err + cache" where
  "clear_at r c = (case r of None \<Rightarrow> Inr c | Some (i, _) \<Rightarrow> clear_value i c)"

definition bucket_delete :: "string \<Rightarrow> cache \<times> cache \<Rightarrow> go_err + (bool \<times> (cache \<times> cache) \<times> evicted)" where
  "bucket_delete key = (\<lambda>(c0, c1). rbind (del key c0) (\<lambda>(c0, r0). rbind (del key c1) (\<lambda>(c1, r1).
     rbind (value_at c0 r0) (\<lambda>v0. rbind (value_at c1 r1) (\<lambda>v1.
     let deleted = (r0 \<noteq> None \<or> r1 \<noteq> None);
         out = (if \<not> deleted then [] else if v0 \<noteq> None then [(key, v0)] else if v1 \<noteq> None then [(key, v1)] else [])
     in rbind (clear_at r0 c0) (\<lambda>c0. rbind (clear_at r1 c1) (\<lambda>c1. Inr (deleted, (c0, c1), out))))))))"

definition lru_Delete :: "string \<Rightarrow> lruStore \<Rightarrow> go_err + (bool \<times> lruStore \<times> evicted)" where
  "lru_Delete key = with_bucket key (bucket_delete key)"

section \<open>Operations on every bucket\<close>

text \<open>The walkers of \<open>Clear\<close>, \<open>Len\<close> and \<open>cleanupLoop\<close>: a set of keys filled from both caches.\<close>

definition collect :: "(int \<Rightarrow> bool) \<Rightarrow> string list walker" where
  "collect P k v e ks = Inr (True, if P e then List.insert k ks else ks)"

definition bucket_keys :: "(int \<Rightarrow> bool) \<Rightarrow> cache \<times> cache \<Rightarrow> go_err + string list" where
  "bucket_keys P = (\<lambda>(c0, c1). rbind (walk c0 (collect P) []) (walk c1 (collect P)))"

definition delete_keys :: "string list \<Rightarrow> cache \<times> cache \<Rightarrow> go_err + ((cache \<times> cache) \<times> evicted)" where
  "delete_keys ks b = rfold (\<lambda>k (b, out). rbind (bucket_delete k b) (\<lambda>(_, b, out'). Inr (b, out @ out'))) ks (b, [])"

definition range_keys :: "(string list \<Rightarrow> string list) \<Rightarrow> string list \<Rightarrow> string list" where
  "range_keys ord ks = (if set (ord ks) = set ks then ord ks else ks)"

definition delete_where :: "(string list \<Rightarrow> string list) \<Rightarrow> (int \<Rightarrow> bool) \<Rightarrow> cache \<times> cache \<Rightarrow> go_err + ((cache \<times> cache) \<times> evicted)" where
  "delete_where ord P b = rbind (bucket_keys P b) (\<lambda>ks. delete_keys (range_keys ord ks) b)"

fun on_buckets :: "('b \<Rightarrow> go_err + ('b \<times> evicted)) \<Rightarrow> 'b list \<Rightarrow> go_err + ('b list \<times> evicted)" where
  "on_buckets f [] = Inr ([], [])"
| "on_buckets f (b # bs) = rbind (f b) (\<lambda>(b', out). rbind (on_buckets f bs) (\<lambda>(bs', out'). Inr (b' # bs', out @ out')))"

definition lru_Clear :: "(string list \<Rightarrow> string list) \<Rightarrow> lruStore \<Rightarrow> go_err + (lruStore \<times> evicted)" where
  "lru_Clear ord s = rbind (on_buckets (delete_where ord (\<lambda>_. True)) (ls_caches s)) (\<lambda>(bs, out).
     Inr (s\<lparr>ls_caches := bs\<rparr>, out))"

text \<open>One tick of \<open>cleanupLoop\<close>.\<close>

definition cleanup_tick :: "(string list \<Rightarrow> string list) \<Rightarrow> int \<Rightarrow> lruStore \<Rightarrow> go_err + (lruStore \<times> evicted)" where
  "cleanup_tick ord now s = rbind (on_buckets (delete_where ord (\<lambda>e. now \<ge> e)) (ls_caches s)) (\<lambda>(bs, out).
     Inr (s\<lparr>ls_caches := bs\<rparr>, out))"

definition lru_Len :: "lruStore \<Rightarrow> go_err + nat" where
  "lru_Len s = rfold (\<lambda>b count. rbind (bucket_keys (\<lambda>_. True) b) (\<lambda>seen. Inr (count + length seen))) (ls_caches s) 0"

record Entry =
  en_Key :: string
  en_Size :: nat
  en_ExpireAt :: int
  en_Level :: nat

definition entry_rec :: "string \<Rightarrow> bytes option \<Rightarrow> int \<Rightarrow> nat \<Rightarrow> go_err + Entry" where
  "entry_rec k v e l = (case v of None \<Rightarrow> Inl (Panic ''nil pointer dereference'')
     | Some b \<Rightarrow> Inr \<lparr>en_Key = k, en_Size = length b, en_ExpireAt = e, en_Level = l\<rparr>)"

definition bucket_Walk :: "(Entry \<Rightarrow> 's \<Rightarrow> bool \<times> 's) \<Rightarrow> cache \<times> cache \<Rightarrow> 's \<Rightarrow> go_err + 's" where
  "bucket_Walk fn = (\<lambda>(c0, c1) s.
     rbind (walk c1 (\<lambda>k v e (seen, s). rbind (entry_rec k v e 1) (\<lambda>en.
       let (go_on, s) = fn en s in Inr (go_on, (List.insert k seen, s)))) ([], s)) (\<lambda>(seen, s).
     walk c0 (\<lambda>k v e s. if k \<in> set seen then Inr (True, s) else rbind (entry_rec k v e 0) (\<lambda>en. Inr (fn en s))) s))"

definition lru_Walk :: "(Entry \<Rightarrow> 's \<Rightarrow> bool \<times> 's) \<Rightarrow> lruStore \<Rightarrow> 's \<Rightarrow> go_err + 's" where
  "lru_Walk fn st s = rfold (bucket_Walk fn) (ls_caches st) s"

definition lru_Bytes :: "lruStore \<Rightarrow> int" where
  "lru_Bytes s = (\<Sum>(c0, c1) \<leftarrow> ls_caches s. c_bytes c0 + c_bytes c1)"

definition lru_Evictions :: "lruStore \<Rightarrow> int" where
  "lru_Evictions s = (\<Sum>(c0, c1) \<leftarrow> ls_caches s. c_nevict c0 + c_nevict c1)"

definition lru_Close :: "lruStore \<Rightarrow> lruStore" where
  "lru_Close s = s\<lparr>ls_closed := True\<rparr>"

section \<open>The abstract two-level store\<close>

text \<open>What a bucket promises: two lists of live entries, most recent first.\<close>

type_synonym levels = "entry list \<times> entry list"

definition gone :: "entry list \<Rightarrow> evicted" where
  "gone es = map (\<lambda>(k, v, _). (k, v)) es"

definition lv_Get :: "nat \<Rightarrow> int \<Rightarrow> string \<Rightarrow> levels \<Rightarrow> bytes option option \<times> levels \<times> evicted" where
  "lv_Get n1 now key = (\<lambda>(e0, e1). case map_of e0 key of
     Some (v, e) \<Rightarrow> if now \<ge> e then (None, (lru_del key e0, lru_del key e1), [(key, v)])
       else (Some v, (lru_del key e0, lru_put n1 (key, v, e) e1), gone (drop n1 ((key, v, e) # lru_del key e1)))
   | None \<Rightarrow> (case map_of e1 key of
       Some (v, e) \<Rightarrow> if now \<ge> e then (None, (e0, lru_del key e1), [(key, v)])
         else (Some v, (e0, (key, v, e) # lru_del key e1), [])
     | None \<Rightarrow> (None, (e0, e1), [])))"

function lv_fit :: "int \<Rightarrow> levels \<Rightarrow> evicted \<Rightarrow> levels \<times> evicted" where
  "lv_fit m (e0, e1) out =
     (if lru_bytes e0 + lru_bytes e1 \<le> m then ((e0, e1), out)
      else if e0 \<noteq> [] then lv_fit m (butlast e0, e1) (out @ gone [last e0])
      else if e1 \<noteq> [] then lv_fit m (e0, butlast e1) (out @ gone [last e1])
      else ((e0, e1), out))"
  by pat_completeness auto
termination by (relation "measure (\<lambda>(m, (e0, e1), out). length e0 + length e1)") auto

declare lv_fit.simps [simp del]

definition lv_Set :: "nat \<Rightarrow> int \<Rightarrow> string \<Rightarrow> bytes option \<Rightarrow> int \<Rightarrow> levels \<Rightarrow> levels \<times> evicted" where
  "lv_Set n0 m key v e = (\<lambda>(e0, e1).
     let l = (lru_put n0 (key, v, e) e0, lru_del key e1); out = gone (drop n0 ((key, v, e) # lru_del key e0))
     in if m > 0 then lv_fit m l out else (l, out))"

definition lv_delete :: "string \<Rightarrow> levels \<Rightarrow> levels" where
  "lv_delete key = (\<lambda>(e0, e1). (lru_del key e0, lru_del key e1))"

definition lv_find :: "levels \<Rightarrow> string \<Rightarrow> (bytes option \<times> int) option" where
  "lv_find l = map_of (fst l @ snd l)"

definition bk_ok :: "nat \<Rightarrow> nat \<Rightarrow> cache \<times> cache \<Rightarrow> levels \<Rightarrow> bool" where
  "bk_ok n0 n1 b l \<longleftrightarrow> holds (fst b) n0 (fst l) \<and> holds (snd b) n1 (snd l) \<and> fst ` set (fst l) \<inter> fst ` set (snd l) = {}"


section \<open>A bucket implements the two lists\<close>

lemma lru_del_set: "fst ` set (lru_del k es) = fst ` set es - {k}"
  by (auto simp: lru_del_def image_iff)

lemma lru_put_set: "fst ` set (lru_put n (k, v, e) es) \<subseteq> insert k (fst ` set es)"
  using set_take_subset [of n "(k, v, e) # lru_del k es"] by (auto simp: lru_put_def lru_del_def)

lemma lru_del_find: "map_of (lru_del k es) = (map_of es)(k := None)"
  by (induction es) (auto simp: lru_del_def fun_eq_iff)

lemma bk_okD:
  assumes "bk_ok n0 n1 b l"
  shows "holds (fst b) n0 (fst l)" "holds (snd b) n1 (snd l)" "fst ` set (fst l) \<inter> fst ` set (snd l) = {}"
  using assms by (auto simp: bk_ok_def)

lemma bucket_Get_ok:
  assumes "bk_ok n0 n1 b l"
  shows "\<exists>b'. bucket_Get now key b = Inr (fst (lv_Get n1 now key l), b', snd (snd (lv_Get n1 now key l))) \<and>
    bk_ok n0 n1 b' (fst (snd (lv_Get n1 now key l)))"
proof -
  obtain c0 c1 where b: "b = (c0, c1)" by (cases b)
  obtain e0 e1 where l: "l = (e0, e1)" by (cases l)
  have h: "holds c0 n0 e0" "holds c1 n1 e1" "fst ` set e0 \<inter> fst ` set e1 = {}"
    using bk_okD [OF assms] by (simp_all add: b l)
  from del_ok [OF h(1), of key] obtain c0' r where d: "del key c0 = Inr (c0', r)" "holds c0' n0 (lru_del key e0)"
    and r: "case map_of e0 key of None \<Rightarrow> r = None
     | Some (v, e) \<Rightarrow> \<exists>i. r = Some (i, e) \<and> slot c0' i = Inr \<lparr>nd_k = key, nd_v = v, nd_expireAt = 0\<rparr>
         \<and> map_of (c_hashMap c0') key = Some i" by blast
  show ?thesis
  proof (cases "map_of e0 key")
    case (Some ve)
    obtain v e where ve: "ve = (v, e)" by (cases ve)
    with Some r obtain i where i: "r = Some (i, e)" "slot c0' i = Inr \<lparr>nd_k = key, nd_v = v, nd_expireAt = 0\<rparr>"
      "map_of (c_hashMap c0') key = Some i" by auto
    from clear_value_ok [OF d(2) i(2) _ i(3)] obtain c0'' where
      c0: "clear_value i c0' = Inr c0''" "holds c0'' n0 (lru_del key e0)" by auto
    have e: "0 < e" using holds_facts(3) [OF h(1)] map_of_SomeD [OF Some] ve by auto
    show ?thesis
    proof (cases "now \<ge> e")
      case True
      from drop_key_ok [OF h(2), of key] obtain c1' where
        "drop_key key c1 = Inr c1'" "holds c1' n1 (lru_del key e1)" by blast
      then show ?thesis using True d i c0 Some ve h(3)
        by (auto simp: bucket_Get_def lv_Get_def b l bk_ok_def lru_del_set Let_def)
    next
      case False
      from put_ok [OF h(2) e, of key v] obtain c1' where
        c1: "put key v e c1 = Inr (c1', gone (drop n1 ((key, v, e) # lru_del key e1)))"
          "holds c1' n1 (lru_put n1 (key, v, e) e1)" by (auto simp: gone_def)
      have "fst ` set (lru_del key e0) \<inter> fst ` set (lru_put n1 (key, v, e) e1) = {}"
        using lru_put_set [of n1 key v e e1] h(3) by (auto simp: lru_del_set)
      then show ?thesis using False d i c0 c1 Some ve
        by (auto simp: bucket_Get_def lv_Get_def b l bk_ok_def Let_def)
    qed
  next
    case None
    then have n: "r = None" "lru_del key e0 = e0" using r lru_del_absent by auto
    from peek_ok [OF h(2), of key] obtain q where q: "peek key c1 = Inr q"
      "case map_of e1 key of None \<Rightarrow> q = None \<or> (\<exists>nd i. q = Some (nd, i) \<and> nd_expireAt nd \<le> 0)
       | Some (v, e) \<Rightarrow> 0 < e \<and> (\<exists>i c'. q = Some (\<lparr>nd_k = key, nd_v = v, nd_expireAt = e\<rparr>, i) \<and>
         adjust i Cp Cn c1 = Inr c' \<and> holds c' n1 ((key, v, e) # lru_del key e1) \<and> c_nevict c' = c_nevict c1)" by blast
    show ?thesis
    proof (cases "map_of e1 key")
      case None
      then show ?thesis using q n d h \<open>map_of e0 key = None\<close>
        by (auto simp: bucket_Get_def lv_Get_def b l bk_ok_def)
    next
      case (Some ve)
      obtain v e where ve: "ve = (v, e)" by (cases ve)
      with Some q obtain i c' where a: "0 < e" "q = Some (\<lparr>nd_k = key, nd_v = v, nd_expireAt = e\<rparr>, i)"
        "adjust i Cp Cn c1 = Inr c'" "holds c' n1 ((key, v, e) # lru_del key e1)" by auto
      have k0: "key \<notin> fst ` set e0" using None unfolding map_of_eq_None_iff .
      from drop_key_ok [OF h(2), of key] obtain c1' where
        "drop_key key c1 = Inr c1'" "holds c1' n1 (lru_del key e1)" by blast
      then show ?thesis using a q(1) n d h None Some ve k0
        by (cases "now \<ge> e") (auto simp: bucket_Get_def lv_Get_def b l bk_ok_def lru_del_set)
    qed
  qed
qed

lemma evictFromBucket_ok:
  assumes "bk_ok n0 n1 b (e0, e1)"
  shows "\<exists>b' out. evictFromBucket b = Inr (e0 \<noteq> [] \<or> e1 \<noteq> [], b', out) \<and>
    (if e0 \<noteq> [] then bk_ok n0 n1 b' (butlast e0, e1) \<and> out = gone [last e0]
     else if e1 \<noteq> [] then bk_ok n0 n1 b' (e0, butlast e1) \<and> out = gone [last e1]
     else bk_ok n0 n1 b' (e0, e1) \<and> out = [])"
proof -
  obtain c0 c1 where b: "b = (c0, c1)" by (cases b)
  have h: "holds c0 n0 e0" "holds c1 n1 e1" "fst ` set e0 \<inter> fst ` set e1 = {}"
    using bk_okD [OF assms] by (simp_all add: b)
  have l: "drop (length es - 1) es = (if es = [] then [] else [last es])" for es :: "entry list"
    by (cases es rule: rev_cases) simp_all
  from evictOldest_ok [OF h(1)] obtain c0' where
    c0: "evictOldest c0 = Inr (c0', gone (drop (length e0 - 1) e0), e0 \<noteq> [])" "holds c0' n0 (butlast e0)"
    by (auto simp: gone_def)
  from evictOldest_ok [OF h(2)] obtain c1' where
    c1: "evictOldest c1 = Inr (c1', gone (drop (length e1 - 1) e1), e1 \<noteq> [])" "holds c1' n1 (butlast e1)"
    by (auto simp: gone_def)
  have "set (butlast e0) \<subseteq> set e0" "set (butlast e1) \<subseteq> set e1" by (auto dest: in_set_butlastD)
  then show ?thesis using c0 c1 h unfolding l
    by (auto simp: evictFromBucket_def b bk_ok_def gone_def)
qed

lemma fit_bytes_ok:
  assumes "bk_ok n0 n1 b l" and "length (fst l) + length (snd l) < fuel"
  shows "\<exists>b'. fit_bytes fuel m b out = Inr (b', snd (lv_fit m l out)) \<and> bk_ok n0 n1 b' (fst (lv_fit m l out))"
  using assms
proof (induction m l out arbitrary: b fuel rule: lv_fit.induct)
  case (1 m e0 e1 out)
  obtain fuel' where fu: "fuel = Suc fuel'" using "1.prems"(2) by (cases fuel) auto
  have bs: "c_bytes (fst b) = lru_bytes e0" "c_bytes (snd b) = lru_bytes e1"
    using bk_okD(1,2) [OF "1.prems"(1)] holds_facts(1) by auto
  from evictFromBucket_ok [OF "1.prems"(1)] obtain b' out' where
    ev: "evictFromBucket b = Inr (e0 \<noteq> [] \<or> e1 \<noteq> [], b', out')"
    "if e0 \<noteq> [] then bk_ok n0 n1 b' (butlast e0, e1) \<and> out' = gone [last e0]
     else if e1 \<noteq> [] then bk_ok n0 n1 b' (e0, butlast e1) \<and> out' = gone [last e1]
     else bk_ok n0 n1 b' (e0, e1) \<and> out' = []" by blast
  show ?case
  proof (cases "lru_bytes e0 + lru_bytes e1 \<le> m")
    case True
    then show ?thesis using "1.prems"(1) by (simp add: fu bs lv_fit.simps [of m e0 e1])
  next
    case False
    consider "e0 \<noteq> []" | "e0 = []" "e1 \<noteq> []" | "e0 = []" "e1 = []" by blast
    then show ?thesis
    proof cases
      case 1
      have "length (fst (butlast e0, e1)) + length (snd (butlast e0, e1)) < fuel'"
        using "1.prems"(2) 1 by (cases e0) (auto simp: fu)
      with "1.IH"(1) [OF False 1] ev 1 show ?thesis
        using False by (simp add: fu bs lv_fit.simps [of m e0 e1])
    next
      case 2
      then have "length (fst (e0, butlast e1)) + length (snd (e0, butlast e1)) < fuel'"
        using "1.prems"(2) by (cases e1) (auto simp: fu)
      with "1.IH"(2) [OF False] ev 2 show ?thesis
        using False by (simp add: fu bs lv_fit.simps [of m "[]" e1])
    next
      case 3
      then show ?thesis using ev False by (simp add: fu bs lv_fit.simps [of m "[]" "[]"])
    qed
  qed
qed

lemma holds_cap: "holds c n es \<Longrightarrow> length (c_m c) = n"
  by (auto simp: holds_def)

lemma bucket_Set_ok:
  assumes "bk_ok n0 n1 b l" and e: "0 < e"
  shows "\<exists>b'. bucket_Set m key v e b = Inr ((), b', snd (lv_Set n0 m key v e l)) \<and>
    bk_ok n0 n1 b' (fst (lv_Set n0 m key v e l))"
proof -
  obtain c0 c1 where b: "b = (c0, c1)" by (cases b)
  obtain e0 e1 where l: "l = (e0, e1)" by (cases l)
  have h: "holds c0 n0 e0" "holds c1 n1 e1" "fst ` set e0 \<inter> fst ` set e1 = {}"
    using bk_okD [OF assms(1)] by (simp_all add: b l)
  from put_ok [OF h(1) e, of key v] obtain c0' where
    c0: "put key v e c0 = Inr (c0', gone (drop n0 ((key, v, e) # lru_del key e0)))"
      "holds c0' n0 (lru_put n0 (key, v, e) e0)" by (auto simp: gone_def)
  from drop_key_ok [OF h(2), of key] obtain c1' where
    c1: "drop_key key c1 = Inr c1'" "holds c1' n1 (lru_del key e1)" by blast
  have ok: "bk_ok n0 n1 (c0', c1') (lru_put n0 (key, v, e) e0, lru_del key e1)"
    using c0(2) c1(2) lru_put_set [of n0 key v e e0] h(3) by (auto simp: bk_ok_def lru_del_set)
  have "length (lru_put n0 (key, v, e) e0) + length (lru_del key e1) < length (c_m c0') + length (c_m c1') + 1"
    using holds_length [OF c0(2)] holds_length [OF c1(2)] holds_cap [OF c0(2)] holds_cap [OF c1(2)] by simp
  with fit_bytes_ok [OF ok, of "length (c_m c0') + length (c_m c1') + 1" m "gone (drop n0 ((key, v, e) # lru_del key e0))"]
  show ?thesis using ok c0(1) c1(1)
    by (auto simp: bucket_Set_def lv_Set_def b l Let_def simp del: fit_bytes.simps)
qed

lemma del_value_ok:
  assumes "holds c n es"
  shows "\<exists>c' r. del key c = Inr (c', r) \<and> value_at c' r = Inr (case map_of es key of None \<Rightarrow> None | Some (v, _) \<Rightarrow> v) \<and>
    (r = None \<longleftrightarrow> map_of es key = None) \<and> (\<exists>c''. clear_at r c' = Inr c'' \<and> holds c'' n (lru_del key es))"
proof -
  from del_ok [OF assms, of key] obtain c' r where d: "del key c = Inr (c', r)" "holds c' n (lru_del key es)"
    and r: "case map_of es key of None \<Rightarrow> r = None
     | Some (v, e) \<Rightarrow> \<exists>i. r = Some (i, e) \<and> slot c' i = Inr \<lparr>nd_k = key, nd_v = v, nd_expireAt = 0\<rparr>
         \<and> map_of (c_hashMap c') key = Some i" by blast
  show ?thesis
  proof (cases "map_of es key")
    case None
    then show ?thesis using d r by (simp add: value_at_def clear_at_def)
  next
    case (Some ve)
    then obtain i e v where i: "ve = (v, e)" "r = Some (i, e)" "slot c' i = Inr \<lparr>nd_k = key, nd_v = v, nd_expireAt = 0\<rparr>"
      "map_of (c_hashMap c') key = Some i" using r by (cases ve) auto
    from clear_value_ok [OF d(2) i(3) _ i(4)] show ?thesis
      using d i Some by (auto simp: value_at_def clear_at_def)
  qed
qed

lemma bucket_delete_ok:
  assumes "bk_ok n0 n1 b l"
  shows "\<exists>b' out. bucket_delete key b = Inr (key \<in> fst ` set (fst l @ snd l), b', out) \<and> bk_ok n0 n1 b' (lv_delete key l) \<and>
    (\<forall>v. (key, Some v) \<in> set out \<longleftrightarrow> (\<exists>e. lv_find l key = Some (Some v, e)))"
proof -
  obtain c0 c1 where b: "b = (c0, c1)" by (cases b)
  obtain e0 e1 where l: "l = (e0, e1)" by (cases l)
  have h: "holds c0 n0 e0" "holds c1 n1 e1" "fst ` set e0 \<inter> fst ` set e1 = {}"
    using bk_okD [OF assms(1)] by (simp_all add: b l)
  from del_value_ok [OF h(1), of key] obtain c0' r0 c0'' where d0: "del key c0 = Inr (c0', r0)"
    "value_at c0' r0 = Inr (case map_of e0 key of None \<Rightarrow> None | Some (v, _) \<Rightarrow> v)"
    "r0 = None \<longleftrightarrow> map_of e0 key = None" "clear_at r0 c0' = Inr c0''" "holds c0'' n0 (lru_del key e0)"
    by (elim exE conjE) (rule that)
  from del_value_ok [OF h(2), of key] obtain c1' r1 c1'' where d1: "del key c1 = Inr (c1', r1)"
    "value_at c1' r1 = Inr (case map_of e1 key of None \<Rightarrow> None | Some (v, _) \<Rightarrow> v)"
    "r1 = None \<longleftrightarrow> map_of e1 key = None" "clear_at r1 c1' = Inr c1''" "holds c1'' n1 (lru_del key e1)"
    by (elim exE conjE) (rule that)
  have ok: "bk_ok n0 n1 (c0'', c1'') (lru_del key e0, lru_del key e1)"
    using d0(5) d1(5) h(3) by (auto simp: bk_ok_def lru_del_set)
  have k: "key \<in> fst ` set (e0 @ e1) \<longleftrightarrow> map_of e0 key \<noteq> None \<or> map_of e1 key \<noteq> None"
    by (auto simp: map_of_eq_None_iff)
  have ex: "map_of e0 key = None \<or> map_of e1 key = None" using h(3) by (auto simp: map_of_eq_None_iff)
  show ?thesis
    using d0(1-4) d1(1-4) ok ex
    by (auto simp: bucket_delete_def b l lv_delete_def lv_find_def k [simplified] Let_def map_add_def split: option.splits)
qed

end
