(* ===== verification/Cache_Shard.thy ===== *)
theory Cache_Shard
  imports Cache_Store
begin

text \<open>
  The whole store of \<^verbatim>\<open>src/libs/yukino_cache/lru.go\<close> as a bounded map: the number of buckets is a power
  of two, every key lives in the bucket its hash selects, and the buckets together represent one map from
  keys to values and expiry times.  \<open>Get\<close> answers from the map, \<open>Set\<close> may forget other entries but never
  invents one.  These lemmas rest on the bucket lemmas of \<^verbatim>\<open>Cache_Store\<close> and are what \<^verbatim>\<open>Cache_Front\<close>
  needs to interpret the contract \<open>cache_store\<close> of the \<^verbatim>\<open>Store\<close> interface.
\<close>

unbundle bit_operations_syntax

section \<open>The number of buckets\<close>

text \<open>\<open>MaskOfNextPowOf2\<close> is one less than the least power of two that is not below its argument: in the
  general case every bit below the top one is set by the shifts.\<close>

lemma bit_top:
  fixes n :: nat
  assumes "2 ^ j \<le> n" and "n < 2 ^ Suc j"
  shows "bit n j" and "i > j \<Longrightarrow> \<not> bit n i"
proof -
  have "n div 2 ^ j = 1" using assms by (intro div_nat_eqI) (simp_all add: mult.commute)
  then show "bit n j" by (simp add: bit_iff_odd)
  assume "i > j"
  then have "(2::nat) ^ Suc j \<le> 2 ^ i" by (intro power_increasing) simp_all
  then have "n div 2 ^ i = 0" using assms by (intro div_less) linarith
  then show "\<not> bit n i" by (simp add: bit_iff_odd)
qed

lemma bit_word_nat: "bit (w :: 'a::len word) i \<longleftrightarrow> bit (unat w) i"
  by (simp add: bit_unsigned_iff)

lemma smear_bits:
  fixes cap :: "16 word"
  defines "a \<equiv> cap OR drop_bit 1 cap"
  defines "b \<equiv> a OR drop_bit 2 a"
  defines "c \<equiv> b OR drop_bit 4 b"
  shows "bit (c OR drop_bit 8 c) i \<longleftrightarrow> (\<exists>d < 16. bit cap (i + d))"
proof -
  have e: "{d. d < (16::nat)} = {0,1,2,3,4,5,6,7,8,9,10,11,12,13,14,15}" by (simp add: set_eq_iff) presburger
  have "(\<exists>d < 16. bit cap (i + d)) \<longleftrightarrow> (\<exists>d \<in> {d. d < (16::nat)}. bit cap (i + d))" by blast
  then show ?thesis
    unfolding e a_def b_def c_def
    by (simp add: bit_or_iff bit_drop_bit_eq add.commute) (auto simp: numeral_eq_Suc)
qed

lemma mask_next_pow:
  assumes "0 < cap"
  shows "\<exists>k \<le> 16. unat (MaskOfNextPowOf2 cap) = 2 ^ k - 1 \<and> unat cap \<le> 2 ^ k \<and> (\<forall>m. unat cap \<le> 2 ^ m \<longrightarrow> k \<le> m)"
proof -
  define n where "n = unat cap"
  have n: "0 < n" "n < 65536" using assms unsigned_less [where 'a = nat, of cap] by (simp_all add: n_def word_less_nat_alt)
  from ex_power_ivl1 [of 2 n] n obtain j where j: "2 ^ j \<le> n" "n < 2 ^ Suc j" by auto
  have j15: "j < 16"
  proof (rule ccontr)
    assume "\<not> j < 16"
    then have "(2::nat) ^ 16 \<le> 2 ^ j" by (intro power_increasing) simp_all
    then show False using j n by simp
  qed
  have n1: "unat (cap - 1) = n - 1" using unat_minus_one [of cap] assms by (simp add: n_def word_neq_0_conv)
  have bw: "bit cap i \<longleftrightarrow> bit n i" "bit (cap - 1) i \<longleftrightarrow> bit (n - 1) i" for i
    by (simp_all only: bit_word_nat n1) (simp_all add: n_def)
  note top = bit_top [OF j]
  show ?thesis
  proof (cases "n = 2 ^ j")
    case True
    have "bit (cap AND (cap - 1)) i \<longleftrightarrow> False" for i
    proof -
      have "n - 1 = mask j" by (simp add: True mask_eq_exp_minus_1)
      then show ?thesis by (simp add: bit_and_iff bw True bit_mask_iff bit_exp_iff)
    qed
    then have "cap AND (cap - 1) = 0" by (intro bit_eqI) simp
    then have "MaskOfNextPowOf2 cap = cap - 1" using assms by (simp add: MaskOfNextPowOf2_def)
    then show ?thesis using n1 j15 True power_le_imp_le_exp [of "2::nat" j]
      by (intro exI [of _ j]) (auto simp: n_def [symmetric])
  next
    case False
    have "2 ^ j \<le> n - 1" "n - 1 < 2 ^ Suc j" using False j by linarith+
    from bit_top(1) [OF this] top(1) have "bit (cap AND (cap - 1)) j"
      by (simp add: bit_and_iff bw)
    then have "cap AND (cap - 1) \<noteq> 0" by auto
    then have m: "bit (MaskOfNextPowOf2 cap) i \<longleftrightarrow> (\<exists>d < 16. bit n (i + d))" for i
      using smear_bits [of cap i] by (simp add: MaskOfNextPowOf2_def Let_def bw)
    have "(\<exists>d < 16. bit n (i + d)) \<longleftrightarrow> i \<le> j" for i
      using top j15 by (metis add_diff_inverse_nat diff_le_self le_add1 le_less_trans not_less)
    then have "bit (unat (MaskOfNextPowOf2 cap)) i \<longleftrightarrow> bit (mask (Suc j) :: nat) i" for i
      using m by (auto simp: bit_mask_iff bit_word_nat [symmetric] simp del: bit_unsigned_iff)
    then have "unat (MaskOfNextPowOf2 cap) = mask (Suc j)" by (intro bit_eqI) blast
    then have "unat (MaskOfNextPowOf2 cap) = 2 ^ Suc j - 1" by (simp only: mask_eq_exp_minus_1)
    moreover have "Suc j \<le> m" if "n \<le> 2 ^ m" for m
    proof (rule ccontr)
      assume "\<not> Suc j \<le> m"
      then have "(2::nat) ^ m \<le> 2 ^ j" by (intro power_increasing) simp_all
      then show False using that False j(1) by linarith
    qed
    ultimately show ?thesis using j j15 by (intro exI [of _ "Suc j"]) (auto simp: n_def [symmetric])
  qed
qed

section \<open>Maps of a bucket\<close>

definition lv_all :: "levels \<Rightarrow> entry list" where
  "lv_all l = fst l @ snd l"

definition lv_bytes :: "levels \<Rightarrow> int" where
  "lv_bytes l = lru_bytes (fst l) + lru_bytes (snd l)"

lemma lv_find_all: "lv_find l = map_of (lv_all l)"
  by (simp add: lv_find_def lv_all_def)

lemma bk_distinct: "bk_ok n0 n1 b l \<Longrightarrow> distinct (map fst (lv_all l))"
  using holds_distinct by (auto simp: bk_ok_def lv_all_def)

lemma map_of_mono: "distinct (map fst ys) \<Longrightarrow> set xs \<subseteq> set ys \<Longrightarrow> map_of xs \<subseteq>\<^sub>m map_of ys"
proof -
  assume d: "distinct (map fst ys)" and s: "set xs \<subseteq> set ys"
  have "map_of ys k = Some v" if "map_of xs k = Some v" for k v
    using map_of_SomeD [OF that] s d by (intro map_of_is_SomeI) auto
  then show ?thesis by (auto simp: map_le_def dom_def)
qed

lemma map_leI: "(\<And>k x. f k = Some x \<Longrightarrow> g k = Some x) \<Longrightarrow> f \<subseteq>\<^sub>m g"
  by (auto simp: map_le_def dom_def)

lemma lru_del_subset: "set (lru_del k es) = {x \<in> set es. fst x \<noteq> k}"
  by (auto simp: lru_del_def)

lemma bytes_take: "lru_bytes (take n es) \<le> lru_bytes es"
  using lru_bytes_simps(3) [of "take n es" "drop n es"] lru_bytes_nonneg [of "drop n es"] by simp

lemma bytes_del: "lru_bytes (lru_del k es) \<le> lru_bytes es"
proof (induction es)
  case (Cons x es)
  obtain a v e where "x = (a, v, e)" by (cases x)
  moreover have "0 \<le> entryBytes a v" by (auto simp: entryBytes_def split: option.splits)
  ultimately show ?case using Cons by (auto simp: lru_del_def)
qed (simp add: lru_del_def)

lemma bytes_del_present:
  assumes "map_of es k = Some (v, e)"
  shows "entryBytes k v + lru_bytes (lru_del k es) \<le> lru_bytes es"
  using assms
proof (induction es)
  case (Cons x es)
  obtain a w f where x: "x = (a, w, f)" by (cases x)
  show ?case
  proof (cases "a = k")
    case True
    then show ?thesis using Cons.prems bytes_del [of k es] by (auto simp: x lru_del_def)
  next
    case False
    then show ?thesis using Cons x by (auto simp: lru_del_def)
  qed
qed simp

lemma lv_Get_facts:
  assumes d: "distinct (map fst (lv_all l))"
  shows "fst (lv_Get n1 now key l) =
      (case lv_find l key of Some (v, e) \<Rightarrow> if now < e then Some v else None | None \<Rightarrow> None)"
    and "set (lv_all (fst (snd (lv_Get n1 now key l)))) \<subseteq> set (lv_all l)"
    and "lv_bytes (fst (snd (lv_Get n1 now key l))) \<le> lv_bytes l"
proof -
  obtain e0 e1 where l: "l = (e0, e1)" by (cases l)
  have dj: "map_of e0 key = None \<or> map_of e1 key = None"
    using d by (auto simp: l lv_all_def map_of_eq_None_iff)
  show "fst (lv_Get n1 now key l) =
      (case lv_find l key of Some (v, e) \<Rightarrow> if now < e then Some v else None | None \<Rightarrow> None)"
    using dj by (auto simp: l lv_Get_def lv_find_def map_add_def split: option.splits)
  have p: "set (lru_put n1 x es) \<subseteq> insert x (set es)" for x es
    using set_take_subset [of n1 "x # lru_del (fst x) es"] by (auto simp: lru_put_def lru_del_subset)
  have b: "lru_bytes (lru_put n1 (key, v, e) es) \<le> entryBytes key v + lru_bytes es" for v e es
    using bytes_take [of n1 "(key, v, e) # lru_del key es"] bytes_del [of key es] by (simp add: lru_put_def)
  have "set (lv_all (fst (snd (lv_Get n1 now key l)))) \<subseteq> set (lv_all l) \<and>
    lv_bytes (fst (snd (lv_Get n1 now key l))) \<le> lv_bytes l"
  proof (cases "map_of e0 key")
    case (Some ve)
    obtain v e where ve: "ve = (v, e)" by (cases ve)
    have i: "(key, v, e) \<in> set e0" using Some ve by (auto dest: map_of_SomeD)
    show ?thesis
      using Some ve i p [of "(key, v, e)" e1] b [of v e e1] bytes_del_present [of e0 key v e]
        bytes_del [of key e0] bytes_del [of key e1]
      by (cases "now \<ge> e") (auto simp: l lv_Get_def lv_all_def lv_bytes_def lru_del_subset)
  next
    case None
    show ?thesis
    proof (cases "map_of e1 key")
      case None
      then show ?thesis using \<open>map_of e0 key = None\<close> by (simp add: l lv_Get_def)
    next
      case (Some ve)
      obtain v e where ve: "ve = (v, e)" by (cases ve)
      have i: "(key, v, e) \<in> set e1" using Some ve by (auto dest: map_of_SomeD)
      show ?thesis
        using None Some ve i bytes_del_present [of e1 key v e] bytes_del [of key e1]
        by (cases "now \<ge> e") (auto simp: l lv_Get_def lv_all_def lv_bytes_def lru_del_subset)
    qed
  qed
  then show "set (lv_all (fst (snd (lv_Get n1 now key l)))) \<subseteq> set (lv_all l)"
    "lv_bytes (fst (snd (lv_Get n1 now key l))) \<le> lv_bytes l" by auto
qed

text \<open>Fitting a bucket into its budget keeps a prefix of each list, and the second list is touched only
  when the first one is empty.\<close>

lemma lv_fit_facts:
  assumes "0 \<le> m"
  shows "\<exists>k0 k1. fst (lv_fit m (e0, e1) out) = (take k0 e0, take k1 e1) \<and> lv_bytes (take k0 e0, take k1 e1) \<le> m \<and>
    (e0 \<noteq> [] \<longrightarrow> k0 = 0 \<longrightarrow> m < lru_bytes (take 1 e0) + lru_bytes e1)"
  using assms
proof (induction m "(e0, e1)" out arbitrary: e0 e1 rule: lv_fit.induct)
  case (1 m e0 e1 out)
  consider "lru_bytes e0 + lru_bytes e1 \<le> m" | "\<not> lru_bytes e0 + lru_bytes e1 \<le> m" "e0 \<noteq> []"
    | "\<not> lru_bytes e0 + lru_bytes e1 \<le> m" "e0 = []" "e1 \<noteq> []" | "e0 = []" "e1 = []"
    by blast
  then show ?case
  proof cases
    case 1
    then show ?thesis
      by (intro exI [of _ "length e0"] exI [of _ "length e1"]) (simp add: lv_fit.simps [of m e0] lv_bytes_def)
  next
    case 2
    from "1.hyps"(1) [OF 2 "1.prems"] obtain k0 k1 where
      k: "fst (lv_fit m (butlast e0, e1) (out @ gone [last e0])) = (take k0 (butlast e0), take k1 e1)"
        "lv_bytes (take k0 (butlast e0), take k1 e1) \<le> m"
        "butlast e0 \<noteq> [] \<longrightarrow> k0 = 0 \<longrightarrow> m < lru_bytes (take 1 (butlast e0)) + lru_bytes e1" by blast
    have t: "take k0 (butlast e0) = take (min k0 (length e0 - 1)) e0" by (simp add: butlast_conv_take min.commute)
    have "m < lru_bytes (take 1 e0) + lru_bytes e1" if "min k0 (length e0 - 1) = 0"
    proof (cases "butlast e0 = []")
      case True
      then have "take 1 e0 = e0" using 2(2) by (cases e0 rule: rev_cases) auto
      then show ?thesis using 2(1) by simp
    next
      case False
      moreover have "take 1 (butlast e0) = take 1 e0" using False 2(2) by (cases e0) auto
      moreover have "length e0 - 1 \<noteq> 0" using False by (cases e0) auto
      ultimately show ?thesis using k(3) that by simp
    qed
    then show ?thesis
      using k(1,2) 2 unfolding t
      by (intro exI [of _ "min k0 (length e0 - 1)"] exI [of _ k1]) (simp add: lv_fit.simps [of m e0])
  next
    case 3
    from "1.hyps"(2) [OF 3(1) _ 3(3) "1.prems"] 3 obtain k0 k1 where
      k: "fst (lv_fit m ([], butlast e1) (out @ gone [last e1])) = ([], take k1 (butlast e1))"
        "lv_bytes ([], take k1 (butlast e1)) \<le> m" by auto
    have t: "take k1 (butlast e1) = take (min k1 (length e1 - 1)) e1" by (simp add: butlast_conv_take min.commute)
    show ?thesis
      using k 3 unfolding t
      by (intro exI [of _ 0] exI [of _ "min k1 (length e1 - 1)"]) (simp add: lv_fit.simps [of m "[]"])
  next
    case 4
    then show ?thesis using "1.prems" by (simp add: lv_fit.simps [of m "[]" "[]"] lv_bytes_def)
  qed
qed

lemma lv_Set_facts:
  shows "set (lv_all (fst (lv_Set n0 m key v e l))) \<subseteq> insert (key, v, e) {x \<in> set (lv_all l). fst x \<noteq> key}"
    and "m > 0 \<Longrightarrow> lv_bytes (fst (lv_Set n0 m key v e l)) \<le> m"
proof -
  obtain e0 e1 where l: "l = (e0, e1)" by (cases l)
  have p: "set (lru_put n0 (key, v, e) e0) \<subseteq> insert (key, v, e) {x \<in> set e0. fst x \<noteq> key}"
    using set_take_subset [of n0 "(key, v, e) # lru_del key e0"] by (auto simp: lru_put_def lru_del_subset)
  have d: "set (lru_del key e1) = {x \<in> set e1. fst x \<noteq> key}" by (rule lru_del_subset)
  let ?q = "lru_put n0 (key, v, e) e0" and ?d = "lru_del key e1" and ?o = "gone (drop n0 ((key, v, e) # lru_del key e0))"
  have "set (lv_all (fst (lv_Set n0 m key v e l))) \<subseteq> set ?q \<union> set ?d \<and> (m > 0 \<longrightarrow> lv_bytes (fst (lv_Set n0 m key v e l)) \<le> m)"
  proof (cases "m > 0")
    case True
    from lv_fit_facts [of m ?q ?d ?o] True obtain k0 k1 where
      "fst (lv_fit m (?q, ?d) ?o) = (take k0 ?q, take k1 ?d)" "lv_bytes (take k0 ?q, take k1 ?d) \<le> m" by auto
    then show ?thesis using True by (auto simp: lv_Set_def l Let_def lv_all_def dest: in_set_takeD)
  next
    case False
    then show ?thesis by (simp add: lv_Set_def l Let_def lv_all_def)
  qed
  then show "set (lv_all (fst (lv_Set n0 m key v e l))) \<subseteq> insert (key, v, e) {x \<in> set (lv_all l). fst x \<noteq> key}"
    "m > 0 \<Longrightarrow> lv_bytes (fst (lv_Set n0 m key v e l)) \<le> m"
    using p d by (auto simp: l lv_all_def)
qed

text \<open>The entry just written survives when it fits beside the second list.\<close>

lemma lv_Set_keeps:
  assumes n: "0 < n0" and m: "m \<le> 0 \<or> entryBytes key v + lru_bytes (snd l) \<le> m"
  shows "lv_find (fst (lv_Set n0 m key v e l)) key = Some (v, e)"
proof -
  obtain e0 e1 where l: "l = (e0, e1)" by (cases l)
  obtain n' where n': "n0 = Suc n'" using n by (cases n0) auto
  let ?q = "lru_put n0 (key, v, e) e0" and ?d = "lru_del key e1" and ?o = "gone (drop n0 ((key, v, e) # lru_del key e0))"
  have q: "?q = (key, v, e) # take n' (lru_del key e0)" by (simp add: lru_put_def n')
  show ?thesis
  proof (cases "m > 0")
    case True
    from lv_fit_facts [of m ?q ?d ?o] True obtain k0 k1 where
      k: "fst (lv_fit m (?q, ?d) ?o) = (take k0 ?q, take k1 ?d)" "k0 = 0 \<longrightarrow> m < lru_bytes (take 1 ?q) + lru_bytes ?d"
      by (auto simp: q)
    have "k0 \<noteq> 0" using k(2) m True bytes_del [of key e1] by (auto simp: q l)
    then show ?thesis using True k(1) by (cases k0) (simp_all add: lv_Set_def l Let_def lv_find_def q)
  next
    case False
    then show ?thesis by (simp add: lv_Set_def l Let_def lv_find_def q)
  qed
qed

section \<open>The store as a map\<close>

definition home :: "lruStore \<Rightarrow> string \<Rightarrow> nat" where
  "home s key = nat (bucket_of s key)"

definition st_ok :: "nat \<Rightarrow> nat \<Rightarrow> lruStore \<Rightarrow> levels list \<Rightarrow> bool" where
  "st_ok n0 n1 s L \<longleftrightarrow> list_all2 (bk_ok n0 n1) (ls_caches s) L \<and>
     unat (ls_mask s) + 1 = length L \<and> length L \<le> 32768 \<and>
     (\<forall>i < length L. \<forall>k \<in> fst ` set (lv_all (L ! i)). home s k = i) \<and>
     (ls_maxBucketBytes s > 0 \<longrightarrow> (\<forall>l \<in> set L. lv_bytes l \<le> ls_maxBucketBytes s))"

definition st_map :: "lruStore \<Rightarrow> levels list \<Rightarrow> string \<Rightarrow> (bytes option \<times> int) option" where
  "st_map s L key = lv_find (L ! home s key) key"

lemma home_less:
  assumes "st_ok n0 n1 s L"
  shows "0 \<le> bucket_of s key" and "home s key < length L"
proof -
  define w where "w = HashBKRD key AND ls_mask s"
  have "w \<le> ls_mask s" unfolding w_def by (rule word_and_le1)
  then have a: "unat w \<le> unat (ls_mask s)" by (simp add: word_le_nat_alt)
  have m: "unat (ls_mask s) + 1 = length L" "length L \<le> 32768" using assms by (auto simp: st_ok_def)
  have u: "uint w = int (unat w)" by (rule uint_nat)
  have ub: "0 \<le> uint w" "uint w < 32768" using a m unfolding u by linarith+
  have "sint w = signed_take_bit 31 (uint w)" by (simp add: sint_uint)
  also have "\<dots> = uint w"
  proof (rule signed_take_bit_int_eq_self)
    show "- (2 ^ 31) \<le> uint w" by (rule order_trans [OF _ ub(1)]) simp
    show "uint w < 2 ^ 31" using ub(2) by simp
  qed
  finally have e: "bucket_of s key = int (unat w)" unfolding bucket_of_def w_def [symmetric] u .
  show "0 \<le> bucket_of s key" unfolding e by simp
  have "home s key = unat w" unfolding home_def e by (rule nat_int)
  then show "home s key < length L" using a m by linarith
qed


lemma st_okD:
  assumes "st_ok n0 n1 s L" and "i < length L"
  shows "bk_ok n0 n1 (ls_caches s ! i) (L ! i)" and "i < length (ls_caches s)"
    and "distinct (map fst (lv_all (L ! i)))"
proof -
  have l: "list_all2 (bk_ok n0 n1) (ls_caches s) L" using assms(1) by (simp add: st_ok_def)
  show b: "bk_ok n0 n1 (ls_caches s ! i) (L ! i)" using list_all2_nthD2 [OF l assms(2)] .
  show "i < length (ls_caches s)" using list_all2_lengthD [OF l] assms(2) by simp
  show "distinct (map fst (lv_all (L ! i)))" by (rule bk_distinct [OF b])
qed

lemma st_home: "st_ok n0 n1 s L \<Longrightarrow> i < length L \<Longrightarrow> k \<in> fst ` set (lv_all (L ! i)) \<Longrightarrow> home s k = i"
  unfolding st_ok_def by blast

lemma st_fits:
  assumes "st_ok n0 n1 s L" and "i < length L" and "ls_maxBucketBytes s > 0"
  shows "lv_bytes (L ! i) \<le> ls_maxBucketBytes s"
  using assms nth_mem [OF assms(2)] unfolding st_ok_def by blast

definition same_shape :: "lruStore \<Rightarrow> lruStore \<Rightarrow> bool" where
  "same_shape s s' \<longleftrightarrow> ls_maxBucketBytes s' = ls_maxBucketBytes s \<and> length (ls_caches s') = length (ls_caches s)"

text \<open>An operation on the bucket of its key, given as an operation on two lists.\<close>

lemma with_bucket_ok:
  assumes s: "st_ok n0 n1 s L" and i: "i = home s key"
    and f: "f (ls_caches s ! i) = Inr (r, b', out)" "bk_ok n0 n1 b' l'"
    and k: "fst ` set (lv_all l') \<subseteq> insert key (fst ` set (lv_all (L ! i)))"
    and m: "ls_maxBucketBytes s > 0 \<Longrightarrow> lv_bytes l' \<le> ls_maxBucketBytes s"
  shows "\<exists>s'. with_bucket key f s = Inr (r, s', out) \<and> st_ok n0 n1 s' (L[i := l']) \<and>
    home s' = home s \<and> same_shape s s'"
proof -
  have lt: "i < length L" "0 \<le> bucket_of s key" using home_less [OF s, of key] i by simp_all
  let ?s = "s\<lparr>ls_caches := (ls_caches s)[i := b']\<rparr>"
  have h: "home ?s = home s" by (simp add: fun_eq_iff home_def bucket_of_def)
  have "with_bucket key f s = Inr (r, ?s, out)"
    using f(1) lt st_okD(2) [OF s lt(1)] by (simp add: with_bucket_def Let_def i home_def)
  moreover have "st_ok n0 n1 ?s (L[i := l'])"
    unfolding st_ok_def
  proof (intro conjI allI impI ballI)
    show "list_all2 (bk_ok n0 n1) (ls_caches ?s) (L[i := l'])"
      using s f(2) by (auto simp: st_ok_def intro: list_all2_update_cong)
    fix j x assume j: "j < length (L[i := l'])" and x: "x \<in> fst ` set (lv_all (L[i := l'] ! j))"
    show "home ?s x = j"
    proof (cases "j = i")
      case True
      then have "x = key \<or> x \<in> fst ` set (lv_all (L ! i))" using x k lt(1) by auto
      then show ?thesis using s lt(1) True unfolding h by (auto simp: st_ok_def i)
    next
      case False
      then show ?thesis using s x j unfolding h by (auto simp: st_ok_def)
    qed
  next
    fix l assume "0 < ls_maxBucketBytes ?s" "l \<in> set (L[i := l'])"
    then show "lv_bytes l \<le> ls_maxBucketBytes ?s"
      using m s set_update_subset_insert [of L i l'] by (auto simp: st_ok_def)
  qed (use s in \<open>auto simp: st_ok_def\<close>)
  ultimately show ?thesis using h by (auto simp: same_shape_def)
qed

text \<open>How one bucket's change shows in the map of the store.\<close>

lemma st_map_update:
  assumes s: "st_ok n0 n1 s L" and s': "st_ok n0 n1 s' (L[home s key := l'])" and h: "home s' = home s"
  shows "st_map s' (L[home s key := l']) k = (if home s k = home s key then lv_find l' k else st_map s L k)"
  using home_less(2) [OF s, of key] home_less(2) [OF s, of k] by (simp add: st_map_def h nth_list_update)

lemma lv_find_None: "lv_find l k = None \<longleftrightarrow> k \<notin> fst ` set (lv_all l)"
  unfolding lv_find_all map_of_eq_None_iff ..

lemma keys_subset: "set (lv_all l') \<subseteq> insert (key, v, e) (set (lv_all l)) \<Longrightarrow>
  fst ` set (lv_all l') \<subseteq> insert key (fst ` set (lv_all l))"
  by force

lemma st_Get_ok:
  assumes s: "st_ok n0 n1 s L"
  shows "\<exists>s' L' out. lru_Get now key s =
      Inr (case st_map s L key of Some (v, e) \<Rightarrow> if now < e then Some v else None | None \<Rightarrow> None, s', out) \<and>
    st_ok n0 n1 s' L' \<and> st_map s' L' \<subseteq>\<^sub>m st_map s L \<and> same_shape s s'"
proof -
  define i where "i = home s key"
  have lt: "i < length L" using home_less(2) [OF s] by (simp add: i_def)
  note b = st_okD [OF s lt]
  define l' where "l' = fst (snd (lv_Get n1 now key (L ! i)))"
  note g = lv_Get_facts [OF b(3), of n1 now key, folded l'_def]
  from bucket_Get_ok [OF b(1), of now key] obtain b' where
    b': "bucket_Get now key (ls_caches s ! i) = Inr (fst (lv_Get n1 now key (L ! i)), b', snd (snd (lv_Get n1 now key (L ! i))))"
      "bk_ok n0 n1 b' l'" unfolding l'_def by blast
  have m: "lv_bytes l' \<le> ls_maxBucketBytes s" if "ls_maxBucketBytes s > 0"
    using g(3) st_fits [OF s lt that] by simp
  have k: "fst ` set (lv_all l') \<subseteq> insert key (fst ` set (lv_all (L ! i)))" using g(2) by auto
  from with_bucket_ok [where f = "bucket_Get now key", OF s i_def b' k m] obtain s' where
    s': "lru_Get now key s = Inr (fst (lv_Get n1 now key (L ! i)), s', snd (snd (lv_Get n1 now key (L ! i))))"
      "st_ok n0 n1 s' (L[i := l'])" "home s' = home s" "same_shape s s'"
    unfolding lru_Get_def by blast
  have "lv_find l' \<subseteq>\<^sub>m lv_find (L ! i)" unfolding lv_find_all by (rule map_of_mono [OF b(3) g(2)])
  then have "st_map s' (L[i := l']) \<subseteq>\<^sub>m st_map s L"
    using st_map_update [OF s s'(2) [unfolded i_def] s'(3)]
    by (auto simp: map_le_def i_def st_map_def split: if_splits) 
  moreover have "st_map s L key = lv_find (L ! i) key" by (simp add: st_map_def i_def)
  ultimately show ?thesis using s' g(1) by auto
qed

lemma st_Set_ok:
  assumes s: "st_ok n0 n1 s L" and e: "0 < expire_at now d"
  shows "\<exists>s' L' out. SetWithExpiration now key v d s = Inr ((), s', out) \<and>
    st_ok n0 n1 s' L' \<and> st_map s' L' \<subseteq>\<^sub>m (st_map s L)(key \<mapsto> (v, expire_at now d)) \<and>
    same_shape s s' \<and>
    (ls_maxBucketBytes s \<le> 0 \<or>
     entryBytes key v + c_bytes (snd (ls_caches s ! home s key)) \<le> ls_maxBucketBytes s \<longrightarrow>
       st_map s' L' key = Some (v, expire_at now d))"
proof -
  define i where "i = home s key"
  define m where "m = ls_maxBucketBytes s"
  define ea where "ea = expire_at now d"
  have lt: "i < length L" using home_less(2) [OF s] by (simp add: i_def)
  note b = st_okD [OF s lt]
  define l' where "l' = fst (lv_Set n0 m key v ea (L ! i))"
  have g: "set (lv_all l') \<subseteq> insert (key, v, ea) {x \<in> set (lv_all (L ! i)). fst x \<noteq> key}"
    "m > 0 \<Longrightarrow> lv_bytes l' \<le> m" unfolding l'_def by (rule lv_Set_facts, erule lv_Set_facts)
  from bucket_Set_ok [OF b(1) e, of m key v] obtain b' where
    b': "bucket_Set m key v ea (ls_caches s ! i) = Inr ((), b', snd (lv_Set n0 m key v ea (L ! i)))"
      "bk_ok n0 n1 b' l'" unfolding l'_def ea_def by blast
  have k: "fst ` set (lv_all l') \<subseteq> insert key (fst ` set (lv_all (L ! i)))"
    using g(1) by (intro keys_subset [where v = v and e = ea]) auto
  from with_bucket_ok [where f = "bucket_Set m key v ea", OF s i_def b' k] g(2) obtain s' where
    s': "SetWithExpiration now key v d s = Inr ((), s', snd (lv_Set n0 m key v ea (L ! i)))"
      "st_ok n0 n1 s' (L[i := l'])" "home s' = home s" "same_shape s s'"
    unfolding SetWithExpiration_def m_def ea_def by blast
  have n: "((lv_find (L ! i))(key \<mapsto> (v, ea))) k = Some x" if "lv_find l' k = Some x" for k x
    using map_of_SomeD [of "lv_all l'" k x] that g(1) b(3) unfolding lv_find_all by auto
  have "st_map s' (L[i := l']) \<subseteq>\<^sub>m (st_map s L)(key \<mapsto> (v, ea))"
  proof (rule map_leI)
    fix k x assume kx: "st_map s' (L[i := l']) k = Some x"
    then have a: "(if home s k = i then lv_find l' k else st_map s L k) = Some x"
      using st_map_update [OF s s'(2) [unfolded i_def] s'(3), of k] by (simp add: i_def)
    show "((st_map s L)(key \<mapsto> (v, ea))) k = Some x"
    proof (cases "home s k = i")
      case True
      then show ?thesis using n [of k x] a by (auto simp: st_map_def split: if_splits)
    next
      case False
      then show ?thesis using a by (auto simp: i_def)
    qed
  qed
  moreover have "st_map s' (L[i := l']) key = Some (v, ea)" if "m \<le> 0 \<or> entryBytes key v + c_bytes (snd (ls_caches s ! i)) \<le> m"
  proof -
    have "0 < n0" using holds_facts(2) bk_okD(1) [OF b(1)] by blast
    moreover have "c_bytes (snd (ls_caches s ! i)) = lru_bytes (snd (L ! i))" by (rule holds_facts(1) [OF bk_okD(2) [OF b(1)]])
    ultimately show ?thesis
      using lv_Set_keeps [of n0 m key v "L ! i" ea] that st_map_update [OF s s'(2) [unfolded i_def] s'(3), of key]
      by (simp add: i_def l'_def)
  qed
  ultimately show ?thesis using s' unfolding ea_def m_def i_def by blast
qed

lemma st_Delete_ok:
  assumes s: "st_ok n0 n1 s L"
  shows "\<exists>s' L' out. lru_Delete key s = Inr (key \<in> dom (st_map s L), s', out) \<and>
    st_ok n0 n1 s' L' \<and> st_map s' L' = (st_map s L)(key := None) \<and> same_shape s s'"
proof -
  define i where "i = home s key"
  have lt: "i < length L" using home_less(2) [OF s] by (simp add: i_def)
  note b = st_okD [OF s lt]
  define l' where "l' = lv_delete key (L ! i)"
  have l': "set (lv_all l') = {x \<in> set (lv_all (L ! i)). fst x \<noteq> key}" "lv_bytes l' \<le> lv_bytes (L ! i)"
    "lv_find l' = (lv_find (L ! i))(key := None)"
    using bytes_del [of key "fst (L ! i)"] bytes_del [of key "snd (L ! i)"]
    by (auto simp: l'_def lv_delete_def lv_all_def lv_bytes_def lv_find_def lru_del_subset lru_del_find
      map_add_def fun_eq_iff split: prod.splits option.splits)
  from bucket_delete_ok [OF b(1), of key] obtain b' out where
    b': "bucket_delete key (ls_caches s ! i) = Inr (key \<in> fst ` set (lv_all (L ! i)), b', out)" "bk_ok n0 n1 b' l'"
    unfolding l'_def lv_all_def by blast
  have k: "fst ` set (lv_all l') \<subseteq> insert key (fst ` set (lv_all (L ! i)))" using l'(1) by auto
  have m: "lv_bytes l' \<le> ls_maxBucketBytes s" if "ls_maxBucketBytes s > 0"
    using l'(2) st_fits [OF s lt that] by simp
  from with_bucket_ok [where f = "bucket_delete key", OF s i_def b' k m] obtain s' where
    s': "lru_Delete key s = Inr (key \<in> fst ` set (lv_all (L ! i)), s', out)"
      "st_ok n0 n1 s' (L[i := l'])" "home s' = home s" "same_shape s s'"
    unfolding lru_Delete_def by blast
  have "st_map s' (L[i := l']) = (st_map s L)(key := None)"
    using st_map_update [OF s s'(2) [unfolded i_def] s'(3)] by (auto simp: fun_eq_iff i_def l'(3) st_map_def)
  moreover have "key \<in> fst ` set (lv_all (L ! i)) \<longleftrightarrow> key \<in> dom (st_map s L)"
    using lv_find_None [of "L ! i" key] by (auto simp: st_map_def i_def dom_def)
  ultimately show ?thesis using s' by auto
qed


section \<open>Operations on every bucket\<close>

lemma visit_collect:
  "\<exists>ks'. visit (collect P) es ks = Inr ks' \<and> set ks' = set ks \<union> {k. \<exists>v e. (k, v, e) \<in> set es \<and> P e} \<and>
     (distinct ks \<longrightarrow> distinct ks')"
proof (induction es arbitrary: ks)
  case (Cons x es)
  obtain k v e where x: "x = (k, v, e)" by (cases x)
  define ks1 where "ks1 = (if P e then List.insert k ks else ks)"
  have c: "collect P k v e ks = Inr (True, ks1)" by (simp add: collect_def ks1_def)
  from Cons [of ks1] obtain ks' where ks': "visit (collect P) es ks1 = Inr ks'"
    "set ks' = set ks1 \<union> {k. \<exists>v e. (k, v, e) \<in> set es \<and> P e}" "distinct ks1 \<longrightarrow> distinct ks'" by blast
  have "set ks' = set ks \<union> {k. \<exists>v e. (k, v, e) \<in> set (x # es) \<and> P e}" unfolding ks'(2) by (auto simp: x ks1_def)
  then show ?case using ks'(1,3) by (auto simp: x c ks1_def)
qed simp

lemma bucket_keys_ok:
  assumes "bk_ok n0 n1 b l"
  shows "\<exists>ks. bucket_keys P b = Inr ks \<and> distinct ks \<and> set ks = {k. \<exists>v e. (k, v, e) \<in> set (lv_all l) \<and> P e}"
proof -
  obtain c0 c1 where b: "b = (c0, c1)" by (cases b)
  from visit_collect [of P "fst l" "[]"] obtain k0 where
    k0: "visit (collect P) (fst l) [] = Inr k0" "distinct k0" "set k0 = {k. \<exists>v e. (k, v, e) \<in> set (fst l) \<and> P e}" by auto
  from visit_collect [of P "snd l" k0] obtain k1 where
    k1: "visit (collect P) (snd l) k0 = Inr k1" "distinct k1"
      "set k1 = set k0 \<union> {k. \<exists>v e. (k, v, e) \<in> set (snd l) \<and> P e}" using k0(2) by auto
  have "bucket_keys P b = Inr k1"
    using bk_okD(1,2) [OF assms] k0(1) k1(1) by (simp add: bucket_keys_def b walk_ok [of c0 n0 "fst l"] walk_ok [of c1 n1 "snd l"])
  then show ?thesis using k0(3) k1(2,3) by (auto simp: lv_all_def)
qed

definition lv_keep :: "(entry \<Rightarrow> bool) \<Rightarrow> levels \<Rightarrow> levels" where
  "lv_keep P l = (filter P (fst l), filter P (snd l))"

lemma delete_keys_ok:
  assumes "bk_ok n0 n1 b l"
  shows "\<exists>b' out'. delete_keys ks b = Inr (b', out') \<and> bk_ok n0 n1 b' (lv_keep (\<lambda>x. fst x \<notin> set ks) l)"
proof -
  let ?f = "\<lambda>k (b, out). rbind (bucket_delete k b) (\<lambda>(_, b, out'). Inr (b, out @ out'))"
  have "\<exists>b' out'. rfold ?f ks (b, out) = Inr (b', out') \<and> bk_ok n0 n1 b' (lv_keep (\<lambda>x. fst x \<notin> set ks) l)" for out
    using assms
  proof (induction ks arbitrary: b l out)
    case (Cons k ks)
    from bucket_delete_ok [OF Cons.prems, of k] obtain r b1 out1 where
      b1: "bucket_delete k b = Inr (r, b1, out1)" "bk_ok n0 n1 b1 (lv_delete k l)" by blast
    have "lv_keep (\<lambda>x. fst x \<notin> set ks) (lv_delete k l) = lv_keep (\<lambda>x. fst x \<notin> set (k # ks)) l"
      by (cases l) (auto simp: lv_keep_def lv_delete_def lru_del_def intro: filter_cong)
    with Cons.IH [OF b1(2), of "out @ out1"] b1(1) show ?case by simp
  qed (simp add: lv_keep_def)
  then show ?thesis by (simp add: delete_keys_def)
qed

lemma delete_where_ok:
  assumes b: "bk_ok n0 n1 b l"
  shows "\<exists>b' out. delete_where ord P b = Inr (b', out) \<and> bk_ok n0 n1 b' (lv_keep (\<lambda>(k, v, e). \<not> P e) l)"
proof -
  from bucket_keys_ok [OF b, of P] obtain ks where
    ks: "bucket_keys P b = Inr ks" "set ks = {k. \<exists>v e. (k, v, e) \<in> set (lv_all l) \<and> P e}" by blast
  have "fst x \<notin> set ks \<longleftrightarrow> (case x of (k, v, e) \<Rightarrow> \<not> P e)" if x: "x \<in> set (lv_all l)" for x
  proof -
    obtain k v e where kve: "x = (k, v, e)" by (cases x)
    have "(v', e') = (v, e)" if "(k, v', e') \<in> set (lv_all l)" for v' e'
      using eq_key_imp_eq_value [OF bk_distinct [OF b] that] x by (simp add: kve)
    then have "(\<exists>v' e'. (k, v', e') \<in> set (lv_all l) \<and> P e') \<longleftrightarrow> P e" using x unfolding kve by blast
    then show ?thesis by (simp add: kve ks(2))
  qed
  then have "lv_keep (\<lambda>x. fst x \<notin> set (range_keys ord ks)) l = lv_keep (\<lambda>(k, v, e). \<not> P e) l"
    by (auto simp: lv_keep_def lv_all_def range_keys_def intro!: filter_cong)
  with delete_keys_ok [OF b, of "range_keys ord ks"] ks(1) show ?thesis by (auto simp: delete_where_def)
qed

lemma on_buckets_ok:
  assumes "list_all2 R bs L" and "\<And>b l. R b l \<Longrightarrow> \<exists>b' out. f b = Inr (b', out) \<and> R b' (g l)"
  shows "\<exists>bs' out. on_buckets f bs = Inr (bs', out) \<and> list_all2 R bs' (map g L)"
  using assms(1)
proof (induction rule: list_all2_induct)
  case (Cons b bs l L)
  from assms(2) [OF Cons(1)] obtain b' o1 where "f b = Inr (b', o1)" "R b' (g l)" by blast
  with Cons(3) show ?case by (auto simp: exI)
qed simp

lemma lv_keep_facts:
  assumes "distinct (map fst (lv_all l))"
  shows "set (lv_all (lv_keep P l)) = {x \<in> set (lv_all l). P x}" and "lv_bytes (lv_keep P l) \<le> lv_bytes l"
    and "lv_find (lv_keep P l) k = (case lv_find l k of Some (v, e) \<Rightarrow> if P (k, v, e) then Some (v, e) else None | None \<Rightarrow> None)"
proof -
  show s: "set (lv_all (lv_keep P l)) = {x \<in> set (lv_all l). P x}" by (auto simp: lv_keep_def lv_all_def)
  have b: "lru_bytes (filter P es) \<le> lru_bytes es" for es
  proof (induction es)
    case (Cons x es)
    obtain k v e where "x = (k, v, e)" by (cases x)
    moreover have "0 \<le> entryBytes k v" by (auto simp: entryBytes_def split: option.splits)
    ultimately show ?case using Cons by auto
  qed simp
  show "lv_bytes (lv_keep P l) \<le> lv_bytes l"
    using b [of "fst l"] b [of "snd l"] by (simp add: lv_bytes_def lv_keep_def)
  have a: "lv_all (lv_keep P l) = filter P (lv_all l)" by (simp add: lv_keep_def lv_all_def)
  have d: "distinct (map fst (filter P (lv_all l)))" using assms by (rule distinct_map_filter)
  show "lv_find (lv_keep P l) k = (case lv_find l k of Some (v, e) \<Rightarrow> if P (k, v, e) then Some (v, e) else None | None \<Rightarrow> None)"
  proof (cases "lv_find l k")
    case None
    then have "k \<notin> fst ` set (filter P (lv_all l))" unfolding lv_find_None by auto
    then have "lv_find (lv_keep P l) k = None" unfolding lv_find_None a .
    with None show ?thesis by simp
  next
    case (Some ve)
    obtain v e where ve: "ve = (v, e)" by (cases ve)
    have i: "(k, v, e) \<in> set (lv_all l)" using Some ve unfolding lv_find_all by (auto dest: map_of_SomeD)
    show ?thesis
    proof (cases "P (k, v, e)")
      case True
      then show ?thesis using i d Some ve unfolding lv_find_all a by auto
    next
      case False
      have "y = (v, e)" if "(k, y) \<in> set (lv_all l)" for y
        using eq_key_imp_eq_value [OF assms that] i by simp
      then have "map_of (filter P (lv_all l)) k = None" using False by (auto simp: map_of_eq_None_iff)
      then show ?thesis using False Some ve unfolding lv_find_all a by simp
    qed
  qed
qed

lemma st_sweep_ok:
  assumes s: "st_ok n0 n1 s L"
  shows "\<exists>bs out L'. on_buckets (delete_where ord P) (ls_caches s) = Inr (bs, out) \<and>
    st_ok n0 n1 (s\<lparr>ls_caches := bs\<rparr>) L' \<and> same_shape s (s\<lparr>ls_caches := bs\<rparr>) \<and>
    st_map (s\<lparr>ls_caches := bs\<rparr>) L' =
      (\<lambda>k. case st_map s L k of Some (v, e) \<Rightarrow> if P e then None else Some (v, e) | None \<Rightarrow> None)"
proof -
  have l: "list_all2 (bk_ok n0 n1) (ls_caches s) L" using s by (simp add: st_ok_def)
  define g where "g = lv_keep (\<lambda>(k, v, e). \<not> P e)"
  from on_buckets_ok [OF l, of "delete_where ord P" g] delete_where_ok [of n0 n1 _ _ ord P] obtain bs out where
    bs: "on_buckets (delete_where ord P) (ls_caches s) = Inr (bs, out)" "list_all2 (bk_ok n0 n1) bs (map g L)"
    unfolding g_def by blast
  have d: "distinct (map fst (lv_all (L ! i)))" if "i < length L" for i by (rule st_okD(3) [OF s that])
  have h: "home (s\<lparr>ls_caches := bs\<rparr>) = home s" by (simp add: fun_eq_iff home_def bucket_of_def)
  have "st_ok n0 n1 (s\<lparr>ls_caches := bs\<rparr>) (map g L)"
    unfolding st_ok_def h
  proof (intro conjI allI impI ballI)
    fix i k assume i: "i < length (map g L)" and k: "k \<in> fst ` set (lv_all (map g L ! i))"
    then have "k \<in> fst ` set (lv_all (L ! i))" using lv_keep_facts(1) [OF d] by (auto simp: g_def)
    then show "home s k = i" using s i by (auto simp: st_ok_def)
  next
    fix l assume a: "0 < ls_maxBucketBytes (s\<lparr>ls_caches := bs\<rparr>)" "l \<in> set (map g L)"
    then obtain i where i: "i < length L" "l = g (L ! i)" by (auto simp: in_set_conv_nth)
    then show "lv_bytes l \<le> ls_maxBucketBytes (s\<lparr>ls_caches := bs\<rparr>)"
      using lv_keep_facts(2) [OF d [OF i(1)], of "\<lambda>(k, v, e). \<not> P e"] st_fits [OF s i(1)] a(1) by (simp add: g_def)
  qed (use s bs(2) in \<open>auto simp: st_ok_def\<close>)
  moreover have "st_map (s\<lparr>ls_caches := bs\<rparr>) (map g L) =
      (\<lambda>k. case st_map s L k of Some (v, e) \<Rightarrow> if P e then None else Some (v, e) | None \<Rightarrow> None)"
    using home_less(2) [OF s]
    by (auto simp: fun_eq_iff st_map_def h g_def lv_keep_facts(3) [OF d] split: option.splits)
  moreover have "same_shape s (s\<lparr>ls_caches := bs\<rparr>)"
    using list_all2_lengthD [OF bs(2)] list_all2_lengthD [OF l] by (simp add: same_shape_def)
  ultimately show ?thesis using bs(1) by blast
qed


lemma NewStore_ok:
  assumes b: "so_BucketCount opts \<le> 32768" and c: "so_CapPerBucket opts \<noteq> 65535" "so_Level2Cap opts \<noteq> 65535"
  shows "\<exists>s n0 n1 L. NewStore opts = Inr s \<and> st_ok n0 n1 s L \<and> st_map s L = Map.empty \<and>
    length (ls_caches s) * nat (ls_maxBucketBytes s) \<le> max (length (ls_caches s)) (nat (so_MaxBytes opts)) \<and>
    (so_MaxBytes opts > 0 \<longrightarrow> ls_maxBucketBytes s > 0) \<and>
    (so_BucketCount opts \<noteq> 0 \<longrightarrow> length (ls_caches s) < 2 * unat (so_BucketCount opts))"
proof -
  define bc where "bc = (if so_BucketCount opts = 0 then 16 else so_BucketCount opts)"
  define c0 where "c0 = (if so_CapPerBucket opts = 0 then 512 else so_CapPerBucket opts)"
  define c1 where "c1 = (if so_Level2Cap opts = 0 then 256 else so_Level2Cap opts)"
  define mk where "mk = MaskOfNextPowOf2 bc"
  have bc: "0 < bc" "unat bc \<le> 2 ^ 15"
    using b by (auto simp: bc_def word_gt_0 word_le_nat_alt)
  from mask_next_pow [OF bc(1)] obtain k where k: "unat mk = 2 ^ k - 1" "k \<le> 15"
      "\<forall>m. unat bc \<le> 2 ^ m \<longrightarrow> k \<le> m"
    using bc(2) unfolding mk_def by blast
  have "(2::nat) ^ k \<le> 2 ^ 15" using k(2) by (intro power_increasing) simp_all
  then have m: "unat mk < 32768" using k(1) by simp
  then have n: "unat (mk + 1) = unat mk + 1" by (simp add: unat_word_ariths)
  have w: "unat w < 65535" if "w \<noteq> 65535" for w :: "16 word"
    using that unsigned_less [where 'a = nat, of w] by (simp add: word_unat_eq_iff)
  have cap: "0 < unat c0" "unat c0 < 65535" "0 < unat c1" "unat c1 < 65535"
    using w c by (auto simp: c0_def c1_def unat_gt_0)
  define maxb where "maxb = (if so_MaxBytes opts > 0 then let b = so_MaxBytes opts div int (unat (mk + 1)) in if b \<le> 0 then 1 else b else 0)"
  define s where "s = \<lparr>ls_caches = replicate (unat (mk + 1)) (Create (unat c0), Create (unat c1)), ls_maxBucketBytes = maxb,
    ls_mask = ucast mk, ls_closed = False\<rparr>"
  have new: "NewStore opts = Inr s"
    using n by (simp add: NewStore_def Let_def s_def maxb_def flip: bc_def c0_def c1_def mk_def)
  define L where "L = replicate (unat (mk + 1)) ([] :: entry list, [] :: entry list)"
  have bk: "bk_ok (unat c0) (unat c1) (Create (unat c0), Create (unat c1)) ([], [])"
    using Create_ok cap by (simp add: bk_ok_def)
  have ok: "st_ok (unat c0) (unat c1) s L"
    unfolding st_ok_def
  proof (intro conjI allI impI ballI)
    show "list_all2 (bk_ok (unat c0) (unat c1)) (ls_caches s) L"
      using bk by (simp add: s_def L_def list_all2_conv_all_nth)
    have "unat (ucast mk :: 32 word) = unat mk" using m by (simp add: unsigned_ucast_eq take_bit_nat_eq_self)
    then show "unat (ls_mask s) + 1 = length L" unfolding L_def length_replicate n by (simp add: s_def)
    show "length L \<le> 32768" using m by (simp add: L_def n)
    show "home s k = i" if "i < length L" "k \<in> fst ` set (lv_all (L ! i))" for i k
      using that by (simp add: L_def lv_all_def)
    show "lv_bytes l \<le> ls_maxBucketBytes s" if "0 < ls_maxBucketBytes s" "l \<in> set L" for l
      using that by (simp add: L_def lv_bytes_def set_replicate_conv_if split: if_splits)
  qed
  have e: "st_map s L = Map.empty"
    using home_less(2) [OF ok] by (auto simp: st_map_def L_def lv_find_def)
  have "unat (mk + 1) * nat maxb \<le> max (unat (mk + 1)) (nat (so_MaxBytes opts))"
  proof (cases "so_MaxBytes opts > 0 \<and> so_MaxBytes opts div int (unat (mk + 1)) > 0")
    case True
    define N where "N = int (unat (mk + 1))"
    have "0 < N" unfolding N_def n by linarith
    then have "N * (so_MaxBytes opts div N) \<le> so_MaxBytes opts"
      using pos_mod_sign [of N "so_MaxBytes opts"] mult_div_mod_eq [of N "so_MaxBytes opts"] by linarith
    moreover have "maxb = so_MaxBytes opts div N"
      using True [folded N_def] unfolding maxb_def Let_def N_def [symmetric] by auto
    ultimately have "nat N * nat maxb \<le> nat (so_MaxBytes opts)"
      using \<open>0 < N\<close> by (simp flip: nat_mult_distrib)
    moreover have "nat N = unat (mk + 1)" unfolding N_def by (rule nat_int)
    ultimately show ?thesis by simp
  next
    case False
    then show ?thesis by (auto simp: maxb_def Let_def)
  qed
  moreover have "unat (mk + 1) < 2 * unat (so_BucketCount opts)" if "so_BucketCount opts \<noteq> 0"
  proof -
    have "bc = so_BucketCount opts" using that by (simp add: bc_def)
    then have "\<not> unat (so_BucketCount opts) \<le> 2 ^ (k - 1)" if "k > 0" using k(3) that by (metis Suc_pred' not_less_eq_eq order_refl)
    moreover have "0 < unat (so_BucketCount opts)" using that by (simp add: unat_gt_0)
    ultimately show ?thesis using k(1) by (cases k) (auto simp: n)
  qed
  moreover have "so_MaxBytes opts > 0 \<longrightarrow> maxb > 0" by (simp add: maxb_def Let_def)
  moreover have "length (ls_caches s) = unat (mk + 1)" "ls_maxBucketBytes s = maxb" by (simp_all add: s_def)
  ultimately show ?thesis using new ok e by metis
qed


section \<open>Counting and listing\<close>

lemma st_dom: "st_ok n0 n1 s L \<Longrightarrow> dom (st_map s L) = (\<Union>i < length L. fst ` set (lv_all (L ! i)))"
proof -
  assume s: "st_ok n0 n1 s L"
  have "k \<in> dom (st_map s L) \<longleftrightarrow> k \<in> fst ` set (lv_all (L ! home s k))" for k
    using lv_find_None [of "L ! home s k" k] by (auto simp: st_map_def dom_def)
  moreover have "k \<in> fst ` set (lv_all (L ! home s k)) \<longleftrightarrow> (\<exists>i < length L. k \<in> fst ` set (lv_all (L ! i)))" for k
    using st_home [OF s] home_less(2) [OF s, of k] by blast
  ultimately show ?thesis by (simp add: set_eq_iff Bex_def)
qed

lemma st_card:
  assumes s: "st_ok n0 n1 s L"
  shows "card (dom (st_map s L)) = (\<Sum>l \<leftarrow> L. length (lv_all l))"
proof -
  have "card (dom (st_map s L)) = (\<Sum>i < length L. card (fst ` set (lv_all (L ! i))))"
    unfolding st_dom [OF s] using st_home [OF s] by (intro card_UN_disjoint) (simp_all, blast)
  also have "\<dots> = (\<Sum>i < length L. length (lv_all (L ! i)))"
    using distinct_card [OF st_okD(3) [OF s]] by (intro sum.cong) (simp_all flip: set_map)
  finally show ?thesis by (simp add: sum_list_sum_nth atLeast0LessThan)
qed

lemma st_Len_ok:
  assumes s: "st_ok n0 n1 s L"
  shows "lru_Len s = Inr (card (dom (st_map s L)))"
proof -
  let ?f = "\<lambda>b count. rbind (bucket_keys (\<lambda>_. True) b) (\<lambda>seen. Inr (count + length seen))"
  have one: "?f b m = Inr (m + length (lv_all l))" if b: "bk_ok n0 n1 b l" for b l m
  proof -
    from bucket_keys_ok [OF b, of "\<lambda>_. True"] obtain ks where
      ks: "bucket_keys (\<lambda>_. True) b = Inr ks" "distinct ks" "set ks = {k. \<exists>v e. (k, v, e) \<in> set (lv_all l) \<and> True}" by blast
    have "set ks = set (map fst (lv_all l))" unfolding ks(3) by force
    then have "length ks = length (map fst (lv_all l))"
      using distinct_card [OF ks(2)] distinct_card [OF bk_distinct [OF b]] by simp
    then show ?thesis using ks(1) by simp
  qed
  have run: "rfold ?f bs m = Inr (m + (\<Sum>l \<leftarrow> ls. length (lv_all l)))" if "list_all2 (bk_ok n0 n1) bs ls" for bs ls m
    using that by (induction arbitrary: m rule: list_all2_induct) (simp_all add: one)
  have "list_all2 (bk_ok n0 n1) (ls_caches s) L" using s by (simp add: st_ok_def)
  from run [OF this, of 0] show ?thesis by (simp add: lru_Len_def st_card [OF s])
qed

lemma st_Bytes_ok:
  assumes s: "st_ok n0 n1 s L"
  shows "lru_Bytes s = (\<Sum>l \<leftarrow> L. lv_bytes l)"
    and "ls_maxBucketBytes s > 0 \<Longrightarrow> lru_Bytes s \<le> int (length (ls_caches s)) * ls_maxBucketBytes s"
proof -
  have l: "list_all2 (bk_ok n0 n1) (ls_caches s) L" using s by (simp add: st_ok_def)
  have "(\<Sum>(c0, c1) \<leftarrow> bs. c_bytes c0 + c_bytes c1) = (\<Sum>l \<leftarrow> ls. lv_bytes l)" if "list_all2 (bk_ok n0 n1) bs ls" for bs ls
    using that holds_facts(1)
    by (induction rule: list_all2_induct) (auto simp: bk_ok_def lv_bytes_def split: prod.splits)
  then show e: "lru_Bytes s = (\<Sum>l \<leftarrow> L. lv_bytes l)" using l by (simp add: lru_Bytes_def)
  assume "ls_maxBucketBytes s > 0"
  then have "\<forall>l \<in> set L. lv_bytes l \<le> ls_maxBucketBytes s" using s by (simp add: st_ok_def)
  then have "(\<Sum>l \<leftarrow> L. lv_bytes l) \<le> int (length L) * ls_maxBucketBytes s"
    by (induction L) (auto simp: algebra_simps)
  then show "lru_Bytes s \<le> int (length (ls_caches s)) * ls_maxBucketBytes s"
    using e list_all2_lengthD [OF l] by simp
qed

lemma bex_set_conv_nth: "(\<exists>x \<in> set xs. P x) \<longleftrightarrow> (\<exists>i < length xs. P (xs ! i))"
  by (metis in_set_conv_nth)

text \<open>\<open>Walk\<close> with a callback that appends, as \<^verbatim>\<open>Cache.Entries\<close> uses it.\<close>

definition entry_at :: "nat \<Rightarrow> entry \<Rightarrow> Entry" where
  "entry_at lvl = (\<lambda>(k, v, e). \<lparr>en_Key = k, en_Size = length (the v), en_ExpireAt = e, en_Level = lvl\<rparr>)"

lemma bucket_Walk_ok:
  assumes b: "bk_ok n0 n1 b l" and v: "\<forall>(k, v, e) \<in> set (lv_all l). v \<noteq> None"
  shows "bucket_Walk (\<lambda>en es. (True, es @ [en])) b acc = Inr (acc @ map (entry_at 1) (snd l) @ map (entry_at 0) (fst l))"
proof -
  obtain c0 c1 where bc: "b = (c0, c1)" by (cases b)
  let ?w1 = "\<lambda>k v e (seen, s). rbind (entry_rec k v e 1) (\<lambda>en.
       let (go_on, s) = (\<lambda>en es. (True, es @ [en])) en s in Inr (go_on, (List.insert k seen, s)))"
  have one: "\<exists>seen'. visit ?w1 es (seen, acc) = Inr (seen', acc @ map (entry_at 1) es) \<and> set seen' = set seen \<union> fst ` set es"
    if "\<forall>(k, v, e) \<in> set es. v \<noteq> None" for es seen acc
    using that
  proof (induction es arbitrary: seen acc)
    case (Cons x es)
    obtain k w e where x: "x = (k, Some w, e)" using Cons.prems by (cases x) auto
    from Cons.IH [of "List.insert k seen" "acc @ [entry_at 1 x]"] Cons.prems show ?case
      by (auto simp: x entry_rec_def entry_at_def)
  qed simp
  from one [of "snd l" "[]" acc] v obtain seen where
    seen: "visit ?w1 (snd l) ([], acc) = Inr (seen, acc @ map (entry_at 1) (snd l))" "set seen = fst ` set (snd l)"
    by (auto simp: lv_all_def)
  let ?w0 = "\<lambda>k v e s. if k \<in> set seen then Inr (True, s) else rbind (entry_rec k v e 0) (\<lambda>en. Inr (True, s @ [en]))"
  have two: "visit ?w0 es acc = Inr (acc @ map (entry_at 0) es)"
    if "\<forall>(k, v, e) \<in> set es. v \<noteq> None" "fst ` set es \<inter> set seen = {}" for es acc
    using that
  proof (induction es arbitrary: acc)
    case (Cons x es)
    obtain k w e where x: "x = (k, Some w, e)" using Cons.prems by (cases x) auto
    show ?case using Cons by (auto simp: x entry_rec_def entry_at_def)
  qed simp
  have "fst ` set (fst l) \<inter> set seen = {}" using bk_okD(3) [OF b] by (simp add: seen(2))
  then show ?thesis
    using bk_okD(1,2) [OF b] seen(1) two [of "fst l" "acc @ map (entry_at 1) (snd l)"] v
    by (simp add: bucket_Walk_def bc walk_ok [of c0 n0 "fst l"] walk_ok [of c1 n1 "snd l"] lv_all_def)
qed

lemma st_Walk_ok:
  assumes s: "st_ok n0 n1 s L" and v: "\<forall>k v e. st_map s L k = Some (v, e) \<longrightarrow> v \<noteq> None"
  shows "\<exists>es. lru_Walk (\<lambda>en es. (True, es @ [en])) s [] = Inr es \<and>
    (\<forall>k n e. (\<exists>en \<in> set es. en_Key en = k \<and> en_Size en = n \<and> en_ExpireAt en = e) \<longleftrightarrow>
       (\<exists>b. st_map s L k = Some (Some b, e) \<and> n = length b)) \<and> length es = card (dom (st_map s L))"
proof -
  define g where "g = (\<lambda>l :: levels. map (entry_at 1) (snd l) @ map (entry_at 0) (fst l))"
  have mem: "(k, w, e) \<in> set (lv_all (L ! i)) \<longleftrightarrow> st_map s L k = Some (w, e) \<and> home s k = i" if i: "i < length L" for i k w e
  proof -
    have "(k, w, e) \<in> set (lv_all (L ! i)) \<longleftrightarrow> lv_find (L ! i) k = Some (w, e)"
      unfolding lv_find_all using st_okD(3) [OF s i] by simp
    moreover have "home s k = i" if "(k, w, e) \<in> set (lv_all (L ! i))" using that s i by (force simp: st_ok_def)
    ultimately show ?thesis by (auto simp: st_map_def)
  qed
  have nn: "\<forall>l \<in> set L. \<forall>(k, v, e) \<in> set (lv_all l). v \<noteq> None"
    using mem v by (fastforce simp: in_set_conv_nth)
  have "rfold (bucket_Walk (\<lambda>en es. (True, es @ [en]))) bs acc = Inr (acc @ concat (map g ls))"
    if "list_all2 (bk_ok n0 n1) bs ls" "\<forall>l \<in> set ls. \<forall>(k, v, e) \<in> set (lv_all l). v \<noteq> None" for bs ls acc
    using that
  proof (induction arbitrary: acc rule: list_all2_induct)
    case (Cons b bs l ls)
    then show ?case using bucket_Walk_ok [OF Cons(1), of acc] by (simp add: g_def)
  qed simp
  from this [OF _ nn, of "ls_caches s" "[]"] s have run: "lru_Walk (\<lambda>en es. (True, es @ [en])) s [] = Inr (concat (map g L))"
    by (simp add: lru_Walk_def st_ok_def)
  have "length (g l) = length (lv_all l)" for l by (simp add: g_def lv_all_def)
  then have "length (concat (map g L)) = card (dom (st_map s L))" by (simp add: st_card [OF s] length_concat o_def)
  moreover have "(\<exists>en \<in> set (concat (map g L)). en_Key en = k \<and> en_Size en = n \<and> en_ExpireAt en = e) \<longleftrightarrow>
       (\<exists>b. st_map s L k = Some (Some b, e) \<and> n = length b)" for k n e
  proof -
    define Q where "Q en \<longleftrightarrow> en_Key en = k \<and> en_Size en = n \<and> en_ExpireAt en = e" for en :: Entry
    define R where "R l \<longleftrightarrow> (\<exists>w. (k, w, e) \<in> set (lv_all l) \<and> n = length (the w))" for l
    have "(\<exists>en \<in> set (g l). Q en) \<longleftrightarrow> R l" for l
      unfolding Q_def R_def by (auto simp: g_def entry_at_def lv_all_def) force+
    moreover have "(\<exists>en \<in> set (concat (map g L)). Q en) \<longleftrightarrow> (\<exists>l \<in> set L. \<exists>en \<in> set (g l). Q en)" by simp
    moreover have "(\<exists>l \<in> set L. R l) \<longleftrightarrow> (\<exists>i < length L. R (L ! i))" by (rule bex_set_conv_nth)
    ultimately have "(\<exists>en \<in> set (concat (map g L)). en_Key en = k \<and> en_Size en = n \<and> en_ExpireAt en = e) \<longleftrightarrow>
        (\<exists>i < length L. \<exists>w. (k, w, e) \<in> set (lv_all (L ! i)) \<and> n = length (the w))"
      unfolding Q_def R_def by simp
    also have "\<dots> \<longleftrightarrow> (\<exists>w. st_map s L k = Some (w, e) \<and> n = length (the w))"
      using mem home_less(2) [OF s, of k] by metis
    also have "\<dots> \<longleftrightarrow> (\<exists>b. st_map s L k = Some (Some b, e) \<and> n = length b)"
      using v by force
    finally show ?thesis .
  qed
  ultimately show ?thesis using run by blast
qed

end
