(* ===== verification/Cache_Front.thy ===== *)
theory Cache_Front
  imports Cache_Shard
begin

text \<open>
  \<^verbatim>\<open>src/libs/yukino_cache/cache.go\<close>: the front of a store.  A \<open>Cache\<close> creates its store on the first write,
  counts hits and misses and stops serving when it is closed.  It uses the \<^verbatim>\<open>Store\<close> interface of
  \<^verbatim>\<open>store.go\<close>; the interface is a record of operations, its contract the locale \<open>cache_store\<close>, and the
  sharded store of \<^verbatim>\<open>lru.go\<close> is its interpretation.  The lemmas about \<open>Cache\<close> are proved once in the
  locale.
\<close>

section \<open>The interface\<close>

record 's store_ops =
  st_new :: "StoreOptions \<Rightarrow> go_err + 's"
  st_get :: "int \<Rightarrow> string \<Rightarrow> 's \<Rightarrow> go_err + (bytes option option \<times> 's \<times> evicted)"
  st_set :: "int \<Rightarrow> string \<Rightarrow> bytes option \<Rightarrow> 's \<Rightarrow> go_err + (unit \<times> 's \<times> evicted)"
  st_setx :: "int \<Rightarrow> string \<Rightarrow> bytes option \<Rightarrow> int \<Rightarrow> 's \<Rightarrow> go_err + (unit \<times> 's \<times> evicted)"
  st_delete :: "string \<Rightarrow> 's \<Rightarrow> go_err + (bool \<times> 's \<times> evicted)"
  st_clear :: "'s \<Rightarrow> go_err + ('s \<times> evicted)"
  st_len :: "'s \<Rightarrow> go_err + nat"
  st_walk :: "(Entry \<Rightarrow> Entry list \<Rightarrow> bool \<times> Entry list) \<Rightarrow> 's \<Rightarrow> Entry list \<Rightarrow> go_err + Entry list"
  st_close :: "'s \<Rightarrow> 's"
  st_tick :: "int \<Rightarrow> 's \<Rightarrow> go_err + ('s \<times> evicted)"

definition lru_ops :: "(string list \<Rightarrow> string list) \<Rightarrow> lruStore store_ops" where
  "lru_ops ord = \<lparr>st_new = NewStore, st_get = lru_Get, st_set = lru_Set, st_setx = SetWithExpiration,
     st_delete = lru_Delete, st_clear = lru_Clear ord, st_len = lru_Len, st_walk = lru_Walk, st_close = lru_Close,
     st_tick = cleanup_tick ord\<rparr>"

section \<open>The front\<close>

record CacheOptions =
  co_MaxBytes :: int
  co_BucketCount :: "16 word"
  co_CapPerBucket :: "16 word"
  co_Level2Cap :: "16 word"

record 's Cache =
  ca_store :: "'s option"
  ca_opts :: CacheOptions
  ca_hits :: int
  ca_misses :: int
  ca_initialized :: bool
  ca_closed :: bool

definition NewCache :: "CacheOptions \<Rightarrow> 's Cache" where
  "NewCache opts = \<lparr>ca_store = None, ca_opts = opts, ca_hits = 0, ca_misses = 0, ca_initialized = False, ca_closed = False\<rparr>"

definition store_opts :: "CacheOptions \<Rightarrow> StoreOptions" where
  "store_opts o' = \<lparr>so_MaxBytes = co_MaxBytes o', so_BucketCount = co_BucketCount o',
     so_CapPerBucket = co_CapPerBucket o', so_Level2Cap = co_Level2Cap o'\<rparr>"

definition ensureInitialized :: "'s store_ops \<Rightarrow> 's Cache \<Rightarrow> go_err + 's Cache" where
  "ensureInitialized ops c =
     (if ca_initialized c then Inr c else if ca_closed c then Inr c else
      rbind (st_new ops (store_opts (ca_opts c))) (\<lambda>s. Inr (c\<lparr>ca_store := Some s, ca_initialized := True\<rparr>)))"

definition on_store :: "('s \<Rightarrow> go_err + ('r \<times> 's \<times> evicted)) \<Rightarrow> 's Cache \<Rightarrow> go_err + ('r option \<times> 's Cache)" where
  "on_store f c = (case ca_store c of None \<Rightarrow> Inr (None, c)
     | Some s \<Rightarrow> rbind (f s) (\<lambda>(r, s', _). Inr (Some r, c\<lparr>ca_store := Some s'\<rparr>)))"

definition ca_Add :: "'s store_ops \<Rightarrow> int \<Rightarrow> string \<Rightarrow> bytes \<Rightarrow> 's Cache \<Rightarrow> go_err + 's Cache" where
  "ca_Add ops now key value c = (if ca_closed c then Inr c else
     rbind (ensureInitialized ops c) (\<lambda>c. rbind (on_store (st_set ops now key (Some value)) c) (\<lambda>(_, c). Inr c)))"

definition miss :: "'s Cache \<Rightarrow> 's Cache" where
  "miss c = c\<lparr>ca_misses := ca_misses c + 1\<rparr>"

definition ca_Get :: "'s store_ops \<Rightarrow> int \<Rightarrow> string \<Rightarrow> 's Cache \<Rightarrow> go_err + (bytes option \<times> 's Cache)" where
  "ca_Get ops now key c = (if ca_closed c then Inr (None, c) else if \<not> ca_initialized c then Inr (None, miss c) else
     rbind (on_store (st_get ops now key) c) (\<lambda>(r, c). case r of
       None \<Rightarrow> Inr (None, miss c)
     | Some None \<Rightarrow> Inr (None, miss c)
     | Some (Some None) \<Rightarrow> Inr (None, miss c)
     | Some (Some (Some b)) \<Rightarrow> Inr (Some b, c\<lparr>ca_hits := ca_hits c + 1\<rparr>)))"

text \<open>\<^verbatim>\<open>time.Until\<close> saturates at the bounds of \<^verbatim>\<open>time.Duration\<close>.\<close>

definition time_until :: "int \<Rightarrow> int \<Rightarrow> int" where
  "time_until t wall = max (-9223372036854775808) (min 9223372036854775807 (t - wall))"

definition ca_AddX :: "'s store_ops \<Rightarrow> int \<Rightarrow> int \<Rightarrow> string \<Rightarrow> bytes \<Rightarrow> int \<Rightarrow> 's Cache \<Rightarrow> go_err + 's Cache" where
  "ca_AddX ops wall now key value t c = (if ca_closed c then Inr c else
     let expiration = time_until t wall in if expiration \<le> 0 then Inr c else
     rbind (ensureInitialized ops c) (\<lambda>c. rbind (on_store (st_setx ops now key (Some value) expiration) c) (\<lambda>(_, c). Inr c)))"

definition ca_Delete :: "'s store_ops \<Rightarrow> string \<Rightarrow> 's Cache \<Rightarrow> go_err + (bool \<times> 's Cache)" where
  "ca_Delete ops key c = (if ca_closed c \<or> \<not> ca_initialized c then Inr (False, c) else
     rbind (on_store (st_delete ops key) c) (\<lambda>(r, c). Inr (r = Some True, c)))"

definition ca_Clear :: "'s store_ops \<Rightarrow> 's Cache \<Rightarrow> go_err + 's Cache" where
  "ca_Clear ops c = (if ca_closed c \<or> \<not> ca_initialized c then Inr c else
     case ca_store c of None \<Rightarrow> Inr c
     | Some s \<Rightarrow> rbind (st_clear ops s) (\<lambda>(s, _). Inr (c\<lparr>ca_store := Some s, ca_hits := 0, ca_misses := 0\<rparr>)))"

definition ca_Len :: "'s store_ops \<Rightarrow> 's Cache \<Rightarrow> go_err + nat" where
  "ca_Len ops c = (if ca_closed c \<or> \<not> ca_initialized c then Inr 0 else
     case ca_store c of None \<Rightarrow> Inr 0 | Some s \<Rightarrow> st_len ops s)"

definition ca_Close :: "'s Cache \<Rightarrow> 's Cache" where
  "ca_Close c = (if ca_closed c then c else c\<lparr>ca_closed := True, ca_store := None, ca_initialized := False\<rparr>)"

definition ca_Entries :: "'s store_ops \<Rightarrow> 's Cache \<Rightarrow> go_err + Entry list" where
  "ca_Entries ops c = (if ca_closed c \<or> \<not> ca_initialized c then Inr [] else
     case ca_store c of None \<Rightarrow> Inr [] | Some s \<Rightarrow> st_walk ops (\<lambda>e entries. (True, entries @ [e])) s [])"

text \<open>One tick of the clean-up goroutine the store started.\<close>

definition ca_tick :: "'s store_ops \<Rightarrow> int \<Rightarrow> 's Cache \<Rightarrow> go_err + 's Cache" where
  "ca_tick ops now c = (case ca_store c of None \<Rightarrow> Inr c
     | Some s \<Rightarrow> rbind (st_tick ops now s) (\<lambda>(s, _). Inr (c\<lparr>ca_store := Some s\<rparr>)))"

section \<open>Histories\<close>

datatype cmd = Add int string bytes | AddX int int string bytes int | Get int string | Del string | Clear | Tick int | Close

fun exec :: "'s store_ops \<Rightarrow> cmd \<Rightarrow> 's Cache \<Rightarrow> go_err + 's Cache" where
  "exec ops (Add now k v) c = ca_Add ops now k v c"
| "exec ops (AddX wall now k v t) c = ca_AddX ops wall now k v t c"
| "exec ops (Get now k) c = rbind (ca_Get ops now k c) (\<lambda>(_, c). Inr c)"
| "exec ops (Del k) c = rbind (ca_Delete ops k c) (\<lambda>(_, c). Inr c)"
| "exec ops Clear c = ca_Clear ops c"
| "exec ops (Tick now) c = ca_tick ops now c"
| "exec ops Close c = Inr (ca_Close c)"

text \<open>What a history wrote last for each key, without any eviction.\<close>

fun wrote :: "cmd \<Rightarrow> (string \<rightharpoonup> bytes \<times> int) \<Rightarrow> (string \<rightharpoonup> bytes \<times> int)" where
  "wrote (Add now k v) m = m(k \<mapsto> (v, maxExpireAt))"
| "wrote (AddX wall now k v t) m =
     (if time_until t wall \<le> 0 then m else m(k \<mapsto> (v, expire_at now (time_until t wall))))"
| "wrote (Get now k) m = m"
| "wrote (Del k) m = m(k := None)"
| "wrote Clear m = Map.empty"
| "wrote (Tick now) m = m"
| "wrote Close m = Map.empty"

text \<open>A time to live may not carry the expiry time past the range of \<^verbatim>\<open>int64\<close>.\<close>

fun in_range :: "cmd \<Rightarrow> bool" where
  "in_range (AddX wall now k v t) \<longleftrightarrow> 0 \<le> now \<and> now + time_until t wall \<le> maxExpireAt"
| "in_range _ \<longleftrightarrow> True"

lemma expire_at_pos: "0 \<le> now \<Longrightarrow> d > 0 \<Longrightarrow> now + d \<le> maxExpireAt \<Longrightarrow> expire_at now d = now + d \<and> 0 < expire_at now d"
  by (simp add: expire_at_def s64_def maxExpireAt_def)

definition some_values :: "(string \<rightharpoonup> bytes option \<times> int) \<Rightarrow> (string \<rightharpoonup> bytes \<times> int) \<Rightarrow> bool" where
  "some_values m w \<longleftrightarrow> (\<forall>k v e. m k = Some (v, e) \<longrightarrow> (\<exists>b. v = Some b \<and> w k = Some (b, e)))"

locale cache_store =
  fixes ops :: "'s store_ops" and R :: "'s \<Rightarrow> (string \<rightharpoonup> bytes option \<times> int) \<Rightarrow> bool" and ok_opts :: "StoreOptions \<Rightarrow> bool"
  assumes new_law: "ok_opts o' \<Longrightarrow> \<exists>s. st_new ops o' = Inr s \<and> R s Map.empty"
    and get_law: "R s m \<Longrightarrow> \<exists>s' m' out. st_get ops now k s =
        Inr (case m k of Some (v, e) \<Rightarrow> if now < e then Some v else None | None \<Rightarrow> None, s', out) \<and> R s' m' \<and> m' \<subseteq>\<^sub>m m"
    and set_law: "R s m \<Longrightarrow> \<exists>s' m' out. st_set ops now k v s = Inr ((), s', out) \<and> R s' m' \<and> m' \<subseteq>\<^sub>m m(k \<mapsto> (v, maxExpireAt))"
    and setx_law: "R s m \<Longrightarrow> 0 < expire_at now d \<Longrightarrow> \<exists>s' m' out. st_setx ops now k v d s = Inr ((), s', out) \<and>
        R s' m' \<and> m' \<subseteq>\<^sub>m m(k \<mapsto> (v, expire_at now d))"
    and delete_law: "R s m \<Longrightarrow> \<exists>s' out. st_delete ops k s = Inr (k \<in> dom m, s', out) \<and> R s' (m(k := None))"
    and clear_law: "R s m \<Longrightarrow> \<exists>s' out. st_clear ops s = Inr (s', out) \<and> R s' Map.empty"
    and len_law: "R s m \<Longrightarrow> st_len ops s = Inr (card (dom m))"
    and tick_law: "R s m \<Longrightarrow> \<exists>s' out. st_tick ops now s = Inr (s', out) \<and>
        R s' (\<lambda>k. case m k of Some (v, e) \<Rightarrow> if now \<ge> e then None else Some (v, e) | None \<Rightarrow> None)"
    and walk_law: "R s m \<Longrightarrow> \<forall>k v e. m k = Some (v, e) \<longrightarrow> v \<noteq> None \<Longrightarrow>
        \<exists>es. st_walk ops (\<lambda>e es. (True, es @ [e])) s [] = Inr es \<and> length es = card (dom m) \<and>
          (\<forall>k n e. (\<exists>en \<in> set es. en_Key en = k \<and> en_Size en = n \<and> en_ExpireAt en = e) \<longleftrightarrow>
             (\<exists>b. m k = Some (Some b, e) \<and> n = length b))"
begin

text \<open>A cache is sound for the writes \<open>w\<close> when its store holds a part of them.\<close>

definition sound :: "'s Cache \<Rightarrow> (string \<rightharpoonup> bytes \<times> int) \<Rightarrow> bool" where
  "sound c w \<longleftrightarrow> ok_opts (store_opts (ca_opts c)) \<and>
     (ca_initialized c \<longleftrightarrow> ca_store c \<noteq> None) \<and> (ca_closed c \<longrightarrow> ca_store c = None) \<and>
     (\<forall>s. ca_store c = Some s \<longrightarrow> (\<exists>m. R s m \<and> some_values m w))"

lemma sound_new: "ok_opts (store_opts o') \<Longrightarrow> sound (NewCache o') w"
  by (simp add: sound_def NewCache_def)

lemma sound_init:
  assumes "sound c w" and "\<not> ca_closed c"
  shows "\<exists>c' s m. ensureInitialized ops c = Inr c' \<and> sound c' w \<and> \<not> ca_closed c' \<and> ca_store c' = Some s \<and>
    R s m \<and> some_values m w"
proof (cases "ca_initialized c")
  case True
  then obtain s where "ca_store c = Some s" using assms(1) by (auto simp: sound_def)
  then show ?thesis using assms True by (auto simp: sound_def ensureInitialized_def)
next
  case False
  from assms(1) new_law obtain s where s: "st_new ops (store_opts (ca_opts c)) = Inr s" "R s Map.empty"
    unfolding sound_def by blast
  let ?c = "c\<lparr>ca_store := Some s, ca_initialized := True\<rparr>"
  have "ensureInitialized ops c = Inr ?c" using False assms(2) s(1) by (simp add: ensureInitialized_def)
  moreover have "sound ?c w" using assms s(2) by (auto simp: sound_def some_values_def)
  ultimately show ?thesis using assms(2) s(2)
    by (intro exI [of _ ?c] exI [of _ s] exI [of _ Map.empty]) (simp add: some_values_def)
qed

lemma some_values_le: "some_values m w \<Longrightarrow> m' \<subseteq>\<^sub>m m \<Longrightarrow> some_values m' w"
  unfolding some_values_def map_le_def by (metis domI)

lemma some_values_upd: "some_values m w \<Longrightarrow> m' \<subseteq>\<^sub>m m(k \<mapsto> (Some b, e)) \<Longrightarrow> some_values m' (w(k \<mapsto> (b, e)))"
  by (rule some_values_le [of "m(k \<mapsto> (Some b, e))"]) (auto simp: some_values_def)

lemma sound_store: "sound c w \<Longrightarrow> R s m \<Longrightarrow> some_values m w' \<Longrightarrow> ca_store c = Some s0 \<Longrightarrow> sound (c\<lparr>ca_store := Some s\<rparr>) w'"
  by (auto simp: sound_def)

lemma sound_counters [simp]:
  "sound (c\<lparr>ca_misses := x\<rparr>) w = sound c w" "sound (c\<lparr>ca_hits := x\<rparr>) w = sound c w" "sound (miss c) w = sound c w"
  by (simp_all add: sound_def miss_def)

lemma sound_get:
  assumes "sound c w"
  shows "\<exists>c' r. ca_Get ops now k c = Inr (r, c') \<and> sound c' w \<and> (\<forall>b. r = Some b \<longrightarrow> (\<exists>e. w k = Some (b, e) \<and> now < e)) \<and>
    ca_hits c' = ca_hits c + (if r = None then 0 else 1) \<and> ca_closed c' = ca_closed c"
proof (cases "ca_store c")
  case None
  then show ?thesis using assms by (auto simp: sound_def ca_Get_def miss_def)
next
  case (Some s)
  then obtain m where m: "R s m" "some_values m w" using assms by (auto simp: sound_def)
  from get_law [OF m(1), of now k] obtain s' m' out where
    g: "st_get ops now k s = Inr (case m k of Some (v, e) \<Rightarrow> if now < e then Some v else None | None \<Rightarrow> None, s', out)"
      "R s' m'" "m' \<subseteq>\<^sub>m m" by blast
  let ?c = "c\<lparr>ca_store := Some s'\<rparr>"
  have c: "sound ?c w" by (rule sound_store [OF assms g(2) some_values_le [OF m(2) g(3)] Some])
  have i: "ca_initialized c" "\<not> ca_closed c" using assms Some by (auto simp: sound_def)
  show ?thesis
  proof (cases "\<exists>v e. m k = Some (v, e) \<and> now < e")
    case True
    then obtain v e where e: "m k = Some (v, e)" "now < e" by blast
    then obtain b where b: "v = Some b" "w k = Some (b, e)" using m(2) unfolding some_values_def by blast
    have "ca_Get ops now k c = Inr (Some b, ?c\<lparr>ca_hits := ca_hits ?c + 1\<rparr>)"
      using i Some g(1) e b by (simp add: ca_Get_def on_store_def)
    then show ?thesis using c b e by simp
  next
    case False
    then have "(case m k of Some (v, e) \<Rightarrow> if now < e then Some v else None | None \<Rightarrow> None) = None"
      by (auto split: option.splits)
    then have "ca_Get ops now k c = Inr (None, miss ?c)" using i Some g(1) by (simp add: ca_Get_def on_store_def)
    then show ?thesis using c by (simp add: miss_def)
  qed
qed

lemma sound_set:
  assumes "sound c w" and "\<And>s m. R s m \<Longrightarrow> \<exists>s' m' out. f s = Inr ((), s', out) \<and> R s' m' \<and> m' \<subseteq>\<^sub>m m(k \<mapsto> (Some b, e))"
    and "\<not> ca_closed c"
  shows "\<exists>c'. rbind (ensureInitialized ops c) (\<lambda>c. rbind (on_store f c) (\<lambda>(_, c). Inr c)) = Inr c' \<and> sound c' (w(k \<mapsto> (b, e))) \<and> \<not> ca_closed c'"
proof -
  from sound_init [OF assms(1,3)] obtain c1 s m where
    c1: "ensureInitialized ops c = Inr c1" "sound c1 w" "ca_store c1 = Some s" "R s m" "some_values m w" "\<not> ca_closed c1" by blast
  from assms(2) [OF c1(4)] obtain s' m' out where f: "f s = Inr ((), s', out)" "R s' m'" "m' \<subseteq>\<^sub>m m(k \<mapsto> (Some b, e))" by blast
  have "sound (c1\<lparr>ca_store := Some s'\<rparr>) (w(k \<mapsto> (b, e)))"
    by (rule sound_store [OF c1(2) f(2) some_values_upd [OF c1(5) f(3)] c1(3)])
  then show ?thesis using c1(1,3,6) f(1) by (simp add: on_store_def)
qed

lemma sound_add:
  assumes "sound c w" and "\<not> ca_closed c"
  shows "\<exists>c'. ca_Add ops now k b c = Inr c' \<and> sound c' (w(k \<mapsto> (b, maxExpireAt))) \<and> \<not> ca_closed c'"
  using sound_set [where f = "st_set ops now k (Some b)", OF assms(1) set_law assms(2)] assms(2) by (simp add: ca_Add_def)

lemma sound_addx:
  assumes "sound c w" and "\<not> ca_closed c" and "0 < time_until t wall" and "0 < expire_at now (time_until t wall)"
  shows "\<exists>c'. ca_AddX ops wall now k b t c = Inr c' \<and> sound c' (w(k \<mapsto> (b, expire_at now (time_until t wall)))) \<and> \<not> ca_closed c'"
  using sound_set [where f = "st_setx ops now k (Some b) (time_until t wall)", OF assms(1) setx_law [OF _ assms(4)] assms(2)] assms(2,3)
  by (simp add: ca_AddX_def Let_def)

lemma sound_closed: "sound c w \<Longrightarrow> ca_closed c \<Longrightarrow> sound c w'"
  by (auto simp: sound_def)

lemma sound_exec:
  assumes s: "sound c w" and r: "in_range x"
  shows "\<exists>c'. exec ops x c = Inr c' \<and> sound c' (wrote x w)"
proof (cases x)
  case (Add now k v)
  show ?thesis
  proof (cases "ca_closed c")
    case True
    then show ?thesis using sound_closed [OF s True] by (simp add: Add ca_Add_def)
  next
    case False
    from sound_add [OF s False, of now k v] show ?thesis by (auto simp: Add)
  qed
next
  case (AddX wall now k v t)
  show ?thesis
  proof (cases "ca_closed c \<or> time_until t wall \<le> 0")
    case True
    then show ?thesis using s sound_closed [OF s] by (auto simp: AddX ca_AddX_def Let_def)
  next
    case False
    then have "0 < expire_at now (time_until t wall)" using r expire_at_pos [of now "time_until t wall"] by (simp add: AddX)
    with sound_addx [OF s, of t wall now k v] False show ?thesis by (auto simp: AddX)
  qed
next
  case (Get now k)
  from sound_get [OF s, of now k] show ?thesis by (auto simp: Get)
next
  case (Del k)
  show ?thesis
  proof (cases "ca_store c")
    case None
    then show ?thesis using s by (auto simp: Del sound_def ca_Delete_def)
  next
    case (Some t)
    then obtain m where m: "R t m" "some_values m w" using s by (auto simp: sound_def)
    from delete_law [OF m(1), of k] obtain t' out where d: "st_delete ops k t = Inr (k \<in> dom m, t', out)" "R t' (m(k := None))" by blast
    have "some_values (m(k := None)) (w(k := None))" using m(2) by (auto simp: some_values_def)
    from sound_store [OF s d(2) this Some] show ?thesis
      using s Some d(1) by (auto simp: Del ca_Delete_def on_store_def sound_def)
  qed
next
  case Clear
  show ?thesis
  proof (cases "ca_store c")
    case None
    then show ?thesis using s by (auto simp: Clear sound_def ca_Clear_def)
  next
    case (Some t)
    then obtain m where m: "R t m" using s by (auto simp: sound_def)
    from clear_law [OF m] obtain t' out where d: "st_clear ops t = Inr (t', out)" "R t' Map.empty" by blast
    have "some_values Map.empty Map.empty" by (simp add: some_values_def)
    from sound_store [OF s d(2) this Some] show ?thesis
      using s Some d(1) by (auto simp: Clear ca_Clear_def sound_def)
  qed
next
  case (Tick now)
  show ?thesis
  proof (cases "ca_store c")
    case None
    then show ?thesis using s by (auto simp: Tick ca_tick_def)
  next
    case (Some t)
    then obtain m where m: "R t m" "some_values m w" using s by (auto simp: sound_def)
    let ?m = "\<lambda>k. case m k of Some (v, e) \<Rightarrow> if now \<ge> e then None else Some (v, e) | None \<Rightarrow> None"
    from tick_law [OF m(1), of now] obtain t' out where d: "st_tick ops now t = Inr (t', out)" "R t' ?m" by blast
    have "some_values ?m w" using m(2) by (auto simp: some_values_def split: option.splits if_splits)
    from sound_store [OF s d(2) this Some] show ?thesis using Some d(1) by (auto simp: Tick ca_tick_def)
  qed
next
  case Close
  then show ?thesis using s by (auto simp: ca_Close_def sound_def)
qed

lemma sound_run:
  assumes "sound c w" and "\<forall>x \<in> set xs. in_range x"
  shows "\<exists>c'. rfold (exec ops) xs c = Inr c' \<and> sound c' (fold wrote xs w)"
  using assms
proof (induction xs arbitrary: c w)
  case (Cons x xs)
  from sound_exec [OF Cons.prems(1), of x] Cons.prems(2) obtain c' where
    "exec ops x c = Inr c'" "sound c' (wrote x w)" by auto
  with Cons.IH [of c' "wrote x w"] Cons.prems(2) show ?case by simp
qed simp

end

section \<open>The sharded store\<close>

definition opts_ok :: "StoreOptions \<Rightarrow> bool" where
  "opts_ok o' \<longleftrightarrow> so_BucketCount o' \<le> 32768 \<and> so_CapPerBucket o' \<noteq> 65535 \<and> so_Level2Cap o' \<noteq> 65535"

text \<open>The store represents the map, and its budgets add up to the configured one (one byte per bucket
  at least).\<close>

definition lru_holds :: "StoreOptions \<Rightarrow> lruStore \<Rightarrow> (string \<rightharpoonup> bytes option \<times> int) \<Rightarrow> bool" where
  "lru_holds o' s m \<longleftrightarrow> (\<exists>n0 n1 L. st_ok n0 n1 s L \<and> m = st_map s L) \<and>
     length (ls_caches s) * nat (ls_maxBucketBytes s) \<le> max (length (ls_caches s)) (nat (so_MaxBytes o')) \<and>
     (so_MaxBytes o' > 0 \<longrightarrow> ls_maxBucketBytes s > 0)"

lemma lru_holdsI:
  "lru_holds o' s m \<Longrightarrow> st_ok n0 n1 s' L \<Longrightarrow> st_map s' L = m' \<Longrightarrow> same_shape s s' \<Longrightarrow> lru_holds o' s' m'"
  by (auto simp: lru_holds_def same_shape_def)

lemma lru_holdsE:
  assumes "lru_holds o' s m"
  obtains n0 n1 L where "st_ok n0 n1 s L" "m = st_map s L"
  using assms by (auto simp: lru_holds_def)

lemma lru_sweep:
  assumes "lru_holds o' s m"
  shows "\<exists>bs out. on_buckets (delete_where ord P) (ls_caches s) = Inr (bs, out) \<and>
    lru_holds o' (s\<lparr>ls_caches := bs\<rparr>) (\<lambda>k. case m k of Some (v, e) \<Rightarrow> if P e then None else Some (v, e) | None \<Rightarrow> None)"
proof -
  from assms obtain n0 n1 L where L: "st_ok n0 n1 s L" "m = st_map s L" by (rule lru_holdsE)
  from st_sweep_ok [OF L(1), of ord P] obtain bs out L' where
    bs: "on_buckets (delete_where ord P) (ls_caches s) = Inr (bs, out)" "st_ok n0 n1 (s\<lparr>ls_caches := bs\<rparr>) L'"
      "same_shape s (s\<lparr>ls_caches := bs\<rparr>)"
      "st_map (s\<lparr>ls_caches := bs\<rparr>) L' = (\<lambda>k. case m k of Some (v, e) \<Rightarrow> if P e then None else Some (v, e) | None \<Rightarrow> None)"
    unfolding L(2) by blast
  then show ?thesis using lru_holdsI [OF assms bs(2,4,3)] by blast
qed

lemma lru_setx:
  assumes "lru_holds o' s m" and "0 < expire_at now d"
  shows "\<exists>s' m' out. SetWithExpiration now k v d s = Inr ((), s', out) \<and>
    lru_holds o' s' m' \<and> m' \<subseteq>\<^sub>m m(k \<mapsto> (v, expire_at now d))"
proof -
  from assms(1) obtain n0 n1 L where L: "st_ok n0 n1 s L" "m = st_map s L" by (rule lru_holdsE)
  from st_Set_ok [OF L(1) assms(2), of k v] obtain s' L' out where
    s': "SetWithExpiration now k v d s = Inr ((), s', out)" "st_ok n0 n1 s' L'"
      "st_map s' L' \<subseteq>\<^sub>m m(k \<mapsto> (v, expire_at now d))" "same_shape s s'" unfolding L(2) by blast
  then show ?thesis using lru_holdsI [OF assms(1) s'(2) refl s'(4)] by blast
qed

lemma lru_store_laws: "cache_store (lru_ops ord) (lru_holds o0) (\<lambda>o'. o' = o0 \<and> opts_ok o')"
proof
  fix o' assume "o' = o0 \<and> opts_ok o'"
  then have o0: "opts_ok o0" and o': "o' = o0" by auto
  from o0 have "\<exists>s n0 n1 L. NewStore o0 = Inr s \<and> st_ok n0 n1 s L \<and> st_map s L = Map.empty \<and>
      length (ls_caches s) * nat (ls_maxBucketBytes s) \<le> max (length (ls_caches s)) (nat (so_MaxBytes o0)) \<and>
      (so_MaxBytes o0 > 0 \<longrightarrow> ls_maxBucketBytes s > 0)"
    using NewStore_ok [of o0] unfolding opts_ok_def by blast
  then show "\<exists>s. st_new (lru_ops ord) o' = Inr s \<and> lru_holds o0 s Map.empty"
    unfolding lru_holds_def lru_ops_def o' by fastforce
next
  fix s m now k assume h: "lru_holds o0 s m"
  then obtain n0 n1 L where L: "st_ok n0 n1 s L" "m = st_map s L" by (rule lru_holdsE)
  from st_Get_ok [OF L(1), of now k] obtain s' L' out where
    s': "lru_Get now k s = Inr (case m k of Some (v, e) \<Rightarrow> if now < e then Some v else None | None \<Rightarrow> None, s', out)"
      "st_ok n0 n1 s' L'" "st_map s' L' \<subseteq>\<^sub>m m" "same_shape s s'" unfolding L(2) by blast
  then show "\<exists>s' m' out. st_get (lru_ops ord) now k s =
        Inr (case m k of Some (v, e) \<Rightarrow> if now < e then Some v else None | None \<Rightarrow> None, s', out) \<and> lru_holds o0 s' m' \<and> m' \<subseteq>\<^sub>m m"
    using lru_holdsI [OF h s'(2) refl s'(4)] unfolding lru_ops_def by auto
next
  fix s m now k v assume "lru_holds o0 s m"
  moreover have "0 < expire_at now 0" "expire_at now 0 = maxExpireAt" by (simp_all add: expire_at_def maxExpireAt_def)
  ultimately show "\<exists>s' m' out. st_set (lru_ops ord) now k v s = Inr ((), s', out) \<and> lru_holds o0 s' m' \<and> m' \<subseteq>\<^sub>m m(k \<mapsto> (v, maxExpireAt))"
    using lru_setx [of o0 s m now 0 k v] by (simp add: lru_ops_def lru_Set_def)
next
  fix s m now d k v assume "lru_holds o0 s m" "0 < expire_at now d"
  then show "\<exists>s' m' out. st_setx (lru_ops ord) now k v d s = Inr ((), s', out) \<and>
        lru_holds o0 s' m' \<and> m' \<subseteq>\<^sub>m m(k \<mapsto> (v, expire_at now d))"
    using lru_setx by (simp add: lru_ops_def)
next
  fix s m k assume h: "lru_holds o0 s m"
  then obtain n0 n1 L where L: "st_ok n0 n1 s L" "m = st_map s L" by (rule lru_holdsE)
  from st_Delete_ok [OF L(1), of k] obtain s' L' out where
    s': "lru_Delete k s = Inr (k \<in> dom m, s', out)" "st_ok n0 n1 s' L'" "st_map s' L' = m(k := None)" "same_shape s s'"
    unfolding L(2) by blast
  then show "\<exists>s' out. st_delete (lru_ops ord) k s = Inr (k \<in> dom m, s', out) \<and> lru_holds o0 s' (m(k := None))"
    using lru_holdsI [OF h s'(2,3,4)] by (auto simp: lru_ops_def)
next
  fix s m assume h: "lru_holds o0 s m"
  have "(\<lambda>k. case m k of Some (v, e) \<Rightarrow> if True then None else Some (v, e) | None \<Rightarrow> None) = Map.empty"
    by (auto simp: fun_eq_iff split: option.splits)
  with lru_sweep [OF h, of ord "\<lambda>_. True"] show "\<exists>s' out. st_clear (lru_ops ord) s = Inr (s', out) \<and> lru_holds o0 s' Map.empty"
    by (auto simp: lru_ops_def lru_Clear_def)
next
  fix s m now assume h: "lru_holds o0 s m"
  from lru_sweep [OF h, of ord "\<lambda>e. now \<ge> e"] show "\<exists>s' out. st_tick (lru_ops ord) now s = Inr (s', out) \<and>
        lru_holds o0 s' (\<lambda>k. case m k of Some (v, e) \<Rightarrow> if now \<ge> e then None else Some (v, e) | None \<Rightarrow> None)"
    by (auto simp: lru_ops_def cleanup_tick_def)
next
  fix s m assume "lru_holds o0 s m"
  then show "st_len (lru_ops ord) s = Inr (card (dom m))"
    using st_Len_ok by (auto simp: lru_ops_def elim!: lru_holdsE)
next
  fix s m assume a: "lru_holds o0 s m" "\<forall>k v e. m k = Some (v, e) \<longrightarrow> v \<noteq> None"
  from a(1) obtain n0 n1 L where L: "st_ok n0 n1 s L" "m = st_map s L" by (rule lru_holdsE)
  have "st_walk (lru_ops ord) = lru_Walk" by (simp add: lru_ops_def)
  with st_Walk_ok [OF L(1) a(2) [unfolded L(2)]] show "\<exists>es. st_walk (lru_ops ord) (\<lambda>e es. (True, es @ [e])) s [] = Inr es \<and> length es = card (dom m) \<and>
          (\<forall>k n e. (\<exists>en \<in> set es. en_Key en = k \<and> en_Size en = n \<and> en_ExpireAt en = e) \<longleftrightarrow>
             (\<exists>b. m k = Some (Some b, e) \<and> n = length b))"
    unfolding L(2) by (elim exE conjE) (intro exI conjI, simp_all)
qed

interpretation lru: cache_store "lru_ops ord" "lru_holds o0" "\<lambda>o'. o' = o0 \<and> opts_ok o'" for ord o0
  by (rule lru_store_laws)

end
