(* ===== verification/Cache_Group.thy ===== *)
theory Cache_Group
  imports Cache_Front
begin

text \<open>
  \<^verbatim>\<open>src/libs/yukino_cache/group.go\<close>: a named cache in front of a data source.  A miss asks the peer that
  owns the key, then the getter, and stores the answer.  The getter and the peers are parameters (the
  user's function and remote processes); \<^verbatim>\<open>single_flight.go\<close> is modelled for one caller at a time,
  where it runs the load and turns a panic into an error.  \<open>fresh\<close> is the invariant of an open group: every
  entry is the getter's value for its key or the value last written under it.
\<close>

section \<open>Model\<close>

record source =
  src_getter :: "string \<Rightarrow> go_err + bytes"
  src_peer :: "string \<Rightarrow> (string \<Rightarrow> go_err + bytes) option \<times> bool \<times> bool"
  src_has_peers :: bool

record 's group =
  gr_cache :: "'s Cache"
  gr_expiration :: int
  gr_closed :: bool
  gr_gets :: int
  gr_localHits :: int
  gr_localMisses :: int
  gr_loads :: int
  gr_loadsDeduped :: int
  gr_peerHits :: int
  gr_peerMisses :: int
  gr_loaderHits :: int
  gr_loaderErrors :: int

definition NewGroup :: "CacheOptions \<Rightarrow> int \<Rightarrow> 's group" where
  "NewGroup o' expiration = \<lparr>gr_cache = NewCache o', gr_expiration = expiration, gr_closed = False, gr_gets = 0,
     gr_localHits = 0, gr_localMisses = 0, gr_loads = 0, gr_loadsDeduped = 0, gr_peerHits = 0, gr_peerMisses = 0,
     gr_loaderHits = 0, gr_loaderErrors = 0\<rparr>"

text \<open>The wall clock and the coarse clock of the store at the time of an operation.\<close>

type_synonym clocks = "int \<times> int"

definition gr_store :: "'s store_ops \<Rightarrow> clocks \<Rightarrow> string \<Rightarrow> bytes \<Rightarrow> 's group \<Rightarrow> go_err + 's group" where
  "gr_store ops t key value g = rbind
     (if gr_expiration g > 0
      then ca_AddX ops (fst t) (snd t) key value (fst t + gr_expiration g) (gr_cache g)
      else ca_Add ops (snd t) key value (gr_cache g)) (\<lambda>c. Inr (g\<lparr>gr_cache := c\<rparr>))"

definition loadData :: "source \<Rightarrow> bool \<Rightarrow> string \<Rightarrow> 's group \<Rightarrow> (go_err + bytes) \<times> 's group" where
  "loadData env isPeer key g =
     (let own = (\<lambda>g. case src_getter env key of
            Inl (Err s) \<Rightarrow> (Inl (Err (''failed to get data: '' @ s)), g)
          | Inl e \<Rightarrow> (Inl e, g)
          | Inr b \<Rightarrow> (Inr b, g\<lparr>gr_loaderHits := gr_loaderHits g + 1\<rparr>))
      in if src_has_peers env \<and> \<not> isPeer then
           case src_peer env key of
             (Some peer, True, False) \<Rightarrow> (case peer key of
                 Inr b \<Rightarrow> (Inr b, g\<lparr>gr_peerHits := gr_peerHits g + 1\<rparr>)
               | Inl (Err _) \<Rightarrow> own (g\<lparr>gr_peerMisses := gr_peerMisses g + 1\<rparr>)
               | Inl e \<Rightarrow> (Inl e, g))
           | _ \<Rightarrow> own g
         else own g)"

text \<open>The function \<open>load\<close> hands to the single-flight group.\<close>

definition load_fn :: "'s store_ops \<Rightarrow> source \<Rightarrow> clocks \<Rightarrow> bool \<Rightarrow> string \<Rightarrow> 's group \<Rightarrow> (go_err + bytes) \<times> 's group" where
  "load_fn ops env t isPeer key g = (case ca_Get ops (snd t) key (gr_cache g) of
     Inl e \<Rightarrow> (Inl e, g)
   | Inr (Some view, c) \<Rightarrow> (Inr view, g\<lparr>gr_cache := c\<rparr>)
   | Inr (None, c) \<Rightarrow>
       (case loadData env isPeer key (g\<lparr>gr_cache := c, gr_loadsDeduped := gr_loadsDeduped g + 1\<rparr>) of
          (Inl e, g) \<Rightarrow> (Inl e, g)
        | (Inr view, g) \<Rightarrow> (case gr_store ops t key view g of Inl e \<Rightarrow> (Inl e, g) | Inr g \<Rightarrow> (Inr view, g))))"

text \<open>\<^verbatim>\<open>Do\<close> for a caller with no call in flight: the panic of the function is recovered.\<close>

fun Do :: "(go_err + bytes) \<times> 's group \<Rightarrow> (go_err + bytes) \<times> 's group" where
  "Do (Inl (Panic r), g) = (Inl (Err (''singleflight: panic during call: '' @ r)), g)"
| "Do x = x"

definition load :: "'s store_ops \<Rightarrow> source \<Rightarrow> clocks \<Rightarrow> bool \<Rightarrow> string \<Rightarrow> 's group \<Rightarrow> (go_err + bytes) \<times> 's group" where
  "load ops env t isPeer key g = (case Do (load_fn ops env t isPeer key g) of
     (Inl e, g) \<Rightarrow> (Inl e, g\<lparr>gr_loads := gr_loads g + 1, gr_loaderErrors := gr_loaderErrors g + 1\<rparr>)
   | (Inr view, g) \<Rightarrow> (Inr view, g\<lparr>gr_loads := gr_loads g + 1\<rparr>))"

definition gr_Get :: "'s store_ops \<Rightarrow> source \<Rightarrow> clocks \<Rightarrow> bool \<Rightarrow> string \<Rightarrow> 's group \<Rightarrow> (go_err + bytes) \<times> 's group" where
  "gr_Get ops env t isPeer key g =
     (if gr_closed g then (Inl (Err ''cache group is closed''), g)
      else if key = [] then (Inl (Err ''key is required''), g)
      else let g = g\<lparr>gr_gets := gr_gets g + 1\<rparr> in
        case ca_Get ops (snd t) key (gr_cache g) of
          Inl e \<Rightarrow> (Inl e, g)
        | Inr (Some view, c) \<Rightarrow> (Inr view, g\<lparr>gr_cache := c, gr_localHits := gr_localHits g + 1\<rparr>)
        | Inr (None, c) \<Rightarrow> load ops env t isPeer key (g\<lparr>gr_cache := c, gr_localMisses := gr_localMisses g + 1\<rparr>))"

text \<open>\<open>Set\<close> and \<open>Delete\<close>; the peer that owns the key is told in the background, which is not part of
  the state of this group.\<close>

definition gr_Set :: "'s store_ops \<Rightarrow> clocks \<Rightarrow> string \<Rightarrow> bytes \<Rightarrow> 's group \<Rightarrow> go_err + 's group" where
  "gr_Set ops t key value g =
     (if gr_closed g then Inl (Err ''cache group is closed'')
      else if key = [] then Inl (Err ''key is required'')
      else if value = [] then Inl (Err ''value is required'')
      else gr_store ops t key value g)"

definition gr_Delete :: "'s store_ops \<Rightarrow> string \<Rightarrow> 's group \<Rightarrow> go_err + 's group" where
  "gr_Delete ops key g =
     (if gr_closed g then Inl (Err ''cache group is closed'')
      else if key = [] then Inl (Err ''key is required'')
      else rbind (ca_Delete ops key (gr_cache g)) (\<lambda>(_, c). Inr (g\<lparr>gr_cache := c\<rparr>)))"

definition gr_Clear :: "'s store_ops \<Rightarrow> 's group \<Rightarrow> go_err + 's group" where
  "gr_Clear ops g = (if gr_closed g then Inr g else rbind (ca_Clear ops (gr_cache g)) (\<lambda>c. Inr (g\<lparr>gr_cache := c\<rparr>)))"

definition gr_Close :: "'s group \<Rightarrow> 's group" where
  "gr_Close g = (if gr_closed g then g else g\<lparr>gr_closed := True, gr_cache := ca_Close (gr_cache g)\<rparr>)"

text \<open>Histories of a group; a returned error leaves the caller without an answer and the history goes
  on, a panic ends it.\<close>

datatype gcmd = GGet clocks bool string | GSet clocks string bytes | GDel string | GClear | GClose

fun gexec :: "'s store_ops \<Rightarrow> source \<Rightarrow> gcmd \<Rightarrow> 's group \<Rightarrow> go_err + 's group" where
  "gexec ops env (GGet t isPeer key) g = (case gr_Get ops env t isPeer key g of (Inl (Panic p), g) \<Rightarrow> Inl (Panic p) | (_, g) \<Rightarrow> Inr g)"
| "gexec ops env (GSet t key value) g = ignore_err g (gr_Set ops t key value g)"
| "gexec ops env (GDel key) g = ignore_err g (gr_Delete ops key g)"
| "gexec ops env GClear g = gr_Clear ops g"
| "gexec ops env GClose g = Inr (gr_Close g)"

section \<open>Reading through\<close>

text \<open>A peer that answers a key answers what the getter returns for it; it may fail instead, as a remote call does.\<close>

definition peers_agree :: "source \<Rightarrow> bool" where
  "peers_agree env \<longleftrightarrow> (\<forall>k p a b. src_peer env k = (Some p, a, b) \<longrightarrow>
     (case p k of Inr v \<Rightarrow> src_getter env k = Inr v | Inl (Err _) \<Rightarrow> True | Inl (Panic _) \<Rightarrow> False))"

text \<open>What a read that goes to the source returns.\<close>

definition loaded :: "source \<Rightarrow> string \<Rightarrow> go_err + bytes" where
  "loaded env k = (case src_getter env k of
     Inl (Err s) \<Rightarrow> Inl (Err (''failed to get data: '' @ s))
   | Inl (Panic p) \<Rightarrow> Inl (Err (''singleflight: panic during call: '' @ p))
   | Inr b \<Rightarrow> Inr b)"

text \<open>The value last written under each key and not deleted or cleared since.\<close>

fun set_step :: "gcmd \<Rightarrow> (string \<rightharpoonup> bytes) \<Rightarrow> string \<rightharpoonup> bytes" where
  "set_step (GSet t k v) S = (if k = [] \<or> v = [] then S else S(k \<mapsto> v))"
| "set_step (GDel k) S = (if k = [] then S else S(k := None))"
| "set_step GClear S = Map.empty"
| "set_step _ S = S"

definition last_set :: "gcmd list \<Rightarrow> string \<rightharpoonup> bytes" where
  "last_set xs = fold set_step xs Map.empty"

definition all_from :: "source \<Rightarrow> (string \<rightharpoonup> bytes) \<Rightarrow> (string \<rightharpoonup> bytes \<times> int) \<Rightarrow> bool" where
  "all_from env S w \<longleftrightarrow> (\<forall>k b e. w k = Some (b, e) \<longrightarrow> src_getter env k = Inr b \<or> S k = Some b)"

text \<open>The coarse clock plus the time to live stays in the range of \<^verbatim>\<open>int64\<close>.\<close>

definition clock_ok :: "int \<Rightarrow> clocks \<Rightarrow> bool" where
  "clock_ok ttl t \<longleftrightarrow> 0 \<le> snd t \<and> snd t + max 0 ttl \<le> maxExpireAt"

fun gcmd_ok :: "int \<Rightarrow> gcmd \<Rightarrow> bool" where
  "gcmd_ok ttl (GGet t _ _) \<longleftrightarrow> clock_ok ttl t"
| "gcmd_ok ttl (GSet t k v) \<longleftrightarrow> clock_ok ttl t"
| "gcmd_ok ttl _ \<longleftrightarrow> True"

context cache_store
begin

definition fresh :: "source \<Rightarrow> (string \<rightharpoonup> bytes) \<Rightarrow> int \<Rightarrow> 's group \<Rightarrow> bool" where
  "fresh env S ttl g \<longleftrightarrow> (\<exists>w. sound (gr_cache g) w \<and> all_from env S w) \<and> \<not> gr_closed g \<and> \<not> ca_closed (gr_cache g) \<and>
     gr_expiration g = ttl \<and> gr_gets g = gr_localHits g + gr_localMisses g"

lemma store_fresh:
  assumes g: "fresh env S ttl g" and t: "clock_ok ttl t"
    and S': "\<forall>k'. k' \<noteq> k \<longrightarrow> S' k' = S k'" "src_getter env k = Inr v \<or> S' k = Some v"
  shows "\<exists>c. gr_store ops t k v g = Inr (g\<lparr>gr_cache := c\<rparr>) \<and> fresh env S' ttl (g\<lparr>gr_cache := c\<rparr>)"
proof -
  from g obtain w where w: "sound (gr_cache g) w" "all_from env S w" and o: "\<not> ca_closed (gr_cache g)" "gr_expiration g = ttl"
    by (auto simp: fresh_def)
  have all: "all_from env S' (w(k \<mapsto> (v, e)))" for e using w(2) S' by (auto simp: all_from_def)
  show ?thesis
  proof (cases "ttl > 0")
    case True
    have u: "time_until (fst t + ttl) (fst t) = ttl"
      using t True by (auto simp: time_until_def clock_ok_def maxExpireAt_def)
    have "0 < expire_at (snd t) ttl" using expire_at_pos [of "snd t" ttl] t True by (simp add: clock_ok_def)
    with sound_addx [OF w(1) o(1), of "fst t + ttl" "fst t" "snd t" k v] u True obtain c where
      "ca_AddX ops (fst t) (snd t) k v (fst t + ttl) (gr_cache g) = Inr c"
      "sound c (w(k \<mapsto> (v, expire_at (snd t) ttl)))" "\<not> ca_closed c" by auto
    then show ?thesis using g all True o(2) by (auto simp: gr_store_def fresh_def)
  next
    case False
    from sound_add [OF w(1) o(1), of "snd t" k v] obtain c where
      "ca_Add ops (snd t) k v (gr_cache g) = Inr c" "sound c (w(k \<mapsto> (v, maxExpireAt)))" "\<not> ca_closed c" by auto
    then show ?thesis using g all False o(2) by (auto simp: gr_store_def fresh_def)
  qed
qed

lemma cache_get_fresh:
  assumes g: "fresh env S ttl g"
  shows "\<exists>r c. ca_Get ops now k (gr_cache g) = Inr (r, c) \<and> fresh env S ttl (g\<lparr>gr_cache := c\<rparr>)
    \<and> (\<forall>v. r = Some v \<longrightarrow> src_getter env k = Inr v \<or> S k = Some v)"
proof -
  from g obtain w where w: "sound (gr_cache g) w" "all_from env S w" by (auto simp: fresh_def)
  from sound_get [OF w(1), of now k] obtain c r where
    c: "ca_Get ops now k (gr_cache g) = Inr (r, c)" "sound c w" "\<forall>b. r = Some b \<longrightarrow> (\<exists>e. w k = Some (b, e) \<and> now < e)"
      "ca_closed c = ca_closed (gr_cache g)" by blast
  have "\<forall>v. r = Some v \<longrightarrow> src_getter env k = Inr v \<or> S k = Some v" using c(3) w(2) by (auto simp: all_from_def)
  moreover have "fresh env S ttl (g\<lparr>gr_cache := c\<rparr>)" using g c(2,4) w(2) by (auto simp: fresh_def)
  ultimately show ?thesis using c(1) by blast
qed

lemma loadData_answer:
  fixes g :: "'s group"
  assumes "peers_agree env"
  shows "\<exists>ph pm lh r. loadData env isPeer k g = (r, g\<lparr>gr_peerHits := ph, gr_peerMisses := pm, gr_loaderHits := lh\<rparr>) \<and>
    (case r of Inr v \<Rightarrow> src_getter env k = Inr v | Inl e \<Rightarrow> \<forall>g'. fst (Do (Inl e, g' :: 's group)) = loaded env k)"
proof -
  define own where "own = (\<lambda>g :: 's group. case src_getter env k of
            Inl (Err s) \<Rightarrow> (Inl (Err (''failed to get data: '' @ s)), g)
          | Inl e \<Rightarrow> (Inl e, g)
          | Inr b \<Rightarrow> (Inr b, g\<lparr>gr_loaderHits := gr_loaderHits g + 1\<rparr>))"
  have own: "\<exists>lh r. own g = (r, g\<lparr>gr_loaderHits := lh\<rparr>) \<and>
      (case r of Inr v \<Rightarrow> src_getter env k = Inr v | Inl e \<Rightarrow> \<forall>g'. fst (Do (Inl e, g' :: 's group)) = loaded env k)" for g
  proof (cases "src_getter env k")
    case (Inl e)
    then show ?thesis
      by (intro exI [of _ "gr_loaderHits g"] exI [of _ "fst (own g)"]) (cases e, simp_all add: own_def loaded_def)
  next
    case (Inr b)
    then show ?thesis by (intro exI [of _ "gr_loaderHits g + 1"] exI [of _ "Inr b"]) (simp add: own_def)
  qed
  have wit: ?thesis if "loadData env isPeer k g = (r, g\<lparr>gr_peerHits := ph, gr_peerMisses := pm, gr_loaderHits := lh\<rparr>)"
    "case r of Inr v \<Rightarrow> src_getter env k = Inr v | Inl e \<Rightarrow> \<forall>g'. fst (Do (Inl e, g' :: 's group)) = loaded env k" for r ph pm lh
    using that by blast
  obtain p a b where p: "src_peer env k = (p, a, b)" by (cases "src_peer env k")
  show ?thesis
  proof (cases "src_has_peers env \<and> \<not> isPeer \<and> p \<noteq> None \<and> a \<and> \<not> b")
    case True
    then obtain f where f: "p = Some f" by auto
    have agree: "case f k of Inr v \<Rightarrow> src_getter env k = Inr v | Inl (Err _) \<Rightarrow> True | Inl (Panic _) \<Rightarrow> False"
      using assms p f unfolding peers_agree_def by blast
    show ?thesis
    proof (cases "f k")
      case (Inr v)
      then show ?thesis using True p f agree
        by (intro wit [where r = "Inr v" and ph = "gr_peerHits g + 1" and pm = "gr_peerMisses g" and lh = "gr_loaderHits g"]) (simp_all add: loadData_def Let_def)
    next
      case (Inl e)
      then obtain s where "f k = Inl (Err s)" using agree by (cases e) auto
      then have run: "loadData env isPeer k g = own (g\<lparr>gr_peerMisses := gr_peerMisses g + 1\<rparr>)"
        using True p f by (simp add: loadData_def Let_def own_def)
      from own [of "g\<lparr>gr_peerMisses := gr_peerMisses g + 1\<rparr>"] obtain lh r
        where "own (g\<lparr>gr_peerMisses := gr_peerMisses g + 1\<rparr>) = (r, g\<lparr>gr_peerMisses := gr_peerMisses g + 1, gr_loaderHits := lh\<rparr>)"
          "case r of Inr v \<Rightarrow> src_getter env k = Inr v | Inl e \<Rightarrow> \<forall>g'. fst (Do (Inl e, g' :: 's group)) = loaded env k" by auto
      then show ?thesis using run by (intro wit [where r = r and ph = "gr_peerHits g" and pm = "gr_peerMisses g + 1" and lh = lh]) simp_all
    qed
  next
    case False
    then have run: "loadData env isPeer k g = own g"
      using p by (cases p; cases a; cases b) (auto simp: loadData_def Let_def own_def)
    from own [of g] obtain lh r where "own g = (r, g\<lparr>gr_loaderHits := lh\<rparr>)"
        "case r of Inr v \<Rightarrow> src_getter env k = Inr v | Inl e \<Rightarrow> \<forall>g'. fst (Do (Inl e, g' :: 's group)) = loaded env k" by blast
    then show ?thesis using run by (intro wit [where r = r and ph = "gr_peerHits g" and pm = "gr_peerMisses g" and lh = lh]) simp_all
  qed
qed

lemma fresh_stats [simp]:
  "fresh env S ttl (g\<lparr>gr_peerHits := a, gr_peerMisses := b, gr_loaderHits := c\<rparr>) = fresh env S ttl g"
  "fresh env S ttl (g\<lparr>gr_loads := a\<rparr>) = fresh env S ttl g"
  "fresh env S ttl (g\<lparr>gr_loads := a, gr_loaderErrors := b\<rparr>) = fresh env S ttl g"
  "fresh env S ttl (g\<lparr>gr_loadsDeduped := a\<rparr>) = fresh env S ttl g"
  "fresh env S ttl (g\<lparr>gr_cache := c1, gr_loadsDeduped := a\<rparr>) = fresh env S ttl (g\<lparr>gr_cache := c1\<rparr>)"
  by (simp_all add: fresh_def)

lemma loaded_Inr: "src_getter env k = Inr v \<Longrightarrow> loaded env k = Inr v"
  by (simp add: loaded_def)

lemma Do_state: "snd (Do x) = snd x"
  by (cases x rule: Do.cases) auto

lemma load_fresh:
  assumes g: "fresh env S ttl g" and env: "peers_agree env" and t: "clock_ok ttl t"
  shows "\<exists>r g'. load ops env t isPeer k g = (r, g') \<and> fresh env S ttl g' \<and> (r = loaded env k \<or> (\<exists>v. S k = Some v \<and> r = Inr v))"
proof -
  from cache_get_fresh [OF g, of "snd t" k] obtain r c where
    c: "ca_Get ops (snd t) k (gr_cache g) = Inr (r, c)" "fresh env S ttl (g\<lparr>gr_cache := c\<rparr>)"
      "\<forall>v. r = Some v \<longrightarrow> src_getter env k = Inr v \<or> S k = Some v" by blast
  have "\<exists>r g'. Do (load_fn ops env t isPeer k g) = (r, g') \<and> fresh env S ttl g' \<and>
      (r = loaded env k \<or> (\<exists>v. S k = Some v \<and> r = Inr v))"
  proof (cases r)
    case (Some b)
    then show ?thesis using c by (auto simp: load_fn_def loaded_Inr)
  next
    case None
    let ?g = "g\<lparr>gr_cache := c, gr_loadsDeduped := gr_loadsDeduped g + 1\<rparr>"
    from loadData_answer [OF env, of isPeer k ?g] obtain ph pm lh x where
      l: "loadData env isPeer k ?g = (x, ?g\<lparr>gr_peerHits := ph, gr_peerMisses := pm, gr_loaderHits := lh\<rparr>)"
        "case x of Inr v \<Rightarrow> src_getter env k = Inr v | Inl e \<Rightarrow> \<forall>g'. fst (Do (Inl e, g' :: 's group)) = loaded env k" by blast
    let ?g1 = "?g\<lparr>gr_peerHits := ph, gr_peerMisses := pm, gr_loaderHits := lh\<rparr>"
    have g1: "fresh env S ttl ?g1" using c(2) by simp
    show ?thesis
    proof (cases x)
      case (Inl e)
      then have "load_fn ops env t isPeer k g = (Inl e, ?g1)" using None c(1) l(1) by (simp add: load_fn_def)
      moreover obtain y z where yz: "Do (Inl e, ?g1) = (y, z)" by (cases "Do (Inl e, ?g1)")
      moreover have "y = loaded env k" "z = ?g1" using l(2) Inl yz Do_state [of "(Inl e, ?g1)"] by (auto dest: spec [of _ ?g1])
      ultimately show ?thesis using g1 by auto
    next
      case (Inr v)
      from store_fresh [OF g1 t, of k S v] Inr l(2) obtain c' where
        "gr_store ops t k v ?g1 = Inr (?g1\<lparr>gr_cache := c'\<rparr>)" "fresh env S ttl (?g1\<lparr>gr_cache := c'\<rparr>)" by auto
      then show ?thesis using None Inr c(1) l by (auto simp: load_fn_def loaded_Inr)
    qed
  qed
  then obtain r1 g1 where d: "Do (load_fn ops env t isPeer k g) = (r1, g1)" "fresh env S ttl g1"
    "r1 = loaded env k \<or> (\<exists>v. S k = Some v \<and> r1 = Inr v)" by blast
  have "\<exists>g'. load ops env t isPeer k g = (r1, g') \<and> fresh env S ttl g'"
    using d(1,2) by (cases r1) (simp_all add: load_def)
  then show ?thesis using d(3) by blast
qed

lemma get_fresh:
  assumes g: "fresh env S ttl g" and env: "peers_agree env" and t: "clock_ok ttl t" and k: "key \<noteq> []"
  shows "\<exists>r g'. gr_Get ops env t isPeer key g = (r, g') \<and> fresh env S ttl g' \<and>
    (r = loaded env key \<or> (\<exists>v. S key = Some v \<and> r = Inr v))"
proof -
  let ?g = "g\<lparr>gr_gets := gr_gets g + 1\<rparr>"
  from cache_get_fresh [OF g, of "snd t" key] obtain r c where
    c: "ca_Get ops (snd t) key (gr_cache g) = Inr (r, c)" "fresh env S ttl (g\<lparr>gr_cache := c\<rparr>)"
      "\<forall>v. r = Some v \<longrightarrow> src_getter env key = Inr v \<or> S key = Some v" by blast
  have o: "\<not> gr_closed g" using g by (simp add: fresh_def)
  show ?thesis
  proof (cases r)
    case (Some b)
    then show ?thesis using c o k by (auto simp: gr_Get_def Let_def fresh_def loaded_Inr)
  next
    case None
    have "fresh env S ttl (?g\<lparr>gr_cache := c, gr_localMisses := gr_localMisses g + 1\<rparr>)" using c(2) by (simp add: fresh_def)
    from load_fresh [OF this env t, of isPeer key] show ?thesis using None c(1) o k by (simp add: gr_Get_def Let_def)
  qed
qed

lemma get_no_panic:
  assumes "r = loaded env k \<or> (\<exists>v. S k = Some v \<and> r = Inr v)"
  shows "r \<noteq> Inl (Panic p)"
  using assms by (auto simp: loaded_def split: sum.splits go_err.splits)

lemma gexec_fresh:
  assumes g: "fresh env S ttl g" and env: "peers_agree env" and x: "gcmd_ok ttl x" "x \<noteq> GClose"
  shows "\<exists>g'. gexec ops env x g = Inr g' \<and> fresh env (set_step x S) ttl g'"
proof (cases x)
  case (GGet t p k)
  show ?thesis
  proof (cases "k = []")
    case True
    then show ?thesis using g by (auto simp: GGet gr_Get_def fresh_def)
  next
    case False
    with get_fresh [OF g env, of t k p] x(1) obtain r g' where "gr_Get ops env t p k g = (r, g')" "fresh env S ttl g'"
      "r = loaded env k \<or> (\<exists>v. S k = Some v \<and> r = Inr v)" by (auto simp: GGet)
    with get_no_panic [of r env k S] show ?thesis by (auto simp: GGet split: sum.splits go_err.splits)
  qed
next
  case (GSet t k v)
  show ?thesis
    using store_fresh [OF g, of t k "S(k \<mapsto> v)" v] g x(1) by (auto simp: GSet gr_Set_def ignore_err_def fresh_def)
next
  case (GDel k)
  from g obtain w where w: "sound (gr_cache g) w" "all_from env S w" by (auto simp: fresh_def)
  have a: "all_from env (S(k := None)) (w(k := None))" using w(2) by (auto simp: all_from_def)
  from sound_exec [OF w(1), of "Del k"] obtain c where
    "rbind (ca_Delete ops k (gr_cache g)) (\<lambda>(_, c). Inr c) = Inr c" and c: "sound c (w(k := None))" by auto
  then obtain r where r: "ca_Delete ops k (gr_cache g) = Inr (r, c)" by (auto simp: res_simps)
  then have "ca_closed c = ca_closed (gr_cache g)"
    by (auto simp: ca_Delete_def on_store_def res_simps split: if_splits option.splits)
  then show ?thesis using g r c a by (auto simp: GDel gr_Delete_def ignore_err_def fresh_def)
next
  case GClear
  from g obtain w where w: "sound (gr_cache g) w" by (auto simp: fresh_def)
  from sound_exec [OF w, of Clear] obtain c where c: "ca_Clear ops (gr_cache g) = Inr c" "sound c Map.empty" by auto
  then have "ca_closed c = ca_closed (gr_cache g)"
    by (auto simp: ca_Clear_def res_simps split: if_splits option.splits)
  moreover have "all_from env Map.empty Map.empty" by (simp add: all_from_def)
  ultimately show ?thesis using g c by (auto simp: GClear gr_Clear_def fresh_def)
qed (use x(2) in simp)

text \<open>After \<^verbatim>\<open>Close\<close> nothing changes any more.\<close>

lemma gexec_closed: "gr_closed g \<Longrightarrow> gexec ops env x g = Inr g"
  by (cases x) (auto simp: gr_Get_def gr_Set_def gr_Delete_def gr_Clear_def gr_Close_def ignore_err_def)

lemma grun_closed: "gr_closed g \<Longrightarrow> rfold (gexec ops env) xs g = Inr g"
  by (induction xs) (simp_all add: gexec_closed)

lemma grun_fresh:
  assumes "fresh env S ttl g" and "peers_agree env" and "\<forall>x \<in> set xs. gcmd_ok ttl x"
  shows "\<exists>g'. rfold (gexec ops env) xs g = Inr g' \<and>
    (if GClose \<in> set xs then gr_closed g' else fresh env (fold set_step xs S) ttl g')"
  using assms
proof (induction xs arbitrary: g S)
  case (Cons x xs)
  show ?case
  proof (cases "x = GClose")
    case True
    have "gr_closed (gr_Close g)" by (simp add: gr_Close_def)
    then show ?thesis using True grun_closed by auto
  next
    case False
    from gexec_fresh [OF Cons.prems(1,2) _ False] Cons.prems(3) obtain g1
      where "gexec ops env x g = Inr g1" "fresh env (set_step x S) ttl g1" by auto
    with Cons.IH [of "set_step x S" g1] Cons.prems(2,3) False show ?thesis by auto
  qed
qed simp

lemma fresh_new: "ok_opts (store_opts o') \<Longrightarrow> fresh env Map.empty ttl (NewGroup o' ttl)"
  using sound_new [of o' Map.empty] by (auto simp: fresh_def NewGroup_def all_from_def NewCache_def)

end

end
