(* ===== verification/Cache_Run.thy ===== *)
theory Cache_Run
  imports Cache_Group "HOL-Library.Code_Target_Nat"
begin

text \<open>
  The properties of the cache library (\<^verbatim>\<open>src/libs/yukino_cache\<close>): the array-linked cache is the textbook
  list, the sharded store keeps its byte budget, a cache never returns a value that was not the last
  one written or that has expired, and a group reads through to its source.  The last section has the
  behaviours at the edges of the machine integers and of the budget.
\<close>

section \<open>The cache is a list\<close>

datatype lop = LPut string "bytes option" int | LDel string | LEvict

fun lop_exec :: "lop \<Rightarrow> cache \<Rightarrow> go_err + cache" where
  "lop_exec (LPut k v e) c = rbind (put k v e c) (\<lambda>(c, _). Inr c)"
| "lop_exec (LDel k) c = drop_key k c"
| "lop_exec LEvict c = rbind (evictOldest c) (\<lambda>(c, _, _). Inr c)"

fun lop_spec :: "nat \<Rightarrow> lop \<Rightarrow> entry list \<Rightarrow> entry list" where
  "lop_spec n (LPut k v e) es = take n ((k, v, e) # filter (\<lambda>x. fst x \<noteq> k) es)"
| "lop_spec n (LDel k) es = filter (\<lambda>x. fst x \<noteq> k) es"
| "lop_spec n LEvict es = butlast es"

fun lop_ok :: "lop \<Rightarrow> bool" where
  "lop_ok (LPut k v e) \<longleftrightarrow> 0 < e"
| "lop_ok _ \<longleftrightarrow> True"

definition listed :: "entry list walker" where
  "listed k v e es = Inr (True, es @ [(k, v, e)])"

lemma visit_listed: "visit listed es acc = Inr (acc @ es)"
proof (induction es arbitrary: acc)
  case (Cons x es)
  then show ?case by (cases x) (simp add: listed_def [of _ _ _ acc])
qed simp

lemma lop_step:
  assumes "holds c n es" and "lop_ok x"
  shows "\<exists>c'. lop_exec x c = Inr c' \<and> holds c' n (lop_spec n x es)"
proof (cases x)
  case (LPut k v e)
  with put_ok [OF assms(1), of e k v] assms(2) show ?thesis by (auto simp: lru_put_def lru_del_def)
next
  case (LDel k)
  with drop_key_ok [OF assms(1), of k] show ?thesis by (auto simp: lru_del_def)
next
  case LEvict
  with evictOldest_ok [OF assms(1)] show ?thesis by auto
qed

lemma lop_run:
  assumes "holds c n es" and "\<forall>x \<in> set xs. lop_ok x"
  shows "\<exists>c'. rfold lop_exec xs c = Inr c' \<and> holds c' n (fold (lop_spec n) xs es)"
  using assms
proof (induction xs arbitrary: c es)
  case (Cons x xs)
  from lop_step [OF Cons.prems(1), of x] Cons.prems(2) obtain c1 where
    "lop_exec x c = Inr c1" "holds c1 n (lop_spec n x es)" by auto
  with Cons.IH [of c1 "lop_spec n x es"] Cons.prems(2) show ?case by simp
qed simp

text \<open>C14: Refinement of the recency list: after any sequence of puts, deletions and evictions on a new
  cache of capacity n, the array of links, the node array and the key map together represent exactly
  the list that an ordinary least-recently-used list of length at most n would be.  No operation
  panics, \<open>walk\<close> visits the live entries from the most recent to the oldest one and ends, and the byte
  counter is the sum of the sizes of the live entries.\<close>

theorem cache_is_lru_list:
  assumes "0 < n" and "n < 65535" and "\<forall>x \<in> set xs. lop_ok x"
  shows "\<exists>c. rfold lop_exec xs (Create n) = Inr c \<and> walk c listed [] = Inr (fold (lop_spec n) xs []) \<and>
    c_bytes c = lru_bytes (fold (lop_spec n) xs []) \<and> length (fold (lop_spec n) xs []) \<le> n"
proof -
  from lop_run [OF Create_ok [OF assms(1,2)] assms(3)] obtain c where
    c: "rfold lop_exec xs (Create n) = Inr c" "holds c n (fold (lop_spec n) xs [])" by blast
  show ?thesis using c walk_ok [OF c(2), of listed "[]"] holds_facts(1) [OF c(2)] holds_length [OF c(2)]
    by (auto simp: visit_listed)
qed

theorem cache_is_lru_list_witness:
  "\<exists>c. rfold lop_exec [LPut ''a'' (Some [1]) 9, LPut ''b'' None 9, LPut ''a'' (Some [2]) 8, LPut ''c'' None 7, LDel ''c''] (Create 2) = Inr c \<and>
     walk c listed [] = Inr [(''a'', Some [2], 8)]"
  using cache_is_lru_list [of 2 "[LPut ''a'' (Some [1]) 9, LPut ''b'' None 9, LPut ''a'' (Some [2]) 8, LPut ''c'' None 7, LDel ''c'']"]
  by simp blast

section \<open>Coherence\<close>

text \<open>C6: Coherence of the cache: start from a new \<open>Cache\<close> over the sharded store and run any sequence of
  writes, reads, deletions, clears, clean-up ticks and closes.  No operation panics, and when a read
  then hits, the value is the one the last write of that key stored, no later deletion or clear
  removed it, and its expiry time lies in the future.  Whatever the order in which Go ranges over its
  sets of keys, and whatever was promoted, evicted or expired on the way.\<close>

theorem cache_coherent:
  assumes "opts_ok (store_opts co)" and "\<forall>x \<in> set xs. in_range x"
  shows "\<exists>c. rfold (exec (lru_ops ord)) xs (NewCache co) = Inr c \<and>
    (\<exists>r c'. ca_Get (lru_ops ord) now key c = Inr (r, c') \<and>
      (\<forall>v. r = Some v \<longrightarrow> (\<exists>e. fold wrote xs Map.empty key = Some (v, e) \<and> now < e)))"
proof -
  have "lru.sound (store_opts co) (NewCache co) Map.empty" by (rule lru.sound_new) (simp add: assms(1))
  from lru.sound_run [OF this assms(2), of ord] obtain c where
    c: "rfold (exec (lru_ops ord)) xs (NewCache co) = Inr c" "lru.sound (store_opts co) c (fold wrote xs Map.empty)" by blast
  from lru.sound_get [OF c(2), of ord now key] show ?thesis using c(1) by blast
qed

theorem cache_coherent_witness:
  "\<exists>c. rfold (exec (lru_ops rev)) [Add 5 ''k'' [1], AddX 0 5 ''k'' [2] 10, Get 6 ''k''] (NewCache \<lparr>co_MaxBytes = 100, co_BucketCount = 2, co_CapPerBucket = 2, co_Level2Cap = 2\<rparr>) = Inr c \<and>
     (\<exists>r c'. ca_Get (lru_ops rev) 9 ''k'' c = Inr (r, c') \<and> (\<forall>v. r = Some v \<longrightarrow> v = [2]))"
  using cache_coherent [of "\<lparr>co_MaxBytes = 100, co_BucketCount = 2, co_CapPerBucket = 2, co_Level2Cap = 2\<rparr>"
    "[Add 5 ''k'' [1], AddX 0 5 ''k'' [2] 10, Get 6 ''k'']" rev 9 "''k''"]
  by (simp add: opts_ok_def store_opts_def time_until_def maxExpireAt_def expire_at_def s64_def) blast

text \<open>C36: The byte budget: after any such sequence of operations the bytes of the live keys and values in
  the store are at most the configured \<open>MaxBytes\<close>, or one byte for each bucket when \<open>MaxBytes\<close> is smaller
  than the number of buckets; and the reported length is the number of distinct live keys.\<close>

theorem cache_budget:
  assumes "opts_ok (store_opts co)" and "\<forall>x \<in> set xs. in_range x" and "0 < co_MaxBytes co"
    and "rfold (exec (lru_ops ord)) xs (NewCache co) = Inr c" and "ca_store c = Some s"
  shows "lru_Bytes s \<le> max (int (length (ls_caches s))) (co_MaxBytes co) \<and>
    (\<exists>m. lru_holds (store_opts co) s m \<and> ca_Len (lru_ops ord) c = Inr (card (dom m)))"
proof -
  have "lru.sound (store_opts co) (NewCache co) Map.empty" by (rule lru.sound_new) (simp add: assms(1))
  from lru.sound_run [OF this assms(2), of ord] assms(4) have c: "lru.sound (store_opts co) c (fold wrote xs Map.empty)" by simp
  then obtain m where m: "lru_holds (store_opts co) s m" and i: "ca_initialized c" "\<not> ca_closed c"
    using assms(5) unfolding lru.sound_def by auto
  from m obtain n0 n1 L where L: "st_ok n0 n1 s L" by (rule lru_holdsE)
  define N where "N = length (ls_caches s)"
  define M where "M = ls_maxBucketBytes s"
  have b: "M > 0" "N * nat M \<le> max N (nat (co_MaxBytes co))"
    using m assms(3) by (auto simp: lru_holds_def store_opts_def N_def M_def)
  have "lru_Bytes s \<le> int N * M" using st_Bytes_ok(2) [OF L] b(1) by (simp add: N_def M_def)
  also have "int N * M = int (N * nat M)" using b(1) by simp
  also have "\<dots> \<le> int (max N (nat (co_MaxBytes co)))" using b(2) by (simp only: of_nat_le_iff)
  also have "\<dots> = max (int N) (co_MaxBytes co)" using assms(3) by (simp add: of_nat_max)
  finally show ?thesis
    using lru.len_law [OF m, of ord] m i assms(5) by (auto simp: N_def ca_Len_def)
qed

lemma new_small:
  "NewStore \<lparr>so_MaxBytes = 100, so_BucketCount = 1, so_CapPerBucket = 2, so_Level2Cap = 2\<rparr> =
     Inr \<lparr>ls_caches = [(Create 2, Create 2)], ls_maxBucketBytes = 100, ls_mask = 0, ls_closed = False\<rparr>"
  by (simp add: NewStore_def Let_def MaskOfNextPowOf2_def)

text \<open>With one bucket every key lives there.\<close>

lemma with_one_bucket:
  "ls_mask s = 0 \<Longrightarrow> ls_caches s = [b] \<Longrightarrow>
     with_bucket key f s = rbind (f b) (\<lambda>(r, b', out). Inr (r, s\<lparr>ls_caches := [b']\<rparr>, out))"
  by (simp add: with_bucket_def bucket_of_def)

theorem cache_budget_witness:
  "\<exists>c s. rfold (exec (lru_ops rev)) [Add 5 ''k'' [1]] (NewCache \<lparr>co_MaxBytes = 100, co_BucketCount = 1, co_CapPerBucket = 2, co_Level2Cap = 2\<rparr>) = Inr c \<and>
     ca_store c = Some s \<and> lru_Bytes s \<le> max (int (length (ls_caches s))) 100"
proof -
  let ?co = "\<lparr>co_MaxBytes = 100, co_BucketCount = 1, co_CapPerBucket = 2, co_Level2Cap = 2\<rparr>"
  have "case bucket_Set 100 ''k'' (Some [1]) maxExpireAt (Create 2, Create 2) of Inl _ \<Rightarrow> False | Inr _ \<Rightarrow> True" by code_simp
  then obtain b out where b: "bucket_Set 100 ''k'' (Some [1]) maxExpireAt (Create 2, Create 2) = Inr ((), b, out)"
    by (auto split: sum.splits)
  let ?s = "\<lparr>ls_caches = [b], ls_maxBucketBytes = 100, ls_mask = 0, ls_closed = False\<rparr>"
  let ?c = "\<lparr>ca_store = Some ?s, ca_opts = ?co, ca_hits = 0, ca_misses = 0, ca_initialized = True, ca_closed = False\<rparr>"
  have c: "rfold (exec (lru_ops rev)) [Add 5 ''k'' [1]] (NewCache ?co) = Inr ?c"
    by (simp add: ca_Add_def NewCache_def ensureInitialized_def lru_ops_def store_opts_def new_small on_store_def lru_Set_def
      SetWithExpiration_def with_one_bucket expire_at_def b)
  have o: "opts_ok (store_opts ?co)" by (simp add: opts_ok_def store_opts_def)
  show ?thesis using cache_budget [OF o _ _ c, of ?s] c by (intro exI [of _ ?c] exI [of _ ?s]) simp
qed

text \<open>C35: A write is read back: a value that fits into its bucket beside the promoted entries is returned by
  the next read of its key, at every time before its expiry, whatever entries the write evicted.\<close>

theorem cache_set_get:
  assumes "lru_holds o' s m" and "0 < expire_at now d"
    and "ls_maxBucketBytes s \<le> 0 \<or> entryBytes key v + c_bytes (snd (ls_caches s ! home s key)) \<le> ls_maxBucketBytes s"
    and "now' < expire_at now d"
  shows "\<exists>s' out s'' out'. SetWithExpiration now key v d s = Inr ((), s', out) \<and>
    lru_Get now' key s' = Inr (Some v, s'', out')"
proof -
  from assms(1) obtain n0 n1 L where L: "st_ok n0 n1 s L" by (rule lru_holdsE)
  from st_Set_ok [OF L assms(2), of key v] assms(3) obtain s' L' out where
    s': "SetWithExpiration now key v d s = Inr ((), s', out)" "st_ok n0 n1 s' L'" "st_map s' L' key = Some (v, expire_at now d)"
    by blast
  from st_Get_ok [OF s'(2), of now' key] s'(1,3) assms(4) show ?thesis by auto
qed

theorem cache_set_get_witness:
  "\<exists>s s' out s'' out'. NewStore \<lparr>so_MaxBytes = 100, so_BucketCount = 1, so_CapPerBucket = 2, so_Level2Cap = 2\<rparr> = Inr s \<and>
     SetWithExpiration 5 ''k'' (Some [1, 2]) 10 s = Inr ((), s', out) \<and> lru_Get 9 ''k'' s' = Inr (Some (Some [1, 2]), s'', out')"
proof -
  let ?o = "\<lparr>so_MaxBytes = 100, so_BucketCount = 1, so_CapPerBucket = 2, so_Level2Cap = 2\<rparr>"
  let ?s = "\<lparr>ls_caches = [(Create 2, Create 2)], ls_maxBucketBytes = 100, ls_mask = 0, ls_closed = False\<rparr>"
  have "opts_ok ?o" by (simp add: opts_ok_def)
  then have h: "lru_holds ?o ?s Map.empty" using lru.new_law [of ?o ?o] by (simp add: lru_ops_def new_small)
  have "entryBytes ''k'' (Some [1, 2]) + c_bytes (snd (ls_caches ?s ! home ?s ''k'')) \<le> ls_maxBucketBytes ?s"
    by (simp add: home_def bucket_of_def entryBytes_def Create_def)
  with cache_set_get [OF h, of 5 10 "''k''" "Some [1, 2]" 9] show ?thesis
    by (simp add: new_small expire_at_def s64_def)
qed

section \<open>Reading through\<close>

text \<open>C34: Read-through: take any history of reads, writes, deletions, clears and closes of a group, whose peers,
  when they answer, answer what the getter returns.  A read after it returns: the error \<^verbatim>\<open>cache group is
  closed\<close> when the group was closed, \<^verbatim>\<open>key is required\<close> for the empty key, and otherwise what the getter
  returns for the key (its error or panic as an error) or, when a value was written under the key and not
  deleted or cleared since, that value or what the getter returns.  No step panics, and reads of an open
  group are counted as local hits or local misses.\<close>

theorem cache_read_through:
  assumes "opts_ok (store_opts co)" and "peers_agree env" and "\<forall>x \<in> set xs. gcmd_ok ttl x" and "clock_ok ttl t"
  shows "\<exists>g r g'. rfold (gexec (lru_ops ord) env) xs (NewGroup co ttl) = Inr g \<and>
    gr_Get (lru_ops ord) env t isPeer key g = (r, g') \<and>
    (if GClose \<in> set xs then r = Inl (Err ''cache group is closed'')
     else if key = [] then r = Inl (Err ''key is required'')
     else (r = loaded env key \<or> (\<exists>v. last_set xs key = Some v \<and> r = Inr v)) \<and>
       gr_gets g' = gr_localHits g' + gr_localMisses g')"
proof -
  have "lru.fresh (store_opts co) env Map.empty ttl (NewGroup co ttl)" by (rule lru.fresh_new) (simp add: assms(1))
  from lru.grun_fresh [OF this assms(2,3), of ord] obtain g where
    g: "rfold (gexec (lru_ops ord) env) xs (NewGroup co ttl) = Inr g"
      "if GClose \<in> set xs then gr_closed g else lru.fresh (store_opts co) env (last_set xs) ttl g" by (auto simp: last_set_def)
  show ?thesis
  proof (cases "GClose \<in> set xs \<or> key = []")
    case True
    then show ?thesis using g by (intro exI [of _ g] exI [of _ "fst (gr_Get (lru_ops ord) env t isPeer key g)"] exI [of _ g])
      (auto simp: gr_Get_def lru.fresh_def split: if_splits)
  next
    case False
    with g(2) lru.get_fresh [OF _ assms(2,4), of "store_opts co" "last_set xs" g key ord isPeer] obtain r g' where
      "gr_Get (lru_ops ord) env t isPeer key g = (r, g')" "lru.fresh (store_opts co) env (last_set xs) ttl g'"
      "r = loaded env key \<or> (\<exists>v. last_set xs key = Some v \<and> r = Inr v)" by auto
    then show ?thesis using g(1) False by (auto simp: lru.fresh_def)
  qed
qed

text \<open>A getter that knows every key but one, and peers that are down; the key it does not know is written.\<close>

definition demo_env :: source where
  "demo_env = \<lparr>src_getter = \<lambda>k. if k = ''no'' then Inl (Err ''not found'') else Inr [of_nat (length k)],
     src_peer = \<lambda>k. (Some (\<lambda>_. Inl (Err ''down'')), True, False), src_has_peers = True\<rparr>"

definition demo_cache_opts :: CacheOptions where
  "demo_cache_opts = \<lparr>co_MaxBytes = 100, co_BucketCount = 1, co_CapPerBucket = 2, co_Level2Cap = 2\<rparr>"

theorem cache_read_through_witness:
  "\<exists>g r g'. rfold (gexec (lru_ops rev) demo_env)
       [GGet (3, 2) False ''ab'', GSet (4, 4) ''no'' [1], GDel ''ab''] (NewGroup demo_cache_opts 7) = Inr g \<and>
     gr_Get (lru_ops rev) demo_env (9, 9) False ''no'' g = (r, g') \<and>
     r \<in> {Inr [1], Inl (Err ''failed to get data: not found'')}"
proof -
  let ?xs = "[GGet (3, 2) False ''ab'', GSet (4, 4) ''no'' [1], GDel ''ab'']"
  have "opts_ok (store_opts demo_cache_opts)" "peers_agree demo_env" "\<forall>x \<in> set ?xs. gcmd_ok 7 x" "clock_ok 7 (9, 9)"
    by (simp_all add: opts_ok_def store_opts_def demo_cache_opts_def peers_agree_def demo_env_def clock_ok_def maxExpireAt_def)
  from cache_read_through [OF this, of rev False "''no''"] obtain g r g' where
    "rfold (gexec (lru_ops rev) demo_env) ?xs (NewGroup demo_cache_opts 7) = Inr g"
    "gr_Get (lru_ops rev) demo_env (9, 9) False ''no'' g = (r, g')"
    "r = loaded demo_env ''no'' \<or> (\<exists>v. last_set ?xs ''no'' = Some v \<and> r = Inr v)" by auto
  moreover have "loaded demo_env ''no'' = Inl (Err ''failed to get data: not found'')" "last_set ?xs ''no'' = Some [1]"
    by (simp_all add: loaded_def demo_env_def last_set_def)
  ultimately show ?thesis by auto
qed

section \<open>At the edges\<close>

text \<open>A time to live of more than about 238 years carries the expiry time past \<^verbatim>\<open>int64\<close>: the entry is dead
  from the start, yet its bytes are counted and never given back.\<close>

lemma long_ttl_lost:
  "rbind (bucket_Set 100 ''k'' (Some [1]) (expire_at 1700000000000000000 9223372036854775807) (Create 2, Create 2)) (\<lambda>(_, b, _).
   rbind (bucket_Get 1700000000000000001 ''k'' b) (\<lambda>(r, b, _). rbind (bucket_delete ''k'' b) (\<lambda>(d, b, _).
   Inr (r, d, c_bytes (fst b) + c_bytes (snd b))))) = Inr (None, False, 2)"
  by code_simp

text \<open>When promoted entries fill the budget, a write evicts the very entry it stored.\<close>

lemma set_evicts_itself:
  "rbind (bucket_Set 10 ''a'' (Some [0, 0, 0, 0, 0, 0, 0]) maxExpireAt (Create 4, Create 4)) (\<lambda>(_, b, _).
   rbind (bucket_Get 2 ''a'' b) (\<lambda>(_, b, _). rbind (bucket_Set 10 ''b'' (Some [1, 1, 1]) maxExpireAt b) (\<lambda>(_, b, out).
   rbind (bucket_Get 4 ''b'' b) (\<lambda>(r, b, _). Inr (r, out))))) = Inr (None, [(''b'', Some [1, 1, 1])])"
  by code_simp

text \<open>More than 32768 buckets wrap the number of buckets to 0.\<close>

lemma too_many_buckets:
  "NewStore \<lparr>so_MaxBytes = 100, so_BucketCount = 40000, so_CapPerBucket = 2, so_Level2Cap = 2\<rparr> =
     Inl (Panic ''integer divide by zero'')"
  by (simp add: NewStore_def Let_def MaskOfNextPowOf2_def drop_bit_eq_div)

end
