(* ===== verification/RPC_Balance.thy ===== *)
theory RPC_Balance
  imports Go_Prelude
begin

text \<open>
  The client-side selection of the RPC library: the three load balancers of
  \<^verbatim>\<open>internal/load_balance\<close> and the token bucket of \<^verbatim>\<open>internal/limiter\<close>.  An
  instance list is a list of any type; \<^verbatim>\<open>registry.Instance{}\<close>, the zero value a balancer
  returns when it has no choice, is \<open>None\<close>.  Weights are Go's 64-bit \<^verbatim>\<open>int\<close>s; they are
  modelled as unbounded integers, which agrees with the code as long as no weight sum reaches
  \<open>2 ^ 63\<close>.
\<close>

section \<open>Round robin and random choice\<close>

record RoundRobin =
  rr_idx :: nat

definition NewRR :: RoundRobin where
  "NewRR = \<lparr> rr_idx = 0 \<rparr>"

definition rr_Select :: "'a list \<Rightarrow> RoundRobin \<Rightarrow> 'a option \<times> RoundRobin" where
  "rr_Select list r =
     (if list = [] then (None, r)
      else let i = add64 (rr_idx r) 1
           in (Some (list ! (sub64 i 1 mod length list)), r\<lparr>rr_idx := i\<rparr>))"

text \<open>The random source is a parameter: \<open>intn n\<close> is the next value of \<^verbatim>\<open>Rand.Intn(n)\<close>.\<close>

definition random_Select :: "(nat \<Rightarrow> nat) \<Rightarrow> 'a list \<Rightarrow> 'a option" where
  "random_Select intn list = (if list = [] then None else Some (list ! intn (length list)))"

section \<open>Smooth weighted round robin\<close>

record WeightedRR =
  wr_weights :: "int list"
  wr_currentWeight :: "int list"
  wr_totalWeight :: int

definition NewWeightedRR :: "int list \<Rightarrow> WeightedRR" where
  "NewWeightedRR weights =
     (let ws = map (\<lambda>wt. if wt < 0 then 0 else wt) weights
      in \<lparr> wr_weights = ws, wr_currentWeight = replicate (length weights) 0,
           wr_totalWeight = fold (\<lambda>wt total. total + wt) ws 0 \<rparr>)"

text \<open>One round of the loop: raise the current weight of \<open>i\<close>, keep the first maximum.\<close>

definition wr_raise :: "int list \<Rightarrow> nat \<Rightarrow> int list \<times> nat option \<Rightarrow> int list \<times> nat option" where
  "wr_raise ws i s =
     (case s of (cur, maxIdx) \<Rightarrow>
        let cur' = cur[i := cur ! i + ws ! i]
        in (cur', case maxIdx of None \<Rightarrow> Some i
                  | Some m \<Rightarrow> if cur' ! i > cur' ! m then Some i else Some m))"

text \<open>With a non-empty list the loop always finds an index, so the branch without one does not occur.\<close>

definition wr_Select :: "'a list \<Rightarrow> WeightedRR \<Rightarrow> 'a option \<times> WeightedRR" where
  "wr_Select list w =
     (if list = [] then (None, w)
      else if length list \<noteq> length (wr_weights w) then (None, w)
      else if wr_totalWeight w \<le> 0 then (None, w)
      else case fold (wr_raise (wr_weights w)) [0..<length list] (wr_currentWeight w, None) of
             (cur, None) \<Rightarrow> (None, w)
           | (cur, Some m) \<Rightarrow>
               (Some (list ! m), w\<lparr>wr_currentWeight := cur[m := cur ! m - wr_totalWeight w]\<rparr>))"

fun wr_run :: "nat \<Rightarrow> 'a list \<Rightarrow> WeightedRR \<Rightarrow> 'a option list \<times> WeightedRR" where
  "wr_run 0 list w = ([], w)"
| "wr_run (Suc t) list w =
     (case wr_run t list w of (picks, w') \<Rightarrow>
        case wr_Select list w' of (x, w'') \<Rightarrow> (picks @ [x], w''))"

section \<open>Token bucket\<close>

text \<open>Events of the bucket: a call of \<^verbatim>\<open>Allow\<close> or a tick of the refill goroutine.\<close>

record TokenBucket =
  tb_tokens :: int
  tb_rate :: int

datatype tb_event = TAllow | TTick

definition NewTokenBucket :: "int \<Rightarrow> TokenBucket" where
  "NewTokenBucket rate = (let r = if rate < 0 then 0 else rate in \<lparr> tb_tokens = r, tb_rate = r \<rparr>)"

definition tb_Allow :: "TokenBucket \<Rightarrow> bool \<times> TokenBucket" where
  "tb_Allow tb = (if tb_tokens tb > 0 then (True, tb\<lparr>tb_tokens := tb_tokens tb - 1\<rparr>) else (False, tb))"

definition tb_tick :: "TokenBucket \<Rightarrow> TokenBucket" where
  "tb_tick tb = tb\<lparr>tb_tokens := tb_rate tb\<rparr>"

fun tb_run :: "tb_event list \<Rightarrow> TokenBucket \<Rightarrow> nat \<times> TokenBucket" where
  "tb_run [] tb = (0, tb)"
| "tb_run (TTick # es) tb = tb_run es (tb_tick tb)"
| "tb_run (TAllow # es) tb =
     (case tb_Allow tb of (ok, tb') \<Rightarrow>
        case tb_run es tb' of (n, tb'') \<Rightarrow> (n + (if ok then 1 else 0), tb''))"

section \<open>Facts on round robin\<close>

lemma sub64_add64_1: "i < U64 \<Longrightarrow> sub64 (add64 i 1) 1 = i"
proof -
  assume i: "i < U64"
  consider "i + 1 < U64" | "i + 1 = U64" using i by linarith
  then show ?thesis
    by cases (use i in \<open>auto simp: sub64_def add64_def\<close>)
qed

lemma rr_Select_next:
  "list \<noteq> [] \<Longrightarrow> rr_idx r < U64 \<Longrightarrow>
   rr_Select list r = (Some (list ! (rr_idx r mod length list)), \<lparr> rr_idx = add64 (rr_idx r) 1 \<rparr>)"
  by (cases r) (use sub64_add64_1 [of "rr_idx r"] in \<open>simp add: rr_Select_def Let_def\<close>)

lemma random_Select_in: "list \<noteq> [] \<Longrightarrow> (\<And>n. 0 < n \<Longrightarrow> intn n < n) \<Longrightarrow> \<exists>x \<in> set list. random_Select intn list = Some x"
  by (simp add: random_Select_def)

section \<open>Facts on the token bucket\<close>

definition tb_ok :: "TokenBucket \<Rightarrow> bool" where
  "tb_ok tb \<longleftrightarrow> 0 \<le> tb_tokens tb \<and> tb_tokens tb \<le> tb_rate tb"

lemma NewTokenBucket_ok: "tb_ok (NewTokenBucket rate)"
  by (simp add: tb_ok_def NewTokenBucket_def Let_def)

lemma tb_Allow_ok: "tb_ok tb \<Longrightarrow> tb_ok (snd (tb_Allow tb)) \<and> tb_rate (snd (tb_Allow tb)) = tb_rate tb"
  by (simp add: tb_ok_def tb_Allow_def)

text \<open>With \<open>k\<close> refills a sequence of calls is admitted at most \<open>tokens + k * rate\<close> times.\<close>

lemma tb_run_bound:
  "tb_ok tb \<Longrightarrow>
   int (fst (tb_run es tb)) \<le> tb_tokens tb + int (length (filter (\<lambda>e. e = TTick) es)) * tb_rate tb \<and>
   tb_ok (snd (tb_run es tb)) \<and> tb_rate (snd (tb_run es tb)) = tb_rate tb"
proof (induction es arbitrary: tb)
  case Nil
  then show ?case by (simp add: tb_ok_def)
next
  case (Cons e es)
  show ?case
  proof (cases e)
    case TTick
    with Cons.prems Cons.IH [of "tb_tick tb"] show ?thesis
      by (simp add: tb_ok_def tb_tick_def algebra_simps)
  next
    case TAllow
    with Cons.prems Cons.IH [of "tb\<lparr>tb_tokens := tb_tokens tb - 1\<rparr>"] Cons.IH [of tb] show ?thesis
      by (auto simp: tb_ok_def tb_Allow_def split: prod.splits)
  qed
qed

section \<open>Fairness of the weighted round robin\<close>

lemma wr_raise_fold:
  assumes "length cur = n" "length ws = n" "k \<le> n"
  shows "\<exists>mx. fold (wr_raise ws) [0..<k] (cur, None)
           = (map (\<lambda>j. if j < k then cur ! j + ws ! j else cur ! j) [0..<n], mx) \<and>
         (case mx of None \<Rightarrow> k = 0 | Some m \<Rightarrow> m < k \<and> (\<forall>j < k. cur ! j + ws ! j \<le> cur ! m + ws ! m))"
  using assms(3)
proof (induction k)
  case 0
  then show ?case using assms(1) by (auto intro: nth_equalityI)
next
  case (Suc k)
  then obtain mx where IH: "fold (wr_raise ws) [0..<k] (cur, None)
        = (map (\<lambda>j. if j < k then cur ! j + ws ! j else cur ! j) [0..<n], mx)"
      "case mx of None \<Rightarrow> k = 0 | Some m \<Rightarrow> m < k \<and> (\<forall>j < k. cur ! j + ws ! j \<le> cur ! m + ws ! m)"
    by auto
  have upd: "(map (\<lambda>j. if j < k then cur ! j + ws ! j else cur ! j) [0..<n])[k := cur ! k + ws ! k]
      = map (\<lambda>j. if j < Suc k then cur ! j + ws ! j else cur ! j) [0..<n]"
    using Suc.prems by (intro nth_equalityI) (auto simp: nth_list_update)
  have step: "fold (wr_raise ws) [0..<Suc k] (cur, None)
      = (map (\<lambda>j. if j < Suc k then cur ! j + ws ! j else cur ! j) [0..<n],
         case mx of None \<Rightarrow> Some k | Some m \<Rightarrow> if cur ! k + ws ! k > cur ! m + ws ! m then Some k else Some m)"
    using IH Suc.prems upd by (auto simp: wr_raise_def Let_def split: option.splits)
  show ?case
    unfolding step using IH(2) Suc.prems by (auto simp: less_Suc_eq split: option.splits)
qed

text \<open>The state after \<open>t\<close> selections, in terms of how often each instance was chosen.\<close>

definition wr_inv :: "int list \<Rightarrow> 'a list \<Rightarrow> nat \<Rightarrow> 'a option list \<Rightarrow> WeightedRR \<Rightarrow> bool" where
  "wr_inv ws list t picks w \<longleftrightarrow>
     wr_weights w = ws \<and> wr_totalWeight w = sum_list ws \<and> length (wr_currentWeight w) = length ws \<and>
     length picks = t \<and> set picks \<subseteq> Some ` set list \<and>
     (\<forall>i < length ws. wr_currentWeight w ! i = int t * ws ! i - sum_list ws * int (count_list picks (Some (list ! i))) \<and>
                      wr_currentWeight w ! i > - sum_list ws)"

lemma count_list_sum:
  assumes "distinct list" "set picks \<subseteq> Some ` set list"
  shows "(\<Sum>i < length list. count_list picks (Some (list ! i))) = length picks"
proof -
  have "(\<Sum>i < length list. count_list picks (Some (list ! i))) = (\<Sum>x \<in> set list. count_list picks (Some x))"
    using assms(1) by (simp add: sum.distinct_set_conv_list interv_sum_list_conv_sum_set_nat
        sum_list_sum_nth atLeast0LessThan)
  also have "... = (\<Sum>y \<in> Some ` set list. count_list picks y)"
    by (simp add: sum.reindex)
  also have "... = (\<Sum>y \<in> set picks. count_list picks y)"
    using assms(2) by (intro sum.mono_neutral_right) (auto simp: count_notin)
  finally show ?thesis by (simp add: sum_count_set)
qed

lemma wr_Select_step:
  assumes inv: "wr_inv ws list t picks w" and len: "length list = length ws" and d: "distinct list"
    and pos: "sum_list ws > 0" and w0: "\<forall>x \<in> set ws. 0 \<le> x"
  shows "\<exists>m < length ws. wr_inv ws list (Suc t) (picks @ [Some (list ! m)]) (snd (wr_Select list w)) \<and>
           fst (wr_Select list w) = Some (list ! m)"
proof -
  let ?c = "wr_currentWeight w" and ?n = "length ws" and ?T = "sum_list ws"
  let ?cnt = "\<lambda>i. int (count_list picks (Some (list ! i)))"
  have c: "?c ! i = int t * ws ! i - ?T * ?cnt i" "?c ! i > - ?T" if "i < ?n" for i
    using inv that by (auto simp: wr_inv_def)
  have n0: "0 < ?n" using pos by (cases ws) auto
  obtain mx where mx: "fold (wr_raise ws) [0..<?n] (?c, None)
        = (map (\<lambda>j. if j < ?n then ?c ! j + ws ! j else ?c ! j) [0..<?n], mx)"
      "case mx of None \<Rightarrow> ?n = 0 | Some m \<Rightarrow> m < ?n \<and> (\<forall>j < ?n. ?c ! j + ws ! j \<le> ?c ! m + ws ! m)"
    using wr_raise_fold [of ?c ?n ws ?n] inv by (auto simp: wr_inv_def)
  then obtain m where m: "mx = Some m" "m < ?n" and best: "\<And>j. j < ?n \<Longrightarrow> ?c ! j + ws ! j \<le> ?c ! m + ws ! m"
    using n0 by (auto split: option.splits)
  let ?c' = "(map (\<lambda>j. ?c ! j + ws ! j) [0..<?n])[m := ?c ! m + ws ! m - ?T]"
  have sel: "wr_Select list w = (Some (list ! m), w\<lparr>wr_currentWeight := ?c'\<rparr>)"
  proof -
    have "map (\<lambda>j. if j < ?n then ?c ! j + ws ! j else ?c ! j) [0..<?n] = map (\<lambda>j. ?c ! j + ws ! j) [0..<?n]"
      by simp
    then have "fold (wr_raise ws) [0..<?n] (?c, None) = (map (\<lambda>j. ?c ! j + ws ! j) [0..<?n], Some m)"
      using mx(1) m(1) by simp
    moreover have "list \<noteq> []" "wr_weights w = ws" "wr_totalWeight w = ?T"
      using inv len n0 by (auto simp: wr_inv_def)
    ultimately show ?thesis
      using len pos m(2) by (simp add: wr_Select_def)
  qed
  have sumc: "(\<Sum>i < ?n. ?c ! i) = 0"
  proof -
    have "(\<Sum>i < ?n. ?c ! i) = int t * (\<Sum>i < ?n. ws ! i) - ?T * (\<Sum>i < ?n. ?cnt i)"
      using c(1) by (simp add: sum_subtractf sum_distrib_left)
    also have "(\<Sum>i < ?n. ?cnt i) = int t"
      using count_list_sum [OF d, of picks] inv len by (simp add: wr_inv_def flip: of_nat_sum)
    finally show ?thesis by (simp add: sum_list_sum_nth atLeast0LessThan)
  qed
  have "0 < ?c ! m + ws ! m"
  proof (rule ccontr)
    assume neg: "\<not> 0 < ?c ! m + ws ! m"
    have "?T = (\<Sum>i < ?n. ?c ! i + ws ! i)"
      using sumc by (simp add: sum.distrib sum_list_sum_nth atLeast0LessThan)
    also have "... \<le> (\<Sum>i < ?n. 0)"
      using best neg by (intro sum_mono) force
    finally show False using pos by simp
  qed
  then have low: "?c' ! i > - ?T" if "i < ?n" for i
    using that c(2) [OF that] w0 [rule_format, OF nth_mem [OF that]] m by (auto simp: nth_list_update)
  have "?c' ! i = int (Suc t) * ws ! i - ?T * int (count_list (picks @ [Some (list ! m)]) (Some (list ! i)))"
    if "i < ?n" for i
    using that c(1) [OF that] m d len by (auto simp: nth_list_update nth_eq_iff_index_eq algebra_simps)
  with low have "wr_inv ws list (Suc t) (picks @ [Some (list ! m)]) (w\<lparr>wr_currentWeight := ?c'\<rparr>)"
    using inv m len by (auto simp: wr_inv_def)
  with sel m show ?thesis by auto
qed

lemma NewWeightedRR_total:
  "wr_totalWeight (NewWeightedRR weights) = sum_list (wr_weights (NewWeightedRR weights))"
  "length (wr_weights (NewWeightedRR weights)) = length weights"
  "length (wr_currentWeight (NewWeightedRR weights)) = length weights"
  "\<forall>x \<in> set (wr_weights (NewWeightedRR weights)). 0 \<le> x"
  by (auto simp: NewWeightedRR_def Let_def fold_plus_sum_list_rev add.commute cong: fold_cong)

lemma wr_run_inv:
  assumes "length list = length weights" "distinct list" "sum_list (wr_weights (NewWeightedRR weights)) > 0"
  shows "wr_inv (wr_weights (NewWeightedRR weights)) list t (fst (wr_run t list (NewWeightedRR weights)))
           (snd (wr_run t list (NewWeightedRR weights)))"
proof (induction t)
  case 0
  then show ?case
    using assms by (auto simp: wr_inv_def NewWeightedRR_total) (auto simp: NewWeightedRR_def Let_def)
next
  case (Suc t)
  obtain picks w where r: "wr_run t list (NewWeightedRR weights) = (picks, w)" by (cases "wr_run t list (NewWeightedRR weights)")
  from wr_Select_step [OF Suc.IH _ assms(2,3)] assms(1) r
  show ?case by (auto simp: NewWeightedRR_total split: prod.splits)
qed

lemma sum_le_eq:
  fixes f g :: "nat \<Rightarrow> int"
  assumes "\<And>i. i < n \<Longrightarrow> f i \<le> g i" "(\<Sum>i < n. f i) = (\<Sum>i < n. g i)" "i < n"
  shows "f i = g i"
proof -
  have "(\<Sum>i < n. g i - f i) = 0" using assms(2) by (simp add: sum_subtractf)
  then have "\<forall>i \<in> {..<n}. g i - f i = 0"
    using assms(1) by (subst (asm) sum_nonneg_eq_0_iff) auto
  with assms(3) show ?thesis by simp
qed

text \<open>The picks of a state within the invariant, one by one and over whole cycles.\<close>

lemma wr_inv_share:
  assumes inv: "wr_inv ws list t picks w" and len: "length ws = length list"
  shows "\<exists>xs. picks = map Some xs \<and> length xs = t \<and> set xs \<subseteq> set list \<and>
           (\<forall>i < length list. sum_list ws * int (count_list xs (list ! i)) < int t * ws ! i + sum_list ws)"
proof -
  define xs where "xs = map the picks"
  have sub: "set picks \<subseteq> Some ` set list" "length picks = t" using inv by (auto simp: wr_inv_def)
  then have "\<forall>y \<in> set picks. Some (the y) = y" by auto
  then have p: "picks = map Some xs" unfolding xs_def by (simp add: map_idI)
  have "count_list (map Some xs) (Some x) = count_list xs x" for x by (induction xs) auto
  then have "\<forall>i < length list. sum_list ws * int (count_list xs (list ! i)) < int t * ws ! i + sum_list ws"
    using inv p len by (auto simp: wr_inv_def)
  with p sub show ?thesis by (intro exI [of _ xs]) auto
qed

lemma wr_inv_cycle:
  assumes inv: "wr_inv ws list t picks w" and len: "length ws = length list" and d: "distinct list"
    and pos: "sum_list ws > 0" and t: "int t = int k * sum_list ws" and i: "i < length list"
  shows "int (count_list picks (Some (list ! i))) = int k * ws ! i \<and> wr_currentWeight w ! i = 0"
proof -
  let ?n = "\<lambda>j. int (count_list picks (Some (list ! j)))"
  have cur: "wr_currentWeight w ! j = int k * sum_list ws * ws ! j - sum_list ws * ?n j" "wr_currentWeight w ! j > - sum_list ws"
    if "j < length list" for j
    using inv that len t by (auto simp: wr_inv_def)
  have le: "?n j \<le> int k * ws ! j" if "j < length list" for j
  proof -
    have "sum_list ws * (?n j - int k * ws ! j - 1) < 0" using cur [OF that] by (simp add: algebra_simps)
    then show ?thesis using pos by (simp add: mult_less_0_iff)
  qed
  have "(\<Sum>j < length list. ?n j) = int t"
    using count_list_sum [OF d, of picks] inv by (simp add: wr_inv_def flip: of_nat_sum)
  also have "... = (\<Sum>j < length list. int k * ws ! j)"
    unfolding t by (simp add: sum_list_sum_nth atLeast0LessThan len sum_distrib_left)
  finally have "?n i = int k * ws ! i"
    using sum_le_eq [where f = ?n and g = "\<lambda>j. int k * ws ! j", OF le _ i] by blast
  with cur(1) [OF i] show ?thesis by simp
qed

text \<open>C17: The smooth weighted round robin of \<^verbatim>\<open>WeightedRR.Select\<close> is fair.  Started
  from \<^verbatim>\<open>NewWeightedRR(weights)\<close> on a list of as many different instances, negative weights counting
  as zero and their total \<open>T\<close> positive, it always returns an instance; after any number \<open>t\<close> of
  selections no instance has been chosen as much as one time more than its share \<open>t * weight / T\<close>;
  and after every full cycle of \<open>k * T\<close> selections instance \<open>i\<close> has been chosen exactly
  \<open>k * weight\<close> times and all current weights are back to zero.\<close>

theorem wrr_fair:
  fixes weights :: "int list" and list :: "'a list"
  defines "ws \<equiv> wr_weights (NewWeightedRR weights)"
  defines "T \<equiv> wr_totalWeight (NewWeightedRR weights)"
  assumes len: "length list = length weights" and d: "distinct list" and pos: "T > 0"
  shows "(\<forall>t. \<exists>xs. fst (wr_run t list (NewWeightedRR weights)) = map Some xs \<and> length xs = t \<and> set xs \<subseteq> set list \<and>
              (\<forall>i < length list. T * int (count_list xs (list ! i)) < int t * ws ! i + T)) \<and>
         (\<forall>k. \<forall>i < length list.
              int (count_list (fst (wr_run (k * nat T) list (NewWeightedRR weights))) (Some (list ! i))) = int k * ws ! i \<and>
              wr_currentWeight (snd (wr_run (k * nat T) list (NewWeightedRR weights))) ! i = 0)"
proof -
  have T: "T = sum_list ws" by (simp add: T_def ws_def NewWeightedRR_total)
  have lw: "length ws = length list" by (simp add: ws_def NewWeightedRR_total len)
  have inv: "wr_inv ws list t (fst (wr_run t list (NewWeightedRR weights))) (snd (wr_run t list (NewWeightedRR weights)))" for t
    unfolding ws_def by (rule wr_run_inv [OF len d]) (use pos T ws_def in simp)
  have cycle: "int (k * nat T) = int k * sum_list ws" for k using pos by (simp add: T)
  show ?thesis
    using wr_inv_share [OF inv lw] wr_inv_cycle [OF inv lw d _ cycle] pos unfolding T by blast
qed

lemma wr_witness_total: "wr_totalWeight (NewWeightedRR [5, 1, - 2, 1]) = 7"
  by code_simp

theorem wrr_fair_witness:
  "fst (wr_run 7 ''abcd'' (NewWeightedRR [5, 1, - 2, 1])) = map Some ''aabadaa'' \<and>
   int (count_list (fst (wr_run (3 * nat 7) ''abcd'' (NewWeightedRR [5, 1, - 2, 1]))) (Some CHR ''a'')) = 15"
proof -
  have "int (count_list (fst (wr_run (3 * nat 7) ''abcd'' (NewWeightedRR [5, 1, - 2, 1]))) (Some (''abcd'' ! 0)))
      = int 3 * wr_weights (NewWeightedRR [5, 1, - 2, 1]) ! 0"
    using wrr_fair [of "''abcd''" "[5, 1, - 2, 1]", THEN conjunct2, THEN spec [of _ 3], THEN spec [of _ 0]]
    unfolding wr_witness_total by simp
  moreover have "wr_weights (NewWeightedRR [5, 1, - 2, 1]) ! 0 = 5" by code_simp
  moreover have "fst (wr_run 7 ''abcd'' (NewWeightedRR [5, 1, - 2, 1])) = map Some ''aabadaa''" by code_simp
  ultimately show ?thesis by simp
qed

end
