(* ===== verification/RPC_Breaker.thy ===== *)
theory RPC_Breaker
  imports Go_Prelude
begin

text \<open>
  The circuit breaker of \<^verbatim>\<open>internal/breaker/breaker.go\<close>.  Every method runs under the
  breaker's mutex, so a concurrent history is a sequence of calls; each call carries the value of
  \<^verbatim>\<open>time.Now()\<close> in nanoseconds.  The test \<^verbatim>\<open>float64(failures)/float64(total) >= failureThreshold\<close>
  is the breaker's field \<open>cb_rate_ge\<close>, a function of the two counters: the lemmas hold for
  every threshold and need nothing of floating-point arithmetic.
\<close>

datatype State = Closed | Open | HalfOpen

record CircuitBreaker =
  cb_state :: State
  cb_failureCount :: int
  cb_successCount :: int
  cb_windowSize :: int
  cb_rate_ge :: "int \<Rightarrow> int \<Rightarrow> bool"
  cb_openTimeout :: int
  cb_lastStateChange :: int
  cb_halfOpenProbe :: bool

definition NewCircuitBreaker :: "int \<Rightarrow> (int \<Rightarrow> int \<Rightarrow> bool) \<Rightarrow> int \<Rightarrow> int \<Rightarrow> CircuitBreaker" where
  "NewCircuitBreaker windowSize rate_ge openTimeout now =
     \<lparr> cb_state = Closed, cb_failureCount = 0, cb_successCount = 0, cb_windowSize = windowSize,
       cb_rate_ge = rate_ge, cb_openTimeout = openTimeout, cb_lastStateChange = now,
       cb_halfOpenProbe = False \<rparr>"

definition cb_Allow :: "int \<Rightarrow> CircuitBreaker \<Rightarrow> bool \<times> CircuitBreaker" where
  "cb_Allow now cb =
     (case cb_state cb of
        Closed \<Rightarrow> (True, cb)
      | Open \<Rightarrow> (if now - cb_lastStateChange cb > cb_openTimeout cb
                 then (True, cb\<lparr>cb_state := HalfOpen, cb_halfOpenProbe := True\<rparr>)
                 else (False, cb))
      | HalfOpen \<Rightarrow> (if cb_halfOpenProbe cb then (False, cb) else (True, cb\<lparr>cb_halfOpenProbe := True\<rparr>)))"

definition cb_resetCounts :: "CircuitBreaker \<Rightarrow> CircuitBreaker" where
  "cb_resetCounts cb = cb\<lparr>cb_failureCount := 0, cb_successCount := 0\<rparr>"

definition cb_toOpen :: "int \<Rightarrow> CircuitBreaker \<Rightarrow> CircuitBreaker" where
  "cb_toOpen now cb = (cb_resetCounts (cb\<lparr>cb_state := Open, cb_lastStateChange := now\<rparr>))\<lparr>cb_halfOpenProbe := False\<rparr>"

definition cb_toClosed :: "int \<Rightarrow> CircuitBreaker \<Rightarrow> CircuitBreaker" where
  "cb_toClosed now cb = (cb_resetCounts (cb\<lparr>cb_state := Closed, cb_lastStateChange := now\<rparr>))\<lparr>cb_halfOpenProbe := False\<rparr>"

definition cb_resetClosedWindowIfReady :: "int \<Rightarrow> CircuitBreaker \<Rightarrow> CircuitBreaker" where
  "cb_resetClosedWindowIfReady now cb =
     (let total = cb_failureCount cb + cb_successCount cb
      in if total < cb_windowSize cb then cb
         else if cb_rate_ge cb (cb_failureCount cb) total then cb_toOpen now cb
         else cb_resetCounts cb)"

definition cb_RecordSuccess :: "int \<Rightarrow> CircuitBreaker \<Rightarrow> CircuitBreaker" where
  "cb_RecordSuccess now cb =
     (case cb_state cb of
        Closed \<Rightarrow> cb_resetClosedWindowIfReady now (cb\<lparr>cb_successCount := cb_successCount cb + 1\<rparr>)
      | HalfOpen \<Rightarrow> cb_toClosed now cb
      | Open \<Rightarrow> cb)"

definition cb_RecordFailure :: "int \<Rightarrow> CircuitBreaker \<Rightarrow> CircuitBreaker" where
  "cb_RecordFailure now cb =
     (case cb_state cb of
        Closed \<Rightarrow>
          (let cb = cb\<lparr>cb_failureCount := cb_failureCount cb + 1\<rparr>;
               total = cb_failureCount cb + cb_successCount cb
           in if total < cb_windowSize cb then cb
              else if cb_rate_ge cb (cb_failureCount cb) total then cb_toOpen now cb
              else cb_resetCounts cb)
      | HalfOpen \<Rightarrow> cb_toOpen now cb
      | Open \<Rightarrow> cb)"

text \<open>A history: calls with their times; the answers are those of the \<^verbatim>\<open>Allow\<close> calls.\<close>

datatype cb_event = EAllow int | ESuccess int | EFailure int

fun cb_time :: "cb_event \<Rightarrow> int" where
  "cb_time (EAllow t) = t"
| "cb_time (ESuccess t) = t"
| "cb_time (EFailure t) = t"

fun cb_run :: "cb_event list \<Rightarrow> CircuitBreaker \<Rightarrow> bool list \<times> CircuitBreaker" where
  "cb_run [] cb = ([], cb)"
| "cb_run (EAllow t # es) cb =
     (case cb_Allow t cb of (ok, cb') \<Rightarrow> case cb_run es cb' of (oks, cb'') \<Rightarrow> (ok # oks, cb''))"
| "cb_run (ESuccess t # es) cb = cb_run es (cb_RecordSuccess t cb)"
| "cb_run (EFailure t # es) cb = cb_run es (cb_RecordFailure t cb)"

section \<open>Well-formed states\<close>

named_theorems breaker_defs \<open>definitions of the breaker's methods\<close>

declare cb_Allow_def [breaker_defs] cb_resetCounts_def [breaker_defs] cb_toOpen_def [breaker_defs]
  cb_toClosed_def [breaker_defs] cb_resetClosedWindowIfReady_def [breaker_defs]
  cb_RecordSuccess_def [breaker_defs] cb_RecordFailure_def [breaker_defs] Let_def [breaker_defs]

definition cb_ok :: "CircuitBreaker \<Rightarrow> bool" where
  "cb_ok cb \<longleftrightarrow>
     0 \<le> cb_failureCount cb \<and> 0 \<le> cb_successCount cb \<and>
     (cb_failureCount cb + cb_successCount cb = 0 \<or> cb_failureCount cb + cb_successCount cb < cb_windowSize cb) \<and>
     (cb_state cb \<noteq> Closed \<longrightarrow> cb_failureCount cb + cb_successCount cb = 0) \<and>
     (cb_halfOpenProbe cb \<longleftrightarrow> cb_state cb = HalfOpen)"

lemma NewCircuitBreaker_ok: "cb_ok (NewCircuitBreaker n r d now)"
  by (simp add: cb_ok_def NewCircuitBreaker_def)

lemma cb_Allow_ok: "cb_ok cb \<Longrightarrow> cb_ok (snd (cb_Allow now cb))"
  by (auto simp: cb_ok_def breaker_defs split: State.splits)

lemma cb_RecordSuccess_ok: "cb_ok cb \<Longrightarrow> cb_ok (cb_RecordSuccess now cb)"
  by (auto simp: cb_ok_def breaker_defs split: State.splits)

lemma cb_RecordFailure_ok: "cb_ok cb \<Longrightarrow> cb_ok (cb_RecordFailure now cb)"
  by (auto simp: cb_ok_def breaker_defs split: State.splits)

text \<open>The configuration never changes.\<close>

definition cb_conf :: "CircuitBreaker \<Rightarrow> int \<times> (int \<Rightarrow> int \<Rightarrow> bool) \<times> int" where
  "cb_conf cb = (cb_windowSize cb, cb_rate_ge cb, cb_openTimeout cb)"

lemma cb_conf_keep [simp]:
  "cb_conf (snd (cb_Allow now cb)) = cb_conf cb"
  "cb_conf (cb_RecordSuccess now cb) = cb_conf cb"
  "cb_conf (cb_RecordFailure now cb) = cb_conf cb"
  by (auto simp: cb_conf_def breaker_defs split: State.splits)

lemma cb_run_ok: "cb_ok cb \<Longrightarrow> cb_ok (snd (cb_run es cb)) \<and> cb_conf (snd (cb_run es cb)) = cb_conf cb"
proof (induction es cb rule: cb_run.induct)
  case (2 t es cb)
  then show ?case
    using cb_Allow_ok [of cb t] cb_conf_keep(1) [of t cb] by (auto simp del: cb_conf_keep split: prod.splits)
qed (auto intro: cb_RecordSuccess_ok cb_RecordFailure_ok)

section \<open>Admission\<close>

text \<open>While the breaker is open and its timeout has not passed, nothing changes it.\<close>

lemma cb_run_open:
  "cb_state cb = Open \<Longrightarrow> \<forall>e \<in> set es. cb_time e \<le> cb_lastStateChange cb + cb_openTimeout cb \<Longrightarrow>
   snd (cb_run es cb) = cb \<and> True \<notin> set (fst (cb_run es cb))"
proof (induction es)
  case (Cons e es)
  then show ?case by (cases e) (auto simp: breaker_defs split: prod.splits)
qed simp

text \<open>While a probe is under way no other call is admitted.\<close>

lemma cb_run_probe:
  "cb_state cb = HalfOpen \<Longrightarrow> cb_halfOpenProbe cb \<Longrightarrow> \<forall>e \<in> set es. \<exists>t. e = EAllow t \<Longrightarrow>
   snd (cb_run es cb) = cb \<and> True \<notin> set (fst (cb_run es cb))"
proof (induction es)
  case (Cons e es)
  then show ?case by (cases e) (auto simp: breaker_defs split: prod.splits)
qed simp




text \<open>The record a full window leaves behind.\<close>

lemma cb_toOpen_counts [simp]:
  "cb_toOpen now (cb\<lparr>cb_failureCount := f, cb_successCount := n\<rparr>) = cb_toOpen now cb"
  "cb_failureCount cb = 0 \<Longrightarrow> cb_successCount cb = 0 \<Longrightarrow>
   cb_resetCounts (cb\<lparr>cb_failureCount := f, cb_successCount := n\<rparr>) = cb"
  by (cases cb; simp add: cb_toOpen_def cb_resetCounts_def)+


section \<open>The properties\<close>

text \<open>C40: Whatever sequence of \<^verbatim>\<open>Allow\<close>, \<^verbatim>\<open>RecordSuccess\<close> and
  \<^verbatim>\<open>RecordFailure\<close> calls a new breaker has seen, its state is well formed: the counters are
  not negative, they are below the window size or both zero, they are zero unless the breaker is
  closed, the probe flag is set exactly in the half-open state, and the configuration is the one it was made with.\<close>

theorem breaker_well_formed:
  "cb_ok (snd (cb_run es (NewCircuitBreaker n r d now))) \<and>
   cb_conf (snd (cb_run es (NewCircuitBreaker n r d now))) = (n, r, d)"
  using cb_run_ok [OF NewCircuitBreaker_ok, of es n r d now] by (simp add: cb_conf_def NewCircuitBreaker_def)

text \<open>C16: What the breaker admits.  Take any state a new breaker can reach.  If it is
  open, then every history up to \<open>lastStateChange + openTimeout\<close> has all its \<^verbatim>\<open>Allow\<close> calls refused
  and leaves the state as it is, late results of earlier calls included; the first \<^verbatim>\<open>Allow\<close> after that
  is admitted as a probe and from then on, for as long as no result is recorded, no other call is; the
  recorded result of the probe closes the breaker with empty counters or opens it again from that moment.\<close>

theorem breaker_admission:
  assumes "cb = snd (cb_run es0 (NewCircuitBreaker n r d t0))" "cb_state cb = Open"
  shows "(\<forall>es. (\<forall>e \<in> set es. cb_time e \<le> cb_lastStateChange cb + d) \<longrightarrow>
            True \<notin> set (fst (cb_run es cb)) \<and> snd (cb_run es cb) = cb) \<and>
         (\<forall>t > cb_lastStateChange cb + d. \<forall>ts.
            fst (cb_run (EAllow t # map EAllow ts) cb) = True # replicate (length ts) False \<and>
            (let probing = snd (cb_run (EAllow t # map EAllow ts) cb)
             in cb_state probing = HalfOpen \<and>
                (\<forall>t'. cb_RecordSuccess t' probing = NewCircuitBreaker n r d t' \<and>
                      cb_RecordFailure t' probing = cb\<lparr>cb_lastStateChange := t'\<rparr>)))"
proof -
  have ok: "cb_ok cb" and conf: "cb_windowSize cb = n" "cb_rate_ge cb = r" "cb_openTimeout cb = d"
    using cb_run_ok [OF NewCircuitBreaker_ok, of es0 n r d t0] assms(1)
    by (auto simp: cb_conf_def NewCircuitBreaker_def)
  have z: "cb_failureCount cb = 0" "cb_successCount cb = 0" "\<not> cb_halfOpenProbe cb"
    using ok assms(2) by (auto simp: cb_ok_def)
  let ?p = "cb\<lparr>cb_state := HalfOpen, cb_halfOpenProbe := True\<rparr>"
  have probe: "cb_run (map EAllow ts) ?p = (replicate (length ts) False, ?p)" for ts
    by (induction ts) (simp_all add: cb_Allow_def)
  have "cb_run (EAllow t # map EAllow ts) cb = (True # replicate (length ts) False, ?p)"
    if "t > cb_lastStateChange cb + d" for t ts
    using that assms(2) conf by (simp add: cb_Allow_def probe)
  moreover have "cb_RecordSuccess t' ?p = NewCircuitBreaker n r d t'" "cb_RecordFailure t' ?p = cb\<lparr>cb_lastStateChange := t'\<rparr>" for t'
    using conf z assms(2) by (cases cb; simp add: breaker_defs NewCircuitBreaker_def)+
  ultimately show ?thesis
    using cb_run_open [OF assms(2)] conf by (simp add: Let_def)
qed

theorem breaker_admission_witness:
  "fst (cb_run [EAllow 107] (snd (cb_run [EFailure 1, EFailure 7] (NewCircuitBreaker 2 (\<lambda>f t. 3 * t \<le> 5 * f) 100 0)))) = [False] \<and>
   fst (cb_run (EAllow 108 # map EAllow [109, 300]) (snd (cb_run [EFailure 1, EFailure 7] (NewCircuitBreaker 2 (\<lambda>f t. 3 * t \<le> 5 * f) 100 0)))) = True # replicate (length [109, 300 :: int]) False"
proof -
  let ?cb = "snd (cb_run [EFailure 1, EFailure 7] (NewCircuitBreaker 2 (\<lambda>f t. 3 * t \<le> 5 * f) 100 0))"
  have st: "cb_state ?cb = Open" "cb_lastStateChange ?cb = 7"
    by (simp_all add: breaker_defs NewCircuitBreaker_def)
  have two: "fst (cb_run (EAllow 108 # map EAllow [109, 300]) ?cb) = True # replicate (length [109, 300 :: int]) False"
    by (rule breaker_admission [OF refl st(1), THEN conjunct2, rule_format, of 108 "[109, 300]", THEN conjunct1])
      (simp add: st(2) del: cb_run.simps)
  have "True \<notin> set (fst (cb_run [EAllow 107] ?cb))"
    using breaker_admission [OF refl st(1), THEN conjunct1, rule_format, of "[EAllow 107]"] st(2) by simp
  moreover have "length (fst (cb_run [EAllow 107] ?cb)) = 1" by (simp split: prod.splits)
  ultimately have "fst (cb_run [EAllow 107] ?cb) = [False]" by (auto simp: length_Suc_conv)
  with two show ?thesis by blast
qed



end
