(* ===== verification/RPC_Client.thy ===== *)
theory RPC_Client
  imports RPC_Balance RPC_Breaker Go_State
begin

text \<open>
  The calling side of the RPC library, \<^verbatim>\<open>internal/client\<close>: how a call passes the rate limiter, the
  load balancer and the breaker of its service and address, and when the breaker hears of the result.
  The registry, the connection pool, the codec and the connection are behind a call's
  \<open>call_env\<close>: what each of them returned in this call.  A call that was sent leaves an entry behind,
  for a unary call the future whose \<^verbatim>\<open>OnComplete\<close> callback has not run yet, for a stream the
  \<^verbatim>\<open>observedStream\<close> whose \<^verbatim>\<open>once\<close> has not fired.  A call holds no lock from the breaker's \<^verbatim>\<open>Allow\<close> to its send, so a
  history of the client may also take these apart: \<open>cl_starting\<close> lists the goroutines that a breaker let
  through and that have not sent yet.
\<close>

datatype call_kind = UnaryCall | StreamCall

record 'lb Client =
  cl_limiter :: TokenBucket
  cl_lb :: 'lb
  cl_breaker :: "(string \<times> CircuitBreaker) list"
  cl_futures :: "(nat \<times> string) list"
  cl_streams :: "(nat \<times> string) list"
  cl_starting :: "(nat \<times> call_kind \<times> string) list"
  cl_next :: nat

record call_env =
  ce_registry :: bool
  ce_discover :: "go_err + string list"
  ce_acquire :: "go_err + unit"
  ce_marshal :: "go_err + bytes"
  ce_send :: "bytes \<Rightarrow> go_err + unit"
  ce_now :: int
  ce_done :: int

definition NewClient :: "'lb \<Rightarrow> 'lb Client" where
  "NewClient lb = \<lparr> cl_limiter = NewTokenBucket 10000, cl_lb = lb, cl_breaker = [], cl_futures = [],
                    cl_streams = [], cl_starting = [], cl_next = 0 \<rparr>"

definition limiter_Allow :: "('lb Client, unit) go_m" where
  "limiter_Allow c =
     (case tb_Allow (cl_limiter c) of (ok, tb) \<Rightarrow>
        (if ok then Inr () else Inl (Err ''rate limit exceeded''), c\<lparr>cl_limiter := tb\<rparr>))"

definition getAddr :: "(string list \<Rightarrow> 'lb \<Rightarrow> string option \<times> 'lb) \<Rightarrow> call_env \<Rightarrow> ('lb Client, string) go_m" where
  "getAddr select env c =
     (if \<not> ce_registry env then (Inl (Err ''registry not configured''), c)
      else case ce_discover env of
        Inl e \<Rightarrow> (Inl e, c)
      | Inr instances \<Rightarrow>
          if instances = [] then (Inl (Err ''no instance available''), c)
          else case select instances (cl_lb c) of (instance, lb) \<Rightarrow>
            let addr = case instance of None \<Rightarrow> [] | Some a \<Rightarrow> a
            in (if addr = [] then Inl (Err ''load balancer returned empty address'') else Inr addr,
                c\<lparr>cl_lb := lb\<rparr>))"

definition breaker_key :: "string \<Rightarrow> string \<Rightarrow> string" where
  "breaker_key service addr = service @ ''|'' @ addr"

text \<open>The threshold 0.6 of \<^verbatim>\<open>getBreaker\<close>.  The window is 10, so the rate is only ever compared with ten
  outcomes counted, and there the \<^verbatim>\<open>float64\<close> quotients compare with the constant 0.6 as the fractions do.\<close>

definition rate_ge_06 :: "int \<Rightarrow> int \<Rightarrow> bool" where
  "rate_ge_06 f t \<longleftrightarrow> 3 * t \<le> 5 * f"

definition getBreaker :: "int \<Rightarrow> string \<Rightarrow> 'lb Client \<Rightarrow> 'lb Client" where
  "getBreaker now key c =
     (case map_of (cl_breaker c) key of
        Some b \<Rightarrow> c
      | None \<Rightarrow> c\<lparr>cl_breaker := upd_al key (NewCircuitBreaker 10 rate_ge_06 5000000000 now) (cl_breaker c)\<rparr>)"

definition br_upd :: "(CircuitBreaker \<Rightarrow> CircuitBreaker) \<Rightarrow> string \<Rightarrow> 'lb Client \<Rightarrow> 'lb Client" where
  "br_upd f key c =
     (case map_of (cl_breaker c) key of
        None \<Rightarrow> c
      | Some b \<Rightarrow> c\<lparr>cl_breaker := upd_al key (f b) (cl_breaker c)\<rparr>)"

definition br_Allow :: "int \<Rightarrow> string \<Rightarrow> ('lb Client, unit) go_m" where
  "br_Allow now key c =
     (case map_of (cl_breaker c) key of
        None \<Rightarrow> (Inl (Panic ''nil breaker''), c)
      | Some b \<Rightarrow> (case cb_Allow now b of (ok, b') \<Rightarrow>
          (if ok then Inr () else Inl (Err ''circuit breaker open''),
           c\<lparr>cl_breaker := upd_al key b' (cl_breaker c)\<rparr>)))"

text \<open>\<^verbatim>\<open>if err != nil { br.RecordFailure(); return nil, err }\<close>\<close>

definition or_fail :: "int \<Rightarrow> string \<Rightarrow> (go_err + 'a) \<Rightarrow> ('lb Client, 'a) go_m" where
  "or_fail now key r c =
     (case r of Inl e \<Rightarrow> (Inl e, br_upd (cb_RecordFailure now) key c) | Inr a \<Rightarrow> (Inr a, c))"

definition add_future :: "string \<Rightarrow> ('lb Client, nat) go_m" where
  "add_future key c = (Inr (cl_next c), c\<lparr>cl_futures := (cl_next c, key) # cl_futures c, cl_next := cl_next c + 1\<rparr>)"

definition add_stream :: "string \<Rightarrow> ('lb Client, nat) go_m" where
  "add_stream key c = (Inr (cl_next c), c\<lparr>cl_streams := (cl_next c, key) # cl_streams c, cl_next := cl_next c + 1\<rparr>)"

definition invokeAsync ::
  "(string list \<Rightarrow> 'lb \<Rightarrow> string option \<times> 'lb) \<Rightarrow> string \<Rightarrow> call_env \<Rightarrow> ('lb Client, nat) go_m" where
  "invokeAsync select service env =
     sbind limiter_Allow (\<lambda>_.
     sbind (getAddr select env) (\<lambda>addr.
     let key = breaker_key service addr in
     sbind (modify (getBreaker (ce_now env) key)) (\<lambda>_.
     sbind (br_Allow (ce_now env) key) (\<lambda>_.
     sbind (or_fail (ce_done env) key (ce_acquire env)) (\<lambda>conn.
     sbind (ask (\<lambda>_. ce_marshal env)) (\<lambda>body.
     sbind (or_fail (ce_done env) key (ce_send env body)) (\<lambda>_.
     add_future key)))))))"

definition InvokeStream ::
  "(string list \<Rightarrow> 'lb \<Rightarrow> string option \<times> 'lb) \<Rightarrow> string \<Rightarrow> call_env \<Rightarrow> ('lb Client, nat) go_m" where
  "InvokeStream select service env =
     sbind limiter_Allow (\<lambda>_.
     sbind (getAddr select env) (\<lambda>addr.
     let key = breaker_key service addr in
     sbind (modify (getBreaker (ce_now env) key)) (\<lambda>_.
     sbind (br_Allow (ce_now env) key) (\<lambda>_.
     sbind (or_fail (ce_done env) key (ce_acquire env)) (\<lambda>conn.
     sbind (ask (\<lambda>_. ce_marshal env)) (\<lambda>body.
     sbind (or_fail (ce_done env) key (ce_send env body)) (\<lambda>_.
     add_stream key)))))))"

text \<open>The same calls in two parts: up to the breaker's \<^verbatim>\<open>Allow\<close>, and from \<^verbatim>\<open>Acquire\<close> to the send.\<close>

definition admit ::
  "(string list \<Rightarrow> 'lb \<Rightarrow> string option \<times> 'lb) \<Rightarrow> string \<Rightarrow> call_env \<Rightarrow> ('lb Client, string) go_m" where
  "admit select service env =
     sbind limiter_Allow (\<lambda>_.
     sbind (getAddr select env) (\<lambda>addr.
     let key = breaker_key service addr in
     sbind (modify (getBreaker (ce_now env) key)) (\<lambda>_.
     sbind (br_Allow (ce_now env) key) (\<lambda>_. sret key))))"

definition sent_call :: "string \<Rightarrow> call_env \<Rightarrow> ('lb Client, string) go_m" where
  "sent_call key env =
     sbind (or_fail (ce_done env) key (ce_acquire env)) (\<lambda>conn.
     sbind (ask (\<lambda>_. ce_marshal env)) (\<lambda>body.
     sbind (or_fail (ce_done env) key (ce_send env body)) (\<lambda>_.
     sret key)))"

definition add_starting :: "call_kind \<Rightarrow> string \<Rightarrow> ('lb Client, nat) go_m" where
  "add_starting kind key c =
     (Inr (cl_next c), c\<lparr>cl_starting := (cl_next c, kind, key) # cl_starting c, cl_next := cl_next c + 1\<rparr>)"

definition begin_call ::
  "(string list \<Rightarrow> 'lb \<Rightarrow> string option \<times> 'lb) \<Rightarrow> call_kind \<Rightarrow> string \<Rightarrow> call_env \<Rightarrow> ('lb Client, nat) go_m" where
  "begin_call select kind service env = sbind (admit select service env) (add_starting kind)"

definition resume_call :: "nat \<Rightarrow> call_env \<Rightarrow> 'lb Client \<Rightarrow> 'lb Client" where
  "resume_call gid env c =
     (case map_of (cl_starting c) gid of
        None \<Rightarrow> c
      | Some (kind, key) \<Rightarrow>
          snd (sbind (sent_call key env) (case kind of UnaryCall \<Rightarrow> add_future | StreamCall \<Rightarrow> add_stream)
                 (c\<lparr>cl_starting := del_al gid (cl_starting c)\<rparr>)))"

text \<open>The callback of \<^verbatim>\<open>future.OnComplete\<close>, run by the first \<^verbatim>\<open>Done\<close>.\<close>

definition complete_future :: "nat \<Rightarrow> bool \<Rightarrow> int \<Rightarrow> 'lb Client \<Rightarrow> 'lb Client" where
  "complete_future fid failed now c =
     (case map_of (cl_futures c) fid of
        None \<Rightarrow> c
      | Some key \<Rightarrow>
          br_upd (if failed then cb_RecordFailure now else cb_RecordSuccess now) key
            (c\<lparr>cl_futures := del_al fid (cl_futures c)\<rparr>))"

datatype recv_result = RecvNil | RecvEOF | RecvCanceled | RecvError

definition observed_Recv :: "nat \<Rightarrow> recv_result \<Rightarrow> int \<Rightarrow> 'lb Client \<Rightarrow> 'lb Client" where
  "observed_Recv sid err now c =
     (case map_of (cl_streams c) sid of
        None \<Rightarrow> c
      | Some key \<Rightarrow>
          (case err of
             RecvNil \<Rightarrow> c
           | RecvEOF \<Rightarrow> br_upd (cb_RecordSuccess now) key (c\<lparr>cl_streams := del_al sid (cl_streams c)\<rparr>)
           | RecvCanceled \<Rightarrow> c
           | RecvError \<Rightarrow> br_upd (cb_RecordFailure now) key (c\<lparr>cl_streams := del_al sid (cl_streams c)\<rparr>)))"

datatype client_event =
  CInvoke string call_env | CStream string call_env | CStart call_kind string call_env | CSend nat call_env | CComplete nat bool int | CRecv nat recv_result int | CTick

fun client_step :: "(string list \<Rightarrow> 'lb \<Rightarrow> string option \<times> 'lb) \<Rightarrow> client_event \<Rightarrow> 'lb Client \<Rightarrow> 'lb Client" where
  "client_step select (CInvoke service env) c = snd (invokeAsync select service env c)"
| "client_step select (CStream service env) c = snd (InvokeStream select service env c)"
| "client_step select (CStart kind service env) c = snd (begin_call select kind service env c)"
| "client_step select (CSend gid env) c = resume_call gid env c"
| "client_step select (CComplete fid failed now) c = complete_future fid failed now c"
| "client_step select (CRecv sid r now) c = observed_Recv sid r now c"
| "client_step select CTick c = c\<lparr>cl_limiter := tb_tick (cl_limiter c)\<rparr>"

definition client_run :: "(string list \<Rightarrow> 'lb \<Rightarrow> string option \<times> 'lb) \<Rightarrow> client_event list \<Rightarrow> 'lb Client \<Rightarrow> 'lb Client" where
  "client_run select es c = fold (client_step select) es c"

section \<open>The load balancer's contract\<close>

locale load_balancer =
  fixes select :: "string list \<Rightarrow> 's \<Rightarrow> string option \<times> 's"
  assumes select_in: "fst (select xs s) = Some x \<Longrightarrow> x \<in> set xs"
begin

text \<open>An address a call goes to is one the registry listed, and is not empty.\<close>

lemma addr_listed:
  assumes "getAddr select env c = (Inr addr, c')"
  shows "addr \<noteq> [] \<and> (\<exists>instances. ce_discover env = Inr instances \<and> addr \<in> set instances)"
  using assms select_in [of _ "cl_lb c" addr]
  by (auto simp: getAddr_def Let_def split: if_splits sum.splits prod.splits option.splits)

end

lemma wr_fold_in:
  "(case mx of None \<Rightarrow> True | Some m \<Rightarrow> P m) \<Longrightarrow> \<forall>i \<in> set ks. P i \<Longrightarrow>
   (case snd (fold (wr_raise ws) ks (cur, mx)) of None \<Rightarrow> True | Some m \<Rightarrow> P m)"
proof (induction ks arbitrary: cur mx)
  case (Cons i js)
  obtain cur' mx' where r: "wr_raise ws i (cur, mx) = (cur', mx')" by (cases "wr_raise ws i (cur, mx)")
  have "case mx' of None \<Rightarrow> True | Some m \<Rightarrow> P m"
    using r Cons.prems by (auto simp: wr_raise_def Let_def split: option.splits if_splits)
  from Cons.IH [OF this] Cons.prems r show ?case by simp
qed simp

interpretation rr: load_balancer rr_Select
  by unfold_locales (auto simp: rr_Select_def Let_def split: if_splits)

interpretation wr: load_balancer wr_Select
proof unfold_locales
  fix xs :: "string list" and s x
  assume x: "fst (wr_Select xs s) = Some x"
  obtain cur mx where f: "fold (wr_raise (wr_weights s)) [0..<length xs] (wr_currentWeight s, None) = (cur, mx)"
    by (cases "fold (wr_raise (wr_weights s)) [0..<length xs] (wr_currentWeight s, None)")
  have "case mx of None \<Rightarrow> True | Some m \<Rightarrow> m < length xs"
    using wr_fold_in [where mx = None and P = "\<lambda>m. m < length xs" and ks = "[0..<length xs]" and ws = "wr_weights s" and cur = "wr_currentWeight s"] f by simp
  with x f show "x \<in> set xs"
    by (auto simp: wr_Select_def split: if_splits option.splits)
qed

section \<open>Probes and outstanding calls\<close>


definition waiting :: "'lb Client \<Rightarrow> string set" where
  "waiting c = (snd \<circ> snd) ` set (cl_starting c) \<union> snd ` set (cl_futures c) \<union> snd ` set (cl_streams c)"



definition same_calls :: "'lb Client \<Rightarrow> 'lb Client \<Rightarrow> bool" where
  "same_calls c c' \<longleftrightarrow> cl_futures c' = cl_futures c \<and> cl_streams c' = cl_streams c \<and>
     cl_starting c' = cl_starting c \<and> cl_next c' = cl_next c"










lemma sbind_assoc: "sbind (sbind m f) g = sbind m (\<lambda>a. sbind (f a) g)"
  by (auto simp: sbind_def fun_eq_iff split: prod.splits sum.splits)

lemma invoke_start:
  "invokeAsync select service env = sbind (admit select service env) (\<lambda>key. sbind (sent_call key env) add_future)"
  "InvokeStream select service env = sbind (admit select service env) (\<lambda>key. sbind (sent_call key env) add_stream)"
  by (simp_all add: admit_def sent_call_def invokeAsync_def InvokeStream_def sbind_assoc Let_def)

lemma limiter_Allow_state:
  "same_calls c (snd (limiter_Allow c))" "cl_breaker (snd (limiter_Allow c)) = cl_breaker c"
  by (simp_all add: limiter_Allow_def same_calls_def split: prod.splits)

lemma getAddr_state:
  "same_calls c (snd (getAddr select env c))" "cl_breaker (snd (getAddr select env c)) = cl_breaker c"
  by (simp_all add: getAddr_def same_calls_def Let_def split: prod.splits sum.splits)


lemma same_calls_trans: "same_calls a b \<Longrightarrow> same_calls b c \<Longrightarrow> same_calls a c"
  by (simp add: same_calls_def)

lemma same_calls_refl [simp]: "same_calls c c"
  by (simp add: same_calls_def)



lemma admit_cases:
  obtains (early) e c' where "admit select service env c = (Inl e, c')" "same_calls c c'" "cl_breaker c' = cl_breaker c"
  | (asked) key c2 r c' where "same_calls c c2" "cl_breaker c2 = cl_breaker c"
      "br_Allow (ce_now env) key (getBreaker (ce_now env) key c2) = (r, c')"
      "admit select service env c = (case r of Inl e \<Rightarrow> Inl e | Inr _ \<Rightarrow> Inr key, c')"
proof -
  obtain r1 c1 where 1: "limiter_Allow c = (r1, c1)" by (cases "limiter_Allow c")
  have c1: "same_calls c c1" "cl_breaker c1 = cl_breaker c"
    using limiter_Allow_state [of c] 1 by auto
  obtain r2 c2 where 2: "getAddr select env c1 = (r2, c2)" by (cases "getAddr select env c1")
  have c2: "same_calls c c2" "cl_breaker c2 = cl_breaker c"
    using getAddr_state [where c = c1 and select = select and env = env] 2 c1 by (auto intro: same_calls_trans)
  show thesis
  proof (cases r1)
    case (Inl e)
    with 1 c1 early [of e c1] show thesis by (simp add: admit_def sbind_def)
  next
    case i1: (Inr u)
    show thesis
    proof (cases r2)
      case (Inl e)
      with 1 2 i1 c2 early [of e c2] show thesis by (simp add: admit_def sbind_def)
    next
      case (Inr addr)
      let ?key = "breaker_key service addr"
      obtain r4 c4 where 4: "br_Allow (ce_now env) ?key (getBreaker (ce_now env) ?key c2) = (r4, c4)"
        by (cases "br_Allow (ce_now env) ?key (getBreaker (ce_now env) ?key c2)")
      have "admit select service env c = (case r4 of Inl e \<Rightarrow> Inl e | Inr _ \<Rightarrow> Inr ?key, c4)"
        using 1 2 i1 Inr 4 by (cases r4) (simp_all add: admit_def sbind_def Let_def)
      from asked [OF c2 4 this] show thesis .
    qed
  qed
qed







lemma set_del_al_subset: "set (del_al i xs) \<subseteq> set xs"
  by (auto simp: del_al_def)











section \<open>A probe that is never recorded\<close>

definition stuck :: "string \<Rightarrow> 'lb Client \<Rightarrow> bool" where
  "stuck key c \<longleftrightarrow> 
     (case map_of (cl_breaker c) key of None \<Rightarrow> False | Some b \<Rightarrow> cb_state b = HalfOpen \<and> cb_halfOpenProbe b) \<and>
     key \<notin> waiting c"

lemma stuck_cong: "cl_breaker c' = cl_breaker c \<Longrightarrow> same_calls c c' \<Longrightarrow> stuck key c' = stuck key c"
  by (simp add: stuck_def same_calls_def waiting_def)

lemma stuck_br_upd: "stuck key c \<Longrightarrow> k \<noteq> key \<Longrightarrow> stuck key (br_upd f k c)"
  by (auto simp: stuck_def br_upd_def waiting_def split: option.splits)

lemma stuck_getBreaker: "stuck key c \<Longrightarrow> stuck key (getBreaker now k c)"
  by (auto simp: stuck_def getBreaker_def waiting_def split: option.splits)

lemma stuck_br_Allow:
  assumes "stuck key c"
  shows "stuck key (snd (br_Allow now k c))" "fst (br_Allow now key c) = Inl (Err ''circuit breaker open'')"
  using assms by (auto simp: stuck_def br_Allow_def waiting_def cb_Allow_def split: option.splits prod.splits)

lemma stuck_sent_call: "stuck key c \<Longrightarrow> k \<noteq> key \<Longrightarrow> stuck key (snd (sent_call k env c)) \<and> fst (sent_call k env c) \<noteq> Inr key"
  by (auto simp: sent_call_def sbind_def or_fail_def ask_def stuck_br_upd split: sum.splits)

lemma stuck_admit:
  assumes st: "stuck key c"
  shows "stuck key (snd (admit select service env c)) \<and> fst (admit select service env c) \<noteq> Inr key"
proof (cases rule: admit_cases [of select service env c])
  case (early e c1)
  with st stuck_cong [of c1 c key] show ?thesis by simp
next
  case (asked k c2 r c1)
  have s: "stuck key (getBreaker (ce_now env) k c2)" using asked st stuck_cong stuck_getBreaker by blast
  have "k \<noteq> key \<or> (\<exists>e. r = Inl e)" using stuck_br_Allow(2) [OF s, of "ce_now env"] asked(3) by auto
  with stuck_br_Allow(1) [OF s, of "ce_now env" k] asked show ?thesis by (auto split: sum.splits)
qed

lemma stuck_add:
  "stuck key c \<Longrightarrow> k \<noteq> key \<Longrightarrow> stuck key (snd (add_future k c)) \<and> stuck key (snd (add_stream k c)) \<and> stuck key (snd (add_starting kind k c))"
  by (auto simp: stuck_def waiting_def add_future_def add_stream_def add_starting_def)

lemma stuck_sbind:
  assumes "stuck key (snd (m c)) \<and> fst (m c) \<noteq> Inr key" "\<And>k c. stuck key c \<Longrightarrow> k \<noteq> key \<Longrightarrow> stuck key (snd (f k c))"
  shows "stuck key (snd (sbind m f c))"
  using assms by (cases "m c") (auto simp: sbind_def split: sum.splits)

lemma stuck_send:
  assumes "stuck key c" "k \<noteq> key" "f = add_future \<or> f = add_stream"
  shows "stuck key (snd (sbind (sent_call k env) f c))"
  using stuck_sent_call [OF assms(1,2)] by (rule stuck_sbind) (use assms(3) stuck_add in blast)

lemma stuck_call:
  assumes "stuck key c"
  shows "stuck key (snd (invokeAsync select service env c))" "stuck key (snd (InvokeStream select service env c))"
    "stuck key (snd (begin_call select kind service env c))"
  unfolding invoke_start begin_call_def
  by (rule stuck_sbind, rule stuck_admit [OF assms], simp add: stuck_send stuck_add)+

lemma stuck_resume:
  assumes st: "stuck key c"
  shows "stuck key (resume_call gid env c)"
proof (cases "map_of (cl_starting c) gid")
  case (Some kk)
  obtain kind k where kk: "kk = (kind, k)" by (cases kk)
  have "k \<noteq> key" using st map_of_SomeD [OF Some] kk by (force simp: stuck_def waiting_def)
  moreover have "stuck key (c\<lparr>cl_starting := del_al gid (cl_starting c)\<rparr>)"
    using st set_del_al_subset [of gid "cl_starting c"] by (auto simp: stuck_def waiting_def)
  ultimately show ?thesis using Some kk by (cases kind) (simp_all add: resume_call_def stuck_send)
qed (use st in \<open>simp add: resume_call_def\<close>)

lemma stuck_step: "stuck key c \<Longrightarrow> stuck key (client_step select e c)"
proof (cases e)
  case (CInvoke service env)
  then show "stuck key c \<Longrightarrow> ?thesis" by (simp add: stuck_call)
next
  case (CStream service env)
  then show "stuck key c \<Longrightarrow> ?thesis" by (simp add: stuck_call)
next
  case (CStart kind service env)
  then show "stuck key c \<Longrightarrow> ?thesis" by (simp add: stuck_call)
next
  case (CSend gid env)
  then show "stuck key c \<Longrightarrow> ?thesis" by (simp add: stuck_resume)
next
  case (CComplete fid failed now)
  assume st: "stuck key c"
  show ?thesis
  proof (cases "map_of (cl_futures c) fid")
    case (Some k)
    have "k \<noteq> key" using st map_of_SomeD [OF Some] by (force simp: stuck_def waiting_def)
    moreover have "stuck key (c\<lparr>cl_futures := del_al fid (cl_futures c)\<rparr>)"
      using st set_del_al_subset [of fid "cl_futures c"] by (auto simp: stuck_def waiting_def)
    ultimately show ?thesis using CComplete Some by (simp add: complete_future_def stuck_br_upd)
  qed (use CComplete st in \<open>simp add: complete_future_def\<close>)
next
  case (CRecv sid r now)
  assume st: "stuck key c"
  show ?thesis
  proof (cases "map_of (cl_streams c) sid")
    case (Some k)
    have "k \<noteq> key" using st map_of_SomeD [OF Some] by (force simp: stuck_def waiting_def)
    moreover have "stuck key (c\<lparr>cl_streams := del_al sid (cl_streams c)\<rparr>)"
      using st set_del_al_subset [of sid "cl_streams c"] by (auto simp: stuck_def waiting_def)
    ultimately show ?thesis using CRecv Some st by (simp add: observed_Recv_def stuck_br_upd split: recv_result.splits)
  qed (use CRecv st in \<open>simp add: observed_Recv_def\<close>)
next
  case CTick
  then show "stuck key c \<Longrightarrow> ?thesis" by (simp add: stuck_def waiting_def)
qed

text \<open>Once a breaker is half-open with a probe that no outstanding call or stream will record, no event
  of the client ever changes that, and no call to this service and address is admitted again.\<close>

lemma stuck_forever:
  assumes "stuck key c"
  shows "stuck key (client_run select es c)"
    and "fst (br_Allow now key (client_run select es c)) = Inl (Err ''circuit breaker open'')"
proof -
  show st: "stuck key (client_run select es c)"
    using assms unfolding client_run_def by (induction es arbitrary: c) (auto intro: stuck_step)
  show "fst (br_Allow now key (client_run select es c)) = Inl (Err ''circuit breaker open'')"
    by (rule stuck_br_Allow(2) [OF st])
qed

text \<open>A client gets there when the arguments of the probing call cannot be marshalled: ten calls that
  failed to connect open the breaker, and the call after the timeout returns the codec's error with
  the breaker left waiting for it.\<close>

definition down_env :: "int \<Rightarrow> call_env" where
  "down_env t = \<lparr> ce_registry = True, ce_discover = Inr [''a:1''], ce_acquire = Inl (Err ''connection refused''),
     ce_marshal = Inr [], ce_send = (\<lambda>_. Inr ()), ce_now = t, ce_done = t \<rparr>"

definition bad_args_env :: "int \<Rightarrow> call_env" where
  "bad_args_env t = \<lparr> ce_registry = True, ce_discover = Inr [''a:1''], ce_acquire = Inr (),
     ce_marshal = Inl (Err ''json: unsupported type''), ce_send = (\<lambda>_. Inr ()), ce_now = t, ce_done = t \<rparr>"

lemma marshal_error_stuck:
  "stuck ''s|a:1'' (client_run wr_Select
     (map (\<lambda>t. CInvoke ''s'' (down_env t)) [1..10] @ [CInvoke ''s'' (bad_args_env 5000000011)]) (NewClient (NewWeightedRR [1])))"
  unfolding stuck_def waiting_def by code_simp

section \<open>The property\<close>














end
