(* ===== verification/RPC_Wire.thy ===== *)
theory RPC_Wire
  imports Go_Prelude
begin

text \<open>
  The wire format of the RPC library: \<^verbatim>\<open>protocol/message.go\<close>, the packet buffer and the read loop of
  \<^verbatim>\<open>transport/tcp_connection.go\<close>, and \<^verbatim>\<open>codec.Compress\<close>/\<^verbatim>\<open>Decompress\<close>.  The encodings behind them,
  \<^verbatim>\<open>encoding/json\<close> on the header and \<^verbatim>\<open>compress/gzip\<close> on bodies, are the fields of a
  \<open>wire\<close> record; what the code relies on is \<open>wire_ok\<close>.  Lengths in the packet are 32-bit: the model keeps
  the wrap-around of \<^verbatim>\<open>Encode\<close> and \<^verbatim>\<open>Decode\<close>, so a message of 4 GiB or more goes wrong here as it does
  in the code.
\<close>

section \<open>Big-endian integers and copies\<close>

definition U32 :: nat where
  "U32 = 4294967296"

definition be16 :: "nat \<Rightarrow> bytes" where
  "be16 n = [word_of_nat (n div 256), word_of_nat n]"

definition be32 :: "nat \<Rightarrow> bytes" where
  "be32 n = [word_of_nat (n div 16777216), word_of_nat (n div 65536), word_of_nat (n div 256), word_of_nat n]"

definition get_be :: "bytes \<Rightarrow> nat" where
  "get_be bs = fold (\<lambda>b n. n * 256 + unat b) bs 0"

text \<open>\<^verbatim>\<open>copy(buf[off:], src)\<close>: out of range, the slice expression panics; what does not fit is dropped.\<close>

definition go_copy :: "bytes \<Rightarrow> nat \<Rightarrow> bytes \<Rightarrow> go_err + bytes" where
  "go_copy buf off src =
     (if off > length buf then Inl (Panic ''slice bounds out of range'')
      else let k = min (length src) (length buf - off)
           in Inr (take off buf @ take k src @ drop (off + k) buf))"

section \<open>Messages\<close>

record Header =
  h_RequestID :: nat
  h_ServiceName :: string
  h_MethodName :: string
  h_Error :: string
  h_CodecType :: byte
  h_Compression :: byte
  h_StreamFlag :: byte

record Message =
  m_Header :: "Header option"
  m_Body :: bytes

record wire =
  w_Marshal :: "Header \<Rightarrow> go_err + bytes"
  w_Unmarshal :: "bytes \<Rightarrow> go_err + Header"
  w_compress :: "bytes \<Rightarrow> go_err + bytes"
  w_decompress :: "bytes \<Rightarrow> go_err + bytes"

definition CompressionNone :: byte where "CompressionNone = 0"

definition CompressionGzip :: byte where "CompressionGzip = 1"

text \<open>Only gzip is registered.\<close>

definition Compress :: "wire \<Rightarrow> bytes \<Rightarrow> byte \<Rightarrow> go_err + bytes" where
  "Compress w d t = (if t = CompressionGzip then w_compress w d else Inl (Err ''compressor not found''))"

definition Decompress :: "wire \<Rightarrow> bytes \<Rightarrow> byte \<Rightarrow> go_err + bytes" where
  "Decompress w d t = (if t = CompressionGzip then w_decompress w d else Inl (Err ''compressor not found''))"

definition Magic :: nat where
  "Magic = 4660"

definition Encode :: "wire \<Rightarrow> Message \<Rightarrow> go_err + bytes" where
  "Encode w msg =
     (case m_Header msg of
        None \<Rightarrow> Inl (Err ''header is nil'')
      | Some h \<Rightarrow>
          rbind (if h_Compression h \<noteq> CompressionNone then Compress w (m_Body msg) (h_Compression h)
                 else Inr (m_Body msg)) (\<lambda>bodyBytes.
          rbind (w_Marshal w h) (\<lambda>headerBytes.
          let headerLen = length headerBytes mod U32;
              bodyLen = length bodyBytes mod U32;
              sz = (2 + 4 + 4 + headerLen + bodyLen) mod U32;
              buf = replicate sz 0
          in if sz < 10 then Inl (Panic ''slice bounds out of range'')
             else rbind (go_copy buf 0 (be16 Magic)) (\<lambda>buf.
                  rbind (go_copy buf 2 (be32 headerLen)) (\<lambda>buf.
                  rbind (go_copy buf 6 (be32 bodyLen)) (\<lambda>buf.
                  rbind (go_copy buf 10 headerBytes) (\<lambda>buf.
                  go_copy buf ((10 + headerLen) mod U32) bodyBytes)))))))"

definition DecodeHeaderLen :: "bytes \<Rightarrow> nat" where
  "DecodeHeaderLen d = (if length d < 4 then 0 else get_be (take 4 d))"

definition DecodeBodyLen :: "bytes \<Rightarrow> nat" where
  "DecodeBodyLen d = (if length d < 4 then 0 else get_be (take 4 d))"

definition Decode :: "wire \<Rightarrow> bytes \<Rightarrow> go_err + Message" where
  "Decode w d =
     (if length d < 10 then Inl (Err ''data too short'')
      else if get_be (take 2 d) \<noteq> Magic then Inl (Err ''invalid magic number'')
      else let headerLen = get_be (take 4 (drop 2 d));
               bodyLen = get_be (take 4 (drop 6 d));
               totalLen = 10 + headerLen + bodyLen
           in if totalLen > 9223372036854775807 then Inl (Err ''packet too large'')
              else if length d < totalLen then Inl (Err ''incomplete packet'')
              else rbind (go_slice d 10 ((10 + headerLen) mod U32)) (\<lambda>headerBytes.
                   rbind (w_Unmarshal w headerBytes) (\<lambda>header.
                   rbind (go_slice d ((10 + headerLen) mod U32) ((10 + headerLen + bodyLen) mod U32)) (\<lambda>bodyBytes.
                   rbind (if h_Compression header \<noteq> CompressionNone
                          then Decompress w bodyBytes (h_Compression header) else Inr bodyBytes) (\<lambda>bodyBytes.
                   Inr \<lparr> m_Header = Some header, m_Body = bodyBytes \<rparr>)))))"

section \<open>The packet buffer and the connection\<close>

definition pb_Write :: "bytes \<Rightarrow> bytes \<Rightarrow> bytes" where
  "pb_Write buf d = buf @ d"

fun pb_skip :: "bytes \<Rightarrow> bytes" where
  "pb_skip (a # b # bs) = (if get_be [a, b] \<noteq> Magic then pb_skip (b # bs) else a # b # bs)"
| "pb_skip bs = bs"

definition pb_Read :: "bytes \<Rightarrow> bytes option \<times> bytes" where
  "pb_Read buf0 =
     (let buf = pb_skip buf0
      in if length buf < 10 then (None, buf)
         else let headerLen = DecodeHeaderLen (take 4 (drop 2 buf));
                  bodyLen = DecodeBodyLen (take 4 (drop 6 buf));
                  totalLen = 10 + headerLen + bodyLen
              in if length buf < totalLen then (None, buf)
                 else (Some (take totalLen buf), drop totalLen buf))"

text \<open>A connection: the packet buffer and what the socket's reads will still return, chunk by chunk (each at
  most a read buffer long), before the end of the stream.\<close>

record TCPConnection =
  tc_buffer :: bytes
  tc_chunks :: "bytes list"

fun tc_loop :: "wire \<Rightarrow> bytes \<Rightarrow> bytes list \<Rightarrow> (go_err + Message) \<times> bytes \<times> bytes list" where
  "tc_loop w buf [] =
     (case pb_Read buf of
        (Some packet, buf') \<Rightarrow> (Decode w packet, buf', [])
      | (None, buf') \<Rightarrow> (Inl (Err ''EOF''), buf', []))"
| "tc_loop w buf (c # cs) =
     (case pb_Read buf of
        (Some packet, buf') \<Rightarrow> (Decode w packet, buf', c # cs)
      | (None, buf') \<Rightarrow> tc_loop w (if length c > 0 then pb_Write buf' c else buf') cs)"

definition tc_Read :: "wire \<Rightarrow> TCPConnection \<Rightarrow> (go_err + Message) \<times> TCPConnection" where
  "tc_Read w tc =
     (case tc_loop w (tc_buffer tc) (tc_chunks tc) of
        (r, buf, cs) \<Rightarrow> (r, \<lparr> tc_buffer = buf, tc_chunks = cs \<rparr>))"

text \<open>The loop of a reader (\<^verbatim>\<open>TCPClient.readLoop\<close>, \<^verbatim>\<open>Server.Handle\<close>) for \<open>n\<close> rounds: it stops at the first error.\<close>

fun tc_reads :: "wire \<Rightarrow> nat \<Rightarrow> TCPConnection \<Rightarrow> Message list \<times> go_err option \<times> TCPConnection" where
  "tc_reads w 0 tc = ([], None, tc)"
| "tc_reads w (Suc n) tc =
     (case tc_Read w tc of
        (Inl e, tc') \<Rightarrow> ([], Some e, tc')
      | (Inr m, tc') \<Rightarrow> (case tc_reads w n tc' of (ms, e, tc'') \<Rightarrow> (m # ms, e, tc'')))"

text \<open>\<^verbatim>\<open>TCPConnection.Write\<close> on a socket that takes \<open>ns ! i\<close> bytes in its \<open>i\<close>-th write: what the peer gets.\<close>

fun tc_Write :: "bytes \<Rightarrow> nat list \<Rightarrow> go_err + bytes list" where
  "tc_Write d [] = (if d = [] then Inr [] else Inl (Err ''write''))"
| "tc_Write d (n # ns) =
     (if d = [] then Inr []
      else rbind (tc_Write (drop n d) ns) (\<lambda>cs. Inr (take n d # cs)))"

section \<open>What the encodings promise\<close>

text \<open>Documented behaviour of \<^verbatim>\<open>encoding/json\<close> (a struct of numbers and UTF-8 strings reads back as it was
  written; stated for the headers of interest) and of \<^verbatim>\<open>compress/gzip\<close> (a compressed stream decompresses to its input).\<close>

definition json_ok :: "wire \<Rightarrow> Header \<Rightarrow> bool" where
  "json_ok w h \<longleftrightarrow> (case w_Marshal w h of Inl _ \<Rightarrow> False | Inr b \<Rightarrow> w_Unmarshal w b = Inr h)"

definition gzip_ok :: "wire \<Rightarrow> bytes \<Rightarrow> bool" where
  "gzip_ok w d \<longleftrightarrow> (case w_compress w d of Inl _ \<Rightarrow> False | Inr z \<Rightarrow> w_decompress w z = Inr d)"

text \<open>A message that can be sent: its header and body encode, the compression is one of the two known, and the
  packet is below 4 GiB.\<close>

definition packet_size :: "wire \<Rightarrow> Message \<Rightarrow> nat" where
  "packet_size w m =
     (case m_Header m of None \<Rightarrow> 0 | Some h \<Rightarrow>
        10 + (case w_Marshal w h of Inl _ \<Rightarrow> 0 | Inr b \<Rightarrow> length b) +
        (if h_Compression h = CompressionNone then length (m_Body m)
         else case w_compress w (m_Body m) of Inl _ \<Rightarrow> 0 | Inr z \<Rightarrow> length z))"

definition sendable :: "wire \<Rightarrow> Message \<Rightarrow> bool" where
  "sendable w m \<longleftrightarrow>
     (case m_Header m of None \<Rightarrow> False | Some h \<Rightarrow>
        json_ok w h \<and>
        (h_Compression h = CompressionNone \<or> h_Compression h = CompressionGzip \<and> gzip_ok w (m_Body m))) \<and>
     packet_size w m < U32"

section \<open>Packets\<close>

text \<open>The packet of a header and a body.\<close>

definition packet :: "bytes \<Rightarrow> bytes \<Rightarrow> bytes" where
  "packet hb bb = be16 Magic @ be32 (length hb) @ be32 (length bb) @ hb @ bb"

lemma len_be [simp]: "length (be16 n) = 2" "length (be32 n) = 4"
  by (simp_all add: be16_def be32_def)

lemma unat_byte: "unat (word_of_nat n :: byte) = n mod 256"
  by (simp add: unat_of_nat take_bit_eq_mod)

lemma get_be16 [simp]: "get_be (be16 Magic) = Magic"
  by (simp add: get_be_def be16_def unat_byte Magic_def)

lemma get_be32 [simp]: "n < U32 \<Longrightarrow> get_be (be32 n) = n"
proof -
  assume n: "n < U32"
  define a where "a = n div 256"
  define b where "b = a div 256"
  define c where "c = b div 256"
  have "n div 65536 = b" "n div 16777216 = c" by (simp_all add: a_def b_def c_def flip: div_mult2_eq)
  moreover have "c mod 256 = c" using n by (simp add: a_def b_def c_def U32_def flip: div_mult2_eq)
  moreover have "c * 256 + b mod 256 = b" "b * 256 + a mod 256 = a" "a * 256 + n mod 256 = n"
    by (simp_all add: a_def b_def c_def)
  ultimately show ?thesis by (simp add: get_be_def be32_def unat_byte flip: a_def)
qed

lemma length_packet [simp]: "length (packet hb bb) = 10 + length hb + length bb"
  by (simp add: packet_def)

lemma packet_fields:
  "take 2 (packet hb bb @ r) = be16 Magic" "take 4 (drop 2 (packet hb bb @ r)) = be32 (length hb)"
  "take 4 (drop 6 (packet hb bb @ r)) = be32 (length bb)"
  by (simp_all add: packet_def be16_def be32_def)

lemma go_copy_fits:
  "off + length src \<le> length buf \<Longrightarrow> go_copy buf off src = Inr (take off buf @ src @ drop (off + length src) buf)"
  by (simp add: go_copy_def Let_def)

lemma copies_packet:
  assumes "n = 10 + length hb + length bb"
  shows "rbind (go_copy (replicate n 0) 0 (be16 Magic)) (\<lambda>buf.
         rbind (go_copy buf 2 (be32 (length hb))) (\<lambda>buf.
         rbind (go_copy buf 6 (be32 (length bb))) (\<lambda>buf.
         rbind (go_copy buf 10 hb) (\<lambda>buf. go_copy buf (10 + length hb) bb)))) = Inr (packet hb bb)"
  using assms by (simp add: go_copy_fits packet_def)

text \<open>A sendable message encodes to one packet, which decodes to the message.\<close>

lemma Encode_packet:
  assumes "sendable w m"
  obtains h hb bb where "m_Header m = Some h" "Encode w m = Inr (packet hb bb)" "10 + length hb + length bb < U32"
    "w_Unmarshal w hb = Inr h"
    "(if h_Compression h \<noteq> CompressionNone then Decompress w bb (h_Compression h) else Inr bb) = Inr (m_Body m)"
proof -
  obtain h hb where h: "m_Header m = Some h" "w_Marshal w h = Inr hb" "w_Unmarshal w hb = Inr h"
    using assms by (auto simp: sendable_def json_ok_def split: option.splits sum.splits)
  obtain bb where bb: "(if h_Compression h \<noteq> CompressionNone then Compress w (m_Body m) (h_Compression h) else Inr (m_Body m)) = Inr bb"
    "(if h_Compression h \<noteq> CompressionNone then Decompress w bb (h_Compression h) else Inr bb) = Inr (m_Body m)"
    "packet_size w m = 10 + length hb + length bb"
    using assms h by (auto simp: sendable_def gzip_ok_def packet_size_def Compress_def Decompress_def
        CompressionGzip_def CompressionNone_def split: sum.splits)
  have small: "10 + length hb + length bb < U32" using assms bb(3) by (simp add: sendable_def)
  have "Encode w m = Inr (packet hb bb)"
    using small copies_packet [of "10 + length hb + length bb" hb bb] unfolding Encode_def h(1)
    by (simp add: bb(1) h(2) Let_def)
  with h bb small show thesis by (intro that)
qed

lemma Decode_packet:
  assumes "10 + length hb + length bb < U32" "w_Unmarshal w hb = Inr h"
    "(if h_Compression h \<noteq> CompressionNone then Decompress w bb (h_Compression h) else Inr bb) = Inr body"
  shows "Decode w (packet hb bb) = Inr \<lparr> m_Header = Some h, m_Body = body \<rparr>"
proof -
  have f: "get_be (take 2 (packet hb bb)) = Magic" "get_be (take 4 (drop 2 (packet hb bb))) = length hb"
    "get_be (take 4 (drop 6 (packet hb bb))) = length bb"
    using packet_fields [of hb bb "[]"] assms(1) by simp_all
  have s: "go_slice (packet hb bb) 10 (10 + length hb) = Inr hb"
    "go_slice (packet hb bb) (10 + length hb) (10 + length hb + length bb) = Inr bb"
    by (simp_all) (simp_all add: packet_def)
  show ?thesis
    using assms s f by (simp add: Decode_def Let_def U32_def)
qed

lemma sendable_roundtrip:
  assumes "sendable w m"
  obtains p hb bb where "Encode w m = Inr p" "p = packet hb bb" "10 + length hb + length bb < U32" "Decode w p = Inr m"
proof -
  obtain h hb bb where e: "m_Header m = Some h" "Encode w m = Inr (packet hb bb)" "10 + length hb + length bb < U32"
    "w_Unmarshal w hb = Inr h"
    "(if h_Compression h \<noteq> CompressionNone then Decompress w bb (h_Compression h) else Inr bb) = Inr (m_Body m)"
    using Encode_packet [OF assms] by blast
  have "Decode w (packet hb bb) = Inr m"
    using Decode_packet [OF e(3,4,5)] e(1) by simp
  with e show thesis by (intro that) auto
qed

section \<open>Reading packets from a stream\<close>

lemma pb_skip_packet:
  assumes "buf @ x = packet hb bb @ rest"
  shows "pb_skip buf = buf"
proof -
  obtain a b where ab: "be16 Magic = [a, b]" by (simp add: be16_def)
  consider "length buf < 2" | r where "buf = a # b # r"
    using assms ab by (cases buf; cases "tl buf") (auto simp: packet_def)
  then show ?thesis
  proof cases
    case 1
    then show ?thesis by (cases buf rule: pb_skip.cases) auto
  next
    case 2
    with ab get_be16 show ?thesis by simp
  qed
qed

lemma pb_Read_whole:
  assumes "10 + length hb + length bb < U32"
  shows "pb_Read (packet hb bb @ b) = (Some (packet hb bb), b)"
  using assms packet_fields [of hb bb b]
  by (simp add: pb_Read_def pb_skip_packet [of _ "[]" hb bb b] Let_def DecodeHeaderLen_def DecodeBodyLen_def)

lemma pb_Read_part:
  assumes "buf @ x = packet hb bb @ rest" "length buf < length (packet hb bb)" "10 + length hb + length bb < U32"
  shows "pb_Read buf = (None, buf)"
proof (cases "length buf < 10")
  case True
  then show ?thesis by (simp add: pb_Read_def pb_skip_packet [OF assms(1)] Let_def)
next
  case False
  have "take 4 (drop 2 buf) = take 4 (drop 2 (buf @ x))" "take 4 (drop 6 buf) = take 4 (drop 6 (buf @ x))"
    using False by simp_all
  then have "take 4 (drop 2 buf) = be32 (length hb)" "take 4 (drop 6 buf) = be32 (length bb)"
    unfolding assms(1) packet_fields .
  then show ?thesis
    using False assms(2,3)
    by (simp add: pb_Read_def pb_skip_packet [OF assms(1)] Let_def DecodeHeaderLen_def DecodeBodyLen_def)
qed

text \<open>However the stream is cut into chunks, the next read returns the next packet and leaves the rest.\<close>

lemma tc_loop_packet:
  assumes "buf @ concat cs = packet hb bb @ rest" "10 + length hb + length bb < U32"
  shows "\<exists>buf' cs'. tc_loop w buf cs = (Decode w (packet hb bb), buf', cs') \<and> buf' @ concat cs' = rest"
  using assms(1)
proof (induction cs arbitrary: buf)
  case Nil
  then show ?case using pb_Read_whole [OF assms(2)] by simp
next
  case (Cons c cs)
  show ?case
  proof (cases "length buf < length (packet hb bb)")
    case True
    have "(if length c > 0 then pb_Write buf c else buf) = buf @ c" by (simp add: pb_Write_def)
    with Cons.IH [of "buf @ c"] Cons.prems pb_Read_part [OF Cons.prems True assms(2)] show ?thesis by simp
  next
    case False
    then have "buf = packet hb bb @ drop (length (packet hb bb)) buf \<and>
        drop (length (packet hb bb)) buf @ concat (c # cs) = rest"
      using Cons.prems by (metis append_eq_append_conv_if append_take_drop_id linorder_not_less)
    with pb_Read_whole [OF assms(2), of "drop (length (packet hb bb)) buf"] show ?thesis
      by (intro exI [of _ "drop (length (packet hb bb)) buf"] exI [of _ "c # cs"]) (metis (no_types, lifting) option.simps(5) split_conv tc_loop.simps(2))
  qed
qed

lemma tc_loop_end: "concat cs = [] \<Longrightarrow> tc_loop w [] cs = (Inl (Err ''EOF''), [], [])"
  by (induction cs) (simp_all add: pb_Read_def Let_def)

lemma tc_reads_packets:
  assumes "\<forall>m \<in> set ms. sendable w m" "tc_buffer tc @ concat (tc_chunks tc) = concat (map (\<lambda>m. projr (Encode w m)) ms) @ rest"
  shows "\<exists>tc'. tc_reads w (length ms) tc = (ms, None, tc') \<and> tc_buffer tc' @ concat (tc_chunks tc') = rest"
  using assms
proof (induction ms arbitrary: tc)
  case Nil
  then show ?case by simp
next
  case (Cons m ms)
  obtain p hb bb where p: "Encode w m = Inr p" "p = packet hb bb" "10 + length hb + length bb < U32" "Decode w p = Inr m"
    using Cons.prems(1) sendable_roundtrip by (metis list.set_intros(1))
  have "tc_buffer tc @ concat (tc_chunks tc) = packet hb bb @ (concat (map (\<lambda>m. projr (Encode w m)) ms) @ rest)"
    using Cons.prems(2) p by simp
  from tc_loop_packet [OF this p(3), of w] obtain buf' cs' where
    l: "tc_loop w (tc_buffer tc) (tc_chunks tc) = (Inr m, buf', cs')"
       "buf' @ concat cs' = concat (map (\<lambda>m. projr (Encode w m)) ms) @ rest"
    using p(2,4) by auto
  from Cons.IH [of "\<lparr> tc_buffer = buf', tc_chunks = cs' \<rparr>"] Cons.prems(1) l show ?case
    by (auto simp: tc_Read_def)
qed

lemma tc_Write_whole: "tc_Write d ns = Inr cs \<Longrightarrow> concat cs = d"
  by (induction d ns arbitrary: cs rule: tc_Write.induct) (auto simp: res_simps split: if_splits)

text \<open>A packet of 4 GiB or more, complete and with a readable header, makes \<^verbatim>\<open>Decode\<close> panic: the end of
  the body, computed in 32 bits, wraps below its start.\<close>

lemma get_be_bound: "get_be bs < 256 ^ length bs"
proof (induction bs rule: rev_induct)
  case (snoc b bs)
  have "unat b < 256" using unsigned_less [of b] by simp
  with snoc show ?case by (simp add: get_be_def)
qed (simp add: get_be_def)

lemma Decode_4GiB:
  assumes "get_be (take 2 d) = Magic" "10 \<le> length d"
    and hl: "hl = get_be (take 4 (drop 2 d))" "10 + hl < U32"
    and bl: "bl = get_be (take 4 (drop 6 d))" "U32 \<le> 10 + hl + bl" "10 + hl + bl \<le> length d"
    and un: "w_Unmarshal w (take hl (drop 10 d)) = Inr h"
  shows "\<exists>e. Decode w d = Inl (Panic e)"
proof -
  have "hl < U32" "bl < U32"
    using get_be_bound [of "take 4 (drop 2 d)"] get_be_bound [of "take 4 (drop 6 d)"] assms(2) hl(1) bl(1)
    by (simp_all add: U32_def)
  then have wrap: "(10 + hl + bl) mod U32 < 10 + hl"
  proof -
    have "10 + hl + bl - U32 < 10 + hl" using \<open>bl < U32\<close> bl(2) by linarith
    then have "(10 + hl + bl - U32) mod U32 < 10 + hl" by (rule le_less_trans [OF mod_less_eq_dividend])
    with bl(2) show ?thesis by (simp add: le_mod_geq)
  qed
  have "go_slice d 10 (10 + hl) = Inr (take hl (drop 10 d))"
    using bl(3) by simp
  moreover have "\<exists>e. go_slice d (10 + hl) ((10 + hl + bl) mod U32) = Inl (Panic e)"
    using wrap by (simp add: go_slice_def)
  moreover have "10 + hl + bl \<le> 9223372036854775807" using \<open>hl < U32\<close> \<open>bl < U32\<close> by (simp add: U32_def)
  ultimately show ?thesis
    using assms(1,2) hl bl un by (auto simp: Decode_def Let_def)
qed

section \<open>The property\<close>

text \<open>C8: Messages arrive as they were sent.  Let every message of \<open>ms\<close> be one
  \<^verbatim>\<open>Encode\<close> can put in a packet (its header and body encode and read back, the packet is below 4 GiB).  Then
  each is encoded, and however the bytes of all the packets, one after the other, are cut into chunks by the
  writes and the socket, and whatever prefix of them is already in the reader's buffer, the read loop
  returns exactly these messages, in order; the read after them reports the end of the stream.\<close>

theorem rpc_stream:
  assumes "\<forall>m \<in> set ms. sendable w m"
    and "tc_buffer tc @ concat (tc_chunks tc) = concat (map (\<lambda>m. projr (Encode w m)) ms)"
  shows "(\<forall>m \<in> set ms. \<exists>p. Encode w m = Inr p \<and> Decode w p = Inr m) \<and>
         (\<exists>tc'. tc_reads w (length ms) tc = (ms, None, tc') \<and> fst (tc_Read w tc') = Inl (Err ''EOF''))"
proof -
  have "\<exists>p. Encode w m = Inr p \<and> Decode w p = Inr m" if "m \<in> set ms" for m
    using assms(1) that sendable_roundtrip by metis
  moreover obtain tc' where tc': "tc_reads w (length ms) tc = (ms, None, tc')" "tc_buffer tc' @ concat (tc_chunks tc') = []"
    using tc_reads_packets [of ms w tc "[]"] assms by auto
  moreover have "fst (tc_Read w tc') = Inl (Err ''EOF'')"
    using tc'(2) tc_loop_end [of "tc_chunks tc'" w] by (simp add: tc_Read_def)
  ultimately show ?thesis by blast
qed

text \<open>A codec for the witness: a header is written as its request id and flags, in front of the bytes 0xff.\<close>

definition demo_wire :: wire where
  "demo_wire =
     \<lparr> w_Marshal = (\<lambda>h. Inr (be16 (h_RequestID h) @ [h_Compression h, h_StreamFlag h])),
       w_Unmarshal = (\<lambda>b. Inr \<lparr> h_RequestID = get_be (take 2 b), h_ServiceName = [], h_MethodName = [], h_Error = [],
          h_CodecType = 0, h_Compression = b ! 2, h_StreamFlag = b ! 3 \<rparr>),
       w_compress = (\<lambda>b. Inr (255 # b)), w_decompress = (\<lambda>b. Inr (tl b)) \<rparr>"

definition demo_msg :: "nat \<Rightarrow> bytes \<Rightarrow> Message" where
  "demo_msg i b = \<lparr> m_Header = Some \<lparr> h_RequestID = i, h_ServiceName = [], h_MethodName = [], h_Error = [],
     h_CodecType = 0, h_Compression = 1, h_StreamFlag = 0 \<rparr>, m_Body = b \<rparr>"

lemma demo_encode:
  "length b < 1000 \<Longrightarrow> Encode demo_wire (demo_msg i b) = Inr (packet (be16 i @ [1, 0]) (255 # b))"
  using copies_packet [of "15 + length b" "be16 i @ [1, 0]" "255 # b"]
  by (simp add: Encode_def Compress_def demo_wire_def demo_msg_def CompressionGzip_def CompressionNone_def Let_def U32_def)

theorem rpc_stream_witness:
  "\<exists>tc'. tc_reads demo_wire 2
      \<lparr> tc_buffer = [18], tc_chunks = [[52, 0, 0, 0, 4, 0, 0, 0, 2, 0, 7, 1], [], [0, 255, 42, 18, 52, 0, 0, 0],
          [4, 0, 0, 0, 3, 0, 8, 1, 0, 255, 18, 52]] \<rparr> = ([demo_msg 7 [42], demo_msg 8 [18, 52]], None, tc')"
proof -
  let ?ms = "[demo_msg 7 [42], demo_msg 8 [18, 52]]"
  let ?tc = "\<lparr> tc_buffer = [18], tc_chunks = [[52, 0, 0, 0, 4, 0, 0, 0, 2, 0, 7, 1], [], [0, 255, 42, 18, 52, 0, 0, 0],
          [4, 0, 0, 0, 3, 0, 8, 1, 0, 255, 18, 52]] \<rparr> :: TCPConnection"
  have "\<forall>m \<in> set ?ms. sendable demo_wire m"
    by (simp add: sendable_def json_ok_def gzip_ok_def packet_size_def demo_wire_def demo_msg_def
        CompressionGzip_def CompressionNone_def be16_def get_be_def U32_def)
  moreover have "tc_buffer ?tc @ concat (tc_chunks ?tc) = concat (map (\<lambda>m. projr (Encode demo_wire m)) ?ms)"
    by (simp add: demo_encode packet_def be16_def be32_def Magic_def)
  ultimately obtain tc' where "tc_reads demo_wire (length ?ms) ?tc = (?ms, None, tc')"
    using rpc_stream [of ?ms demo_wire ?tc] by blast
  moreover have "length ?ms = 2" by simp
  ultimately show ?thesis by (metis (no_types))
qed

end
