(* ===== verification/RPC_Transport.thy ===== *)
theory RPC_Transport
  imports Go_Prelude
begin

text \<open>
  The client end of a connection, \<^verbatim>\<open>transport/tcp_client.go\<close> and \<^verbatim>\<open>transport/future.go\<close>, under
  concurrency: any number of goroutines in \<^verbatim>\<open>SendAsyncWithCodec\<close>, the \<^verbatim>\<open>readLoop\<close>, \<^verbatim>\<open>Close\<close> and the
  shutdown they can start.  Each access to a shared object (the atomics \<^verbatim>\<open>seq\<close> and \<^verbatim>\<open>closed\<close>, the
  \<^verbatim>\<open>sync.Map\<close> of pending futures, a future under its mutex) is one step; a goroutine is its program counter, and
  a history is any sequence of steps.  The future made for request id \<open>q\<close> is \<open>ts_futures s q\<close>, and the
  pending map is the list of its keys.  Request ids are unbounded here; the code's 64-bit counter repeats only
  after \<open>2 ^ 64\<close> requests.
\<close>

section \<open>Futures\<close>

text \<open>\<open>f_fn\<close>: a callback is registered; \<open>f_runs\<close>: the errors it was called with.\<close>

record Future =
  f_res :: bytes
  f_err :: "go_err option"
  f_complete :: bool
  f_fn :: bool
  f_runs :: "go_err option list"

definition NewFuture :: Future where
  "NewFuture = \<lparr> f_res = [], f_err = None, f_complete = False, f_fn = False, f_runs = [] \<rparr>"

definition f_Done :: "bytes \<Rightarrow> go_err option \<Rightarrow> Future \<Rightarrow> Future" where
  "f_Done res err f =
     (if f_complete f then f
      else let f = f\<lparr>f_res := res, f_err := err, f_complete := True\<rparr>
           in if f_fn f then f\<lparr>f_runs := f_runs f @ [err]\<rparr> else f)"

definition f_OnComplete :: "Future \<Rightarrow> Future" where
  "f_OnComplete f =
     (if \<not> f_complete f then f\<lparr>f_fn := True\<rparr> else f\<lparr>f_runs := f_runs f @ [f_err f]\<rparr>)"

definition f_Wait :: "Future \<Rightarrow> (go_err + bytes) option" where
  "f_Wait f = (if f_complete f then Some (case f_err f of None \<Rightarrow> Inr (f_res f) | Some e \<Rightarrow> Inl e) else None)"

section \<open>The connection's shared state\<close>

text \<open>Where a goroutine is in \<^verbatim>\<open>SendAsyncWithCodec\<close>; the last one carries what it returned.\<close>

datatype send_pc =
  SIdle | SNext | SStore nat | SCheck nat | STake nat | SWrite nat | SDel nat go_err | SFail nat go_err
  | SReturned "go_err + nat"

text \<open>The shutdown after the first \<^verbatim>\<open>CompareAndSwap\<close>: the \<^verbatim>\<open>Range\<close> over the pending futures must visit the
  keys present when it starts, unless they are deleted meanwhile; \<open>cur\<close> is the key whose future has been completed
  and is about to be deleted.\<close>

datatype shutdown_pc = ShNone | ShClosing go_err | ShRanging go_err "nat list" "nat option" | ShDone

datatype reader_pc = RIdle | RGot nat "go_err + bytes" | RStopped

record tcp_state =
  ts_seq :: nat
  ts_closed :: bool
  ts_pending :: "nat list"
  ts_futures :: "nat \<Rightarrow> Future option"
  ts_senders :: "nat \<Rightarrow> send_pc"
  ts_reader :: reader_pc
  ts_shutdown :: shutdown_pc
  ts_received :: "(nat \<times> (go_err + bytes)) list"

definition newTCPClient :: tcp_state where
  "newTCPClient = \<lparr> ts_seq = 0, ts_closed = False, ts_pending = [], ts_futures = (\<lambda>_. None), ts_senders = (\<lambda>_. SIdle),
     ts_reader = RIdle, ts_shutdown = ShNone, ts_received = [] \<rparr>"

definition set_pc :: "nat \<Rightarrow> send_pc \<Rightarrow> tcp_state \<Rightarrow> tcp_state" where
  "set_pc t pc s = s\<lparr>ts_senders := (ts_senders s)(t := pc)\<rparr>"

definition future_Done :: "nat \<Rightarrow> (go_err + bytes) \<Rightarrow> tcp_state \<Rightarrow> tcp_state" where
  "future_Done q r s =
     s\<lparr>ts_futures := (ts_futures s)(q := map_option
        (case r of Inl e \<Rightarrow> f_Done [] (Some e) | Inr b \<Rightarrow> f_Done b None) (ts_futures s q))\<rparr>"

definition pending_Delete :: "nat \<Rightarrow> tcp_state \<Rightarrow> tcp_state" where
  "pending_Delete q s = s\<lparr>ts_pending := filter (\<lambda>k. k \<noteq> q) (ts_pending s)\<rparr>"

text \<open>The start of \<^verbatim>\<open>shutdown\<close>.\<close>

definition ts_shut :: "go_err \<Rightarrow> tcp_state \<Rightarrow> tcp_state" where
  "ts_shut e s = (if ts_closed s then s else s\<lparr>ts_closed := True, ts_shutdown := ShClosing e\<rparr>)"

abbreviation errClosed :: go_err where
  "errClosed \<equiv> Err ''connection closed''"

text \<open>One step of \<^verbatim>\<open>SendAsyncWithCodec\<close>; \<open>w\<close> is the error of \<^verbatim>\<open>conn.Write\<close>, if any.\<close>

definition send_step :: "nat \<Rightarrow> go_err option \<Rightarrow> tcp_state \<Rightarrow> tcp_state option" where
  "send_step t w s =
     (case ts_senders s t of
        SIdle \<Rightarrow> Some (if ts_closed s then set_pc t (SReturned (Inl errClosed)) s else set_pc t SNext s)
      | SNext \<Rightarrow> Some (set_pc t (SStore (ts_seq s + 1)) (s\<lparr>ts_seq := ts_seq s + 1\<rparr>))
      | SStore q \<Rightarrow> Some (set_pc t (SCheck q)
          (s\<lparr>ts_futures := (ts_futures s)(q \<mapsto> NewFuture), ts_pending := q # ts_pending s\<rparr>))
      | SCheck q \<Rightarrow> Some (if ts_closed s then set_pc t (STake q) s else set_pc t (SWrite q) s)
      | STake q \<Rightarrow> Some (if q \<in> set (ts_pending s)
          then set_pc t (SReturned (Inl errClosed)) (pending_Delete q s) else set_pc t (SWrite q) s)
      | SWrite q \<Rightarrow> Some (case w of None \<Rightarrow> set_pc t (SReturned (Inr q)) s | Some e \<Rightarrow> set_pc t (SDel q e) s)
      | SDel q e \<Rightarrow> Some (set_pc t (SFail q e) (pending_Delete q s))
      | SFail q e \<Rightarrow> Some (set_pc t (SReturned (Inl e)) (ts_shut e s))
      | SReturned r \<Rightarrow> None)"

text \<open>The \<^verbatim>\<open>readLoop\<close>: a response takes its future off the map, then completes it; a read error shuts down.\<close>

definition reader_Read :: "nat \<Rightarrow> (go_err + bytes) \<Rightarrow> tcp_state \<Rightarrow> tcp_state option" where
  "reader_Read q r s =
     (case ts_reader s of
        RIdle \<Rightarrow>
          (let s = s\<lparr>ts_received := (q, r) # ts_received s\<rparr>
           in Some (if q \<in> set (ts_pending s) then (pending_Delete q s)\<lparr>ts_reader := RGot q r\<rparr> else s))
      | _ \<Rightarrow> None)"

definition reader_Done :: "tcp_state \<Rightarrow> tcp_state option" where
  "reader_Done s =
     (case ts_reader s of RGot q r \<Rightarrow> Some ((future_Done q r s)\<lparr>ts_reader := RIdle\<rparr>) | _ \<Rightarrow> None)"

definition reader_Fail :: "go_err \<Rightarrow> tcp_state \<Rightarrow> tcp_state option" where
  "reader_Fail e s = (case ts_reader s of RIdle \<Rightarrow> Some (ts_shut e (s\<lparr>ts_reader := RStopped\<rparr>)) | _ \<Rightarrow> None)"

text \<open>The rest of \<^verbatim>\<open>shutdown\<close>.\<close>

definition range_start :: "tcp_state \<Rightarrow> tcp_state option" where
  "range_start s =
     (case ts_shutdown s of ShClosing e \<Rightarrow> Some (s\<lparr>ts_shutdown := ShRanging e (ts_pending s) None\<rparr>) | _ \<Rightarrow> None)"

definition range_visit :: "nat \<Rightarrow> tcp_state \<Rightarrow> tcp_state option" where
  "range_visit q s =
     (case ts_shutdown s of
        ShRanging e todo None \<Rightarrow>
          if q \<in> set (ts_pending s)
          then Some ((future_Done q (Inl e) s)\<lparr>ts_shutdown := ShRanging e todo (Some q)\<rparr>) else None
      | _ \<Rightarrow> None)"

definition range_delete :: "tcp_state \<Rightarrow> tcp_state option" where
  "range_delete s =
     (case ts_shutdown s of
        ShRanging e todo (Some q) \<Rightarrow> Some ((pending_Delete q s)\<lparr>ts_shutdown := ShRanging e todo None\<rparr>)
      | _ \<Rightarrow> None)"

definition range_end :: "tcp_state \<Rightarrow> tcp_state option" where
  "range_end s =
     (case ts_shutdown s of
        ShRanging e todo None \<Rightarrow>
          if \<forall>q \<in> set todo. q \<notin> set (ts_pending s) then Some (s\<lparr>ts_shutdown := ShDone\<rparr>) else None
      | _ \<Rightarrow> None)"

text \<open>The steps.  \<open>AExpire\<close> is the timeout of \<^verbatim>\<open>Invoke\<close> and \<^verbatim>\<open>InvokeAsync\<close>: a caller completes the future it
  was given with an error.\<close>

datatype tcp_action =
  ASend nat "go_err option" | ARead nat "go_err + bytes" | ADone | AReadFail go_err | AClose
  | ARangeStart | ARangeVisit nat | ARangeDelete | ARangeEnd | AExpire nat go_err

fun tcp_step :: "tcp_action \<Rightarrow> tcp_state \<Rightarrow> tcp_state option" where
  "tcp_step (ASend t w) s = send_step t w s"
| "tcp_step (ARead q r) s = reader_Read q r s"
| "tcp_step ADone s = reader_Done s"
| "tcp_step (AReadFail e) s = reader_Fail e s"
| "tcp_step AClose s = Some (ts_shut errClosed s)"
| "tcp_step ARangeStart s = range_start s"
| "tcp_step (ARangeVisit q) s = range_visit q s"
| "tcp_step ARangeDelete s = range_delete s"
| "tcp_step ARangeEnd s = range_end s"
| "tcp_step (AExpire q e) s = (case ts_futures s q of None \<Rightarrow> None | Some f \<Rightarrow> Some (future_Done q (Inl e) s))"

fun tcp_run :: "tcp_action list \<Rightarrow> tcp_state \<Rightarrow> tcp_state option" where
  "tcp_run [] s = Some s"
| "tcp_run (a # as) s = (case tcp_step a s of None \<Rightarrow> None | Some s' \<Rightarrow> tcp_run as s')"

section \<open>Facts on futures\<close>

lemma f_Done_complete [simp]: "f_complete (f_Done res err f)"
  by (simp add: f_Done_def Let_def)

lemma f_Done_first: "f_complete f \<Longrightarrow> f_Done res err f = f"
  by (simp add: f_Done_def)

text \<open>A registered callback runs exactly once, with the error the future was completed with, whichever came first.\<close>

lemma f_callback_once:
  "f_runs (f_OnComplete (f_Done res err NewFuture)) = [err]"
  "f_runs (f_Done res' err' (f_Done res err (f_OnComplete NewFuture))) = [err]"
  "f_runs (f_Done res' err' (f_OnComplete (f_Done res err NewFuture))) = [err]"
  by (simp_all add: f_OnComplete_def f_Done_def NewFuture_def)

section \<open>The invariant\<close>

fun seq_of :: "send_pc \<Rightarrow> nat option" where
  "seq_of (SStore q) = Some q"
| "seq_of (SCheck q) = Some q"
| "seq_of (STake q) = Some q"
| "seq_of (SWrite q) = Some q"
| "seq_of (SDel q e) = Some q"
| "seq_of (SFail q e) = Some q"
| "seq_of (SReturned (Inr q)) = Some q"
| "seq_of pc = None"

text \<open>Each request id belongs to one goroutine.\<close>

definition owner_inv :: "tcp_state \<Rightarrow> bool" where
  "owner_inv s \<longleftrightarrow>
     (\<forall>t q. seq_of (ts_senders s t) = Some q \<longrightarrow> q \<le> ts_seq s) \<and>
     (\<forall>t u q. seq_of (ts_senders s t) = Some q \<longrightarrow> seq_of (ts_senders s u) = Some q \<longrightarrow> t = u) \<and>
     (\<forall>q. ts_futures s q \<noteq> None \<longrightarrow> q \<le> ts_seq s \<and> (\<forall>t. ts_senders s t \<noteq> SStore q))"

text \<open>Where a future is that a goroutine still relies on.\<close>

definition kept :: "tcp_state \<Rightarrow> nat \<Rightarrow> bool" where
  "kept s q \<longleftrightarrow> (case ts_futures s q of None \<Rightarrow> False | Some f \<Rightarrow>
     f_complete f \<or> q \<in> set (ts_pending s) \<or> (\<exists>r. ts_reader s = RGot q r))"

fun relies :: "send_pc \<Rightarrow> nat \<Rightarrow> bool" where
  "relies (SCheck q) k = (q = k)"
| "relies (STake q) k = (q = k)"
| "relies (SWrite q) k = (q = k)"
| "relies (SReturned (Inr q)) k = (q = k)"
| "relies pc k = False"

definition future_inv :: "tcp_state \<Rightarrow> bool" where
  "future_inv s \<longleftrightarrow>
     (\<forall>t q. relies (ts_senders s t) q \<longrightarrow> kept s q) \<and>
     (\<forall>q \<in> set (ts_pending s). ts_futures s q \<noteq> None) \<and>
     (\<forall>q r. ts_reader s = RGot q r \<longrightarrow> (q, r) \<in> set (ts_received s) \<and> ts_futures s q \<noteq> None) \<and>
     (\<forall>q f. ts_futures s q = Some f \<longrightarrow> f_complete f \<longrightarrow> f_err f = None \<longrightarrow> (q, Inr (f_res f)) \<in> set (ts_received s))"

text \<open>What the shutdown may still find in the map: a key it must visit, or one whose owner will check
  \<^verbatim>\<open>closed\<close> again.\<close>

definition checks_again :: "tcp_state \<Rightarrow> nat \<Rightarrow> bool" where
  "checks_again s q \<longleftrightarrow> (\<exists>t. ts_senders s t = SCheck q \<or> ts_senders s t = STake q)"

definition shutdown_inv :: "tcp_state \<Rightarrow> bool" where
  "shutdown_inv s \<longleftrightarrow>
     (ts_shutdown s \<noteq> ShNone \<longrightarrow> ts_closed s) \<and>
     (case ts_shutdown s of
        ShRanging e todo cur \<Rightarrow> (\<forall>q \<in> set (ts_pending s). q \<in> set todo \<or> checks_again s q) \<and>
          (\<forall>q. cur = Some q \<longrightarrow> (\<exists>f. ts_futures s q = Some f \<and> f_complete f))
      | ShDone \<Rightarrow> \<forall>q \<in> set (ts_pending s). checks_again s q
      | _ \<Rightarrow> True)"

definition tcp_inv :: "tcp_state \<Rightarrow> bool" where
  "tcp_inv s \<longleftrightarrow> owner_inv s \<and> future_inv s \<and> shutdown_inv s"

lemma newTCPClient_inv: "tcp_inv newTCPClient"
  by (simp add: tcp_inv_def owner_inv_def future_inv_def shutdown_inv_def newTCPClient_def)

lemma set_pc_fields [simp]:
  "ts_seq (set_pc t pc s) = ts_seq s" "ts_closed (set_pc t pc s) = ts_closed s" "ts_pending (set_pc t pc s) = ts_pending s"
  "ts_futures (set_pc t pc s) = ts_futures s" "ts_senders (set_pc t pc s) = (ts_senders s)(t := pc)"
  "ts_reader (set_pc t pc s) = ts_reader s" "ts_shutdown (set_pc t pc s) = ts_shutdown s" "ts_received (set_pc t pc s) = ts_received s"
  by (simp_all add: set_pc_def)

lemma pending_Delete_fields [simp]:
  "ts_seq (pending_Delete q s) = ts_seq s" "ts_closed (pending_Delete q s) = ts_closed s"
  "ts_pending (pending_Delete q s) = filter (\<lambda>k. k \<noteq> q) (ts_pending s)"
  "ts_futures (pending_Delete q s) = ts_futures s" "ts_senders (pending_Delete q s) = ts_senders s"
  "ts_reader (pending_Delete q s) = ts_reader s" "ts_shutdown (pending_Delete q s) = ts_shutdown s" "ts_received (pending_Delete q s) = ts_received s"
  by (simp_all add: pending_Delete_def)

lemma future_Done_fields [simp]:
  "ts_seq (future_Done q r s) = ts_seq s" "ts_closed (future_Done q r s) = ts_closed s" "ts_pending (future_Done q r s) = ts_pending s"
  "ts_senders (future_Done q r s) = ts_senders s" "ts_reader (future_Done q r s) = ts_reader s"
  "ts_shutdown (future_Done q r s) = ts_shutdown s" "ts_received (future_Done q r s) = ts_received s"
  by (simp_all add: future_Done_def)

lemma ts_shut_fields [simp]:
  "ts_seq (ts_shut e s) = ts_seq s" "ts_pending (ts_shut e s) = ts_pending s" "ts_futures (ts_shut e s) = ts_futures s"
  "ts_senders (ts_shut e s) = ts_senders s" "ts_reader (ts_shut e s) = ts_reader s" "ts_received (ts_shut e s) = ts_received s"
  by (simp_all add: ts_shut_def)

text \<open>Completing a future keeps every future that was kept, and a future without an error holds a response.\<close>

lemma future_Done_keeps:
  "ts_futures (future_Done q r s) k = None \<longleftrightarrow> ts_futures s k = None"
  by (simp add: future_Done_def split: sum.splits)

lemma future_Done_kept: "kept s k \<Longrightarrow> kept (future_Done q r s) k"
  by (auto simp: kept_def future_Done_def split: option.splits sum.splits)

lemma future_Done_complete: "ts_futures (future_Done q r s) q = Some f \<Longrightarrow> f_complete f"
  by (auto simp: future_Done_def split: sum.splits)

lemma future_Done_result:
  assumes "ts_futures (future_Done q r s) k = Some f" "f_complete f" "f_err f = None"
  shows "(k = q \<and> r = Inr (f_res f)) \<or> ts_futures s k = Some f"
  using assms by (auto simp: future_Done_def f_Done_def Let_def split: sum.splits if_splits)

lemma future_Done_inv:
  assumes "tcp_inv s" "\<And>b. r = Inr b \<Longrightarrow> (q, r) \<in> set (ts_received s)"
  shows "tcp_inv (future_Done q r s)"
proof -
  have f: "future_inv s" and o: "owner_inv s" and sh: "shutdown_inv s" using assms(1) by (auto simp: tcp_inv_def)
  have "future_inv (future_Done q r s)"
    using f assms(2) future_Done_kept [of s _ q r] future_Done_result [of q r s]
    unfolding future_inv_def future_Done_keeps future_Done_fields by blast
  moreover have "owner_inv (future_Done q r s)" using o unfolding owner_inv_def future_Done_keeps future_Done_fields .
  moreover have "shutdown_inv (future_Done q r s)"
    using sh unfolding shutdown_inv_def checks_again_def future_Done_fields
    by (auto simp: future_Done_def f_Done_first split: shutdown_pc.splits sum.splits)
  ultimately show ?thesis by (simp add: tcp_inv_def)
qed

lemma kept_cong:
  "ts_futures s' = ts_futures s \<Longrightarrow> ts_pending s' = ts_pending s \<Longrightarrow> ts_reader s' = ts_reader s \<Longrightarrow> kept s' q = kept s q"
  by (simp add: kept_def cong: option.case_cong)

lemma kept_SomeI: "ts_futures s q = Some f \<Longrightarrow> f_complete f \<or> q \<in> set (ts_pending s) \<or> (\<exists>r. ts_reader s = RGot q r) \<Longrightarrow> kept s q"
  by (simp add: kept_def)

lemma future_inv_frame:
  assumes "future_inv s" "ts_futures s' = ts_futures s" "ts_pending s' = ts_pending s" "ts_reader s' = ts_reader s"
    "ts_received s' = ts_received s" "\<And>t q. relies (ts_senders s' t) q \<Longrightarrow> \<exists>u. relies (ts_senders s u) q"
  shows "future_inv s'"
proof -
  have "kept s' q" if "relies (ts_senders s' t) q" for t q
    using assms(1,6) that kept_cong [OF assms(2,3,4)] by (metis future_inv_def)
  then show ?thesis using assms(1) unfolding future_inv_def assms(2-5) by blast
qed

lemma owner_inv_frame: "owner_inv s \<Longrightarrow> ts_senders s' = ts_senders s \<Longrightarrow> ts_seq s' = ts_seq s \<Longrightarrow>
   (\<And>q. ts_futures s' q = None \<longleftrightarrow> ts_futures s q = None) \<Longrightarrow> owner_inv s'"
  by (simp add: owner_inv_def)

lemma shutdown_inv_frame:
  "shutdown_inv s \<Longrightarrow> ts_senders s' = ts_senders s \<Longrightarrow> ts_closed s' = ts_closed s \<Longrightarrow> ts_shutdown s' = ts_shutdown s \<Longrightarrow>
   ts_futures s' = ts_futures s \<Longrightarrow> set (ts_pending s') \<subseteq> set (ts_pending s) \<Longrightarrow> shutdown_inv s'"
  by (auto simp: shutdown_inv_def checks_again_def split: shutdown_pc.splits)

text \<open>Deleting a key from the pending map keeps the others' futures, and its own when it is complete or
  held by the reader.\<close>

lemma pending_Delete_kept: "kept s k \<Longrightarrow> k \<noteq> q \<Longrightarrow> kept (pending_Delete q s) k"
  by (auto simp: kept_def split: option.splits)

lemma tcp_invI: "owner_inv s \<Longrightarrow> future_inv s \<Longrightarrow> shutdown_inv s \<Longrightarrow> tcp_inv s"
  by (simp add: tcp_inv_def)

lemma tcp_invD:
  assumes "tcp_inv s"
  shows "owner_inv s" "future_inv s" "shutdown_inv s"
  using assms by (simp_all add: tcp_inv_def)

lemma ts_shut_inv:
  assumes "tcp_inv s"
  shows "tcp_inv (ts_shut e s)"
proof (rule tcp_invI)
  show "owner_inv (ts_shut e s)" by (rule owner_inv_frame [OF tcp_invD(1) [OF assms]]) simp_all
  show "future_inv (ts_shut e s)" by (rule future_inv_frame [OF tcp_invD(2) [OF assms]]) auto
  show "shutdown_inv (ts_shut e s)"
    using tcp_invD(3) [OF assms] by (auto simp: ts_shut_def shutdown_inv_def)
qed

lemma reader_Read_inv:
  assumes inv: "tcp_inv s" and r: "reader_Read q r s = Some s'"
  shows "tcp_inv s'"
proof -
  let ?s = "s\<lparr>ts_received := (q, r) # ts_received s\<rparr>"
  have idle: "ts_reader s = RIdle" and s': "s' = (if q \<in> set (ts_pending s) then (pending_Delete q ?s)\<lparr>ts_reader := RGot q r\<rparr> else ?s)"
    using r by (auto simp: reader_Read_def Let_def split: reader_pc.splits)
  have "kept s' k" if "kept s k" for k
    using that idle s' by (auto simp: kept_def split: option.splits)
  then have "future_inv s'"
    using tcp_invD(2) [OF inv] idle s' by (auto simp: future_inv_def)
  moreover have "owner_inv s'" by (rule owner_inv_frame [OF tcp_invD(1) [OF inv]]) (simp_all add: s')
  moreover have "shutdown_inv s'" by (rule shutdown_inv_frame [OF tcp_invD(3) [OF inv]]) (auto simp: s')
  ultimately show ?thesis by (intro tcp_invI)
qed

lemma reader_Done_inv:
  assumes inv: "tcp_inv s" and d: "reader_Done s = Some s'"
  shows "tcp_inv s'"
proof -
  from d obtain q r where s': "ts_reader s = RGot q r" "s' = (future_Done q r s)\<lparr>ts_reader := RIdle\<rparr>"
    by (auto simp: reader_Done_def split: reader_pc.splits)
  have "(q, r) \<in> set (ts_received s)" using tcp_invD(2) [OF inv] s'(1) by (simp add: future_inv_def)
  then have i: "tcp_inv (future_Done q r s)" by (rule future_Done_inv [OF inv])
  have "kept s' k" if "kept (future_Done q r s) k" for k
    using that s' future_Done_complete [of q r s] by (auto simp: kept_def split: option.splits)
  then have "future_inv s'"
    using tcp_invD(2) [OF i] s'(2) by (auto simp: future_inv_def)
  moreover have "owner_inv s'" by (rule owner_inv_frame [OF tcp_invD(1) [OF i]]) (simp_all add: s')
  moreover have "shutdown_inv s'" by (rule shutdown_inv_frame [OF tcp_invD(3) [OF i]]) (auto simp: s')
  ultimately show ?thesis by (intro tcp_invI)
qed

lemma reader_Fail_inv:
  assumes inv: "tcp_inv s" and d: "reader_Fail e s = Some s'"
  shows "tcp_inv s'"
proof -
  let ?s = "s\<lparr>ts_reader := RStopped\<rparr>"
  have idle: "ts_reader s = RIdle" and s': "s' = ts_shut e ?s"
    using d by (auto simp: reader_Fail_def split: reader_pc.splits)
  have "kept ?s k" if "kept s k" for k
    using that idle by (auto simp: kept_def split: option.splits)
  then have "future_inv ?s" using tcp_invD(2) [OF inv] by (auto simp: future_inv_def)
  moreover have "owner_inv ?s" by (rule owner_inv_frame [OF tcp_invD(1) [OF inv]]) simp_all
  moreover have "shutdown_inv ?s" by (rule shutdown_inv_frame [OF tcp_invD(3) [OF inv]]) auto
  ultimately show ?thesis unfolding s' by (intro ts_shut_inv tcp_invI)
qed

lemma range_start_inv:
  assumes inv: "tcp_inv s" and d: "range_start s = Some s'"
  shows "tcp_inv s'"
proof -
  obtain e where s': "ts_shutdown s = ShClosing e" "s' = s\<lparr>ts_shutdown := ShRanging e (ts_pending s) None\<rparr>"
    using d by (auto simp: range_start_def split: shutdown_pc.splits)
  have "future_inv s'" by (rule future_inv_frame [OF tcp_invD(2) [OF inv]]) (auto simp: s')
  moreover have "owner_inv s'" by (rule owner_inv_frame [OF tcp_invD(1) [OF inv]]) (simp_all add: s')
  moreover have "shutdown_inv s'" using tcp_invD(3) [OF inv] s' by (auto simp: shutdown_inv_def)
  ultimately show ?thesis by (intro tcp_invI)
qed

lemma range_visit_inv:
  assumes inv: "tcp_inv s" and d: "range_visit q s = Some s'"
  shows "tcp_inv s'"
proof -
  obtain e todo where s': "ts_shutdown s = ShRanging e todo None"
      "s' = (future_Done q (Inl e) s)\<lparr>ts_shutdown := ShRanging e todo (Some q)\<rparr>"
    using d by (auto simp: range_visit_def split: shutdown_pc.splits option.splits if_splits)
  have i: "tcp_inv (future_Done q (Inl e) s)" by (rule future_Done_inv [OF inv]) simp
  have q: "\<exists>f. ts_futures (future_Done q (Inl e) s) q = Some f \<and> f_complete f"
    using tcp_invD(2) [OF inv] d s'(1) by (auto simp: range_visit_def future_inv_def future_Done_def split: if_splits)
  have "future_inv s'" by (rule future_inv_frame [OF tcp_invD(2) [OF i]]) (auto simp: s')
  moreover have "owner_inv s'" by (rule owner_inv_frame [OF tcp_invD(1) [OF i]]) (simp_all add: s')
  moreover have "shutdown_inv s'"
    using tcp_invD(3) [OF i] s' q by (auto simp: shutdown_inv_def checks_again_def)
  ultimately show ?thesis by (intro tcp_invI)
qed

lemma range_delete_inv:
  assumes inv: "tcp_inv s" and d: "range_delete s = Some s'"
  shows "tcp_inv s'"
proof -
  obtain e todo q where s': "ts_shutdown s = ShRanging e todo (Some q)"
      "s' = (pending_Delete q s)\<lparr>ts_shutdown := ShRanging e todo None\<rparr>"
    using d by (auto simp: range_delete_def split: shutdown_pc.splits option.splits)
  have "kept s' k" if "kept s k" for k
    using that s' tcp_invD(3) [OF inv] by (auto simp: kept_def shutdown_inv_def split: option.splits)
  then have "future_inv s'" using tcp_invD(2) [OF inv] s' by (auto simp: future_inv_def)
  moreover have "owner_inv s'" by (rule owner_inv_frame [OF tcp_invD(1) [OF inv]]) (simp_all add: s')
  moreover have "shutdown_inv s'"
    using tcp_invD(3) [OF inv] s' by (auto simp: shutdown_inv_def checks_again_def)
  ultimately show ?thesis by (intro tcp_invI)
qed

lemma range_end_inv:
  assumes inv: "tcp_inv s" and d: "range_end s = Some s'"
  shows "tcp_inv s'"
proof -
  obtain e todo where s': "ts_shutdown s = ShRanging e todo None" "s' = s\<lparr>ts_shutdown := ShDone\<rparr>"
      "\<forall>q \<in> set todo. q \<notin> set (ts_pending s)"
    using d by (auto simp: range_end_def split: shutdown_pc.splits option.splits if_splits)
  have "future_inv s'" by (rule future_inv_frame [OF tcp_invD(2) [OF inv]]) (auto simp: s')
  moreover have "owner_inv s'" by (rule owner_inv_frame [OF tcp_invD(1) [OF inv]]) (simp_all add: s')
  moreover have "shutdown_inv s'" using tcp_invD(3) [OF inv] s' by (auto simp: shutdown_inv_def checks_again_def)
  ultimately show ?thesis by (intro tcp_invI)
qed

text \<open>A goroutine that moves on without touching the map or the futures.\<close>

lemma relies_seq_of: "relies pc q \<Longrightarrow> seq_of pc = Some q"
  by (induction pc q rule: relies.induct) auto

lemma set_pc_owner:
  assumes "owner_inv s" "seq_of pc = seq_of (ts_senders s t) \<or> seq_of pc = None" "\<And>q. pc \<noteq> SStore q"
  shows "owner_inv (set_pc t pc s)"
proof -
  have prev: "seq_of (ts_senders s u) = Some q" if "seq_of (ts_senders (set_pc t pc s) u) = Some q" for u q
    using that assms(2) by (auto split: if_splits)
  have store: "ts_senders s u = SStore q" if "ts_senders (set_pc t pc s) u = SStore q" for u q
    using that assms(3) by (auto split: if_splits)
  show ?thesis
    using assms(1) prev store unfolding owner_inv_def set_pc_fields(1,4) by blast
qed

lemma set_pc_future:
  assumes "future_inv s" "\<And>q. relies pc q \<Longrightarrow> relies (ts_senders s t) q"
  shows "future_inv (set_pc t pc s)"
  by (rule future_inv_frame [OF assms(1)]) (use assms(2) in \<open>auto split: if_splits\<close>)

lemma set_pc_shutdown:
  assumes "shutdown_inv s"
    and "\<And>q. q \<in> set (ts_pending s) \<Longrightarrow> ts_shutdown s \<noteq> ShNone \<Longrightarrow>
         ts_senders s t = SCheck q \<or> ts_senders s t = STake q \<Longrightarrow> pc = STake q"
  shows "shutdown_inv (set_pc t pc s)"
proof -
  have "checks_again (set_pc t pc s) q" if "checks_again s q" "q \<in> set (ts_pending s)" "ts_shutdown s \<noteq> ShNone" for q
    using that assms(2) unfolding checks_again_def by (metis fun_upd_apply set_pc_fields(5))
  with assms(1) show ?thesis unfolding shutdown_inv_def by (auto split: shutdown_pc.splits)
qed

text \<open>The goroutine that owns the key deletes it, and returns an error.\<close>

lemma pending_Delete_inv:
  assumes inv: "tcp_inv s" and t: "seq_of (ts_senders s t) = Some q" and pc: "\<And>k. \<not> relies pc k" "seq_of pc = Some q \<or> seq_of pc = None"
    "\<And>q. pc \<noteq> SStore q"
  shows "tcp_inv (set_pc t pc (pending_Delete q s))"
proof (rule tcp_invI)
  let ?s = "set_pc t pc (pending_Delete q s)"
  show "owner_inv ?s"
    by (rule set_pc_owner) (use owner_inv_frame [OF tcp_invD(1) [OF inv], of "pending_Delete q s"] t pc in auto)
  have other: "u = t" if "relies (ts_senders s u) q" for u
    using that t tcp_invD(1) [OF inv] relies_seq_of unfolding owner_inv_def by blast
  have "kept ?s k" if "relies (ts_senders ?s u) k" for u k
  proof -
    have u: "u \<noteq> t" "relies (ts_senders s u) k" using that pc(1) by (auto split: if_splits)
    then have "kept s k" "k \<noteq> q" using tcp_invD(2) [OF inv] other unfolding future_inv_def by blast+
    then show ?thesis using pending_Delete_kept kept_cong [of ?s "pending_Delete q s" k] by simp
  qed
  then show "future_inv ?s" using tcp_invD(2) [OF inv] unfolding future_inv_def by auto
  show "shutdown_inv ?s"
  proof (rule set_pc_shutdown)
    show "shutdown_inv (pending_Delete q s)" by (rule shutdown_inv_frame [OF tcp_invD(3) [OF inv]]) auto
  qed (use t in auto)
qed

lemma store_inv:
  assumes inv: "tcp_inv s" and t: "ts_senders s t = SStore q"
  shows "tcp_inv (set_pc t (SCheck q) (s\<lparr>ts_futures := (ts_futures s)(q \<mapsto> NewFuture), ts_pending := q # ts_pending s\<rparr>))"
    (is "tcp_inv ?s")
proof (rule tcp_invI)
  have o: "owner_inv s" by (rule tcp_invD(1) [OF inv])
  have uniq: "u = t" if "seq_of (ts_senders s u) = Some q" for u
    using that t o unfolding owner_inv_def by (metis seq_of.simps(1))
  have new: "ts_futures s q = None" using o t unfolding owner_inv_def by blast
  have q: "q \<le> ts_seq s" using o t unfolding owner_inv_def by (metis seq_of.simps(1))
  show "owner_inv ?s"
    unfolding owner_inv_def
  proof (intro conjI allI impI)
    fix u k assume "seq_of (ts_senders ?s u) = Some k"
    then have "seq_of (ts_senders s u) = Some k" using t by (auto split: if_splits)
    then show "k \<le> ts_seq ?s" using o by (auto simp: owner_inv_def)
  next
    fix u v k assume "seq_of (ts_senders ?s u) = Some k" "seq_of (ts_senders ?s v) = Some k"
    then have "seq_of (ts_senders s u) = Some k" "seq_of (ts_senders s v) = Some k" using t by (auto split: if_splits)
    then show "u = v" using o by (auto simp: owner_inv_def)
  next
    fix k u assume k: "ts_futures ?s k \<noteq> None"
    show "k \<le> ts_seq ?s" using k q o by (auto simp: owner_inv_def split: if_splits)
    show "ts_senders ?s u \<noteq> SStore k"
      using k uniq [of u] o by (auto simp: owner_inv_def split: if_splits)
  qed
  have "kept ?s k" if "relies (ts_senders ?s u) k" for u k
  proof (cases "k = q")
    case True
    then show ?thesis by (simp add: kept_def)
  next
    case False
    then have "relies (ts_senders s u) k" using that by (auto split: if_splits)
    then have "kept s k" using tcp_invD(2) [OF inv] unfolding future_inv_def by blast
    with False show ?thesis by (auto simp: kept_def split: option.splits)
  qed
  then show "future_inv ?s"
    using tcp_invD(2) [OF inv] unfolding future_inv_def by (auto simp: NewFuture_def)
  have "checks_again ?s k" if "checks_again s k \<or> k = q" for k
  proof (cases "k = q")
    case True
    then show ?thesis by (auto simp: checks_again_def)
  next
    case False
    with that obtain u where "ts_senders s u = SCheck k \<or> ts_senders s u = STake k" by (auto simp: checks_again_def)
    with t have "ts_senders ?s u = SCheck k \<or> ts_senders ?s u = STake k" by auto
    then show ?thesis unfolding checks_again_def by blast
  qed
  then show "shutdown_inv ?s"
    using tcp_invD(3) [OF inv] new unfolding shutdown_inv_def by (auto split: shutdown_pc.splits)
qed

lemma next_inv:
  assumes inv: "tcp_inv s" and t: "ts_senders s t = SNext"
  shows "tcp_inv (set_pc t (SStore (ts_seq s + 1)) (s\<lparr>ts_seq := ts_seq s + 1\<rparr>))" (is "tcp_inv ?s")
proof (rule tcp_invI)
  have o: "owner_inv s" by (rule tcp_invD(1) [OF inv])
  have old: "q \<le> ts_seq s" if "seq_of (ts_senders s u) = Some q" for u q
    using that o unfolding owner_inv_def by blast
  have fresh: "seq_of (ts_senders s u) \<noteq> Some (Suc (ts_seq s))" for u using old [of u "Suc (ts_seq s)"] by auto
  show "owner_inv ?s"
    unfolding owner_inv_def
  proof (intro conjI allI impI)
    fix u k assume "seq_of (ts_senders ?s u) = Some k"
    then show "k \<le> ts_seq ?s" using old [of u k] by (auto split: if_splits)
  next
    fix u v k assume "seq_of (ts_senders ?s u) = Some k" "seq_of (ts_senders ?s v) = Some k"
    then show "u = v" using fresh [of u] fresh [of v] o unfolding owner_inv_def by (auto split: if_splits)
  next
    fix k u assume "ts_futures ?s k \<noteq> None"
    then have "k \<le> ts_seq s" "ts_senders s u \<noteq> SStore k" using o by (auto simp: owner_inv_def)
    then show "k \<le> ts_seq ?s" "ts_senders ?s u \<noteq> SStore k" by auto
  qed
  show "future_inv ?s" by (rule future_inv_frame [OF tcp_invD(2) [OF inv]]) (auto split: if_splits)
  show "shutdown_inv ?s"
  proof (rule set_pc_shutdown)
    show "shutdown_inv (s\<lparr>ts_seq := ts_seq s + 1\<rparr>)" by (rule shutdown_inv_frame [OF tcp_invD(3) [OF inv]]) auto
  qed (use t in auto)
qed

lemma set_pc_inv:
  assumes inv: "tcp_inv s" and "seq_of pc = seq_of (ts_senders s t) \<or> seq_of pc = None" "\<And>q. pc \<noteq> SStore q"
    and "\<And>q. relies pc q \<Longrightarrow> relies (ts_senders s t) q"
    and "\<And>q. q \<in> set (ts_pending s) \<Longrightarrow> ts_shutdown s \<noteq> ShNone \<Longrightarrow>
         ts_senders s t = SCheck q \<or> ts_senders s t = STake q \<Longrightarrow> pc = STake q"
  shows "tcp_inv (set_pc t pc s)"
  by (intro tcp_invI set_pc_owner set_pc_future set_pc_shutdown) (use assms tcp_invD [OF inv] in auto)

lemma send_step_inv:
  assumes inv: "tcp_inv s" and d: "send_step t w s = Some s'"
  shows "tcp_inv s'"
proof (cases "ts_senders s t")
  case (SCheck q)
  have "ts_closed s \<or> ts_shutdown s = ShNone" using tcp_invD(3) [OF inv] by (auto simp: shutdown_inv_def)
  with SCheck d show ?thesis by (auto simp: send_step_def intro!: set_pc_inv [OF inv] split: if_splits)
next
  case (STake q)
  with d show ?thesis
    by (auto simp: send_step_def intro!: set_pc_inv [OF inv] pending_Delete_inv [OF inv] split: if_splits)
next
  case (SFail q e)
  have i: "tcp_inv (ts_shut e s)" by (rule ts_shut_inv [OF inv])
  from SFail d show ?thesis by (auto simp: send_step_def intro!: set_pc_inv [OF i])
qed (use d in \<open>auto simp: send_step_def intro!: set_pc_inv [OF inv] store_inv [OF inv] next_inv [OF inv, simplified]
       pending_Delete_inv [OF inv] split: if_splits option.splits\<close>)

lemma tcp_step_inv: "tcp_inv s \<Longrightarrow> tcp_step a s = Some s' \<Longrightarrow> tcp_inv s'"
  by (cases a) (auto intro: send_step_inv reader_Read_inv reader_Done_inv reader_Fail_inv ts_shut_inv range_start_inv
      range_visit_inv range_delete_inv range_end_inv future_Done_inv split: option.splits)

lemma tcp_run_inv: "tcp_inv s \<Longrightarrow> tcp_run as s = Some s' \<Longrightarrow> tcp_inv s'"
  by (induction "as" arbitrary: s) (auto intro: tcp_step_inv split: option.splits)

section \<open>The property\<close>

text \<open>C4: No call waits for ever on a connection that is gone, and no call gets another's
  answer.  Take any interleaving of any number of \<^verbatim>\<open>SendAsyncWithCodec\<close> calls with the read loop, timeouts,
  \<^verbatim>\<open>Close\<close> and the shutdown that a failed write, a failed read or \<^verbatim>\<open>Close\<close> starts.  The request ids of two calls
  differ.  A future a call was given is complete, or still in the map of pending futures, or in the hands
  of the reader, which is about to complete it; so once the shutdown has run over the map and the reader is
  not about to complete one, every future given out is complete.  A future completed without
  an error holds the body of a response with the request id of its own call.\<close>

theorem tcp_no_lost_future:
  assumes run: "tcp_run as newTCPClient = Some s" and ret: "ts_senders s t = SReturned (Inr q)"
  shows "(\<forall>u. ts_senders s u = SReturned (Inr q) \<longrightarrow> u = t) \<and>
    (\<exists>f. ts_futures s q = Some f \<and>
       (f_complete f \<or> q \<in> set (ts_pending s) \<or> (\<exists>r. ts_reader s = RGot q r)) \<and>
       (ts_shutdown s = ShDone \<longrightarrow> (\<forall>r. ts_reader s \<noteq> RGot q r) \<longrightarrow> f_complete f) \<and>
       (\<forall>b. f_Wait f = Some (Inr b) \<longrightarrow> (q, Inr b) \<in> set (ts_received s)))"
proof -
  have inv: "tcp_inv s" by (rule tcp_run_inv [OF newTCPClient_inv run])
  have own: "u = t" if "seq_of (ts_senders s u) = Some q" for u
    using tcp_invD(1) [OF inv] that ret unfolding owner_inv_def by (metis seq_of.simps(7))
  have "kept s q" using tcp_invD(2) [OF inv] ret unfolding future_inv_def by (metis relies.simps(4))
  then obtain f where f: "ts_futures s q = Some f" "f_complete f \<or> q \<in> set (ts_pending s) \<or> (\<exists>r. ts_reader s = RGot q r)"
    by (auto simp: kept_def split: option.splits)
  have "q \<notin> set (ts_pending s)" if gone: "ts_shutdown s = ShDone"
  proof
    assume "q \<in> set (ts_pending s)"
    then obtain u where u: "ts_senders s u = SCheck q \<or> ts_senders s u = STake q"
      using tcp_invD(3) [OF inv] gone by (auto simp: shutdown_inv_def checks_again_def)
    then have "u = t" using own [of u] by auto
    with u ret show False by auto
  qed
  moreover have "(q, Inr b) \<in> set (ts_received s)" if "f_Wait f = Some (Inr b)" for b
    using that f(1) tcp_invD(2) [OF inv] by (auto simp: f_Wait_def future_inv_def split: if_splits option.splits)
  ultimately show ?thesis using f own by auto
qed

text \<open>Two calls; the first is answered; then the connection is closed while the second has stored its future
  and found the connection open, and its write still succeeds.\<close>

definition demo_acts :: "tcp_action list" where
  "demo_acts = [ASend 0 None, ASend 0 None, ASend 0 None, ASend 0 None, ASend 0 None,
     ASend 1 None, ASend 1 None, ASend 1 None, ASend 1 None, ARead 1 (Inr [7]), AClose, ADone, ASend 1 None,
     ARangeStart, ARangeVisit 2, ARangeDelete, ARangeEnd]"

theorem tcp_no_lost_future_witness:
  "\<exists>s f. tcp_run demo_acts newTCPClient = Some s \<and> ts_futures s 2 = Some f \<and> f_complete f \<and>
      (\<exists>g. ts_futures s 1 = Some g \<and> f_Wait g = Some (Inr [7]) \<and> (1, Inr [7]) \<in> set (ts_received s))"
proof -
  let ?s = "the (tcp_run demo_acts newTCPClient)"
  have run: "tcp_run demo_acts newTCPClient = Some ?s"
    by (simp add: demo_acts_def newTCPClient_def send_step_def reader_Read_def reader_Done_def ts_shut_def range_start_def
        range_visit_def range_delete_def range_end_def future_Done_def pending_Delete_def set_pc_def Let_def)
  have st: "ts_senders ?s 1 = SReturned (Inr 2)" "ts_senders ?s 0 = SReturned (Inr 1)" "ts_shutdown ?s = ShDone" "ts_reader ?s = RIdle"
    "map_option f_Wait (ts_futures ?s 1) = Some (Some (Inr [7]))"
    by (simp_all add: demo_acts_def newTCPClient_def send_step_def reader_Read_def reader_Done_def ts_shut_def range_start_def
        range_visit_def range_delete_def range_end_def future_Done_def pending_Delete_def set_pc_def Let_def f_Done_def
        f_Wait_def NewFuture_def)
  show ?thesis
    using run tcp_no_lost_future [OF run st(1)] tcp_no_lost_future [OF run st(2)] st(3-5) by auto
qed

end
