(* ===== verification/RPC_Server.thy ===== *)
theory RPC_Server
  imports RPC_Wire RPC_Balance RPC_Transport
begin

text \<open>
  The serving side of the RPC library, \<^verbatim>\<open>internal/server\<close>: the loop of \<^verbatim>\<open>Server.Handle\<close>, the
  reflective dispatch of \<^verbatim>\<open>Handler.invoke\<close> and the three ways a request is answered; and the client's
  connection pool.  A Go value is a pointer to, or a copy of, a value of the service's types (\<open>go_val\<close>); a
  method is what reflection shows of its type, together with the function itself.
\<close>

section \<open>Codecs and methods\<close>

datatype 'v go_val = Ptr 'v | Val 'v

record 'v codec =
  c_Marshal :: "'v go_val \<Rightarrow> go_err + bytes"
  c_Unmarshal :: "bytes \<Rightarrow> go_err + 'v"

text \<open>\<^verbatim>\<open>jSONCodec\<close> takes a value or a pointer to it; \<^verbatim>\<open>protoCodec\<close> asks for a \<^verbatim>\<open>proto.Message\<close>, which the
  generated types are by pointer only.\<close>

definition jsonCodec :: "('v \<Rightarrow> go_err + bytes) \<Rightarrow> (bytes \<Rightarrow> go_err + 'v) \<Rightarrow> 'v codec" where
  "jsonCodec marshal unmarshal =
     \<lparr> c_Marshal = (\<lambda>v. case v of Ptr x \<Rightarrow> marshal x | Val x \<Rightarrow> marshal x), c_Unmarshal = unmarshal \<rparr>"

definition protoCodec :: "('v \<Rightarrow> go_err + bytes) \<Rightarrow> (bytes \<Rightarrow> go_err + 'v) \<Rightarrow> 'v codec" where
  "protoCodec marshal unmarshal =
     \<lparr> c_Marshal = (\<lambda>v. case v of Ptr x \<Rightarrow> marshal x | Val x \<Rightarrow> Inl (Err ''proto codec: not proto.Message'')),
       c_Unmarshal = unmarshal \<rparr>"

text \<open>The method's signature as reflection shows it, and the outcome of a call: a panic, or the error and the
  result it returned (a stream method: what it sent before that).\<close>

datatype 'v outcome = Panics string | Returns "'v option" "string option"

record 'v rpc_method =
  mt_numIn :: nat
  mt_numOut :: nat
  mt_in0_context :: bool
  mt_in0_pointer :: bool
  mt_in1_pointer :: bool
  mt_in1_stream :: bool
  mt_out0_pointer :: bool
  mt_out0_error :: bool
  mt_out1_error :: bool
  mt_zero :: 'v
  mt_call :: "'v \<Rightarrow> 'v outcome"
  mt_sends :: "'v \<Rightarrow> 'v list"

type_synonym 'v service = "string \<Rightarrow> 'v rpc_method option"

section \<open>Replies\<close>

definition reply :: "nat \<Rightarrow> string \<Rightarrow> byte \<Rightarrow> bytes \<Rightarrow> Message" where
  "reply requestID err flag body =
     \<lparr> m_Header = Some \<lparr> h_RequestID = requestID, h_ServiceName = [], h_MethodName = [], h_Error = err,
         h_CodecType = 0, h_Compression = CompressionGzip, h_StreamFlag = flag \<rparr>, m_Body = body \<rparr>"

definition StreamNone :: byte where "StreamNone = 0"

definition StreamData :: byte where "StreamData = 1"

definition StreamEnd :: byte where "StreamEnd = 2"

definition StreamError :: byte where "StreamError = 3"

definition writeError :: "nat \<Rightarrow> string \<Rightarrow> Message" where
  "writeError requestID errMsg = reply requestID errMsg StreamNone []"

fun err_msg :: "go_err \<Rightarrow> string" where
  "err_msg (Panic s) = s"
| "err_msg (Err s) = s"

text \<open>\<^verbatim>\<open>safeCall\<close> turns a panic of the method into an error.\<close>

fun safeCall :: "'v outcome \<Rightarrow> string + 'v option \<times> string option" where
  "safeCall (Panics p) = Inl (''handler panic: '' @ p)"
| "safeCall (Returns r e) = Inr (r, e)"

text \<open>\<^verbatim>\<open>serverStream\<close>: each \<^verbatim>\<open>Send\<close> marshals and writes a data frame (a value that does not marshal is an error
  returned to the method), the end is an end or error frame.\<close>

fun stream_frames :: "'v codec \<Rightarrow> nat \<Rightarrow> 'v list \<Rightarrow> Message list" where
  "stream_frames cc requestID [] = []"
| "stream_frames cc requestID (v # vs) =
     (case c_Marshal cc (Ptr v) of
        Inl e \<Rightarrow> stream_frames cc requestID vs
      | Inr body \<Rightarrow> reply requestID [] StreamData body # stream_frames cc requestID vs)"

definition stream_run :: "'v codec \<Rightarrow> nat \<Rightarrow> 'v rpc_method \<Rightarrow> 'v \<Rightarrow> Message list" where
  "stream_run cc requestID m req =
     stream_frames cc requestID (mt_sends m req) @
     (case safeCall (mt_call m req) of
        Inl p \<Rightarrow> [reply requestID p StreamError []]
      | Inr (_, Some e) \<Rightarrow> [reply requestID e StreamError []]
      | Inr (_, None) \<Rightarrow> [reply requestID [] StreamEnd []])"

text \<open>The result of \<^verbatim>\<open>invoke\<close>: the value to marshal (if any), frames of a stream, or an error.\<close>

datatype 'v invoked = Result "'v go_val option" | Streaming "Message list" | Failed string

definition decode_req :: "'v codec \<Rightarrow> 'v rpc_method \<Rightarrow> bytes \<Rightarrow> go_err + 'v" where
  "decode_req cc m body = (if body = [] then Inr (mt_zero m) else c_Unmarshal cc body)"

definition invoke :: "nat \<Rightarrow> 'v service option \<Rightarrow> string \<Rightarrow> string \<Rightarrow> bytes \<Rightarrow> 'v codec \<Rightarrow> 'v invoked" where
  "invoke requestID service serviceName methodName body cc =
     (case service of
        None \<Rightarrow> Failed (''service not found: '' @ serviceName)
      | Some srv \<Rightarrow>
      (case srv methodName of
         None \<Rightarrow> Failed (''method not found: '' @ serviceName @ ''.'' @ methodName)
       | Some m \<Rightarrow>
         if mt_numIn m = 2 \<and> mt_numOut m = 2 \<and> mt_in0_context m \<and> mt_in1_pointer m \<and> mt_out0_pointer m \<and> mt_out1_error m
         then (case decode_req cc m body of
                 Inl e \<Rightarrow> Failed (err_msg e)
               | Inr req \<Rightarrow>
                 (case safeCall (mt_call m req) of
                    Inl p \<Rightarrow> Failed p
                  | Inr (_, Some e) \<Rightarrow> Failed e
                  | Inr (None, None) \<Rightarrow> Result None
                  | Inr (Some v, None) \<Rightarrow> Result (Some (Val v))))
         else if mt_numIn m = 2 \<and> mt_numOut m = 1 \<and> mt_out0_error m
         then if \<not> mt_in0_pointer m then Failed (''unsupported method signature: '' @ serviceName @ ''.'' @ methodName)
              else (case decode_req cc m body of
                      Inl e \<Rightarrow> Failed (err_msg e)
                    | Inr req \<Rightarrow>
                      if mt_in1_stream m then Streaming (stream_run cc requestID m req)
                      else if mt_in1_pointer m
                      then (case safeCall (mt_call m req) of
                              Inl p \<Rightarrow> Failed p
                            | Inr (_, Some e) \<Rightarrow> Failed e
                            | Inr (v, None) \<Rightarrow> Result (Some (Val (case v of None \<Rightarrow> mt_zero m | Some x \<Rightarrow> x))))
                      else Failed (''unsupported method signature: '' @ serviceName @ ''.'' @ methodName))
         else Failed (''unsupported method signature: '' @ serviceName @ ''.'' @ methodName)))"

text \<open>\<^verbatim>\<open>Handler.Process\<close>: the messages it writes for a request.  \<open>codecs\<close> is \<^verbatim>\<open>codec.New\<close>.\<close>

definition Process :: "(byte \<Rightarrow> 'v codec option) \<Rightarrow> 'v codec \<Rightarrow> Header \<Rightarrow> bytes \<Rightarrow> 'v service option \<Rightarrow> Message list" where
  "Process codecs dflt h body service =
     (case (if h_CodecType h \<noteq> 0 then codecs (h_CodecType h) else Some dflt) of
        None \<Rightarrow> [writeError (h_RequestID h) (''codec: type '' @ itoa (unat (h_CodecType h)) @ '' not registered'')]
      | Some reqCodec \<Rightarrow>
        (case invoke (h_RequestID h) service (h_ServiceName h) (h_MethodName h) body reqCodec of
           Streaming frames \<Rightarrow> frames
         | Failed e \<Rightarrow> [writeError (h_RequestID h) e]
         | Result None \<Rightarrow> [reply (h_RequestID h) [] StreamNone []]
         | Result (Some v) \<Rightarrow>
             (case c_Marshal reqCodec v of
                Inl e \<Rightarrow> [writeError (h_RequestID h) (err_msg e)]
              | Inr b \<Rightarrow> [reply (h_RequestID h) [] StreamNone b])))"

text \<open>The body of the loop of \<^verbatim>\<open>Server.Handle\<close> for one message.\<close>

definition handle_one ::
  "(byte \<Rightarrow> 'v codec option) \<Rightarrow> 'v codec \<Rightarrow> (string \<Rightarrow> 'v service option) \<Rightarrow> Message \<Rightarrow> TokenBucket \<Rightarrow> Message list \<times> TokenBucket" where
  "handle_one codecs dflt services msg tb =
     (case m_Header msg of
        None \<Rightarrow> ([], tb)
      | Some h \<Rightarrow>
        (case tb_Allow tb of (ok, tb') \<Rightarrow>
           if \<not> ok then ([writeError (h_RequestID h) ''rate limit exceeded''], tb')
           else (Process codecs dflt h (m_Body msg) (services (h_ServiceName h)), tb')))"

text \<open>What the client's read loop makes of a unary response.\<close>

definition response_of :: "Message \<Rightarrow> (nat \<times> (go_err + bytes)) option" where
  "response_of msg =
     (case m_Header msg of
        None \<Rightarrow> None
      | Some h \<Rightarrow> if h_StreamFlag h \<in> {StreamData, StreamEnd, StreamError} then None
                  else Some (h_RequestID h, if h_Error h \<noteq> [] then Inl (Err (h_Error h)) else Inr (m_Body msg)))"

section \<open>The connection pool\<close>

text \<open>A connection of the pool is its index in the list of connections ever dialled; \<open>is_closed\<close> reads their
  \<^verbatim>\<open>closed\<close> flags, \<open>dial\<close> is the outcome of \<^verbatim>\<open>newTCPClient\<close>.\<close>

record ConnectionPool =
  cp_maxActive :: int
  cp_conns :: "nat list"
  cp_closed :: bool
  cp_next :: nat

text \<open>The loop over the connections: \<open>n - i\<close> of them are still to be looked at; a closed one is removed.\<close>

fun cp_scan :: "(nat \<Rightarrow> bool) \<Rightarrow> nat \<Rightarrow> nat \<Rightarrow> nat \<Rightarrow> nat list \<Rightarrow> nat list \<times> (nat \<times> nat) option" where
  "cp_scan is_closed next i 0 conns = (conns, None)"
| "cp_scan is_closed next i (Suc k) conns =
     (let idx = (next + i) mod length conns; conn = conns ! idx
      in if \<not> is_closed conn then (conns, Some (conn, (idx + 1) mod length conns))
         else let conns' = take idx conns @ drop (idx + 1) conns
              in if conns' = [] then (conns', None) else cp_scan is_closed next i k conns')"

definition cp_Acquire :: "(nat \<Rightarrow> bool) \<Rightarrow> go_err option \<Rightarrow> (go_err + nat) \<Rightarrow> ConnectionPool \<Rightarrow> (go_err + nat) \<times> ConnectionPool" where
  "cp_Acquire is_closed ctx_err dial p =
     (if cp_closed p then (Inl (Err ''connection pool closed''), p)
      else case ctx_err of
        Some e \<Rightarrow> (Inl e, p)
      | None \<Rightarrow>
        if int (length (cp_conns p)) < cp_maxActive p
        then (case dial of Inl e \<Rightarrow> (Inl e, p) | Inr c \<Rightarrow> (Inr c, p\<lparr>cp_conns := cp_conns p @ [c]\<rparr>))
        else (case cp_scan is_closed (cp_next p) 0 (length (cp_conns p)) (cp_conns p) of
                (conns, Some (conn, nxt)) \<Rightarrow> (Inr conn, p\<lparr>cp_conns := conns, cp_next := nxt\<rparr>)
              | (conns, None) \<Rightarrow>
                  (case dial of Inl e \<Rightarrow> (Inl e, p\<lparr>cp_conns := conns\<rparr>)
                              | Inr c \<Rightarrow> (Inr c, p\<lparr>cp_conns := conns @ [c]\<rparr>))))"

text \<open>The pool hands out a connection it just dialled, or one of its own that is not closed, and does not grow
  beyond its limit.\<close>

lemma cp_scan_open:
  "cp_scan is_closed nxt i k conns = (conns', r) \<Longrightarrow> k = length conns \<Longrightarrow>
   set conns' \<subseteq> set conns \<and> length conns' \<le> length conns \<and>
   (case r of Some (c, n) \<Rightarrow> c \<in> set conns' \<and> \<not> is_closed c \<and> n < length conns' | None \<Rightarrow> conns' = [])"
proof (induction is_closed nxt i k conns rule: cp_scan.induct)
  case (2 is_closed nxt i k conns)
  let ?idx = "(nxt + i) mod length conns"
  let ?rest = "take ?idx conns @ drop (?idx + 1) conns"
  have idx: "?idx < length conns" using "2.prems"(2) by (metis mod_less_divisor zero_less_Suc)
  have len: "length ?rest = k" using idx "2.prems"(2) by simp
  have sub: "set ?rest \<subseteq> set conns" by (auto dest: in_set_takeD in_set_dropD)
  show ?case
  proof (cases "\<not> is_closed (conns ! ?idx)")
    case True
    then have "conns' = conns" "r = Some (conns ! ?idx, (?idx + 1) mod length conns)"
      using "2.prems"(1) by (auto simp: Let_def)
    moreover have "(?idx + 1) mod length conns < length conns" using "2.prems"(2) by (intro mod_less_divisor) linarith
    ultimately show ?thesis using True idx by simp
  next
    case False
    show ?thesis
    proof (cases "?rest = []")
      case True
      with False "2.prems"(1) have "conns' = []" "r = None" by (auto simp: Let_def)
      then show ?thesis by simp
    next
      case nonempty: False
      then have "cp_scan is_closed nxt i k ?rest = (conns', r)"
        using False "2.prems"(1) by (auto simp: Let_def split: if_splits)
      from "2.IH" [OF refl refl _ refl nonempty this len [symmetric]] False len sub "2.prems"(2)
      show ?thesis by (auto split: option.splits)
    qed
  qed
qed auto

lemma cp_Acquire_open:
  assumes "cp_Acquire is_closed ctx_err dial p = (Inr c, p')" "0 < cp_maxActive p" "int (length (cp_conns p)) \<le> cp_maxActive p"
  shows "c \<in> set (cp_conns p') \<and> (\<not> is_closed c \<or> dial = Inr c) \<and> int (length (cp_conns p')) \<le> cp_maxActive p"
proof (cases "int (length (cp_conns p)) < cp_maxActive p")
  case True
  with assms show ?thesis by (auto simp: cp_Acquire_def split: if_splits option.splits sum.splits)
next
  case False
  obtain conns r where s: "cp_scan is_closed (cp_next p) 0 (length (cp_conns p)) (cp_conns p) = (conns, r)"
    by (cases "cp_scan is_closed (cp_next p) 0 (length (cp_conns p)) (cp_conns p)")
  from cp_scan_open [OF s refl] s False assms show ?thesis
    by (auto simp: cp_Acquire_def split: if_splits option.splits sum.splits)
qed

section \<open>Every request is answered\<close>

definition has_id :: "nat \<Rightarrow> Message \<Rightarrow> bool" where
  "has_id q m \<longleftrightarrow> (case m_Header m of None \<Rightarrow> False | Some h \<Rightarrow> h_RequestID h = q)"

definition has_flag :: "byte set \<Rightarrow> Message \<Rightarrow> bool" where
  "has_flag F m \<longleftrightarrow> (case m_Header m of None \<Rightarrow> False | Some h \<Rightarrow> h_StreamFlag h \<in> F)"

text \<open>The shape of an answer: data frames of a stream, then one message that ends it, all with the request's id.\<close>

definition answers :: "nat \<Rightarrow> Message list \<Rightarrow> bool" where
  "answers q out \<longleftrightarrow> (\<exists>frames final. out = frames @ [final] \<and> list_all (has_id q) out \<and>
     list_all (has_flag {StreamData}) frames \<and> has_flag {StreamNone, StreamEnd, StreamError} final)"

lemma reply_fields [simp]: "has_id q (reply i e f b) \<longleftrightarrow> i = q" "has_flag F (reply i e f b) \<longleftrightarrow> f \<in> F"
  by (simp_all add: has_id_def has_flag_def reply_def)

lemma stream_frames_data: "list_all (has_id q) (stream_frames cc q vs) \<and> list_all (has_flag {StreamData}) (stream_frames cc q vs)"
  by (induction vs) (auto split: sum.splits)

lemma answers_single: "f \<in> {StreamNone, StreamEnd, StreamError} \<Longrightarrow> answers q [reply q e f b]"
  unfolding answers_def by (intro exI [of _ "[]"] exI [of _ "reply q e f b"]) auto

lemma answers_stream: "answers q (stream_run cc q m req)"
proof -
  obtain e f where "stream_run cc q m req = stream_frames cc q (mt_sends m req) @ [reply q e f []]"
      "f \<in> {StreamNone, StreamEnd, StreamError}"
  proof (cases "safeCall (mt_call m req)")
    case (Inl p)
    then show thesis by (intro that [of p StreamError]) (simp_all add: stream_run_def)
  next
    case (Inr r)
    obtain v x where "r = (v, x)" by (cases r)
    with Inr show thesis
      by (cases x) (auto intro: that [of "[]" StreamEnd] that [of _ StreamError] simp: stream_run_def)
  qed
  then show ?thesis
    using stream_frames_data [of q cc "mt_sends m req"] unfolding answers_def
    by (intro exI [of _ "stream_frames cc q (mt_sends m req)"] exI [of _ "reply q e f []"]) auto
qed

lemma invoke_stream: "invoke q service s n body cc = Streaming frames \<Longrightarrow> answers q frames"
  by (auto simp: invoke_def answers_stream split: option.splits if_splits sum.splits prod.splits)

lemma Process_answers: "answers (h_RequestID h) (Process codecs dflt h body service)"
  by (auto simp: Process_def writeError_def intro: answers_single invoke_stream
      split: option.splits invoked.splits sum.splits if_splits)

text \<open>A message that the client can read becomes the result of the call.\<close>

lemma response_reply: "response_of (reply q e StreamNone b) = Some (q, if e \<noteq> [] then Inl (Err e) else Inr b)"
  by (simp add: response_of_def reply_def StreamNone_def StreamData_def StreamEnd_def StreamError_def)

text \<open>An error whose message is empty reaches the caller as a success with an empty body.\<close>

lemma empty_error_lost: "response_of (writeError q []) = Some (q, Inr [])"
  by (simp add: writeError_def response_reply)

text \<open>With the Protobuf codec no unary method can return a value: \<^verbatim>\<open>invoke\<close> passes on the struct itself, and only
  a pointer to it is a \<^verbatim>\<open>proto.Message\<close>.\<close>

lemma invoke_result_Val: "invoke q service s n body cc = Result (Some v) \<Longrightarrow> \<exists>x. v = Val x"
  by (auto simp: invoke_def split: option.splits if_splits sum.splits prod.splits)

lemma proto_never_replies:
  assumes "codecs (h_CodecType h) = Some (protoCodec marshal unmarshal)" "h_CodecType h \<noteq> 0"
    and "invoke (h_RequestID h) service (h_ServiceName h) (h_MethodName h) body (protoCodec marshal unmarshal) = Result (Some v)"
  shows "Process codecs dflt h body service = [writeError (h_RequestID h) ''proto codec: not proto.Message'']"
  using assms invoke_result_Val [OF assms(3)] by (auto simp: Process_def) (simp add: protoCodec_def)

section \<open>The properties\<close>

text \<open>The text of the error and the body that a unary call is answered with.\<close>

definition unary_answer :: "'v codec \<Rightarrow> 'v rpc_method \<Rightarrow> bytes \<Rightarrow> string \<times> bytes" where
  "unary_answer cc m body =
     (case decode_req cc m body of
        Inl e \<Rightarrow> (err_msg e, [])
      | Inr a \<Rightarrow>
        (case mt_call m a of
           Panics p \<Rightarrow> (''handler panic: '' @ p, [])
         | Returns r (Some e) \<Rightarrow> (e, [])
         | Returns r None \<Rightarrow>
           (case (if mt_numOut m = 1 \<and> r = None then Some (mt_zero m) else r) of
              None \<Rightarrow> ([], [])
            | Some v \<Rightarrow> (case c_Marshal cc (Val v) of Inl e \<Rightarrow> (err_msg e, []) | Inr b \<Rightarrow> ([], b)))))"

lemma Process_unary:
  assumes codec: "(if h_CodecType h \<noteq> 0 then codecs (h_CodecType h) else Some dflt) = Some cc"
    and srv: "service = Some srv" "srv (h_MethodName h) = Some m" "mt_numIn m = 2"
    and sig: "mt_numOut m = 2 \<and> mt_in0_context m \<and> mt_in1_pointer m \<and> mt_out0_pointer m \<and> mt_out1_error m \<or>
              mt_numOut m = 1 \<and> mt_out0_error m \<and> mt_in0_pointer m \<and> \<not> mt_in1_stream m \<and> mt_in1_pointer m"
  shows "Process codecs dflt h body service =
    [reply (h_RequestID h) (fst (unary_answer cc m body)) StreamNone (snd (unary_answer cc m body))]"
proof (cases "decode_req cc m body")
  case (Inl e)
  then show ?thesis using sig by (elim disjE; simp add: Process_def codec invoke_def srv writeError_def unary_answer_def)
next
  case (Inr a)
  show ?thesis
  proof (cases "mt_call m a")
    case (Panics p)
    then show ?thesis using Inr sig
      by (elim disjE; simp add: Process_def codec invoke_def srv writeError_def unary_answer_def)
  next
    case (Returns v e)
    show ?thesis using Inr Returns sig
      by (elim disjE; cases v; cases e)
        (simp_all add: Process_def codec invoke_def srv writeError_def unary_answer_def split: sum.splits)
  qed
qed

text \<open>C15: A unary call is answered with what the method did.  A request \<open>req\<close> for a registered unary method
  (of either signature) is encoded, cut into chunks, read by the server, which is not over its rate limit,
  and handled; the answer is encoded, cut into chunks and read by the client.  Then the server writes exactly
  one message, and the client completes the call of that request id with a body or an error: the marshalled
  result when the method returns one (the zero value of the reply when the second signature leaves it alone),
  an empty body when the first signature returns nil and no error, and otherwise the text of the error:
  of the codec when it cannot decode the argument or marshal the result, of the method when it returns an
  error, \<^verbatim>\<open>handler panic\<close> and the panic value when it panics.  An error whose text is empty arrives as an empty
  body without an error.\<close>

theorem rpc_call:
  assumes req: "m_Header req = Some h" "sendable w req"
    and up: "concat up = projr (Encode w req)"
    and codec: "(if h_CodecType h \<noteq> 0 then codecs (h_CodecType h) else Some dflt) = Some cc"
    and srv: "services (h_ServiceName h) = Some srv" "srv (h_MethodName h) = Some m" "mt_numIn m = 2"
    and sig: "mt_numOut m = 2 \<and> mt_in0_context m \<and> mt_in1_pointer m \<and> mt_out0_pointer m \<and> mt_out1_error m \<or>
              mt_numOut m = 1 \<and> mt_out0_error m \<and> mt_in0_pointer m \<and> \<not> mt_in1_stream m \<and> mt_in1_pointer m"
    and answer: "unary_answer cc m (m_Body req) = (e, b)"
    and tb: "tb_tokens tb > 0"
    and resp: "sendable w (reply (h_RequestID h) e StreamNone b)"
  shows "\<exists>msg resp.
     fst (tc_reads w 1 \<lparr> tc_buffer = [], tc_chunks = up \<rparr>) = [msg] \<and>
     fst (handle_one codecs dflt services msg tb) = [resp] \<and>
     (\<forall>down. concat down = projr (Encode w resp) \<longrightarrow>
        fst (tc_reads w 1 \<lparr> tc_buffer = [], tc_chunks = down \<rparr>) = [resp]) \<and>
     response_of resp = Some (h_RequestID h, if e \<noteq> [] then Inl (Err e) else Inr b)"
proof -
  have arrives: "fst (tc_reads w 1 \<lparr> tc_buffer = [], tc_chunks = cs \<rparr>) = [m]"
    if "sendable w m" "concat cs = projr (Encode w m)" for m cs
    using tc_reads_packets [of "[m]" w "\<lparr> tc_buffer = [], tc_chunks = cs \<rparr>" "[]"] that by auto
  let ?resp = "reply (h_RequestID h) e StreamNone b"
  have "Process codecs dflt h (m_Body req) (services (h_ServiceName h)) = [?resp]"
    using Process_unary [of h codecs dflt cc, OF codec srv sig] by (simp add: answer)
  then have h: "fst (handle_one codecs dflt services req tb) = [?resp]"
    using req(1) tb by (simp add: handle_one_def tb_Allow_def)
  have "fst (tc_reads w 1 \<lparr> tc_buffer = [], tc_chunks = down \<rparr>) = [?resp]"
    if "concat down = projr (Encode w ?resp)" for down
    by (rule arrives [OF resp that])
  then show ?thesis
    using arrives [OF req(2) up] h response_reply by blast
qed

text \<open>A service with one method, which reverses its argument; the two headers of the exchange are written as a
  byte each.\<close>

definition rev_header :: Header where
  "rev_header = \<lparr> h_RequestID = 7, h_ServiceName = ''Text'', h_MethodName = ''Rev'', h_Error = [],
     h_CodecType = 0, h_Compression = CompressionNone, h_StreamFlag = 0 \<rparr>"

definition table_wire :: wire where
  "table_wire =
     \<lparr> w_Marshal = (\<lambda>h. Inr (if h = rev_header then [1] else [2])),
       w_Unmarshal = (\<lambda>b. if b = [1] then Inr rev_header else Inr (the (m_Header (reply 7 [] StreamNone [])))),
       w_compress = (\<lambda>b. Inr (255 # b)), w_decompress = (\<lambda>b. Inr (tl b)) \<rparr>"

definition rev_method :: "bytes rpc_method" where
  "rev_method = \<lparr> mt_numIn = 2, mt_numOut = 2, mt_in0_context = True, mt_in0_pointer = False, mt_in1_pointer = True,
     mt_in1_stream = False, mt_out0_pointer = True, mt_out0_error = False, mt_out1_error = True, mt_zero = [],
     mt_call = (\<lambda>a. Returns (Some (rev a)) None), mt_sends = (\<lambda>_. []) \<rparr>"

definition rev_services :: "string \<Rightarrow> bytes service option" where
  "rev_services s = (if s = ''Text'' then Some (\<lambda>n. if n = ''Rev'' then Some rev_method else None) else None)"

theorem rpc_call_witness:
  "\<exists>msg resp.
     fst (tc_reads table_wire 1 \<lparr> tc_buffer = [], tc_chunks = [[18, 52, 0, 0, 0], [1, 0, 0, 0, 3, 1, 10, 20, 30]] \<rparr>) = [msg] \<and>
     fst (handle_one (\<lambda>_. None) (jsonCodec Inr Inr) rev_services msg (NewTokenBucket 10000)) = [resp] \<and>
     response_of resp = Some (7, Inr [30, 20, 10])"
proof -
  let ?req = "\<lparr> m_Header = Some rev_header, m_Body = [10, 20, 30] \<rparr> :: Message"
  let ?up = "[[18, 52, 0, 0, 0], [1, 0, 0, 0, 3, 1, 10, 20, 30]] :: bytes list"
  note defs = table_wire_def rev_header_def CompressionNone_def CompressionGzip_def
  have req: "sendable table_wire ?req"
    by (simp add: sendable_def json_ok_def packet_size_def defs U32_def)
  have resp: "sendable table_wire (reply (h_RequestID rev_header) [] StreamNone [30, 20, 10])"
    by (simp add: sendable_def json_ok_def gzip_ok_def packet_size_def reply_def defs U32_def)
  have up: "concat ?up = projr (Encode table_wire ?req)"
    using copies_packet [of 14 "[1]" "[10, 20, 30]"]
    by (simp add: Encode_def defs Let_def U32_def packet_def be16_def be32_def Magic_def)
  let ?srv = "\<lambda>n. if n = ''Rev'' then Some rev_method else None"
  let ?cc = "jsonCodec Inr Inr :: bytes codec"
  have 1: "(if h_CodecType rev_header \<noteq> 0 then None else Some ?cc) = Some ?cc"
    "rev_services (h_ServiceName rev_header) = Some ?srv" "?srv (h_MethodName rev_header) = Some rev_method" "mt_numIn rev_method = 2"
    by (simp_all add: rev_header_def rev_services_def rev_method_def)
  have 2: "mt_numOut rev_method = 2 \<and> mt_in0_context rev_method \<and> mt_in1_pointer rev_method \<and> mt_out0_pointer rev_method \<and> mt_out1_error rev_method \<or>
      mt_numOut rev_method = 1 \<and> mt_out0_error rev_method \<and> mt_in0_pointer rev_method \<and> \<not> mt_in1_stream rev_method \<and> mt_in1_pointer rev_method"
    "unary_answer ?cc rev_method (m_Body ?req) = ([], [30, 20, 10])" "tb_tokens (NewTokenBucket 10000) > 0"
    by (simp_all add: rev_method_def decode_req_def jsonCodec_def NewTokenBucket_def unary_answer_def)
  have "m_Header ?req = Some rev_header" by simp
  from rpc_call [where codecs = "\<lambda>_. None" and services = rev_services and e = "[]" and b = "[30, 20, 10]"
      and h = rev_header and req = ?req and cc = ?cc and dflt = ?cc and srv = ?srv and m = rev_method,
      OF this req up 1 2 resp]
  obtain msg resp where
    "fst (tc_reads table_wire 1 \<lparr> tc_buffer = [], tc_chunks = ?up \<rparr>) = [msg]"
    "fst (handle_one (\<lambda>_. None) ?cc rev_services msg (NewTokenBucket 10000)) = [resp]"
    "response_of resp = Some (h_RequestID rev_header, Inr [30, 20, 10])"
    by auto
  then show ?thesis by (intro exI [of _ msg] exI [of _ resp]) (simp add: rev_header_def)
qed

end
