(* ===== verification/HTTP_Router.thy ===== *)
theory HTTP_Router
  imports Go_Prelude "HOL-Library.Sublist"
begin

text \<open>
  The router of the HTTP library: the trie of \<^verbatim>\<open>trie.go\<close>, the routes of \<^verbatim>\<open>router.go\<close>, the groups
  of \<^verbatim>\<open>group.go\<close> and the choice of middlewares in \<^verbatim>\<open>ServeHTTP\<close>.  A part of a pattern is a literal, a
  parameter \<^verbatim>\<open>:name\<close> or, as the last part, a wildcard \<^verbatim>\<open>*name\<close>.  Handlers are of any type.
\<close>

section \<open>The trie\<close>

datatype trie_node = Node (n_pattern: string) (n_part: string) (n_isWild: bool) (n_children: "trie_node list")

definition wild_part :: "string \<Rightarrow> bool" where
  "wild_part part \<longleftrightarrow> take 1 part = '':'' \<or> take 1 part = ''*''"

definition star_part :: "string \<Rightarrow> bool" where
  "star_part part \<longleftrightarrow> take 1 part = ''*''"

definition matchChild :: "string \<Rightarrow> trie_node list \<Rightarrow> trie_node option" where
  "matchChild part cs = List.find (\<lambda>c. n_part c = part) cs"

definition matchChildren :: "string \<Rightarrow> trie_node list \<Rightarrow> trie_node list" where
  "matchChildren part cs =
     filter (\<lambda>c. n_part c = part) cs @ filter (\<lambda>c. n_part c \<noteq> part \<and> n_isWild c) cs"

text \<open>The child the pointer of \<^verbatim>\<open>matchChild\<close> refers to is changed in place.\<close>

fun upd_child :: "string \<Rightarrow> (trie_node \<Rightarrow> trie_node) \<Rightarrow> trie_node list \<Rightarrow> trie_node list" where
  "upd_child part f [] = []"
| "upd_child part f (c # cs) = (if n_part c = part then f c # cs else c # upd_child part f cs)"

fun insert_node :: "string \<Rightarrow> string list \<Rightarrow> trie_node \<Rightarrow> trie_node" where
  "insert_node pattern [] (Node pat part w cs) = Node pattern part w cs"
| "insert_node pattern (p # ps) (Node pat part w cs) =
     Node pat part w
       (case matchChild p cs of
          None \<Rightarrow> cs @ [insert_node pattern ps (Node [] p (wild_part p) [])]
        | Some _ \<Rightarrow> upd_child p (\<lambda>c. insert_node pattern ps c) cs)"

text \<open>The loop of \<^verbatim>\<open>search\<close>: the first child whose search succeeds.\<close>

fun first_some :: "('a \<Rightarrow> 'b option) \<Rightarrow> 'a list \<Rightarrow> 'b option" where
  "first_some f [] = None"
| "first_some f (x # xs) = (case f x of None \<Rightarrow> first_some f xs | Some y \<Rightarrow> Some y)"

fun search_node :: "string list \<Rightarrow> trie_node \<Rightarrow> trie_node option" where
  "search_node [] n = (if n_pattern n = [] then None else Some n)"
| "search_node (x # xs) n =
     (if star_part (n_part n) then if n_pattern n = [] then None else Some n
      else first_some (\<lambda>c. search_node xs c) (matchChildren x (n_children n)))"

fun travel :: "trie_node \<Rightarrow> trie_node list" where
  "travel (Node pat part w cs) = (if pat \<noteq> [] then [Node pat part w cs] else []) @ concat (map travel cs)"

section \<open>Patterns\<close>

text \<open>\<^verbatim>\<open>strings.Split(s, "/")\<close> and \<^verbatim>\<open>strings.Join(parts, "/")\<close>.\<close>

fun split_slash :: "string \<Rightarrow> string list" where
  "split_slash [] = [[]]"
| "split_slash (c # s) =
     (if c = CHR ''/'' then [] # split_slash s
      else case split_slash s of [] \<Rightarrow> [[c]] | w # ws \<Rightarrow> (c # w) # ws)"

fun join_slash :: "string list \<Rightarrow> string" where
  "join_slash [] = []"
| "join_slash [w] = w"
| "join_slash (w # ws) = w @ ''/'' @ join_slash ws"

fun take_parts :: "string list \<Rightarrow> string list" where
  "take_parts [] = []"
| "take_parts (item # vs) =
     (if item \<noteq> [] then if star_part item then [item] else item # take_parts vs else take_parts vs)"

definition parsePattern :: "string \<Rightarrow> string list" where
  "parsePattern pattern = take_parts (split_slash pattern)"

section \<open>The router\<close>

record 'h router =
  r_roots :: "string \<Rightarrow> trie_node option"
  r_handlers :: "string \<Rightarrow> 'h option"

definition newRouter :: "'h router" where
  "newRouter = \<lparr> r_roots = (\<lambda>_. None), r_handlers = (\<lambda>_. None) \<rparr>"

definition route_key :: "string \<Rightarrow> string \<Rightarrow> string" where
  "route_key meth pattern = meth @ ''-'' @ pattern"

definition addRoute :: "string \<Rightarrow> string \<Rightarrow> 'h \<Rightarrow> 'h router \<Rightarrow> 'h router" where
  "addRoute meth pattern handler r =
     (let parts = parsePattern pattern;
          pattern' = ''/'' @ join_slash parts;
          root = (case r_roots r meth of None \<Rightarrow> Node [] [] False [] | Some n \<Rightarrow> n)
      in \<lparr> r_roots = (r_roots r)(meth \<mapsto> insert_node pattern' parts root),
           r_handlers = (r_handlers r)(route_key meth pattern' \<mapsto> handler) \<rparr>)"

text \<open>The loop of \<^verbatim>\<open>getRoute\<close> over the parts of the pattern; an index past the request's parts panics.\<close>

fun bind_params :: "string list \<Rightarrow> nat \<Rightarrow> string list \<Rightarrow> (string \<rightharpoonup> string) \<Rightarrow> go_err + (string \<rightharpoonup> string)" where
  "bind_params searchParts i [] params = Inr params"
| "bind_params searchParts i (part # parts) params =
     rbind (if take 1 part = '':'' then rbind (go_nth searchParts i) (\<lambda>x. Inr (params(drop 1 part \<mapsto> x))) else Inr params)
       (\<lambda>params.
          if take 1 part = ''*'' \<and> length part > 1
          then rbind (go_slice searchParts i (length searchParts)) (\<lambda>xs. Inr (params(drop 1 part \<mapsto> join_slash xs)))
          else bind_params searchParts (i + 1) parts params)"

definition getRoute :: "string \<Rightarrow> string \<Rightarrow> 'h router \<Rightarrow> go_err + (trie_node \<times> (string \<rightharpoonup> string)) option" where
  "getRoute meth path r =
     (let searchParts = parsePattern path
      in case r_roots r meth of
           None \<Rightarrow> Inr None
         | Some root \<Rightarrow>
             (case search_node searchParts root of
                None \<Rightarrow> Inr None
              | Some n \<Rightarrow> rbind (bind_params searchParts 0 (parsePattern (n_pattern n)) Map.empty) (\<lambda>params. Inr (Some (n, params)))))"

definition getRoutes :: "string \<Rightarrow> 'h router \<Rightarrow> trie_node list" where
  "getRoutes meth r = (case r_roots r meth of None \<Rightarrow> [] | Some root \<Rightarrow> travel root)"

section \<open>Groups and middlewares\<close>

record 'h hgroup =
  g_prefix :: string
  g_middlewares :: "'h list"

fun trim_slashes :: "string \<Rightarrow> string" where
  "trim_slashes s = (if length s > 1 \<and> last s = CHR ''/'' then trim_slashes (butlast s) else s)"

declare trim_slashes.simps [simp del]

definition normalizePrefix :: "string \<Rightarrow> string" where
  "normalizePrefix p =
     (if p = [] then []
      else let p' = trim_slashes (if take 1 p = ''/'' then p else CHR ''/'' # p)
           in if p' = ''/'' then [] else p')"

definition matchRouterPath :: "string \<Rightarrow> string \<Rightarrow> bool" where
  "matchRouterPath requestPath routerPrefix \<longleftrightarrow>
     (if routerPrefix = [] \<or> routerPrefix = ''/'' then True
      else if \<not> prefix routerPrefix requestPath then False
      else length requestPath = length routerPrefix \<or> requestPath ! length routerPrefix = CHR ''/'')"

record 'h app =
  a_router :: "'h router"
  a_routers :: "'h hgroup list"

definition newApp :: "'h app" where
  "newApp = \<lparr> a_router = newRouter, a_routers = [\<lparr> g_prefix = [], g_middlewares = [] \<rparr>] \<rparr>"

text \<open>\<open>Router.Router\<close>, \<open>Router.Use\<close> and \<open>Router.addRoute\<close> on the group with the given index.\<close>

definition group_Router :: "nat \<Rightarrow> string \<Rightarrow> 'h app \<Rightarrow> 'h app" where
  "group_Router g p a =
     a\<lparr>a_routers := a_routers a @ [\<lparr> g_prefix = g_prefix (a_routers a ! g) @ normalizePrefix p, g_middlewares = [] \<rparr>]\<rparr>"

definition group_Use :: "nat \<Rightarrow> 'h list \<Rightarrow> 'h app \<Rightarrow> 'h app" where
  "group_Use g ms a =
     a\<lparr>a_routers := (a_routers a)[g := (a_routers a ! g)\<lparr>g_middlewares := g_middlewares (a_routers a ! g) @ ms\<rparr>]\<rparr>"

definition group_addRoute :: "nat \<Rightarrow> string \<Rightarrow> string \<Rightarrow> 'h \<Rightarrow> 'h app \<Rightarrow> 'h app" where
  "group_addRoute g meth rel handler a = a\<lparr>a_router := addRoute meth (g_prefix (a_routers a ! g) @ rel) handler (a_router a)\<rparr>"

text \<open>The middlewares that \<^verbatim>\<open>ServeHTTP\<close> runs for a path, and the handler \<^verbatim>\<open>handle\<close> finds for it.\<close>

definition serve_middlewares :: "string \<Rightarrow> 'h app \<Rightarrow> 'h list" where
  "serve_middlewares path a =
     concat (map (\<lambda>g. if matchRouterPath path (g_prefix g) then g_middlewares g else []) (a_routers a))"

definition serve_handler :: "string \<Rightarrow> string \<Rightarrow> 'h app \<Rightarrow> 'h option" where
  "serve_handler meth path a =
     (case getRoute meth path (a_router a) of
        Inr (Some (n, _)) \<Rightarrow> r_handlers (a_router a) (route_key meth (n_pattern n))
      | _ \<Rightarrow> None)"

section \<open>What the trie stores\<close>

fun trie_ok :: "trie_node \<Rightarrow> bool" where
  "trie_ok (Node pat part w cs) \<longleftrightarrow>
     distinct (map n_part cs) \<and> (star_part part \<longrightarrow> cs = []) \<and>
     (\<forall>c \<in> set cs. n_part c \<noteq> [] \<and> n_isWild c = wild_part (n_part c) \<and> trie_ok c)"

fun reach :: "string list \<Rightarrow> trie_node \<Rightarrow> string" where
  "reach [] n = n_pattern n"
| "reach (p # ps) n = (case matchChild p (n_children n) of None \<Rightarrow> [] | Some c \<Rightarrow> reach ps c)"

text \<open>A list of parts as \<^verbatim>\<open>parsePattern\<close> makes it.\<close>

fun parts_ok :: "string list \<Rightarrow> bool" where
  "parts_ok [] = True"
| "parts_ok (p # ps) \<longleftrightarrow> p \<noteq> [] \<and> CHR ''/'' \<notin> set p \<and> (star_part p \<longrightarrow> ps = []) \<and> parts_ok ps"

text \<open>When a pattern matches the parts of a request.\<close>

fun matches :: "string list \<Rightarrow> string list \<Rightarrow> bool" where
  "matches [] xs \<longleftrightarrow> xs = []"
| "matches (p # ps) [] \<longleftrightarrow> False"
| "matches (p # ps) (x # xs) \<longleftrightarrow> (if star_part p then ps = [] else (p = x \<or> wild_part p) \<and> matches ps xs)"

lemma matchChild_Some: "matchChild p cs = Some c \<Longrightarrow> c \<in> set cs \<and> n_part c = p"
  by (auto simp: matchChild_def find_Some_iff)

lemma matchChild_None: "matchChild p cs = None \<longleftrightarrow> (\<forall>c \<in> set cs. n_part c \<noteq> p)"
  by (auto simp: matchChild_def find_None_iff)

lemma matchChild_unique: "distinct (map n_part cs) \<Longrightarrow> c \<in> set cs \<Longrightarrow> matchChild (n_part c) cs = Some c"
  by (induction cs) (auto simp: matchChild_def)

lemma filter_part: "distinct (map n_part cs) \<Longrightarrow> c \<in> set cs \<Longrightarrow> filter (\<lambda>d. n_part d = n_part c) cs = [c]"
proof (induction cs)
  case (Cons d cs)
  have none: "filter (\<lambda>e. n_part e = n_part d) cs = []"
    unfolding filter_empty_conv
  proof (intro ballI notI)
    fix e assume "e \<in> set cs" "n_part e = n_part d"
    then have "n_part d \<in> n_part ` set cs" by (metis imageI)
    with Cons.prems(1) show False by simp
  qed
  show ?case
  proof (cases "c = d")
    case True
    with none show ?thesis by simp
  next
    case False
    with Cons.prems have "c \<in> set cs" "n_part d \<noteq> n_part c" by auto
    with Cons show ?thesis by simp
  qed
qed simp

lemma insert_node_part [simp]: "n_part (insert_node pat ps n) = n_part n" "n_isWild (insert_node pat ps n) = n_isWild n"
  by (cases ps; cases n; simp)+

lemma upd_child_parts: "(\<And>c. n_part (f c) = n_part c) \<Longrightarrow> map n_part (upd_child p f cs) = map n_part cs"
  by (induction cs) auto

lemma upd_child_find:
  assumes "\<And>c. n_part (f c) = n_part c"
  shows "matchChild q (upd_child p f cs) = (if q = p then map_option f (matchChild p cs) else matchChild q cs)"
  using assms by (induction cs) (auto simp: matchChild_def)

lemma upd_child_set: "c \<in> set (upd_child p f cs) \<Longrightarrow> c \<in> set cs \<or> (\<exists>d \<in> set cs. n_part d = p \<and> c = f d)"
  by (induction cs) (auto split: if_splits)

lemma trie_insert_ok: "trie_ok n \<Longrightarrow> parts_ok ps \<Longrightarrow> (star_part (n_part n) \<longrightarrow> ps = []) \<Longrightarrow> trie_ok (insert_node pat ps n)"
proof (induction pat ps n rule: insert_node.induct)
  case (2 pattern p ps pat part w cs)
  show ?case
  proof (cases "matchChild p cs")
    case None
    have "trie_ok (insert_node pattern ps (Node [] p (wild_part p) []))"
      using "2.IH"(1) [OF None] "2.prems" by auto
    moreover have "p \<notin> n_part ` set cs" using None by (auto simp: matchChild_None)
    ultimately show ?thesis using None "2.prems" by auto
  next
    case (Some c)
    have "trie_ok (insert_node pattern ps d)" if "d \<in> set cs" "n_part d = p" for d
      using "2.IH"(2) [OF Some] "2.prems" that by auto
    with Some "2.prems" show ?thesis
      by (auto simp: upd_child_parts dest!: upd_child_set)
  qed
qed simp

lemma reach_insert: "trie_ok n \<Longrightarrow> reach qs (insert_node pat ps n) = (if qs = ps then pat else reach qs n)"
proof (induction pat ps n arbitrary: qs rule: insert_node.induct)
  case (1 pattern pat part w cs)
  then show ?case by (cases qs) auto
next
  case (2 pattern p ps pat part w cs)
  show ?case
  proof (cases qs)
    case Nil
    then show ?thesis by simp
  next
    case (Cons q qs')
    show ?thesis
    proof (cases "matchChild p cs")
      case None
      have empty: "reach rs (Node [] p (wild_part p) []) = []" for rs
        by (cases rs) (auto simp: matchChild_def)
      have new: "reach rs (insert_node pattern ps (Node [] p (wild_part p) [])) = (if rs = ps then pattern else [])" for rs
        using "2.IH"(1) [OF None, of rs] empty by simp
      have "matchChild q (cs @ [insert_node pattern ps (Node [] p (wild_part p) [])]) =
          (if q = p then Some (insert_node pattern ps (Node [] p (wild_part p) [])) else matchChild q cs)"
        using None by (induction cs) (auto simp: matchChild_def split: if_splits)
      with Cons None new show ?thesis by (auto split: option.splits)
    next
      case (Some c)
      have "trie_ok c" using "2.prems" matchChild_Some [OF Some] by auto
      with "2.IH"(2) [OF Some, of c qs'] Cons Some show ?thesis
        by (auto simp: upd_child_find split: option.splits)
    qed
  qed
qed

section \<open>Searching\<close>

lemma first_some_None: "first_some f xs = None \<longleftrightarrow> (\<forall>x \<in> set xs. f x = None)"
  by (induction xs) (auto split: option.splits)

lemma first_some_Some:
  "first_some f xs = Some y \<Longrightarrow> \<exists>us x vs. xs = us @ x # vs \<and> f x = Some y \<and> (\<forall>u \<in> set us. f u = None)"
proof (induction xs)
  case (Cons a xs)
  show ?case
  proof (cases "f a")
    case None
    with Cons obtain us x vs where "xs = us @ x # vs" "f x = Some y" "\<forall>u \<in> set us. f u = None" by auto
    with None show ?thesis by (intro exI [of _ "a # us"]) auto
  next
    case (Some z)
    with Cons.prems show ?thesis by (intro exI [of _ "[]"]) auto
  qed
qed simp

lemma search_star: "star_part (n_part n) \<Longrightarrow> search_node xs n = (if n_pattern n = [] then None else Some n)"
  by (cases xs) auto

text \<open>Two matching patterns that differ, differ at a part.\<close>

definition diverges :: "string list \<Rightarrow> string list \<Rightarrow> nat \<Rightarrow> bool" where
  "diverges ps qs i \<longleftrightarrow> i < length ps \<and> i < length qs \<and> take i ps = take i qs \<and> ps ! i \<noteq> qs ! i"

lemma diverges_Cons: "diverges ps qs i \<Longrightarrow> diverges (p # ps) (p # qs) (Suc i)"
  by (simp add: diverges_def)

text \<open>What is left of a pattern below the child \<open>c\<close>, and of the request.\<close>

definition below :: "trie_node \<Rightarrow> string list \<Rightarrow> string list \<Rightarrow> bool" where
  "below c ps xs \<longleftrightarrow> (if star_part (n_part c) then ps = [] else matches ps xs)"

lemma trie_child:
  assumes "trie_ok n" "c \<in> set (n_children n)"
  shows "trie_ok c" "reach (n_part c # ps) n = reach ps c"
    "matches (n_part c # ps) (x # xs) \<longleftrightarrow> c \<in> set (matchChildren x (n_children n)) \<and> below c ps xs"
  using assms matchChild_unique [of "n_children n" c]
  by (cases n; auto simp: below_def matchChildren_def wild_part_def star_part_def)+

lemma trie_child_of:
  assumes "matches ps (x # xs)" "reach ps n \<noteq> []"
  obtains c qs where "ps = n_part c # qs" "c \<in> set (n_children n)"
  using assms matchChild_Some [of "hd ps" "n_children n"] by (cases ps) (auto split: option.splits)

lemma search_complete:
  "trie_ok n \<Longrightarrow> \<not> star_part (n_part n) \<Longrightarrow> matches ps xs \<Longrightarrow> reach ps n \<noteq> [] \<Longrightarrow> search_node xs n \<noteq> None"
proof (induction xs arbitrary: n ps)
  case Nil
  then show ?case by (cases ps) auto
next
  case (Cons x xs)
  obtain c qs where c: "ps = n_part c # qs" "c \<in> set (n_children n)" by (rule trie_child_of [OF Cons.prems(3,4)])
  note ch = trie_child [OF Cons.prems(1) c(2)]
  have q: "c \<in> set (matchChildren x (n_children n))" "below c qs xs" "reach qs c \<noteq> []"
    using Cons.prems(3,4) ch(2,3) unfolding c(1) by simp_all
  have "search_node xs c \<noteq> None"
    using q(2,3) Cons.IH [OF ch(1)] by (cases "star_part (n_part c)") (auto simp: below_def search_star)
  moreover have "search_node (x # xs) n = first_some (\<lambda>c. search_node xs c) (matchChildren x (n_children n))"
    using Cons.prems(2) by simp
  ultimately show ?case using q(1) first_some_None [of "\<lambda>c. search_node xs c" "matchChildren x (n_children n)"] by metis
qed

lemma below_complete: "trie_ok c \<Longrightarrow> below c ps xs \<Longrightarrow> reach ps c \<noteq> [] \<Longrightarrow> search_node xs c \<noteq> None"
  using search_complete by (cases "star_part (n_part c)") (auto simp: below_def search_star)

text \<open>\<open>preferred\<close>: no stored pattern that matches is literal where it parts from \<open>ps\<close>.\<close>

definition preferred :: "(string list \<Rightarrow> bool) \<Rightarrow> string list \<Rightarrow> string list \<Rightarrow> bool" where
  "preferred S ps xs \<longleftrightarrow> (\<forall>qs. S qs \<longrightarrow> qs \<noteq> ps \<longrightarrow> (\<exists>i. diverges ps qs i \<and> i < length xs \<and> qs ! i \<noteq> xs ! i))"

text \<open>A literal child is searched before the others.\<close>

lemma literal_first:
  assumes "distinct (map n_part cs)" "d \<in> set cs" "matchChildren (n_part d) cs = us @ c # vs"
  shows "c = d \<or> d \<in> set us"
  using assms(3) unfolding matchChildren_def filter_part [OF assms(1,2)] by (cases us) auto

lemma preferred_child:
  assumes n: "trie_ok n" and c: "c \<in> set (n_children n)" "matchChildren x (n_children n) = us @ c # vs" "\<forall>u \<in> set us. search_node xs u = None"
    and pref: "preferred (\<lambda>qs. below c qs xs \<and> reach qs c \<noteq> []) ps xs"
  shows "preferred (\<lambda>qs. matches qs (x # xs) \<and> reach qs n \<noteq> []) (n_part c # ps) (x # xs)"
  unfolding preferred_def
proof (intro allI impI)
  fix qs assume qs: "matches qs (x # xs) \<and> reach qs n \<noteq> []" "qs \<noteq> n_part c # ps"
  obtain d qs' where q: "qs = n_part d # qs'" "d \<in> set (n_children n)" using qs(1) trie_child_of by blast
  note ch = trie_child [OF n q(2)]
  have d: "below d qs' xs" "reach qs' d \<noteq> []" using qs(1) ch(2,3) unfolding q(1) by simp_all
  show "\<exists>i. diverges (n_part c # ps) qs i \<and> i < length (x # xs) \<and> qs ! i \<noteq> (x # xs) ! i"
  proof (cases "d = c")
    case True
    then obtain i where "diverges ps qs' i" "i < length xs" "qs' ! i \<noteq> xs ! i"
      using pref d qs(2) q(1) unfolding preferred_def by auto
    then show ?thesis using True q(1) by (intro exI [of _ "Suc i"]) (auto simp: diverges_Cons)
  next
    case False
    have dist: "distinct (map n_part (n_children n))" using n by (cases n) simp
    have ne: "n_part d \<noteq> n_part c" using False dist c(1) q(2) by (metis matchChild_unique option.inject)
    have "n_part d \<noteq> x"
    proof
      assume "n_part d = x"
      then have "d \<in> set us" using literal_first [OF dist q(2)] c(2) False by metis
      with c(3) below_complete [OF ch(1) d] show False by simp
    qed
    with ne q(1) show ?thesis by (intro exI [of _ 0]) (simp add: diverges_def)
  qed
qed

text \<open>What a search finds: a stored pattern that matches and is preferred to the others.\<close>

lemma search_found:
  "trie_ok n \<Longrightarrow> \<not> star_part (n_part n) \<Longrightarrow> search_node xs n = Some m \<Longrightarrow>
   n_pattern m \<noteq> [] \<and> (\<exists>ps. matches ps xs \<and> reach ps n = n_pattern m \<and> preferred (\<lambda>qs. matches qs xs \<and> reach qs n \<noteq> []) ps xs)"
proof (induction xs arbitrary: n)
  case Nil
  have "matches ps [] \<longleftrightarrow> ps = []" for ps by (cases ps) auto
  with Nil show ?case by (auto simp: preferred_def split: if_splits)
next
  case (Cons x xs)
  have "first_some (\<lambda>c. search_node xs c) (matchChildren x (n_children n)) = Some m" using Cons.prems(2,3) by simp
  from first_some_Some [OF this] obtain us c vs where
    f: "matchChildren x (n_children n) = us @ c # vs" "search_node xs c = Some m" "\<forall>u \<in> set us. search_node xs u = None"
    by (elim exE conjE) (rule that)
  have mc: "c \<in> set (matchChildren x (n_children n))" unfolding f(1) by simp
  then have c: "c \<in> set (n_children n)" by (auto simp: matchChildren_def)
  note ch = trie_child [OF Cons.prems(1) c]
  have "n_pattern m \<noteq> [] \<and> (\<exists>ps. below c ps xs \<and> reach ps c = n_pattern m \<and> preferred (\<lambda>qs. below c qs xs \<and> reach qs c \<noteq> []) ps xs)"
  proof (cases "star_part (n_part c)")
    case True
    then show ?thesis using f(2) by (auto simp: search_star below_def preferred_def split: if_splits)
  next
    case False
    then have "below c = (\<lambda>ps. matches ps)" by (simp add: below_def fun_eq_iff)
    with Cons.IH [OF ch(1) False f(2)] show ?thesis by simp
  qed
  then obtain ps where m: "n_pattern m \<noteq> []" and ps: "below c ps xs" "reach ps c = n_pattern m"
    and pref: "preferred (\<lambda>qs. below c qs xs \<and> reach qs c \<noteq> []) ps xs"
    by (elim conjE exE) (rule that)
  have "matches (n_part c # ps) (x # xs)" "reach (n_part c # ps) n = n_pattern m"
    using mc ps ch(2,3) by simp_all
  with m preferred_child [OF Cons.prems(1) c f(1,3) pref] show ?case by blast
qed

section \<open>Patterns and their parts\<close>

lemma split_slash_words: "w \<in> set (split_slash s) \<Longrightarrow> CHR ''/'' \<notin> set w"
  by (induction s arbitrary: w) (auto split: list.splits if_splits)

lemma take_parts_ok: "(\<And>w. w \<in> set ws \<Longrightarrow> CHR ''/'' \<notin> set w) \<Longrightarrow> parts_ok (take_parts ws)"
  by (induction ws) auto

lemma parsePattern_ok: "parts_ok (parsePattern s)"
  unfolding parsePattern_def by (rule take_parts_ok) (rule split_slash_words)

lemma split_slash_word: "CHR ''/'' \<notin> set w \<Longrightarrow> split_slash w = [w]"
  by (induction w) auto

lemma split_slash_append: "CHR ''/'' \<notin> set w \<Longrightarrow> split_slash (w @ ''/'' @ s) = w # split_slash s"
  by (induction w) auto

lemma split_join: "ps \<noteq> [] \<Longrightarrow> \<forall>p \<in> set ps. CHR ''/'' \<notin> set p \<Longrightarrow> split_slash (join_slash ps) = ps"
proof (induction ps rule: join_slash.induct)
  case (3 w v ws)
  then show ?case using split_slash_append [of w "join_slash (v # ws)"] by simp
qed (auto simp: split_slash_word)

lemma parts_ok_set: "parts_ok ps \<Longrightarrow> p \<in> set ps \<Longrightarrow> p \<noteq> [] \<and> CHR ''/'' \<notin> set p"
  by (induction ps) auto

lemma take_parts_id: "parts_ok ps \<Longrightarrow> take_parts ps = ps"
  by (induction ps) auto

text \<open>The canonical pattern of a list of parts parses back to them.\<close>

lemma parse_join: "parts_ok ps \<Longrightarrow> parsePattern (''/'' @ join_slash ps) = ps"
proof (cases "ps = []")
  case False
  assume ok: "parts_ok ps"
  then have "split_slash (join_slash ps) = ps" using split_join [OF False] parts_ok_set by blast
  with ok show ?thesis by (simp add: parsePattern_def take_parts_id)
qed (simp add: parsePattern_def)

section \<open>Registered routes\<close>

text \<open>A route list, first registered first.\<close>

definition add_all :: "(string \<times> string \<times> 'h) list \<Rightarrow> 'h router" where
  "add_all rs = fold (\<lambda>(meth, pattern, h). addRoute meth pattern h) rs newRouter"

definition canonical :: "string \<Rightarrow> string" where
  "canonical pattern = ''/'' @ join_slash (parsePattern pattern)"

text \<open>The handler of the last registration of a method and a canonical pattern.\<close>

definition last_handler :: "(string \<times> string \<times> 'h) list \<Rightarrow> string \<Rightarrow> string \<Rightarrow> 'h option" where
  "last_handler rs meth pattern =
     map_option (\<lambda>(m, p, h). h) (List.find (\<lambda>(m, p, h). m = meth \<and> canonical p = pattern) (rev rs))"

lemma last_handler_snoc:
  "last_handler (rs @ [(m, p, h)]) meth pattern = (if m = meth \<and> canonical p = pattern then Some h else last_handler rs meth pattern)"
  by (simp add: last_handler_def)

lemma route_key_inj:
  assumes "CHR ''/'' \<notin> set m" "CHR ''/'' \<notin> set m'" "route_key m (''/'' @ s) = route_key m' (''/'' @ s')"
  shows "m = m' \<and> s = s'"
proof -
  have "split_slash (route_key m (''/'' @ s)) = (m @ ''-'') # split_slash s" if "CHR ''/'' \<notin> set m" for m s
    using split_slash_append [of "m @ ''-''" s] that by (simp add: route_key_def)
  then have "m @ ''-'' = m' @ ''-''" using assms by (metis list.inject)
  with assms(3) show ?thesis by (simp add: route_key_def)
qed

definition stored :: "(string \<times> string \<times> 'h) list \<Rightarrow> string \<Rightarrow> string list set" where
  "stored rs meth = {parsePattern p | p h. (meth, p, h) \<in> set rs}"

definition root_ok :: "(string \<times> string \<times> 'h) list \<Rightarrow> string \<Rightarrow> trie_node option \<Rightarrow> bool" where
  "root_ok rs meth ro \<longleftrightarrow>
     (case ro of
        None \<Rightarrow> stored rs meth = {}
      | Some root \<Rightarrow> trie_ok root \<and> n_part root = [] \<and>
          (\<forall>ps. reach ps root = (if ps \<in> stored rs meth then ''/'' @ join_slash ps else [])))"

definition router_ok :: "(string \<times> string \<times> 'h) list \<Rightarrow> 'h router \<Rightarrow> bool" where
  "router_ok rs r \<longleftrightarrow>
     (\<forall>meth. root_ok rs meth (r_roots r meth)) \<and>
     (\<forall>meth pattern. CHR ''/'' \<notin> set meth \<longrightarrow> r_handlers r (route_key meth (''/'' @ pattern)) = last_handler rs meth (''/'' @ pattern))"

lemma stored_snoc: "stored (rs @ [(m, p, h)]) meth = (if meth = m then insert (parsePattern p) (stored rs meth) else stored rs meth)"
  by (auto simp: stored_def)

lemma router_ok_new: "router_ok [] newRouter"
  by (simp add: router_ok_def root_ok_def stored_def newRouter_def last_handler_def)

lemma root_ok_insert:
  assumes "root_ok rs meth ro"
  shows "root_ok (rs @ [(meth, pattern, h)]) meth
    (Some (insert_node (canonical pattern) (parsePattern pattern) (case ro of None \<Rightarrow> Node [] [] False [] | Some n \<Rightarrow> n)))"
proof -
  let ?root = "case ro of None \<Rightarrow> Node [] [] False [] | Some n \<Rightarrow> n"
  have empty: "reach ps (Node [] [] False []) = []" for ps by (cases ps) (auto simp: matchChild_def)
  have old: "trie_ok ?root" "n_part ?root = []" "\<And>ps. reach ps ?root = (if ps \<in> stored rs meth then ''/'' @ join_slash ps else [])"
    using assms empty by (auto simp: root_ok_def star_part_def split: option.splits)
  have "trie_ok (insert_node (canonical pattern) (parsePattern pattern) ?root)"
    using old(1,2) parsePattern_ok by (intro trie_insert_ok) (auto simp: star_part_def)
  moreover have "reach ps (insert_node (canonical pattern) (parsePattern pattern) ?root) =
      (if ps \<in> stored (rs @ [(meth, pattern, h)]) meth then ''/'' @ join_slash ps else [])" for ps
    using old reach_insert [of ?root ps "canonical pattern" "parsePattern pattern"] by (auto simp: stored_snoc canonical_def)
  ultimately show ?thesis using old(2) by (simp add: root_ok_def)
qed

lemma router_ok_add:
  assumes ok: "router_ok rs r" and meths: "CHR ''/'' \<notin> set meth"
  shows "router_ok (rs @ [(meth, pattern, h)]) (addRoute meth pattern h r)"
  unfolding router_ok_def
proof (intro conjI allI impI)
  let ?rs = "rs @ [(meth, pattern, h)]"
  fix m
  have m: "root_ok rs m (r_roots r m)" using ok by (simp add: router_ok_def)
  show "root_ok ?rs m (r_roots (addRoute meth pattern h r) m)"
  proof (cases "m = meth")
    case True
    with root_ok_insert [OF m, of pattern h] show ?thesis by (simp add: addRoute_def Let_def canonical_def)
  next
    case False
    then have "stored ?rs m = stored rs m" by (simp add: stored_snoc)
    then have "root_ok ?rs m (r_roots r m) = root_ok rs m (r_roots r m)" by (cases "r_roots r m") (simp_all add: root_ok_def)
    with m have "root_ok ?rs m (r_roots r m)" by blast
    with False show ?thesis by (simp add: addRoute_def Let_def)
  qed
  fix s assume s: "CHR ''/'' \<notin> set m"
  with ok have "r_handlers r (route_key m (''/'' @ s)) = last_handler rs m (''/'' @ s)" by (simp add: router_ok_def)
  moreover have "route_key m (''/'' @ s) = route_key meth (canonical pattern) \<longleftrightarrow> meth = m \<and> canonical pattern = ''/'' @ s"
    using route_key_inj [OF meths s, of "join_slash (parsePattern pattern)" s] by (auto simp: canonical_def)
  moreover have "r_handlers (addRoute meth pattern h r) = (r_handlers r)(route_key meth (canonical pattern) \<mapsto> h)"
    by (simp add: addRoute_def Let_def canonical_def)
  ultimately show "r_handlers (addRoute meth pattern h r) (route_key m (''/'' @ s)) = last_handler ?rs m (''/'' @ s)"
    by (auto simp: last_handler_snoc)
qed

lemma add_all_ok: "\<forall>(m, p, h) \<in> set rs. CHR ''/'' \<notin> set m \<Longrightarrow> router_ok rs (add_all rs)"
proof (induction rs rule: rev_induct)
  case (snoc x rs)
  then show ?case by (cases x) (auto simp: add_all_def router_ok_add)
qed (simp add: add_all_def router_ok_new)

section \<open>Parameters\<close>

text \<open>A pattern with its parameters put in.\<close>

fun fill :: "string list \<Rightarrow> (string \<rightharpoonup> string) \<Rightarrow> string list" where
  "fill [] params = []"
| "fill (p # ps) params =
     (if wild_part p then (case params (drop 1 p) of None \<Rightarrow> [p] | Some v \<Rightarrow> [v]) else [p]) @ fill ps params"

fun names :: "string list \<Rightarrow> string list" where
  "names [] = []"
| "names (p # ps) = (if wild_part p then [drop 1 p] else []) @ names ps"

lemma join_slash_Cons: "join_slash (w # ws) = (if ws = [] then w else w @ ''/'' @ join_slash ws)"
  by (cases ws) auto

lemma fill_empty: "fill ps params = [] \<longleftrightarrow> ps = []"
  by (cases ps) (auto split: option.splits)

lemma fill_cong: "(\<And>k. k \<in> set (names ps) \<Longrightarrow> params k = params' k) \<Longrightarrow> fill ps params = fill ps params'"
  by (induction ps) auto

lemma matches_empty: "matches ps xs \<Longrightarrow> ps = [] \<longleftrightarrow> xs = []"
  by (cases ps; cases xs) auto

text \<open>The parameters of a matching request: filling them in gives the request back.\<close>

lemma bind_params_ok:
  assumes "matches ps (drop i xs)" "distinct (names ps)" "''*'' \<notin> set ps"
  shows "\<exists>params'. bind_params xs i ps params = Inr params' \<and> (\<forall>k. k \<notin> set (names ps) \<longrightarrow> params' k = params k) \<and>
           join_slash (fill ps params') = join_slash (drop i xs)"
  using assms
proof (induction ps arbitrary: i params)
  case Nil
  then show ?case by simp
next
  case (Cons p ps)
  then have i: "i < length xs" by (cases "i < length xs") auto
  have d: "drop i xs = xs ! i # drop (Suc i) xs" by (rule Cons_nth_drop_Suc [OF i, symmetric])
  show ?case
  proof (cases "star_part p")
    case True
    then have "ps = []" using Cons.prems(1) d by simp
    moreover have "length p > 1" using True Cons.prems(3) by (cases p; cases "tl p") (auto simp: star_part_def)
    ultimately show ?thesis using True i by (auto simp: star_part_def wild_part_def)
  next
    case False
    then have m: "matches ps (drop (Suc i) xs)" "p = xs ! i \<or> wild_part p" using Cons.prems(1) d by auto
    let ?params = "if take 1 p = '':'' then params(drop 1 p \<mapsto> xs ! i) else params"
    have dn: "distinct (names ps)" "''*'' \<notin> set ps" using Cons.prems(2,3) by (auto split: if_splits)
    obtain params' where params': "bind_params xs (Suc i) ps ?params = Inr params'" "\<forall>k. k \<notin> set (names ps) \<longrightarrow> params' k = ?params k"
        "join_slash (fill ps params') = join_slash (drop (Suc i) xs)"
      using Cons.IH [OF m(1) dn, of ?params] by blast
    have run: "bind_params xs i (p # ps) params = Inr params'"
      using False i params'(1) by (cases "take 1 p = '':''") (simp_all add: star_part_def)
    have colon: "wild_part p \<longleftrightarrow> take 1 p = '':''" using False by (auto simp: wild_part_def star_part_def)
    have head: "fill (p # ps) params' = xs ! i # fill ps params'"
    proof (cases "wild_part p")
      case True
      then have "drop 1 p \<notin> set (names ps)" using Cons.prems(2) by simp
      then have "params' (drop 1 p) = Some (xs ! i)" using params'(2) True colon by simp
      with True show ?thesis by simp
    qed (use m(2) in simp)
    have "join_slash (fill (p # ps) params') = join_slash (drop i xs)"
      unfolding head d join_slash_Cons using params'(3) matches_empty [OF m(1)] by (simp add: fill_empty)
    moreover have "\<forall>k. k \<notin> set (names (p # ps)) \<longrightarrow> params' k = params k"
      using params'(2) colon by auto
    ultimately show ?thesis using run by blast
  qed
qed

text \<open>Without distinct names the parameters are still bound without an error.\<close>

lemma bind_params_total: "matches ps (drop i xs) \<Longrightarrow> \<exists>params'. bind_params xs i ps params = Inr params'"
proof (induction ps arbitrary: i params)
  case (Cons p ps)
  then have i: "i < length xs" by (cases "i < length xs") auto
  have d: "drop i xs = xs ! i # drop (Suc i) xs" by (rule Cons_nth_drop_Suc [OF i, symmetric])
  show ?case
  proof (cases "star_part p")
    case True
    then have "ps = []" using Cons.prems(1) d by simp
    with True i show ?thesis by (auto simp: star_part_def)
  next
    case False
    then have "matches ps (drop (Suc i) xs)" using Cons.prems(1) d by auto
    from Cons.IH [OF this] show ?thesis using False i by (simp add: star_part_def)
  qed
qed simp

section \<open>The property\<close>

lemma last_handler_exists: "(meth, p, h) \<in> set rs \<Longrightarrow> last_handler rs meth (canonical p) \<noteq> None"
  by (auto simp: last_handler_def find_None_iff)

lemma add_all_root:
  assumes "\<forall>(m, p, h) \<in> set rs. CHR ''/'' \<notin> set m"
  shows "root_ok rs meth (r_roots (add_all rs) meth)"
  using add_all_ok [OF assms] by (simp add: router_ok_def)

lemma add_all_handlers:
  assumes "\<forall>(m, p, h) \<in> set rs. CHR ''/'' \<notin> set m" "CHR ''/'' \<notin> set meth"
  shows "r_handlers (add_all rs) (route_key meth (canonical p)) = last_handler rs meth (canonical p)"
  using add_all_ok [OF assms(1)] assms(2) by (simp add: router_ok_def canonical_def)

text \<open>The trie of a method finds what the list of its patterns says.\<close>

lemma root_search:
  assumes "root_ok rs meth (Some root)"
  shows "case search_node xs root of
      None \<Rightarrow> \<not> (\<exists>ps \<in> stored rs meth. matches ps xs)
    | Some n \<Rightarrow> \<exists>ps \<in> stored rs meth. matches ps xs \<and> n_pattern n = ''/'' @ join_slash ps \<and>
        preferred (\<lambda>qs. matches qs xs \<and> qs \<in> stored rs meth) ps xs"
proof -
  have t: "trie_ok root" "\<not> star_part (n_part root)" and r: "\<And>ps. reach ps root = (if ps \<in> stored rs meth then ''/'' @ join_slash ps else [])"
    using assms by (auto simp: root_ok_def star_part_def)
  have st: "reach ps root \<noteq> [] \<longleftrightarrow> ps \<in> stored rs meth" for ps by (simp add: r)
  show ?thesis
  proof (cases "search_node xs root")
    case None
    with search_complete [OF t, unfolded st, of _ xs] show ?thesis by auto
  next
    case (Some n)
    from search_found [OF t Some, unfolded st] obtain ps where
      ps: "n_pattern n \<noteq> []" "matches ps xs" "reach ps root = n_pattern n" "preferred (\<lambda>qs. matches qs xs \<and> qs \<in> stored rs meth) ps xs"
      by (elim conjE exE) (rule that)
    then have "ps \<in> stored rs meth" using st by metis
    with ps Some r show ?thesis by (auto intro!: bexI [of _ ps])
  qed
qed

lemma stored_iff: "qs \<in> stored rs meth \<longleftrightarrow> (\<exists>q g. qs = parsePattern q \<and> (meth, q, g) \<in> set rs)"
  by (auto simp: stored_def)

lemma bind_pattern:
  assumes "matches ps xs"
  obtains params where "bind_params xs 0 ps Map.empty = Inr params"
    and "distinct (names ps) \<longrightarrow> ''*'' \<notin> set ps \<longrightarrow> join_slash (fill ps params) = join_slash xs"
proof -
  obtain params where params: "bind_params xs 0 ps Map.empty = Inr params"
    using bind_params_total [of ps 0 xs] assms by auto
  moreover have "join_slash (fill ps params) = join_slash xs" if "distinct (names ps)" "''*'' \<notin> set ps"
    using bind_params_ok [of ps 0 xs Map.empty] that assms params by auto
  ultimately show thesis using that by blast
qed

text \<open>C7: The router finds the right route.  Let the routes \<open>rs\<close> be registered on a new router in any
  order (methods without a slash, as HTTP's are).  For every method and path \<^verbatim>\<open>getRoute\<close> returns, without
  a panic: nothing exactly when no registered pattern of the method matches the parts of the path; otherwise a
  registered pattern that matches, and \<^verbatim>\<open>handlers\<close> holds for it the handler registered last.  Any other
  registered pattern that matches, differs from it first at a part where that other pattern is not literal: a
  literal part wins over a parameter or wildcard.  When the pattern's parameters have different names and
  its wildcard one, filling the bound parameters into the pattern gives the request's parts back.\<close>

theorem http_route:
  assumes rs: "\<forall>(m, p, h) \<in> set rs. CHR ''/'' \<notin> set m" and meth: "CHR ''/'' \<notin> set meth"
  shows "case getRoute meth path (add_all rs) of
      Inl e \<Rightarrow> False
    | Inr None \<Rightarrow> \<not> (\<exists>p h. (meth, p, h) \<in> set rs \<and> matches (parsePattern p) (parsePattern path))
    | Inr (Some (n, params)) \<Rightarrow>
        \<exists>p h. (meth, p, h) \<in> set rs \<and> n_pattern n = canonical p \<and> matches (parsePattern p) (parsePattern path) \<and>
          r_handlers (add_all rs) (route_key meth (n_pattern n)) = last_handler rs meth (canonical p) \<and>
          last_handler rs meth (canonical p) \<noteq> None \<and>
          (\<forall>q g. (meth, q, g) \<in> set rs \<longrightarrow> matches (parsePattern q) (parsePattern path) \<longrightarrow> parsePattern q \<noteq> parsePattern p \<longrightarrow>
             (\<exists>i. diverges (parsePattern p) (parsePattern q) i \<and> i < length (parsePattern path) \<and>
                  parsePattern q ! i \<noteq> parsePattern path ! i)) \<and>
          (distinct (names (parsePattern p)) \<longrightarrow> ''*'' \<notin> set (parsePattern p) \<longrightarrow>
             join_slash (fill (parsePattern p) params) = join_slash (parsePattern path))"
proof -
  let ?xs = "parsePattern path"
  show ?thesis
  proof (cases "r_roots (add_all rs) meth")
    case None
    then have "stored rs meth = {}" using add_all_root [OF rs, of meth] by (simp add: root_ok_def)
    then have "(meth, p, h) \<notin> set rs" for p h using stored_iff by blast
    with None show ?thesis by (simp add: getRoute_def)
  next
    case root: (Some root)
    note found = root_search [OF add_all_root [OF rs, of meth, unfolded root], of ?xs]
    show ?thesis
    proof (cases "search_node ?xs root")
      case None
      with found have "\<not> (\<exists>ps \<in> stored rs meth. matches ps ?xs)" by simp
      then have "\<not> (\<exists>p h. (meth, p, h) \<in> set rs \<and> matches (parsePattern p) ?xs)" using stored_iff by blast
      with None root show ?thesis by (simp add: getRoute_def)
    next
      case (Some n)
      with found obtain ps where ps: "ps \<in> stored rs meth" "matches ps ?xs" "n_pattern n = ''/'' @ join_slash ps"
        and best: "preferred (\<lambda>qs. matches qs ?xs \<and> qs \<in> stored rs meth) ps ?xs"
        by auto
      obtain p h where p: "ps = parsePattern p" "(meth, p, h) \<in> set rs" using ps(1) by (auto simp: stored_iff)
      have pat: "n_pattern n = canonical p" "parsePattern (n_pattern n) = parsePattern p"
        using ps(3) p(1) parse_join [OF parsePattern_ok, of p] by (simp_all add: canonical_def)
      obtain params where params: "bind_params ?xs 0 (parsePattern p) Map.empty = Inr params"
        and fills: "distinct (names (parsePattern p)) \<longrightarrow> ''*'' \<notin> set (parsePattern p) \<longrightarrow>
          join_slash (fill (parsePattern p) params) = join_slash ?xs"
        by (rule bind_pattern [OF ps(2) [unfolded p(1)]])
      have "getRoute meth path (add_all rs) = Inr (Some (n, params))"
        using root Some params pat(2) by (simp add: getRoute_def)
      moreover have "\<exists>i. diverges (parsePattern p) (parsePattern q) i \<and> i < length ?xs \<and> parsePattern q ! i \<noteq> ?xs ! i"
        if "(meth, q, g) \<in> set rs" "matches (parsePattern q) ?xs" "parsePattern q \<noteq> parsePattern p" for q g
        using best that p(1) stored_iff [of _ rs meth] unfolding preferred_def by blast
      ultimately show ?thesis
        using p pat(1) ps(2) fills add_all_handlers [OF rs meth, of p] last_handler_exists [OF p(2)]
        by (simp del: not_None_eq) blast
    qed
  qed
qed

definition demo_routes :: "(string \<times> string \<times> nat) list" where
  "demo_routes = [(''GET'', ''/files/*path'', 1), (''GET'', ''/users/:id/posts'', 2), (''GET'', ''/users/me/posts'', 3), (''POST'', ''//users/'', 4)]"

theorem http_route_witness:
  "\<exists>n params. getRoute ''GET'' ''/users/me//posts'' (add_all demo_routes) = Inr (Some (n, params)) \<and>
     n_pattern n = ''/users/me/posts'' \<and>
     r_handlers (add_all demo_routes) (route_key ''GET'' (n_pattern n)) = Some 3"
proof -
  have m: "\<forall>(m, p, h) \<in> set demo_routes. CHR ''/'' \<notin> set m" "CHR ''/'' \<notin> set ''GET''" by (simp_all add: demo_routes_def)
  have lh: "last_handler demo_routes ''GET'' ''/users/me/posts'' = Some 3" by code_simp
  have ev: "\<exists>n params. getRoute ''GET'' ''/users/me//posts'' (add_all demo_routes) = Inr (Some (n, params)) \<and> n_pattern n = ''/users/me/posts''"
  proof -
    let ?f = "\<lambda>r. case r of Inr (Some (n, p)) \<Rightarrow> n_pattern n | _ \<Rightarrow> []"
    have "?f (getRoute ''GET'' ''/users/me//posts'' (add_all demo_routes)) = ''/users/me/posts''" by code_simp
    then show ?thesis by (auto split: sum.splits option.splits prod.splits)
  qed
  then obtain n params where n: "getRoute ''GET'' ''/users/me//posts'' (add_all demo_routes) = Inr (Some (n, params))" "n_pattern n = ''/users/me/posts''"
    by blast
  from http_route [OF m, of "''/users/me//posts''", unfolded n(1)] obtain p where
    "n_pattern n = canonical p" "r_handlers (add_all demo_routes) (route_key ''GET'' (n_pattern n)) = last_handler demo_routes ''GET'' (canonical p)"
    unfolding sum.case option.case prod.case by (elim exE conjE) (rule that)
  with n lh show ?thesis by metis
qed

section \<open>Two ways around the router\<close>

text \<open>Routing drops empty segments, the choice of middlewares does not: with a second slash in front, a request
  reaches the handler of a group without the group's middlewares.\<close>

definition admin_app :: "nat app" where
  "admin_app = group_addRoute 1 ''GET'' ''/secret'' 42 (group_Use 1 [7] (group_Router 0 ''/admin'' newApp))"

lemma group_middleware_bypassed:
  "serve_handler ''GET'' ''/admin/secret'' admin_app = Some 42" "serve_middlewares ''/admin/secret'' admin_app = [7]"
  "serve_handler ''GET'' ''//admin/secret'' admin_app = Some 42" "serve_middlewares ''//admin/secret'' admin_app = []"
  by code_simp+

text \<open>The path of a request is parsed as a pattern: what follows a segment that starts with a star is dropped.\<close>

lemma request_star_truncates:
  "serve_handler ''GET'' ''/users/*/anything'' \<lparr> a_router = add_all [(''GET'', ''/users/:id'', 5 :: nat)], a_routers = [] \<rparr> = Some 5"
  by code_simp

end
