(* ===== verification/Spec2Isabelle.thy ===== *)
theory Spec2Isabelle
  imports Raft_Run LSM_Levels CH_Run Cache_Run RPC_Client RPC_Server HTTP_Router
begin

text \<open>
  Verification of the infrastructure of the yukino.go repository: the Raft node (\<^verbatim>\<open>components/raft\<close>),
  the LSM tree (\<^verbatim>\<open>components/lsm_tree\<close>), the consistent hash (\<^verbatim>\<open>components/consistent_hash\<close>), the
  local part of the distributed cache (\<^verbatim>\<open>libs/yukino_cache\<close>), the RPC framework (\<^verbatim>\<open>libs/yukino_rpc\<close>)
  and the router of the HTTP framework (\<^verbatim>\<open>libs/yukino_http\<close>). The modules are independent of each
  other; what they share is Go and, for the memtable and the hash ring, the same skiplist
  algorithms. All paths below are under \<^verbatim>\<open>src/\<close>.

  \<^item> \<^bold>\<open>Reading the model.\<close> A Go function that is modelled is one definition with the name of the source where
    Isabelle allows it, and a prefix for the receiver where names clash (\<^verbatim>\<open>rl_append\<close> is
    \<^verbatim>\<open>raftLog.append\<close>, \<^verbatim>\<open>tree_Get\<close> is \<^verbatim>\<open>Tree.Get\<close>, \<^verbatim>\<open>cb_Allow\<close> is \<^verbatim>\<open>CircuitBreaker.Allow\<close>). A struct is a
    record with the source's fields, an interface a record of functions, the contract of an
    interface a locale that is interpreted on the implementation of the repository. \<^verbatim>\<open>Go_Prelude\<close> has
    the two ways to fail, a returned error \<^verbatim>\<open>Err\<close> and a panic \<^verbatim>\<open>Panic\<close>: indexing out of range, a nil
    dereference and an explicit \<^verbatim>\<open>panic\<close> are values of the model, so that a theorem that gives a
    successful result also excludes them. \<^verbatim>\<open>Go_State\<close> is the sequencing of operations that change a
    state and may return early; the state an error leaves behind is part of the result. \<^verbatim>\<open>Go_Binary\<close>
    has the varints and full reads of Go's standard library. Unsigned 64-bit values are natural
    numbers with the wrap-around written out (\<^verbatim>\<open>add64\<close>, \<^verbatim>\<open>sub64\<close>), bytes and 16-bit and 32-bit values
    are machine words or are reduced explicitly.

  \<^item> \<^bold>\<open>Raft.\<close> \<^verbatim>\<open>Raft_Storage\<close> (\<^verbatim>\<open>storage.go\<close>, \<^verbatim>\<open>model.go\<close>; the contract \<^verbatim>\<open>raft_storage\<close> of \<^verbatim>\<open>Storage\<close> and
    its interpretation on \<^verbatim>\<open>MemoryStorage\<close>), \<^verbatim>\<open>Raft_Log\<close> (\<^verbatim>\<open>log.go\<close>), \<^verbatim>\<open>Raft_Node\<close> (\<^verbatim>\<open>raft.go\<close>,
    \<^verbatim>\<open>leader.go\<close>, \<^verbatim>\<open>follower.go\<close>, \<^verbatim>\<open>candidate.go\<close>, \<^verbatim>\<open>progress.go\<close>, \<^verbatim>\<open>read.go\<close>, \<^verbatim>\<open>ready.go\<close> and the loop of
    \<^verbatim>\<open>node.go\<close>). \<^verbatim>\<open>Raft_Log\<close> shows that the stable and the unstable part together are one list of
    entries on which append, slice, conflict resolution and persistence are the obvious list
    operations. \<^verbatim>\<open>Raft_Election\<close> shows what each handler does to term, vote and role; \<^verbatim>\<open>Raft_Cluster\<close>
    builds from the node loop a cluster whose network loses, repeats, delays and reorders messages,
    as a step relation with reachability, and proves one leader per term, one vote per term, and a
    majority behind every leader, through the locale \<^verbatim>\<open>quorum_system\<close>. \<^verbatim>\<open>Raft_Replication\<close> shows that
    no handler moves the commit index back or changes a committed entry, the leader's commit rule,
    and the progress of probing. \<^verbatim>\<open>Raft_Run\<close> evaluates a run that elects a leader and runs that show
    four defects of the code.

  \<^item> \<^bold>\<open>LSM tree.\<close> \<^verbatim>\<open>LSM_Codec\<close> (\<^verbatim>\<open>block.go\<close>, the record readers of \<^verbatim>\<open>sst_reader.go\<close>, \<^verbatim>\<open>wal/\<close>),
    \<^verbatim>\<open>LSM_Filter\<close> (\<^verbatim>\<open>filter/\<close>; contract \<^verbatim>\<open>key_filter\<close>), \<^verbatim>\<open>LSM_SST\<close> (\<^verbatim>\<open>sst_writer.go\<close>, \<^verbatim>\<open>sst_reader.go\<close>,
    \<^verbatim>\<open>node.go\<close>), \<^verbatim>\<open>LSM_Memtable\<close> (\<^verbatim>\<open>memtable/\<close>; contract \<^verbatim>\<open>mem_table\<close>) over \<^verbatim>\<open>Skip_Heap\<close>, \<^verbatim>\<open>LSM_Tree\<close>
    (\<^verbatim>\<open>tree.go\<close>, \<^verbatim>\<open>tree_compact.go\<close>, \<^verbatim>\<open>tree_restore.go\<close>). \<^verbatim>\<open>LSM_Codec\<close> and \<^verbatim>\<open>LSM_Lookup\<close> have the round
    trips of log and table files and that a lookup in a table finds exactly what was written.
    \<^verbatim>\<open>LSM_Store\<close> proves, over the two contracts only, that a run of puts of admissible pairs, flushes
    in the order the memtables filled and restarts, with no level compacted, implements a map: reads
    return the last value, a restart between two operations loses nothing, no operation gets stuck.
    Admissible is a key that is not empty and does not end in a zero byte. A stop inside the write of
    a log record is not covered: recovery then fails and leaves the memtable as it was
    (\<^verbatim>\<open>torn_log_not_opened\<close> in \<^verbatim>\<open>LSM_Tree\<close>). \<^verbatim>\<open>LSM_Levels\<close> has the search of a level, the merge of a compaction and, as
    counterexamples, why the store theorem does not extend to out-of-order flushes and to level
    compaction.

  \<^item> \<^bold>\<open>Consistent hash.\<close> \<^verbatim>\<open>CH_Ring\<close> (\<^verbatim>\<open>hash_ring.go\<close>, \<^verbatim>\<open>local/hash_ring.go\<close>; contract \<^verbatim>\<open>hash_ring\<close>,
    skiplist ring over \<^verbatim>\<open>Skip_Heap\<close>), \<^verbatim>\<open>CH_Hash\<close> (\<^verbatim>\<open>consistent_hash.go\<close>, \<^verbatim>\<open>migration.go\<close>,
    \<^verbatim>\<open>encryptor.go\<close>, \<^verbatim>\<open>option.go\<close>). \<^verbatim>\<open>CH_Circle\<close> is the geometry of arcs on the circle of scores;
    \<^verbatim>\<open>CH_Place\<close> and \<^verbatim>\<open>CH_Leave\<close> prove over the contract what additions and removals do to the
    placement of keys, \<^verbatim>\<open>CH_Plain\<close> what they do without a migrator and to a node without keys.
    \<^verbatim>\<open>CH_Run\<close> states it for the skiplist ring and every ring that a run reaches: with a migrator, keys
    are recorded at the node a lookup returns and changes of the membership move only the keys they
    must; with or without one, lookups succeed while there is a node. Without a migrator a run may
    make any calls. With one, it does not add a node with an empty name and does not remove the only
    node while keys are recorded for it; \<^verbatim>\<open>remove_before_empty_name\<close> and \<^verbatim>\<open>remove_last_node_stuck\<close> show
    what the code does then.

  \<^item> \<^bold>\<open>Cache.\<close> \<^verbatim>\<open>Cache_Link\<close> and \<^verbatim>\<open>Cache_LRU\<close> (the array-linked cache of \<^verbatim>\<open>lru.go\<close>), \<^verbatim>\<open>Cache_Store\<close> and
    \<^verbatim>\<open>Cache_Shard\<close> (the two-level sharded store of \<^verbatim>\<open>lru.go\<close>), \<^verbatim>\<open>Cache_Front\<close> (\<^verbatim>\<open>cache.go\<close>, \<^verbatim>\<open>store.go\<close>;
    contract \<^verbatim>\<open>cache_store\<close>), \<^verbatim>\<open>Cache_Group\<close> (\<^verbatim>\<open>group.go\<close>, \<^verbatim>\<open>single_flight.go\<close>). \<^verbatim>\<open>Cache_Run\<close> has the
    properties: the arrays refine a least-recently-used list, a hit is the last value written and
    unexpired, the byte budget, and reading through to the source: what a read of a group, closed or
    not, returns after any history.

  \<^item> \<^bold>\<open>RPC.\<close> \<^verbatim>\<open>RPC_Balance\<close> (\<^verbatim>\<open>internal/load_balance\<close>, \<^verbatim>\<open>internal/limiter\<close>), \<^verbatim>\<open>RPC_Breaker\<close>
    (\<^verbatim>\<open>internal/breaker\<close>), \<^verbatim>\<open>RPC_Client\<close> (\<^verbatim>\<open>internal/client\<close>; contract \<^verbatim>\<open>load_balancer\<close>), \<^verbatim>\<open>RPC_Wire\<close>
    (\<^verbatim>\<open>internal/protocol\<close>, \<^verbatim>\<open>internal/codec\<close>, \<^verbatim>\<open>transport/tcp_connection.go\<close>), \<^verbatim>\<open>RPC_Transport\<close>
    (\<^verbatim>\<open>transport/tcp_client.go\<close>, \<^verbatim>\<open>transport/future.go\<close>), \<^verbatim>\<open>RPC_Server\<close> (\<^verbatim>\<open>internal/server\<close>,
    \<^verbatim>\<open>transport/tcp_connection_pool.go\<close>). A call is chosen an instance by a balancer (fairness),
    admitted by a breaker (admission, window, and that a half-open breaker has an outstanding
    probe), encoded and cut into packets (the stream is read back), waits for its future under
    concurrency (no future is lost) and is answered by the server (the call returns what the method
    returned, or the text of its error, panic or codec error; an empty text arrives as a success).

  \<^item> \<^bold>\<open>HTTP.\<close> \<^verbatim>\<open>HTTP_Router\<close> (\<^verbatim>\<open>trie.go\<close>, \<^verbatim>\<open>router.go\<close>, \<^verbatim>\<open>group.go\<close>, \<^verbatim>\<open>Application.ServeHTTP\<close> of
    \<^verbatim>\<open>yukino.go\<close>): the route that a request gets is a registered one that matches, literals first,
    with parameters that give the request back.

  \<^item> \<^bold>\<open>Bounds and fuel.\<close> Loops that follow pointers have fuel: \<^verbatim>\<open>advance\<close> and \<^verbatim>\<open>all_loop\<close>
    on skiplists get the number of allocated nodes, \<^verbatim>\<open>evict_from\<close> and \<^verbatim>\<open>walk_from\<close> the
    length of the link array, \<^verbatim>\<open>fit_bytes\<close> one more than the number of entries of the bucket. Running
    out is a panic of the model; the theorems that give a result show it does not happen, because a
    well-formed chain visits a node at most once. All other loops are total functions with a
    termination proof. Hypotheses of the theorems that their texts do not spell out are bounds of the
    machine or of the configuration: tables and messages are smaller than the integers that hold their sizes, an encryptor returns scores from 0 to below the
    largest 32-bit integer, a store has at most 32768 buckets and no level of 65535 entries, clocks
    and times to live do not reach the end of the 64-bit range. Where the code does not check such a
    bound, a lemma shows what goes wrong.

  \<^item> \<^bold>\<open>Parameters.\<close> Coin flips, election timeouts, clocks and the order of a Go map are arguments, and
    the theorems hold for all of them. JSON and gzip are the record \<^verbatim>\<open>wire\<close> with their round trips as
    hypothesis \<^verbatim>\<open>wire_ok\<close>, which the witnesses instantiate. The getter and the peers of a cache
    group, the registry, the methods of a service and the HTTP handlers are arguments.

  \<^item> \<^bold>\<open>Concurrency.\<close> \<^verbatim>\<open>RPC_Transport\<close> has the interleavings of sends, read loop and shutdown,
    \<^verbatim>\<open>Raft_Cluster\<close> those of nodes and messages, \<^verbatim>\<open>LSM_Tree\<close> those of the tree and its compactor.
    In \<^verbatim>\<open>RPC_Client\<close> a call of the client, which holds no lock from the breaker to the send, may be
    interrupted there by any other event; its turn with limiter, balancer and breaker is one step.
    Elsewhere an operation that holds one mutex from start to end is one step.

  \<^item> \<^bold>\<open>Not modelled.\<close> Raft: the start and stop of goroutines, the demo server \<^verbatim>\<open>cmd/raftkv\<close>; restarts
    and membership changes in the cluster theorem (a restarted node forgets its vote, as \<^verbatim>\<open>Raft_Run\<close>
    shows). LSM tree: locks, \<^verbatim>\<open>Close\<close>, the names of files, failing writes. Consistent hash: the Redis
    ring, the expiry of the ring's lock. Cache: the peers' network, etcd and dashboard (\<^verbatim>\<open>peers.go\<close>,
    \<^verbatim>\<open>client.go\<close>, \<^verbatim>\<open>server.go\<close>, \<^verbatim>\<open>register.go\<close>, \<^verbatim>\<open>dashboard.go\<close>), the ring that picks a peer
    (\<^verbatim>\<open>consistent_hash.go\<close> of the cache), concurrent callers of one load. RPC: the etcd registry,
    client streams on a connection, timers, graceful stop, the options of \<^verbatim>\<open>pkg/rpc\<close>. HTTP:
    responses, static files, templates, server-sent events, WebSocket. These are calls to packages
    and servers outside the repository, or input and output. The modules \<^verbatim>\<open>libs/yukino_orm\<close>,
    \<^verbatim>\<open>components/consistent_cache\<close>, \<^verbatim>\<open>components/red_mq\<close>, \<^verbatim>\<open>components/redis_lock\<close> and
    \<^verbatim>\<open>components/timer\<close> are thin layers over MongoDB, MySQL and Redis, where the behaviour that
    matters is that of the server. \<^verbatim>\<open>components/tcc\<close> and \<^verbatim>\<open>components/time_wheel\<close> have logic of their
    own and are outside the scope of this development. The applications under \<^verbatim>\<open>apps\<close> connect
    databases, language-model APIs and user interfaces.
\<close>

end
